(* ===== verification/FSS_Prelude.thy ===== *)
theory FSS_Prelude
  imports Main "HOL-Library.Word"
begin

unbundle bit_operations_syntax

text \<open>
  Shared ground of the development: the names of Rust's machine types, the three
  combinators that stand for Rust's error plumbing (the question-mark operator,
  \<open>Option::ok_or\<close> and \<open>Result::map_err\<close>), checked and saturating arithmetic on
  \<open>u64\<close>/\<open>usize\<close>, slices, and the generic list and word lemmas the components share.

  Conventions. \<open>u8\<close>, \<open>u16\<close>, \<open>u32\<close> and \<open>u128\<close> values whose bits or wrap-around
  matter are words; \<open>u64\<close> and \<open>usize\<close> counters are natural numbers whose overflow
  is written out at each operation with \<open>u64_max\<close>/\<open>usize_max\<close>; signed values are
  integers. A fallible function returns \<open>'e + 'a\<close> with \<open>Inl\<close> the error. A method
  taking \<open>&mut self\<close> returns its result paired with the state it leaves behind, on
  the error branches too, so that atomicity of a refusal is a theorem and not a
  consequence of a type.
\<close>

section \<open>Machine types\<close>

type_synonym u8 = "8 word"
type_synonym u16 = "16 word"
type_synonym u32 = "32 word"
type_synonym u128 = "128 word"
type_synonym u64 = nat
type_synonym usize = nat
type_synonym i64 = int
type_synonym i128 = int
type_synonym bytes = "u8 list"

definition u64_max :: u64 where
  "u64_max = 18446744073709551615"

definition usize_max :: usize where
  "usize_max = 18446744073709551615"

definition checked_add :: "u64 \<Rightarrow> u64 \<Rightarrow> u64 option" where
  "checked_add a b = (if a + b \<le> u64_max then Some (a + b) else None)"

definition checked_sub :: "u64 \<Rightarrow> u64 \<Rightarrow> u64 option" where
  "checked_sub a b = (if b \<le> a then Some (a - b) else None)"

section \<open>Rust's error plumbing\<close>

named_theorems rust_simps

definition try_then :: "'e + 'a \<Rightarrow> ('a \<Rightarrow> 'e + 'b) \<Rightarrow> 'e + 'b" where
  "try_then m f = (case m of Inl e \<Rightarrow> Inl e | Inr x \<Rightarrow> f x)"

definition ok_or :: "'a option \<Rightarrow> 'e \<Rightarrow> 'e + 'a" where
  "ok_or m e = (case m of None \<Rightarrow> Inl e | Some x \<Rightarrow> Inr x)"

definition map_err :: "('e \<Rightarrow> 'f) \<Rightarrow> 'e + 'a \<Rightarrow> 'f + 'a" where
  "map_err f m = (case m of Inl e \<Rightarrow> Inl (f e) | Inr x \<Rightarrow> Inr x)"

definition refuse_if :: "bool \<Rightarrow> 'e \<Rightarrow> 'e + unit" where
  "refuse_if b e = (if b then Inl e else Inr ())"

lemma try_then_simps [simp]:
  "try_then (Inr x) f = f x"
  "try_then (Inl e) f = Inl e"
  by (simp_all add: try_then_def)

text \<open>Recursive calls under \<open>?\<close> know that the value before it was a success.\<close>

lemma try_then_cong [fundef_cong]:
  "m = m' \<Longrightarrow> (\<And>x. m' = Inr x \<Longrightarrow> f x = f' x) \<Longrightarrow> try_then m f = try_then m' f'"
  by (cases m') auto

lemma try_then_Inr_iff [rust_simps]:
  "try_then m f = Inr y \<longleftrightarrow> (\<exists>x. m = Inr x \<and> f x = Inr y)"
  by (cases m) auto

lemma try_then_Inl_iff [rust_simps]:
  "try_then m f = Inl e \<longleftrightarrow> m = Inl e \<or> (\<exists>x. m = Inr x \<and> f x = Inl e)"
  by (cases m) auto

lemma ok_or_simps [simp]:
  "ok_or (Some x) e = Inr x"
  "ok_or None e = Inl e"
  by (simp_all add: ok_or_def)

lemma ok_or_Inr_iff [rust_simps]: "ok_or m e = Inr x \<longleftrightarrow> m = Some x"
  by (cases m) auto

lemma ok_or_Inl_iff [rust_simps]: "ok_or m e = Inl e' \<longleftrightarrow> m = None \<and> e' = e"
  by (cases m) auto

lemma map_err_simps [simp]:
  "map_err f (Inr x) = Inr x"
  "map_err f (Inl e) = Inl (f e)"
  by (simp_all add: map_err_def)

lemma map_err_Inr_iff [rust_simps]: "map_err f m = Inr x \<longleftrightarrow> m = Inr x"
  by (cases m) auto

lemma map_err_Inl_iff [rust_simps]: "map_err f m = Inl e \<longleftrightarrow> (\<exists>d. m = Inl d \<and> e = f d)"
  by (cases m) auto

lemma refuse_if_simps [simp]:
  "refuse_if True e = Inl e"
  "refuse_if False e = Inr ()"
  by (simp_all add: refuse_if_def)

lemma refuse_if_Inr_iff [rust_simps]: "refuse_if b e = Inr u \<longleftrightarrow> \<not> b"
  by (cases b) auto

lemma refuse_if_Inl_iff [rust_simps]: "refuse_if b e = Inl e' \<longleftrightarrow> b \<and> e' = e"
  by (cases b) auto

text \<open>An early return, read backwards from success.\<close>

lemma if_Inl_Inr: "(if b then Inl e else m) = Inr x \<longleftrightarrow> \<not> b \<and> m = Inr x"
  by simp

lemma if_Inr_Inl: "(if b then m else Inl e) = Inr x \<longleftrightarrow> b \<and> m = Inr x"
  by simp

lemma checked_add_Some [rust_simps]:
  "checked_add a b = Some c \<longleftrightarrow> c = a + b \<and> a + b \<le> u64_max"
  by (auto simp: checked_add_def)

lemma checked_add_None [rust_simps]: "checked_add a b = None \<longleftrightarrow> u64_max < a + b"
  by (auto simp: checked_add_def)

lemma checked_sub_Some [rust_simps]:
  "checked_sub a b = Some c \<longleftrightarrow> b \<le> a \<and> c = a - b"
  by (auto simp: checked_sub_def)

lemma checked_sub_None [rust_simps]: "checked_sub a b = None \<longleftrightarrow> a < b"
  by (auto simp: checked_sub_def)

section \<open>Slices\<close>

text \<open>
  \<open>subslice bs a b\<close> is Rust's \<open>&bs[a..b]\<close>; \<open>get_slice\<close> is \<open>bs.get(a..b)\<close>, which is
  \<open>None\<close> when the range is reversed or runs past the end.
\<close>

definition subslice :: "'a list \<Rightarrow> usize \<Rightarrow> usize \<Rightarrow> 'a list" where
  "subslice bs a b = take (b - a) (drop a bs)"

definition get_slice :: "'a list \<Rightarrow> usize \<Rightarrow> usize \<Rightarrow> 'a list option" where
  "get_slice bs a b = (if a \<le> b \<and> b \<le> length bs then Some (subslice bs a b) else None)"

definition get_at :: "'a list \<Rightarrow> usize \<Rightarrow> 'a option" where
  "get_at bs i = (if i < length bs then Some (bs ! i) else None)"

lemma length_subslice [simp]:
  "b \<le> length bs \<Longrightarrow> length (subslice bs a b) = b - a"
  by (simp add: subslice_def)

lemma subslice_all [simp]: "subslice bs 0 (length bs) = bs"
  by (simp add: subslice_def)

lemma subslice_empty [simp]: "subslice bs a a = []"
  by (simp add: subslice_def)

lemma nth_subslice: "a \<le> length bs \<Longrightarrow> a + i < b \<Longrightarrow> subslice bs a b ! i = bs ! (a + i)"
  by (simp add: subslice_def)

lemma nth_subslice_0 [simp]: "i < b \<Longrightarrow> subslice bs 0 b ! i = bs ! i"
  by (simp add: subslice_def)

lemma subslice_append_subslice:
  assumes "a \<le> b" and "b \<le> c"
  shows "subslice bs a b @ subslice bs b c = subslice bs a c"
proof -
  have "c - a = (b - a) + (c - b)" using assms by simp
  then have "subslice bs a c = take (b - a) (drop a bs) @ take (c - b) (drop (b - a) (drop a bs))"
    by (simp only: subslice_def take_add)
  then show ?thesis using assms by (simp add: subslice_def)
qed

lemma get_slice_Some [rust_simps]:
  "get_slice bs a b = Some s \<longleftrightarrow> a \<le> b \<and> b \<le> length bs \<and> s = subslice bs a b"
  by (auto simp: get_slice_def)

lemma get_slice_None [rust_simps]:
  "get_slice bs a b = None \<longleftrightarrow> b < a \<or> length bs < b"
  by (auto simp: get_slice_def)

lemma get_at_Some [rust_simps]: "get_at bs i = Some x \<longleftrightarrow> i < length bs \<and> x = bs ! i"
  by (auto simp: get_at_def)

lemma get_at_None [rust_simps]: "get_at bs i = None \<longleftrightarrow> length bs \<le> i"
  by (auto simp: get_at_def)

lemma subslice_append_left:
  "b \<le> length xs \<Longrightarrow> subslice (xs @ ys) a b = subslice xs a b"
  by (simp add: subslice_def)

lemma subslice_append_right:
  "length xs \<le> a \<Longrightarrow> subslice (xs @ ys) a b = subslice ys (a - length xs) (b - length xs)"
  by (simp add: subslice_def)

lemma subslice_mid: "length xs = a \<Longrightarrow> a + length ys = b \<Longrightarrow> subslice (xs @ ys @ zs) a b = ys"
  by (auto simp: subslice_def)

end
