(* ===== verification/Packet_Wire.thy ===== *)
theory Packet_Wire
  imports FSS_Prelude
begin

unbundle bit_operations_syntax

text \<open>
  Wire limits and the RTP version-2 view: \<open>crates/fss-packet/src/error.rs\<close> and
  \<open>crates/fss-packet/src/rtp.rs\<close>. A datagram is a list of bytes; the borrowed view
  \<open>RtpPacket<'a>\<close> is a record that keeps the datagram beside the validated offsets.
  The grammar of an RTP packet is written independently of the parser, as the
  encoder \<open>rtp_wire\<close> over a record of fields, and the parser is proved to accept
  exactly the encodings that respect the limits, and to read every field back.
\<close>

section \<open>error.rs\<close>

datatype packet_error =
    InvalidLimits
  | ByteLimit
  | Truncated
  | Version
  | ExtensionLimit
  | Padding
  | PacketCount
  | Compound
  | Report
  | SourceDescription
  | Goodbye
  | Application

record packet_limits =
  max_packet_bytes :: usize
  max_extension_bytes :: usize
  max_rtcp_packets :: usize

definition packet_limits_default :: packet_limits where
  "packet_limits_default =
     \<lparr>max_packet_bytes = 65535, max_extension_bytes = 16384, max_rtcp_packets = 64\<rparr>"

definition packet_limits_validate :: "packet_limits \<Rightarrow> packet_error + unit" where
  "packet_limits_validate l =
     (if \<not> (12 \<le> max_packet_bytes l \<and> max_packet_bytes l \<le> 1048576)
         \<or> max_extension_bytes l > 262140
         \<or> \<not> (1 \<le> max_rtcp_packets l \<and> max_rtcp_packets l \<le> 256)
      then Inl packet_error.InvalidLimits
      else Inr ())"

definition packet_limits_check :: "packet_limits \<Rightarrow> bytes \<Rightarrow> packet_error + unit" where
  "packet_limits_check l bs =
     try_then (packet_limits_validate l) (\<lambda>_.
       if length bs > max_packet_bytes l then Inl packet_error.ByteLimit else Inr ())"

definition span :: "bytes \<Rightarrow> usize \<Rightarrow> usize \<Rightarrow> packet_error + bytes" where
  "span bs start len =
     try_then (ok_or (checked_add start len) packet_error.Truncated) (\<lambda>end.
       ok_or (get_slice bs start end) packet_error.Truncated)"

definition be16 :: "bytes \<Rightarrow> u16" where
  "be16 bs = push_bit 8 (ucast (bs ! 0)) OR ucast (bs ! 1)"

definition be32 :: "bytes \<Rightarrow> u32" where
  "be32 bs = push_bit 24 (ucast (bs ! 0)) OR push_bit 16 (ucast (bs ! 1))
     OR push_bit 8 (ucast (bs ! 2)) OR ucast (bs ! 3)"

section \<open>rtp.rs\<close>

record header_extension =
  ext_profile :: u16
  ext_bytes :: bytes

record rtp_packet =
  rtp_bytes :: bytes
  rtp_payload_start :: usize
  rtp_payload_end :: usize
  rtp_extension :: "header_extension option"

definition rtp_parse :: "bytes \<Rightarrow> packet_limits \<Rightarrow> packet_error + rtp_packet" where
  "rtp_parse bs limits =
     try_then (packet_limits_check limits bs) (\<lambda>_.
     try_then (span bs 0 12) (\<lambda>fixed.
     if drop_bit 6 (fixed ! 0) \<noteq> 2 then Inl packet_error.Version
     else
       let offset = 12 + unat (fixed ! 0 AND 0x0f) * 4 in
       try_then (span bs 0 offset) (\<lambda>_.
       try_then
         (if fixed ! 0 AND 0x10 \<noteq> 0 then
            try_then (span bs offset 4) (\<lambda>header.
              let len = unat (be16 (drop 2 header)) * 4 in
              if len > max_extension_bytes limits then Inl packet_error.ExtensionLimit
              else
                let offset = offset + 4 in
                try_then (span bs offset len) (\<lambda>ext.
                  Inr (Some \<lparr>ext_profile = be16 header, ext_bytes = ext\<rparr>, offset + len)))
          else Inr (None, offset))
         (\<lambda>(extension, offset).
            let end = length bs in
            try_then
              (if fixed ! 0 AND 0x20 \<noteq> 0 then
                 let padding = unat (bs ! (length bs - 1)) in
                 if padding = 0 \<or> padding > end - offset then Inl packet_error.Padding
                 else Inr (end - padding)
               else Inr end)
              (\<lambda>end. Inr \<lparr>rtp_bytes = bs, rtp_payload_start = offset,
                          rtp_payload_end = end, rtp_extension = extension\<rparr>)))))"

definition rtp_payload_type :: "rtp_packet \<Rightarrow> u8" where
  "rtp_payload_type p = rtp_bytes p ! 1 AND 0x7f"

definition rtp_marker :: "rtp_packet \<Rightarrow> bool" where
  "rtp_marker p \<longleftrightarrow> rtp_bytes p ! 1 AND 0x80 \<noteq> 0"

definition rtp_sequence :: "rtp_packet \<Rightarrow> u16" where
  "rtp_sequence p = be16 (subslice (rtp_bytes p) 2 4)"

definition rtp_timestamp :: "rtp_packet \<Rightarrow> u32" where
  "rtp_timestamp p = be32 (subslice (rtp_bytes p) 4 8)"

definition rtp_ssrc :: "rtp_packet \<Rightarrow> u32" where
  "rtp_ssrc p = be32 (subslice (rtp_bytes p) 8 12)"

fun be32_chunks :: "bytes \<Rightarrow> u32 list" where
  "be32_chunks (a # b # c # d # rest) = be32 [a, b, c, d] # be32_chunks rest"
| "be32_chunks _ = []"

definition rtp_csrcs :: "rtp_packet \<Rightarrow> u32 list" where
  "rtp_csrcs p =
     (let end = 12 + unat (rtp_bytes p ! 0 AND 0x0f) * 4
      in be32_chunks (subslice (rtp_bytes p) 12 end))"

definition rtp_payload_range :: "rtp_packet \<Rightarrow> usize \<times> usize" where
  "rtp_payload_range p = (rtp_payload_start p, rtp_payload_end p)"

definition rtp_payload :: "rtp_packet \<Rightarrow> bytes" where
  "rtp_payload p = subslice (rtp_bytes p) (rtp_payload_start p) (rtp_payload_end p)"

definition rtp_padding_len :: "rtp_packet \<Rightarrow> usize" where
  "rtp_padding_len p = length (rtp_bytes p) - rtp_payload_end p"

section \<open>Offsets\<close>

lemma span_Inr [rust_simps]:
  "span bs a n = Inr s \<longleftrightarrow>
     a + n \<le> length bs \<and> a + n \<le> u64_max \<and> s = subslice bs a (a + n)"
  by (auto simp: span_def rust_simps)

lemma packet_limits_check_Inr [rust_simps]:
  "packet_limits_check l bs = Inr u \<longleftrightarrow>
     packet_limits_validate l = Inr () \<and> length bs \<le> max_packet_bytes l"
  by (auto simp: packet_limits_check_def rust_simps split: if_splits)

text \<open>
  A parsed packet keeps its datagram, and its offsets lie inside it, in order: every
  later slice of the view is in range.
\<close>

definition rtp_wf :: "rtp_packet \<Rightarrow> bool" where
  "rtp_wf p \<longleftrightarrow> 12 + unat (rtp_bytes p ! 0 AND 0x0f) * 4 \<le> rtp_payload_start p
     \<and> rtp_payload_start p \<le> rtp_payload_end p
     \<and> rtp_payload_end p \<le> length (rtp_bytes p)"

lemma rtp_parse_wf: "rtp_parse bs l = Inr p \<Longrightarrow> rtp_bytes p = bs \<and> rtp_wf p"
  by (auto simp: rtp_parse_def rtp_wf_def rust_simps Let_def nth_subslice split: if_splits)

lemma length_rtp_payload: "rtp_wf p \<Longrightarrow>
    length (rtp_payload p) = rtp_payload_end p - rtp_payload_start p"
  by (simp add: rtp_wf_def rtp_payload_def)


section \<open>Big-endian fields\<close>

definition to_be16 :: "u16 \<Rightarrow> bytes" where
  "to_be16 w = [ucast (drop_bit 8 w), ucast w]"

definition to_be32 :: "u32 \<Rightarrow> bytes" where
  "to_be32 w = [ucast (drop_bit 24 w), ucast (drop_bit 16 w), ucast (drop_bit 8 w), ucast w]"

lemma length_to_be [simp]: "length (to_be16 v) = 2" "length (to_be32 w) = 4"
  by (simp_all add: to_be16_def to_be32_def)

lemma be16_to_be16 [simp]: "be16 (to_be16 w) = w"
  by (rule bit_word_eqI) (auto simp: be16_def to_be16_def bit_simps)

lemma be16_to_be16_append [simp]: "be16 (to_be16 w @ rest) = w"
  by (rule bit_word_eqI) (auto simp: be16_def to_be16_def bit_simps)

lemma be32_to_be32 [simp]: "be32 (to_be32 w) = w"
proof (rule bit_word_eqI)
  fix n assume "n < LENGTH(32)"
  then consider "n < 8" | "8 \<le> n" "n < 16" | "16 \<le> n" "n < 24" | "24 \<le> n" "n < 32"
    by fastforce
  then show "bit (be32 (to_be32 w)) n = bit w n"
    by cases (auto simp add: be32_def to_be32_def bit_simps)
qed

lemma byte_bit_high: "8 \<le> n \<Longrightarrow> \<not> bit (b :: u8) n"
  using bit_imp_le_length [of b n] by auto

lemma to_be16_be16: "to_be16 (be16 [a, b]) = [a, b]"
  by (auto simp: be16_def to_be16_def bit_simps byte_bit_high intro!: bit_word_eqI)

lemma to_be32_be32: "to_be32 (be32 [a, b, c, d]) = [a, b, c, d]"
  by (auto simp: be32_def to_be32_def bit_simps byte_bit_high intro!: bit_word_eqI)

lemma to_be16_be16_list:
  assumes "2 \<le> length s"
  shows "to_be16 (be16 s) = take 2 s"
proof -
  obtain a b t where "s = a # b # t"
    using assms by (auto simp: numeral_eq_Suc Suc_le_length_iff)
  then show ?thesis using to_be16_be16 by (simp add: be16_def)
qed

lemma to_be32_be32_list:
  assumes "4 \<le> length s"
  shows "to_be32 (be32 s) = take 4 s"
proof -
  obtain a b c d t where "s = a # b # c # d # t"
    using assms by (auto simp: numeral_eq_Suc Suc_le_length_iff)
  then show ?thesis using to_be32_be32 by (simp add: be32_def)
qed

lemma be32_chunks_Cons_to_be32: "be32_chunks (to_be32 w @ s) = w # be32_chunks s"
proof -
  obtain a b c d where "to_be32 w = [a, b, c, d]"
    by (simp add: to_be32_def)
  then show ?thesis using be32_to_be32 [of w] by simp
qed

lemma be32_chunks_to_be32 [simp]: "be32_chunks (concat (map to_be32 ws)) = ws"
  by (induction ws) (simp_all add: be32_chunks_Cons_to_be32)

lemma to_be32_be32_chunks: "length s = 4 * k \<Longrightarrow> concat (map to_be32 (be32_chunks s)) = s"
proof (induction k arbitrary: s)
  case (Suc k)
  then obtain a b c d t where "s = a # b # c # d # t"
    by (auto simp: numeral_eq_Suc length_Suc_conv)
  with Suc show ?case by (simp add: to_be32_be32)
qed simp

lemma length_be32_chunks: "length s = 4 * k \<Longrightarrow> length (be32_chunks s) = k"
proof (induction k arbitrary: s)
  case (Suc k)
  then obtain a b c d t where "s = a # b # c # d # t"
    by (auto simp: numeral_eq_Suc length_Suc_conv)
  with Suc show ?case by simp
qed simp

lemma length_concat_to_be32 [simp]: "length (concat (map to_be32 ws)) = 4 * length ws"
  by (induction ws) simp_all


section \<open>The grammar of an RTP packet\<close>

text \<open>
  The fields of a version-2 packet, and their wire form. \<open>f_padding\<close> holds the padding
  bytes, the last of which counts them; an empty list is an unpadded packet.
\<close>

record rtp_fields =
  f_marker :: bool
  f_payload_type :: u8
  f_sequence :: u16
  f_timestamp :: u32
  f_ssrc :: u32
  f_csrcs :: "u32 list"
  f_extension :: "header_extension option"
  f_payload :: bytes
  f_padding :: bytes

definition rtp_first_byte :: "bool \<Rightarrow> bool \<Rightarrow> nat \<Rightarrow> u8" where
  "rtp_first_byte padded extended csrc_count =
     0x80 OR (if padded then 0x20 else 0) OR (if extended then 0x10 else 0) OR of_nat csrc_count"

definition rtp_fixed :: "rtp_fields \<Rightarrow> bytes" where
  "rtp_fixed f =
     [rtp_first_byte (f_padding f \<noteq> []) (f_extension f \<noteq> None) (length (f_csrcs f)),
      (if f_marker f then 0x80 else 0) OR f_payload_type f]
     @ to_be16 (f_sequence f) @ to_be32 (f_timestamp f) @ to_be32 (f_ssrc f)"

definition rtp_ext_wire :: "header_extension option \<Rightarrow> bytes" where
  "rtp_ext_wire x = (case x of None \<Rightarrow> []
     | Some e \<Rightarrow> to_be16 (ext_profile e) @ to_be16 (of_nat (length (ext_bytes e) div 4)) @ ext_bytes e)"

definition rtp_header :: "rtp_fields \<Rightarrow> bytes" where
  "rtp_header f =
     rtp_fixed f @ concat (map to_be32 (f_csrcs f)) @ rtp_ext_wire (f_extension f)"

definition rtp_wire :: "rtp_fields \<Rightarrow> bytes" where
  "rtp_wire f = rtp_header f @ f_payload f @ f_padding f"

definition rtp_fields_wf :: "packet_limits \<Rightarrow> rtp_fields \<Rightarrow> bool" where
  "rtp_fields_wf l f \<longleftrightarrow>
     packet_limits_validate l = Inr () \<and> length (rtp_wire f) \<le> max_packet_bytes l
     \<and> f_payload_type f AND 0x80 = 0 \<and> length (f_csrcs f) < 16
     \<and> (case f_extension f of None \<Rightarrow> True
        | Some e \<Rightarrow> 4 dvd length (ext_bytes e) \<and> length (ext_bytes e) div 4 < 65536
            \<and> length (ext_bytes e) \<le> max_extension_bytes l)
     \<and> (f_padding f \<noteq> [] \<longrightarrow> unat (last (f_padding f)) = length (f_padding f))"

definition rtp_view :: "rtp_fields \<Rightarrow> rtp_packet" where
  "rtp_view f =
     \<lparr>rtp_bytes = rtp_wire f, rtp_payload_start = length (rtp_header f),
      rtp_payload_end = length (rtp_header f) + length (f_payload f),
      rtp_extension = f_extension f\<rparr>"

lemma and_flag_byte:
  fixes b :: u8
  shows "(b AND 0x80 = 0) \<longleftrightarrow> \<not> bit b 7" "(b AND 0x40 = 0) \<longleftrightarrow> \<not> bit b 6"
    "(b AND 0x20 = 0) \<longleftrightarrow> \<not> bit b 5" "(b AND 0x10 = 0) \<longleftrightarrow> \<not> bit b 4"
  using and_exp_eq_0_iff_not_bit [of b 7] and_exp_eq_0_iff_not_bit [of b 6]
    and_exp_eq_0_iff_not_bit [of b 5] and_exp_eq_0_iff_not_bit [of b 4] by simp_all

lemma byte_bit_cases: "n < LENGTH(8) \<Longrightarrow>
    n = 0 \<or> n = 1 \<or> n = 2 \<or> n = 3 \<or> n = 4 \<or> n = 5 \<or> n = 6 \<or> n = (7::nat)"
  by auto

lemma rtp_first_byte_reads:
  assumes "cc < 16"
  shows "drop_bit 6 (rtp_first_byte p x cc) = 2"
    and "(rtp_first_byte p x cc AND 0x20 = 0) \<longleftrightarrow> \<not> p"
    and "(rtp_first_byte p x cc AND 0x10 = 0) \<longleftrightarrow> \<not> x"
    and "unat (rtp_first_byte p x cc AND 0x0f) = cc"
proof -
  have "cc \<in> set [0..<16]" using assms by simp
  then show "drop_bit 6 (rtp_first_byte p x cc) = 2"
    "(rtp_first_byte p x cc AND 0x20 = 0) \<longleftrightarrow> \<not> p"
    "(rtp_first_byte p x cc AND 0x10 = 0) \<longleftrightarrow> \<not> x"
    "unat (rtp_first_byte p x cc AND 0x0f) = cc"
    unfolding rtp_first_byte_def by (auto simp: upt_rec)
qed

lemma rtp_first_byte_rebuild:
  fixes b :: u8
  assumes "drop_bit 6 b = 2"
  shows "rtp_first_byte (b AND 0x20 \<noteq> 0) (b AND 0x10 \<noteq> 0) (unat (b AND 0x0f)) = b"
proof (rule bit_word_eqI)
  fix n assume "n < LENGTH(8)"
  moreover have "bit b 7" "\<not> bit b 6"
    using arg_cong [OF assms, of "\<lambda>w. bit w 1"] arg_cong [OF assms, of "\<lambda>w. bit w 0"]
    by (auto simp: bit_simps)
  ultimately show "bit (rtp_first_byte (b AND 0x20 \<noteq> 0) (b AND 0x10 \<noteq> 0)
      (unat (b AND 0x0f))) n = bit b n"
    using byte_bit_cases [of n]
    by (auto simp: rtp_first_byte_def bit_simps and_flag_byte)
qed

lemma marker_byte_rebuild:
  fixes b :: u8
  shows "(if b AND 0x80 \<noteq> 0 then 0x80 else 0) OR (b AND 0x7f) = b"
proof (rule bit_word_eqI)
  fix n assume "n < LENGTH(8)"
  then show "bit ((if b AND 0x80 \<noteq> 0 then 0x80 else 0) OR (b AND 0x7f)) n = bit b n"
    using byte_bit_cases [of n] by (auto simp: bit_simps and_flag_byte)
qed

lemma marker_byte_reads:
  fixes t :: u8
  assumes "t AND 0x80 = 0"
  shows "((if m then 0x80 else 0) OR t) AND 0x80 \<noteq> 0 \<longleftrightarrow> m"
    and "((if m then 0x80 else 0) OR t) AND 0x7f = t"
proof -
  show "((if m then 0x80 else 0) OR t) AND 0x80 \<noteq> 0 \<longleftrightarrow> m"
    using assms by (auto simp: and_flag_byte bit_simps)
  show "((if m then 0x80 else 0) OR t) AND 0x7f = t"
  proof (rule bit_word_eqI)
    fix n assume "n < LENGTH(8)"
    then show "bit (((if m then 0x80 else 0) OR t) AND 0x7f) n = bit t n"
      using byte_bit_cases [of n] assms by (auto simp: bit_simps and_flag_byte)
  qed
qed

lemma length_rtp_fixed [simp]: "length (rtp_fixed f) = 12"
  by (simp add: rtp_fixed_def)

lemma length_rtp_header:
  "length (rtp_header f) = 12 + 4 * length (f_csrcs f) + length (rtp_ext_wire (f_extension f))"
  by (simp add: rtp_header_def)

lemma rtp_wire_nth_0: "rtp_wire f ! 0 =
    rtp_first_byte (f_padding f \<noteq> []) (f_extension f \<noteq> None) (length (f_csrcs f))"
  by (simp add: rtp_wire_def rtp_header_def rtp_fixed_def)

section \<open>The parser accepts exactly the grammar\<close>

lemma span_ok: "a + n \<le> length bs \<Longrightarrow> length bs \<le> u64_max \<Longrightarrow>
    span bs a n = Inr (subslice bs a (a + n))"
  by (simp add: rust_simps)

lemma rtp_fields_wf_length: "rtp_fields_wf l f \<Longrightarrow> length (rtp_wire f) \<le> u64_max"
  by (auto simp: rtp_fields_wf_def packet_limits_validate_def u64_max_def split: if_splits)

lemma rtp_ext_wire_None [simp]: "rtp_ext_wire None = []"
  by (simp add: rtp_ext_wire_def)

lemma rtp_wire_ext_header:
  assumes "f_extension f = Some e"
  shows "subslice (rtp_wire f) (12 + 4 * length (f_csrcs f)) (16 + 4 * length (f_csrcs f))
      = to_be16 (ext_profile e) @ to_be16 (of_nat (length (ext_bytes e) div 4))"
  using assms
    subslice_mid [of "rtp_fixed f @ concat (map to_be32 (f_csrcs f))" "12 + 4 * length (f_csrcs f)"
      "to_be16 (ext_profile e) @ to_be16 (of_nat (length (ext_bytes e) div 4))"]
  by (simp add: rtp_wire_def rtp_header_def rtp_ext_wire_def)

lemma rtp_wire_ext_bytes:
  assumes "f_extension f = Some e"
  shows "subslice (rtp_wire f) (16 + 4 * length (f_csrcs f))
      (16 + 4 * length (f_csrcs f) + length (ext_bytes e)) = ext_bytes e"
  using assms
    subslice_mid [of "rtp_fixed f @ concat (map to_be32 (f_csrcs f)) @ to_be16 (ext_profile e)
        @ to_be16 (of_nat (length (ext_bytes e) div 4))" "16 + 4 * length (f_csrcs f)" "ext_bytes e"]
  by (simp add: rtp_wire_def rtp_header_def rtp_ext_wire_def)

lemma rtp_wire_last:
  assumes "f_padding f \<noteq> []"
  shows "rtp_wire f ! (length (rtp_wire f) - Suc 0) = last (f_padding f)"
  using assms last_conv_nth [of "rtp_wire f"] by (simp add: rtp_wire_def)

lemma rtp_parse_wire:
  assumes wf: "rtp_fields_wf l f"
  shows "rtp_parse (rtp_wire f) l = Inr (rtp_view f)"
proof -
  let ?bs = "rtp_wire f" and ?cc = "length (f_csrcs f)"
  have cc: "?cc < 16" and len: "length ?bs \<le> u64_max"
    using wf rtp_fields_wf_length by (auto simp: rtp_fields_wf_def)
  have lens: "length ?bs = 12 + 4 * ?cc + length (rtp_ext_wire (f_extension f))
      + length (f_payload f) + length (f_padding f)"
    by (simp add: rtp_wire_def length_rtp_header)
  have chk: "packet_limits_check l ?bs = Inr ()"
    using wf by (auto simp: rtp_fields_wf_def rust_simps)
  note reads = rtp_first_byte_reads [OF cc] rtp_wire_nth_0
  have pad: "f_padding f \<noteq> [] \<Longrightarrow> unat (?bs ! (length ?bs - Suc 0)) = length (f_padding f)"
    using wf by (auto simp: rtp_wire_last rtp_fields_wf_def)
  show ?thesis
  proof (cases "f_extension f")
    case None
    show ?thesis
      using None lens pad len
      by (simp add: rtp_parse_def chk span_ok reads Let_def rtp_view_def length_rtp_header mult.commute)
  next
    case (Some e)
    then have ext: "length (rtp_ext_wire (f_extension f)) = 4 + length (ext_bytes e)"
      by (simp add: rtp_ext_wire_def)
    have n: "unat (word_of_nat (length (ext_bytes e) div 4) :: u16) * 4 = length (ext_bytes e)"
      and lim: "length (ext_bytes e) \<le> max_extension_bytes l"
      using wf Some by (auto simp: rtp_fields_wf_def unat_of_nat take_bit_nat_eq_self)
    show ?thesis
      using Some lens pad len lim n ext rtp_wire_ext_header [OF Some] rtp_wire_ext_bytes [OF Some]
      by (simp add: rtp_parse_def chk span_ok reads Let_def rtp_view_def length_rtp_header mult.commute)
  qed
qed

definition rtp_fields_of :: "rtp_packet \<Rightarrow> rtp_fields" where
  "rtp_fields_of p =
     \<lparr>f_marker = rtp_marker p, f_payload_type = rtp_payload_type p, f_sequence = rtp_sequence p,
      f_timestamp = rtp_timestamp p, f_ssrc = rtp_ssrc p, f_csrcs = rtp_csrcs p,
      f_extension = rtp_extension p, f_payload = rtp_payload p,
      f_padding = drop (rtp_payload_end p) (rtp_bytes p)\<rparr>"

lemma to_be16_subslice: "b = a + 2 \<Longrightarrow> b \<le> length bs \<Longrightarrow>
    to_be16 (be16 (subslice bs a b)) = subslice bs a b"
  by (simp add: to_be16_be16_list)

lemma to_be32_subslice: "b = a + 4 \<Longrightarrow> b \<le> length bs \<Longrightarrow>
    to_be32 (be32 (subslice bs a b)) = subslice bs a b"
  by (simp add: to_be32_be32_list)

lemma subslice_Cons_Cons: "2 \<le> length bs \<Longrightarrow> subslice bs 0 2 = [bs ! 0, bs ! 1]"
  by (auto simp: subslice_def numeral_eq_Suc Suc_le_length_iff)

text \<open>What acceptance says of the first byte, the extension and the padding.\<close>

lemma rtp_parse_cases:
  assumes "rtp_parse bs l = Inr p"
  defines "off \<equiv> 12 + 4 * unat (bs ! 0 AND 0x0f)"
  defines "n \<equiv> unat (be16 (drop 2 (subslice bs off (off + 4)))) * 4"
  shows "packet_limits_validate l = Inr () \<and> length bs \<le> max_packet_bytes l \<and> 12 \<le> length bs
    \<and> drop_bit 6 (bs ! 0) = 2 \<and> off \<le> length bs
    \<and> (if bs ! 0 AND 0x10 \<noteq> 0
       then n \<le> max_extension_bytes l \<and> off + 4 + n \<le> length bs \<and> rtp_payload_start p = off + 4 + n
         \<and> rtp_extension p = Some \<lparr>ext_profile = be16 (subslice bs off (off + 4)),
                                  ext_bytes = subslice bs (off + 4) (off + 4 + n)\<rparr>
       else rtp_payload_start p = off \<and> rtp_extension p = None)
    \<and> (if bs ! 0 AND 0x20 \<noteq> 0
       then unat (bs ! (length bs - 1)) \<noteq> 0
         \<and> unat (bs ! (length bs - 1)) \<le> length bs - rtp_payload_start p
         \<and> rtp_payload_end p = length bs - unat (bs ! (length bs - 1))
       else rtp_payload_end p = length bs)"
  using assms(1) unfolding off_def n_def rtp_parse_def
  by (simp add: rust_simps Let_def mult.commute split: if_splits) (clarsimp split: if_splits)+

lemma rtp_parse_accepts:
  assumes "rtp_parse bs l = Inr p"
  shows "packet_limits_validate l = Inr ()" "12 \<le> length bs" "length bs \<le> max_packet_bytes l"
    "drop_bit 6 (bs ! 0) = 2"
    "bs ! 0 AND 0x20 \<noteq> 0 \<longleftrightarrow> rtp_payload_end p < length bs"
    "bs ! 0 AND 0x20 \<noteq> 0 \<Longrightarrow> unat (bs ! (length bs - 1)) = length bs - rtp_payload_end p"
  using rtp_parse_cases [OF assms] by (auto split: if_splits)

lemma rtp_parse_extension:
  assumes "rtp_parse bs l = Inr p"
  defines "off \<equiv> 12 + 4 * unat (bs ! 0 AND 0x0f)"
  shows "bs ! 0 AND 0x10 \<noteq> 0 \<longleftrightarrow> rtp_extension p \<noteq> None"
    "off \<le> length bs"
    "rtp_extension p = None \<Longrightarrow> rtp_payload_start p = off"
    "rtp_extension p = Some e \<Longrightarrow> rtp_payload_start p = off + 4 + length (ext_bytes e)
       \<and> ext_bytes e = subslice bs (off + 4) (rtp_payload_start p)
       \<and> length (ext_bytes e) = unat (be16 (drop 2 (subslice bs off (off + 4)))) * 4
       \<and> length (ext_bytes e) \<le> max_extension_bytes l
       \<and> ext_profile e = be16 (subslice bs off (off + 4))
       \<and> off + 4 + length (ext_bytes e) \<le> length bs"
  using rtp_parse_cases [OF assms(1)] unfolding off_def by (auto split: if_splits)

lemma rtp_ext_wire_of_parse:
  assumes p: "rtp_parse bs l = Inr p"
  defines "off \<equiv> 12 + 4 * unat (bs ! 0 AND 0x0f)"
  shows "rtp_ext_wire (rtp_extension p) = subslice bs off (rtp_payload_start p)"
proof (cases "rtp_extension p")
  case None
  then show ?thesis using rtp_parse_extension(3) [OF p] by (simp add: off_def)
next
  case (Some e)
  note x = rtp_parse_extension(4) [OF p Some, folded off_def]
  let ?h = "subslice bs off (off + 4)"
  have "off + 4 \<le> length bs" using x by linarith
  then have h: "length ?h = 4" by simp
  have "length (ext_bytes e) = unat (be16 (drop 2 ?h)) * 4" using x by blast
  then have "word_of_nat (length (ext_bytes e) div 4) = be16 (drop 2 ?h)" by simp
  moreover have "ext_profile e = be16 ?h" using x by blast
  ultimately have "to_be16 (ext_profile e) @ to_be16 (of_nat (length (ext_bytes e) div 4))
      = take 2 ?h @ take 2 (drop 2 ?h)"
    using h by (simp add: to_be16_be16_list)
  also have "\<dots> = ?h" using h by (metis append_take_drop_id take_all length_drop le_refl add_diff_cancel_left' numeral_Bit0)
  finally have "rtp_ext_wire (Some e) = ?h @ ext_bytes e" by (simp add: rtp_ext_wire_def flip: append_assoc)
  moreover have "ext_bytes e = subslice bs (off + 4) (rtp_payload_start p)" using x by blast
  moreover have "off + 4 \<le> rtp_payload_start p" using x by linarith
  ultimately show ?thesis using Some by (simp add: subslice_append_subslice)
qed

lemma rtp_fixed_of_parse:
  assumes p: "rtp_parse bs l = Inr p"
  shows "rtp_fixed (rtp_fields_of p) = subslice bs 0 12"
    and "concat (map to_be32 (rtp_csrcs p)) = subslice bs 12 (12 + 4 * unat (bs ! 0 AND 0x0f))"
proof -
  note a = rtp_parse_accepts [OF p] and x = rtp_parse_extension [OF p] and b = rtp_parse_wf [OF p]
  let ?n = "unat (bs ! 0 AND 0x0f)"
  have len: "length (subslice bs 12 (12 + 4 * ?n)) = 4 * ?n" using x(2) by simp
  show "concat (map to_be32 (rtp_csrcs p)) = subslice bs 12 (12 + 4 * ?n)"
    using to_be32_be32_chunks [OF len] b by (simp add: rtp_csrcs_def mult.commute)
  have n: "length (rtp_csrcs p) = ?n"
    using length_be32_chunks [OF len] b by (simp add: rtp_csrcs_def mult.commute)
  have pad: "drop (rtp_payload_end p) bs \<noteq> [] \<longleftrightarrow> bs ! 0 AND 0x20 \<noteq> 0" using a(5) by auto
  have "rtp_fixed (rtp_fields_of p) =
      subslice bs 0 2 @ subslice bs 2 4 @ subslice bs 4 8 @ subslice bs 8 12"
    using a(2,4) b n pad x(1) [symmetric] rtp_first_byte_rebuild [OF a(4)] marker_byte_rebuild [of "bs ! 1"]
    by (simp add: rtp_fixed_def rtp_fields_of_def rtp_marker_def rtp_payload_type_def rtp_sequence_def
        rtp_timestamp_def rtp_ssrc_def to_be16_subslice to_be32_subslice subslice_Cons_Cons)
  then show "rtp_fixed (rtp_fields_of p) = subslice bs 0 12"
    by (simp add: subslice_append_subslice)
qed

lemma rtp_fields_of_parse:
  assumes p: "rtp_parse bs l = Inr p"
  shows "rtp_wire (rtp_fields_of p) = bs" "rtp_fields_wf l (rtp_fields_of p)"
    "rtp_view (rtp_fields_of p) = p"
proof -
  note a = rtp_parse_accepts [OF p] and x = rtp_parse_extension [OF p] and b = rtp_parse_wf [OF p]
  let ?f = "rtp_fields_of p" and ?off = "12 + 4 * unat (bs ! 0 AND 0x0f)"
  have ord: "?off \<le> rtp_payload_start p" "rtp_payload_start p \<le> rtp_payload_end p"
    "rtp_payload_end p \<le> length bs"
    using b by (auto simp: rtp_wf_def mult.commute)
  have header: "rtp_header ?f = subslice bs 0 (rtp_payload_start p)"
    using rtp_fixed_of_parse [OF p] rtp_ext_wire_of_parse [OF p] ord
    by (simp add: rtp_header_def rtp_fields_of_def subslice_append_subslice)
  have "rtp_wire ?f = subslice bs 0 (rtp_payload_start p)
      @ subslice bs (rtp_payload_start p) (rtp_payload_end p) @ subslice bs (rtp_payload_end p) (length bs)"
    using b header by (simp add: rtp_wire_def) (simp add: rtp_fields_of_def rtp_payload_def subslice_def)
  then show wire: "rtp_wire ?f = bs" using ord by (simp add: subslice_append_subslice)
  show "rtp_view ?f = p"
    using wire header ord b by (simp add: rtp_view_def) (simp add: rtp_fields_of_def length_rtp_payload)
  have "length (rtp_csrcs p) = unat (bs ! 0 AND 0x0f)"
    using arg_cong [OF rtp_fixed_of_parse(2) [OF p], of length] x(2) by simp
  moreover have "unat (bs ! 0 AND 0x0f) < 16"
    using word_and_le1 [of "bs ! 0" "0x0f"] by (simp add: word_le_nat_alt)
  moreover have "rtp_payload_type p AND 0x80 = 0"
    by (simp add: rtp_payload_type_def and.assoc)
  moreover have "drop (rtp_payload_end p) bs \<noteq> [] \<Longrightarrow>
      unat (last (drop (rtp_payload_end p) bs)) = length (drop (rtp_payload_end p) bs)"
    using a(5,6) by (simp add: last_conv_nth)
  moreover have "rtp_extension p = Some e \<Longrightarrow> 4 dvd length (ext_bytes e)
      \<and> length (ext_bytes e) div 4 < 65536 \<and> length (ext_bytes e) \<le> max_extension_bytes l" for e
  proof -
    assume "rtp_extension p = Some e"
    then have "length (ext_bytes e) = unat (be16 (drop 2 (subslice bs ?off (?off + 4)))) * 4"
      and "length (ext_bytes e) \<le> max_extension_bytes l" using x(4) by blast+
    then show ?thesis
      using unsigned_less [of "be16 (drop 2 (subslice bs ?off (?off + 4)))", where ?'a = nat] by simp
  qed
  ultimately show "rtp_fields_wf l ?f"
    using a(1,3) wire b by (simp add: rtp_fields_wf_def) (auto simp: rtp_fields_of_def split: option.split)
qed

lemma rtp_fields_of_view:
  assumes wf: "rtp_fields_wf l f"
  shows "rtp_fields_of (rtp_view f) = f"
proof -
  let ?bs = "rtp_wire f"
  have cc: "length (f_csrcs f) < 16" using wf by (simp add: rtp_fields_wf_def)
  have w: "?bs = [rtp_first_byte (f_padding f \<noteq> []) (f_extension f \<noteq> None) (length (f_csrcs f)),
      (if f_marker f then 0x80 else 0) OR f_payload_type f]
     @ to_be16 (f_sequence f) @ to_be32 (f_timestamp f) @ to_be32 (f_ssrc f)
     @ concat (map to_be32 (f_csrcs f)) @ rtp_ext_wire (f_extension f) @ f_payload f @ f_padding f"
    by (simp add: rtp_wire_def rtp_header_def rtp_fixed_def)
  have "subslice ?bs 2 4 = to_be16 (f_sequence f)" "subslice ?bs 4 8 = to_be32 (f_timestamp f)"
    "subslice ?bs 8 12 = to_be32 (f_ssrc f)"
    "subslice ?bs 12 (12 + 4 * length (f_csrcs f)) = concat (map to_be32 (f_csrcs f))"
    unfolding w by (simp_all add: subslice_def)
  moreover have "?bs ! Suc 0 = (if f_marker f then 0x80 else 0) OR f_payload_type f"
    unfolding w by simp
  moreover have "subslice ?bs (length (rtp_header f)) (length (rtp_header f) + length (f_payload f)) = f_payload f"
    "drop (length (rtp_header f) + length (f_payload f)) ?bs = f_padding f"
    by (simp_all add: rtp_wire_def subslice_mid)
  ultimately show ?thesis
    using marker_byte_reads [of "f_payload_type f" "f_marker f"] wf rtp_first_byte_reads(4) [OF cc]
    by (simp add: rtp_fields_of_def rtp_view_def rtp_marker_def rtp_payload_type_def rtp_sequence_def
        rtp_timestamp_def rtp_ssrc_def rtp_csrcs_def rtp_payload_def rtp_fields_wf_def rtp_wire_nth_0 mult.commute)
qed

section \<open>Properties\<close>

text \<open>C12: RTP parsing is exact. \<open>RtpPacket::parse\<close> accepts a datagram with a view if and only if
  the datagram is the wire form of a version-2 packet within the limits whose fields are those the
  view's accessors report, and the view's offsets delimit exactly that packet's payload; nothing
  malformed is accepted, and nothing well formed is refused or misread.\<close>

theorem rtp_parse_exact:
  "rtp_parse bs l = Inr p \<longleftrightarrow>
     rtp_fields_wf l (rtp_fields_of p) \<and> rtp_wire (rtp_fields_of p) = bs
     \<and> rtp_view (rtp_fields_of p) = p"
  using rtp_fields_of_parse rtp_parse_wire by metis

text \<open>RTP round trip. Every packet the grammar can build within the limits is accepted, and the
  accessors of the resulting view (marker, payload type, sequence, timestamp, SSRC, CSRC list,
  extension, payload and padding) return the fields it was built from.\<close>

theorem rtp_parse_roundtrip:
  assumes "rtp_fields_wf l f"
  shows "\<exists>p. rtp_parse (rtp_wire f) l = Inr p \<and> rtp_fields_of p = f"
  using rtp_parse_wire [OF assms] rtp_fields_of_view [OF assms] by blast

definition rtp_sample :: rtp_fields where
  "rtp_sample =
     \<lparr>f_marker = True, f_payload_type = 96, f_sequence = 0xfffe, f_timestamp = 90000, f_ssrc = 7,
      f_csrcs = [1, 2], f_extension = Some \<lparr>ext_profile = 0xbede, ext_bytes = [1, 2, 3, 4]\<rparr>,
      f_payload = [65, 66, 67], f_padding = [0, 0, 3]\<rparr>"

lemma rtp_sample_wf: "rtp_fields_wf packet_limits_default rtp_sample"
proof -
  have "(4 :: nat) dvd Suc (Suc (Suc (Suc 0)))" by presburger
  then show ?thesis
    by (simp add: rtp_fields_wf_def rtp_sample_def rtp_wire_def rtp_header_def rtp_ext_wire_def
        packet_limits_default_def packet_limits_validate_def)
qed

theorem rtp_parse_roundtrip_witness:
  "rtp_fields_wf packet_limits_default rtp_sample
   \<and> (\<exists>p. rtp_parse (rtp_wire rtp_sample) packet_limits_default = Inr p \<and> rtp_fields_of p = rtp_sample)"
  using rtp_parse_roundtrip [OF rtp_sample_wf] rtp_sample_wf by blast

end
