(* ===== verification/Sequence_Tracker.thy ===== *)
theory Sequence_Tracker
  imports Packet_Wire
begin

unbundle bit_operations_syntax

text \<open>
  RTP sequence admission, \<open>crates/fss-packet/src/continuity.rs\<close>: owner-bound stream keys, the
  two-packet probation, 16-bit unwrapping, the 128-position duplicate window held as bits of a
  \<open>u128\<close>, and the loss accounting. The window is proved to be exactly the last 128 positions of
  the set of admitted positions, which the code never stores; every statement about duplicates
  and about the counters follows from that.
\<close>

section \<open>continuity.rs\<close>

record stream_key =
  ingress :: nat
  generation :: u64
  key_ssrc :: u32

datatype continuity_error =
    Configuration
  | StreamMismatch
  | PayloadType
  | GenerationRequired
  | Exhausted
  | ClockReversed
  | ClockAmbiguous
  | NoSenderReport

datatype sequence_class =
    Probation
  | Baseline
  | Advanced
  | Reordered
  | Duplicate
  | BeforeBaseline
  | DiscontinuitySuspected
  | RestartRequired

record sequence_stats =
  expected :: u64
  received :: u64
  unique :: u64
  missing :: u64

record sequence_observation =
  obs_class :: sequence_class
  extended_sequence :: "u64 option"
  obs_stats :: sequence_stats

definition is_unique :: "sequence_observation \<Rightarrow> bool" where
  "is_unique ob \<longleftrightarrow> obs_class ob \<in> {sequence_class.Baseline, sequence_class.Advanced, sequence_class.Reordered}"

record sequence_tracker =
  trk_key :: stream_key
  trk_payload_type :: u8
  probation :: "u16 option"
  trk_base :: "u64 option"
  highest :: u64
  seen :: u128
  bad_next :: "u16 option"
  restart_required :: bool
  trk_stats :: sequence_stats

definition stats_zero :: sequence_stats where
  "stats_zero = \<lparr>expected = 0, received = 0, unique = 0, missing = 0\<rparr>"

definition tracker_new :: "stream_key \<Rightarrow> u8 \<Rightarrow> continuity_error + sequence_tracker" where
  "tracker_new key pt =
     (if ingress key = 0 \<or> generation key = 0 \<or> pt > 127 then Inl continuity_error.Configuration
      else Inr \<lparr>trk_key = key, trk_payload_type = pt, probation = None, trk_base = None,
                highest = 0, seen = 0, bad_next = None, restart_required = False,
                trk_stats = stats_zero\<rparr>)"

definition tracker_observation ::
  "sequence_tracker \<Rightarrow> sequence_class \<Rightarrow> u64 option \<Rightarrow> sequence_observation" where
  "tracker_observation t c s = \<lparr>obs_class = c, extended_sequence = s, obs_stats = trk_stats t\<rparr>"

text \<open>The accounting that ends \<open>advance\<close>, statement by statement; each refusal leaves the writes made before it.\<close>

definition tracker_account ::
  "sequence_tracker \<Rightarrow> u64 \<Rightarrow> sequence_class \<Rightarrow> u64 \<Rightarrow>
     (continuity_error + sequence_observation) \<times> sequence_tracker" where
  "tracker_account t b c ext =
     (case (case checked_sub (highest t) b of None \<Rightarrow> None | Some n \<Rightarrow> checked_add n 1) of
        None \<Rightarrow> (Inl continuity_error.Exhausted, t)
      | Some e \<Rightarrow>
          let t = t\<lparr>trk_stats := (trk_stats t)\<lparr>expected := e\<rparr>\<rparr> in
          (case checked_add (received (trk_stats t)) 1 of
             None \<Rightarrow> (Inl continuity_error.Exhausted, t)
           | Some r \<Rightarrow>
               let t = t\<lparr>trk_stats := (trk_stats t)\<lparr>received := r\<rparr>\<rparr> in
               (case (if c \<noteq> sequence_class.Duplicate then checked_add (unique (trk_stats t)) 1
                      else Some (unique (trk_stats t))) of
                  None \<Rightarrow> (Inl continuity_error.Exhausted, t)
                | Some u \<Rightarrow>
                    let t = t\<lparr>trk_stats := (trk_stats t)\<lparr>unique := u\<rparr>\<rparr>;
                        t = t\<lparr>trk_stats := (trk_stats t)\<lparr>missing :=
                              expected (trk_stats t) - unique (trk_stats t)\<rparr>\<rparr>
                    in (Inr (tracker_observation t c (Some ext)), t))))"

definition tracker_advance ::
  "sequence_tracker \<Rightarrow> u16 \<Rightarrow> (continuity_error + sequence_observation) \<times> sequence_tracker" where
  "tracker_advance t sq =
     (if restart_required t
      then (Inr (tracker_observation t sequence_class.RestartRequired None), t)
      else case trk_base t of
        None \<Rightarrow>
          if map_option (\<lambda>last. last + 1) (probation t) \<noteq> Some sq
          then let t = t\<lparr>probation := Some sq\<rparr>
               in (Inr (tracker_observation t sequence_class.Probation None), t)
          else
            let ext = unat sq;
                t = t\<lparr>trk_base := Some ext, highest := ext, seen := 1,
                      trk_stats := \<lparr>expected = 1, received = 1, unique = 1, missing = 0\<rparr>\<rparr>
            in (Inr (tracker_observation t sequence_class.Baseline (Some ext)), t)
      | Some b \<Rightarrow>
          let forward = sq - of_nat (highest t) in
          if forward \<noteq> 0 \<and> forward < 3000 then
            (case checked_add (highest t) (unat forward) of
               None \<Rightarrow> (Inl continuity_error.Exhausted, t)
             | Some ext \<Rightarrow>
                 let t = t\<lparr>seen := (if forward \<ge> 128 then 1
                                    else push_bit (unat forward) (seen t) OR 1),
                           highest := ext, bad_next := None\<rparr>
                 in tracker_account t b sequence_class.Advanced ext)
          else if forward = 0 \<or> forward > 0xffff - 127 then
            let behind = of_nat (highest t) - sq in
            (case checked_sub (highest t) (unat behind) of
               None \<Rightarrow> (Inr (tracker_observation t sequence_class.BeforeBaseline None), t)
             | Some ext \<Rightarrow>
                 if ext < b
                 then (Inr (tracker_observation t sequence_class.BeforeBaseline None), t)
                 else
                   let mask = push_bit (unat behind) 1;
                       c = (if seen t AND mask \<noteq> 0 then sequence_class.Duplicate
                            else sequence_class.Reordered);
                       t = t\<lparr>seen := seen t OR mask, bad_next := None\<rparr>
                   in tracker_account t b c ext)
          else if bad_next t = Some sq then
            let t = t\<lparr>restart_required := True\<rparr>
            in (Inr (tracker_observation t sequence_class.RestartRequired None), t)
          else
            let t = t\<lparr>bad_next := Some (sq + 1)\<rparr>
            in (Inr (tracker_observation t sequence_class.DiscontinuitySuspected None), t))"

definition tracker_observe ::
  "sequence_tracker \<Rightarrow> stream_key \<Rightarrow> rtp_packet \<Rightarrow>
     (continuity_error + sequence_observation) \<times> sequence_tracker" where
  "tracker_observe t key p =
     (if key \<noteq> trk_key t \<or> rtp_ssrc p \<noteq> key_ssrc (trk_key t)
      then (Inl continuity_error.StreamMismatch, t)
      else if rtp_payload_type p \<noteq> trk_payload_type t
      then (Inl continuity_error.PayloadType, t)
      else case tracker_advance t (rtp_sequence p) of
        (Inl e, _) \<Rightarrow> (Inl e, t)
      | (Inr ob, t') \<Rightarrow> (Inr ob, t'))"

definition tracker_restart ::
  "sequence_tracker \<Rightarrow> stream_key \<Rightarrow> u8 \<Rightarrow> continuity_error + sequence_tracker" where
  "tracker_restart t key pt =
     (if ingress key \<noteq> ingress (trk_key t) then Inl continuity_error.StreamMismatch
      else if generation key \<le> generation (trk_key t) then Inl continuity_error.GenerationRequired
      else tracker_new key pt)"

section \<open>The window is the tail of the admitted set\<close>

text \<open>
  \<open>tracker_inv t S\<close>: \<open>S\<close> is the set of extended positions admitted so far. Bit \<open>i\<close> of the
  window says whether \<open>highest - i\<close> is one of them.
\<close>

definition window_of :: "u64 \<Rightarrow> u64 set \<Rightarrow> u128 \<Rightarrow> bool" where
  "window_of h S w \<longleftrightarrow> (\<forall>i<128. bit w i \<longleftrightarrow> i \<le> h \<and> h - i \<in> S)"

definition tracker_inv :: "sequence_tracker \<Rightarrow> u64 set \<Rightarrow> bool" where
  "tracker_inv t S \<longleftrightarrow>
     (case trk_base t of
        None \<Rightarrow> S = {} \<and> trk_stats t = stats_zero
      | Some b \<Rightarrow> b \<le> highest t \<and> highest t \<le> u64_max \<and> highest t \<in> S \<and> S \<subseteq> {b..highest t}
          \<and> window_of (highest t) S (seen t)
          \<and> expected (trk_stats t) = highest t - b + 1
          \<and> unique (trk_stats t) = card S
          \<and> missing (trk_stats t) = expected (trk_stats t) - unique (trk_stats t))"

lemma tracker_inv_card: "tracker_inv t S \<Longrightarrow> finite S \<and> card S \<le> expected (trk_stats t)"
proof (cases "trk_base t")
  case (Some b)
  assume inv: "tracker_inv t S"
  then have "S \<subseteq> {b..highest t}" "b \<le> highest t" "expected (trk_stats t) = highest t - b + 1"
    using Some by (simp_all add: tracker_inv_def)
  then show ?thesis
    using card_mono [of "{b..highest t}" S] finite_subset [of S "{b..highest t}"] by simp
qed (simp add: tracker_inv_def)


lemma window_shift:
  assumes "window_of h S w" and "S \<subseteq> {..h}" and "0 < k" and "k < 128"
  shows "window_of (h + k) (insert (h + k) S) (push_bit k w OR 1)"
  unfolding window_of_def
proof (intro allI impI)
  fix i :: nat assume i: "i < 128"
  consider "i = 0" | "0 < i" "i < k" | "k \<le> i" by linarith
  then show "bit (push_bit k w OR 1) i \<longleftrightarrow> i \<le> h + k \<and> h + k - i \<in> insert (h + k) S"
  proof cases
    case 2
    then have "h + k - i \<notin> S" using assms(2) by auto
    then show ?thesis using 2 by (auto simp: bit_simps)
  next
    case 3
    then have "bit (push_bit k w OR 1) i \<longleftrightarrow> bit w (i - k)"
      using i assms(3) by (auto simp: bit_simps)
    also have "\<dots> \<longleftrightarrow> i - k \<le> h \<and> h - (i - k) \<in> S"
      using assms(1) i by (simp add: window_of_def)
    also have "\<dots> \<longleftrightarrow> i \<le> h + k \<and> h + k - i \<in> insert (h + k) S"
    proof -
      have "h - (i - k) = h + k - i" and "i - k \<le> h \<longleftrightarrow> i \<le> h + k" using 3 by linarith+
      moreover have "i \<le> h + k \<Longrightarrow> h + k - i \<noteq> h + k" using 3 assms(3) by linarith
      ultimately show ?thesis by auto
    qed
    finally show ?thesis .
  qed (simp add: bit_simps)
qed

lemma window_jump:
  assumes "S \<subseteq> {..h}" and "128 \<le> k"
  shows "window_of (h + k) (insert (h + k) S) 1"
  unfolding window_of_def
proof (intro allI impI)
  fix i :: nat assume "i < 128"
  then have "i = 0 \<or> h + k - i \<notin> S" using assms by auto
  then show "bit (1 :: u128) i \<longleftrightarrow> i \<le> h + k \<and> h + k - i \<in> insert (h + k) S"
    using assms \<open>i < 128\<close> by (auto simp: bit_simps)
qed

lemma window_mark:
  assumes "window_of h S w" and "k < 128" and "k \<le> h"
  shows "window_of h (insert (h - k) S) (w OR push_bit k 1)"
  using assms by (auto simp: window_of_def bit_simps)

lemma window_test: "window_of h S w \<Longrightarrow> k < 128 \<Longrightarrow> k \<le> h \<Longrightarrow>
    w AND push_bit k 1 \<noteq> 0 \<longleftrightarrow> h - k \<in> S"
  using and_exp_eq_0_iff_not_bit [of w k] by (auto simp: window_of_def push_bit_eq_mult)

lemma forward_position: "of_nat (h + unat (sq - of_nat h)) = (sq :: u16)"
  by simp

lemma behind_position: "unat (of_nat h - sq) \<le> h \<Longrightarrow> of_nat (h - unat (of_nat h - sq)) = (sq :: u16)"
  by (simp add: of_nat_diff)

lemma near_negative:
  fixes x :: u16
  assumes "x = 0 \<or> x > 0xffff - 127"
  shows "unat (- x) < 128"
  using assms unat_sub_if_size [of 0 x] unsigned_less [of x, where ?'a = nat]
  by (auto simp: word_less_nat_alt word_size)

lemma behind_bound:
  fixes sq :: u16
  assumes "sq - of_nat h = 0 \<or> sq - of_nat h > 0xffff - 127"
  shows "unat (of_nat h - sq) < 128"
  using near_negative [OF assms] by simp

lemma tracker_account_Inr:
  assumes "tracker_account t b c ext = (Inr ob, t')"
  shows "b \<le> highest t"
    and "t' = t\<lparr>trk_stats := \<lparr>expected = highest t - b + 1, received = received (trk_stats t) + 1,
        unique = unique (trk_stats t) + (if c = sequence_class.Duplicate then 0 else 1),
        missing = highest t - b + 1 -
          (unique (trk_stats t) + (if c = sequence_class.Duplicate then 0 else 1))\<rparr>\<rparr>"
    and "obs_class ob = c" and "extended_sequence ob = Some ext" and "obs_stats ob = trk_stats t'"
  using assms
  by (auto simp: tracker_account_def tracker_observation_def Let_def rust_simps
      split: option.splits if_splits)


text \<open>What one observation says of the set admitted before it.\<close>

definition admits :: "sequence_observation \<Rightarrow> u64 set" where
  "admits ob = (if is_unique ob then set_option (extended_sequence ob) else {})"

definition classified :: "sequence_observation \<Rightarrow> u16 \<Rightarrow> u64 set \<Rightarrow> bool" where
  "classified ob sq S \<longleftrightarrow>
     (case extended_sequence ob of
        None \<Rightarrow> \<not> is_unique ob \<and> obs_class ob \<noteq> sequence_class.Duplicate
      | Some e \<Rightarrow> of_nat e = sq \<and> (is_unique ob \<longleftrightarrow> e \<notin> S)
          \<and> (obs_class ob = sequence_class.Duplicate \<longleftrightarrow> e \<in> S))"

lemma tracker_account_inv:
  assumes acc: "tracker_account t b c ext = (Inr ob, t')"
    and t: "trk_base t = Some b" "highest t \<le> u64_max"
    and S: "S' = insert ext S" "finite S" "highest t \<in> S'" "S' \<subseteq> {b..highest t}"
      "window_of (highest t) S' (seen t)" "unique (trk_stats t) = card S"
    and c: "c = (if ext \<in> S then sequence_class.Duplicate else c)"
      "c \<in> {sequence_class.Advanced, sequence_class.Reordered, sequence_class.Duplicate}"
      "c = sequence_class.Duplicate \<Longrightarrow> ext \<in> S"
    and sq: "of_nat ext = sq"
  shows "tracker_inv t' (S \<union> admits ob) \<and> classified ob sq S"
proof -
  note r = tracker_account_Inr [OF acc]
  have u: "is_unique ob \<longleftrightarrow> c \<noteq> sequence_class.Duplicate"
    using r(3) c(2) by (auto simp: is_unique_def)
  have S': "S \<union> admits ob = S'"
    using r(4) u c S(1) by (auto simp: admits_def)
  have "card S' = card S + (if c = sequence_class.Duplicate then 0 else 1)"
    using S c by (auto simp: insert_absorb split: if_splits)
  then have "tracker_inv t' S'"
    using r(1,2) t S by (simp add: tracker_inv_def)
  moreover have "classified ob sq S"
    using r(3,4) u c sq by (auto simp: classified_def)
  ultimately show ?thesis by (simp add: S')
qed

lemma u16_le_u64_max: "unat (w :: u16) \<le> u64_max"
  using unsigned_less [of w, where ?'a = nat] by (simp add: u64_max_def)

lemma tracker_inv_Some:
  assumes "tracker_inv t S" and "trk_base t = Some b"
  shows "finite S" "S \<subseteq> {b..highest t}" "highest t \<in> S" "window_of (highest t) S (seen t)"
    "unique (trk_stats t) = card S" "highest t \<le> u64_max" "b \<le> highest t"
  using assms tracker_inv_card [OF assms(1)] by (auto simp: tracker_inv_def)

text \<open>The three shapes of an established tracker's step: forward, inside the window, and refused.\<close>

lemma tracker_advance_forward:
  fixes sq :: u16
  defines "f \<equiv> \<lambda>t. sq - of_nat (highest t)"
  assumes inv: "tracker_inv t S" and b: "trk_base t = Some b" and run: "\<not> restart_required t"
    and adv: "tracker_advance t sq = (Inr ob, t')" and near: "f t \<noteq> 0" "f t < 3000"
  shows "tracker_inv t' (S \<union> admits ob) \<and> classified ob sq S"
proof -
  let ?h = "highest t" and ?f = "sq - of_nat (highest t) :: u16"
  note S = tracker_inv_Some [OF inv b]
  define w where "w = (if ?f \<ge> 128 then 1 else push_bit (unat ?f) (seen t) OR 1)"
  define t1 where "t1 = t\<lparr>seen := w, highest := ?h + unat ?f, bad_next := None\<rparr>"
  have f: "0 < unat ?f" using near by (simp add: f_def unat_gt_0)
  have acc: "tracker_account t1 b sequence_class.Advanced (?h + unat ?f) = (Inr ob, t')"
    and le: "?h + unat ?f \<le> u64_max"
    using adv run b near
    by (auto simp: tracker_advance_def Let_def w_def t1_def checked_add_def f_def split: if_splits)
  have "S \<subseteq> {..?h}" using S(2) by auto
  then have "window_of (?h + unat ?f) (insert (?h + unat ?f) S) w"
    using S(4) f window_jump [of S ?h "unat ?f"] window_shift [of ?h S "seen t" "unat ?f"]
    by (simp add: w_def word_le_nat_alt not_le)
  then show ?thesis
    using S f b le
    by (intro tracker_account_inv [OF acc, where S' = "insert (?h + unat ?f) S"]) (auto simp: t1_def)
qed

lemma tracker_advance_window:
  fixes sq :: u16
  defines "f \<equiv> \<lambda>t. sq - of_nat (highest t)" and "k \<equiv> \<lambda>t. unat (of_nat (highest t) - sq)"
  assumes inv: "tracker_inv t S" and b: "trk_base t = Some b" and run: "\<not> restart_required t"
    and adv: "tracker_advance t sq = (Inr ob, t')"
    and near: "f t = 0 \<or> f t > 0xffff - 127" "\<not> (f t \<noteq> 0 \<and> f t < 3000)"
    and pos: "k t \<le> highest t" "b \<le> highest t - k t"
  shows "tracker_inv t' (S \<union> admits ob) \<and> classified ob sq S"
proof -
  let ?h = "highest t" and ?k = "unat (of_nat (highest t) - sq :: u16)"
  note S = tracker_inv_Some [OF inv b]
  have k: "?k < 128" using near(1) unfolding f_def by (rule behind_bound)
  define c where "c = (if seen t AND push_bit ?k 1 \<noteq> 0 then sequence_class.Duplicate
    else sequence_class.Reordered)"
  define t1 where "t1 = t\<lparr>seen := seen t OR push_bit ?k 1, bad_next := None\<rparr>"
  have acc: "tracker_account t1 b c (?h - ?k) = (Inr ob, t')"
    using adv run b near pos
    by (auto simp: tracker_advance_def Let_def c_def t1_def checked_sub_def f_def k_def split: if_splits)
  have mem: "seen t AND push_bit ?k 1 \<noteq> 0 \<longleftrightarrow> ?h - ?k \<in> S"
    using S(4) k pos(1) unfolding k_def by (rule window_test)
  show ?thesis
    using S pos b k mem window_mark [of ?h S "seen t" ?k] behind_position [of ?h sq]
    by (intro tracker_account_inv [OF acc, where S' = "insert (?h - ?k) S"])
      (auto simp: t1_def c_def k_def)
qed

lemma tracker_advance_aside:
  fixes sq :: u16
  defines "f \<equiv> \<lambda>t. sq - of_nat (highest t)" and "k \<equiv> \<lambda>t. unat (of_nat (highest t) - sq)"
  assumes inv: "tracker_inv t S" and adv: "tracker_advance t sq = (Inr ob, t')"
    and aside: "trk_base t = Some b \<Longrightarrow> \<not> restart_required t \<Longrightarrow>
      \<not> (f t \<noteq> 0 \<and> f t < 3000) \<and> ((f t = 0 \<or> f t > 0xffff - 127) \<longrightarrow> \<not> (k t \<le> highest t \<and> b \<le> highest t - k t))"
    and b: "trk_base t = None \<or> trk_base t = Some b"
  shows "tracker_inv t' (S \<union> admits ob) \<and> classified ob sq S"
proof (cases "restart_required t \<or> trk_base t = None")
  case True
  then show ?thesis
    using inv adv u16_le_u64_max
    by (auto simp: tracker_advance_def tracker_inv_def tracker_observation_def admits_def is_unique_def
        classified_def window_of_def stats_zero_def Let_def bit_simps split: option.splits if_splits)
next
  case False
  then show ?thesis
    using inv adv b aside
    by (auto simp: tracker_advance_def Let_def checked_sub_def tracker_observation_def admits_def
        is_unique_def classified_def tracker_inv_def f_def k_def split: if_splits)
qed

lemma tracker_advance_inv:
  assumes inv: "tracker_inv t S" and adv: "tracker_advance t sq = (Inr ob, t')"
  shows "tracker_inv t' (S \<union> admits ob) \<and> classified ob sq S"
proof (cases "trk_base t")
  case None
  with inv adv show ?thesis by (intro tracker_advance_aside) auto
next
  case (Some b)
  note c = tracker_advance_forward [OF inv Some _ adv] tracker_advance_window [OF inv Some _ adv]
    tracker_advance_aside [OF inv adv, of b]
  show ?thesis
    by (cases "restart_required t") (use c Some in blast)+
qed


section \<open>The admission contract\<close>

text \<open>
  What the reorder buffer and every other client rely on, stated over any tracker: a refusal
  changes nothing, a report extends the admitted set by what it admits, and it is classified
  truthfully against the set admitted before. A run offers packets in arrival order; an
  arithmetic or ownership refusal leaves the tracker as it was and the run goes on, as the
  caller of \<open>observe\<close> may.
\<close>

type_synonym 't observer =
  "'t \<Rightarrow> stream_key \<Rightarrow> rtp_packet \<Rightarrow> (continuity_error + sequence_observation) \<times> 't"

fun admission_run :: "'t observer \<Rightarrow> 't \<Rightarrow> (stream_key \<times> rtp_packet) list \<Rightarrow>
    (continuity_error + sequence_observation) list \<times> 't" where
  "admission_run obs t [] = ([], t)"
| "admission_run obs t ((key, p) # ps) =
     (let (r, t1) = obs t key p; (rs, t2) = admission_run obs t1 ps in (r # rs, t2))"

fun admitted_positions :: "(continuity_error + sequence_observation) list \<Rightarrow> u64 list" where
  "admitted_positions [] = []"
| "admitted_positions (Inl e # rs) = admitted_positions rs"
| "admitted_positions (Inr ob # rs) =
     (case extended_sequence ob of
        Some e \<Rightarrow> if is_unique ob then e # admitted_positions rs else admitted_positions rs
      | None \<Rightarrow> admitted_positions rs)"

locale admission =
  fixes obs :: "'t observer"
    and inv :: "'t \<Rightarrow> u64 set \<Rightarrow> bool"
  assumes refusal: "obs t key p = (Inl e, t') \<Longrightarrow> t' = t"
    and extends: "inv t S \<Longrightarrow> obs t key p = (Inr ob, t') \<Longrightarrow> inv t' (S \<union> admits ob)"
    and truthful: "inv t S \<Longrightarrow> obs t key p = (Inr ob, t') \<Longrightarrow> classified ob (rtp_sequence p) S"
begin

lemma run_step:
  assumes run: "admission_run obs t ((key, p) # ps) = (rs, t')"
  obtains (refused) e rs1 where "admission_run obs t ps = (rs1, t')" "rs = Inl e # rs1"
  | (seen) ob t1 rs1 where "obs t key p = (Inr ob, t1)" "admission_run obs t1 ps = (rs1, t')"
      "rs = Inr ob # rs1"
proof -
  obtain r t1 where ob: "obs t key p = (r, t1)" by fastforce
  obtain rs1 where "admission_run obs t1 ps = (rs1, t')" "rs = r # rs1"
    using run ob by (auto split: prod.splits)
  then show thesis using that ob refusal by (cases r) blast+
qed

lemma run_admits:
  assumes "inv t S" and "admission_run obs t ps = (rs, t')"
  shows "inv t' (S \<union> set (admitted_positions rs)) \<and> distinct (admitted_positions rs)
    \<and> S \<inter> set (admitted_positions rs) = {}"
  using assms
proof (induction ps arbitrary: t S rs)
  case (Cons kp ps)
  obtain key p where kp: "kp = (key, p)" by fastforce
  from Cons.prems(2) [unfolded kp] show ?case
  proof (cases rule: run_step)
    case (refused e rs1)
    then show ?thesis using Cons.IH Cons.prems(1) by simp
  next
    case (seen ob t1 rs1)
    have "inv t1 (S \<union> admits ob)" and "classified ob (rtp_sequence p) S"
      using extends truthful Cons.prems(1) seen(1) by blast+
    with seen Cons.IH [of t1 "S \<union> admits ob" rs1] show ?thesis
      by (auto simp: admits_def classified_def split: option.splits if_splits)
  qed
qed simp

lemma run_classifies:
  assumes "inv t {}" and "admission_run obs t ps = (rs, t1)" and "obs t1 key p = (Inr ob, t2)"
    and "extended_sequence ob = Some e"
  shows "of_nat e = rtp_sequence p
    \<and> (is_unique ob \<longleftrightarrow> e \<notin> set (admitted_positions rs))
    \<and> (obs_class ob = sequence_class.Duplicate \<longleftrightarrow> e \<in> set (admitted_positions rs))"
proof -
  have "inv t1 (set (admitted_positions rs))" using run_admits [OF assms(1,2)] by simp
  then show ?thesis using truthful assms(3,4) by (fastforce simp: classified_def)
qed

end

lemma tracker_observe_cases:
  assumes "tracker_observe t key p = (r, t')"
  shows "(\<exists>e. r = Inl e \<and> t' = t) \<or>
    (\<exists>ob. r = Inr ob \<and> key = trk_key t \<and> rtp_ssrc p = key_ssrc key
      \<and> tracker_advance t (rtp_sequence p) = (Inr ob, t'))"
  using assms by (auto simp: tracker_observe_def split: if_splits prod.splits sum.splits)

lemma tracker_new_inv: "tracker_new key pt = Inr t \<Longrightarrow> tracker_inv t {}"
  by (auto simp: tracker_new_def tracker_inv_def split: if_splits)

interpretation trk: admission tracker_observe tracker_inv
proof
  show "tracker_observe t key p = (Inl e, t') \<Longrightarrow> t' = t" for t key p e t'
    by (auto dest: tracker_observe_cases)
  show "tracker_inv t S \<Longrightarrow> tracker_observe t key p = (Inr ob, t') \<Longrightarrow> tracker_inv t' (S \<union> admits ob)"
    for t S key p ob t'
    by (auto dest!: tracker_observe_cases dest: tracker_advance_inv)
  show "tracker_inv t S \<Longrightarrow> tracker_observe t key p = (Inr ob, t') \<Longrightarrow> classified ob (rtp_sequence p) S"
    for t S key p ob t'
    by (auto dest!: tracker_observe_cases dest: tracker_advance_inv)
qed

abbreviation tracker_run where
  "tracker_run \<equiv> admission_run tracker_observe"

section \<open>Properties\<close>

text \<open>C13: No sequence position is admitted twice. In any run of a freshly opened tracker, over any
  packets and any refusals in between, the extended positions reported as new (baseline, advanced
  or reordered) are pairwise distinct; the \<open>unique\<close> counter is exactly their number, it never
  exceeds \<open>expected\<close>, and \<open>missing\<close> is exactly the difference (the unchecked subtraction in the
  code cannot underflow).\<close>

theorem tracker_run_exact:
  assumes "tracker_new key pt = Inr t0" and "tracker_run t0 ps = (rs, t)"
  shows "distinct (admitted_positions rs)
    \<and> unique (trk_stats t) = length (admitted_positions rs)
    \<and> unique (trk_stats t) \<le> expected (trk_stats t)
    \<and> missing (trk_stats t) = expected (trk_stats t) - unique (trk_stats t)"
proof -
  have inv: "tracker_inv t (set (admitted_positions rs))" and d: "distinct (admitted_positions rs)"
    using trk.run_admits [OF tracker_new_inv [OF assms(1)] assms(2)] by auto
  have "unique (trk_stats t) = card (set (admitted_positions rs))"
    and "missing (trk_stats t) = expected (trk_stats t) - unique (trk_stats t)"
    using inv by (auto simp: tracker_inv_def stats_zero_def split: option.splits)
  then show ?thesis
    using tracker_inv_card [OF inv] d by (simp add: distinct_card)
qed

text \<open>Duplicate suppression is exact. After any run of a fresh tracker, a packet that is mapped
  to an extended position \<open>e\<close> carries the sequence number \<open>e\<close> modulo 65536; it is reported as a
  duplicate exactly when \<open>e\<close> was admitted earlier in the run, and as new exactly when it was not.
  The 128-bit window never forgets, and never invents, a position it still reports on.\<close>

theorem tracker_duplicate_exact:
  assumes "tracker_new key pt = Inr t0" and "tracker_run t0 ps = (rs, t)"
    and "tracker_observe t k p = (Inr ob, t')" and "extended_sequence ob = Some e"
  shows "of_nat e = rtp_sequence p
    \<and> (is_unique ob \<longleftrightarrow> e \<notin> set (admitted_positions rs))
    \<and> (obs_class ob = sequence_class.Duplicate \<longleftrightarrow> e \<in> set (admitted_positions rs))"
  using trk.run_classifies [OF tracker_new_inv [OF assms(1)] assms(2-4)] .

lemma tracker_restart_required_run:
  assumes "restart_required t" and "tracker_run t ps = (rs, t')"
  shows "t' = t \<and> (\<forall>r\<in>set rs. case r of Inl _ \<Rightarrow> True
    | Inr ob \<Rightarrow> obs_class ob = sequence_class.RestartRequired \<and> extended_sequence ob = None)"
  using assms
proof (induction ps arbitrary: rs)
  case (Cons kp ps)
  obtain key p where kp: "kp = (key, p)" by fastforce
  from Cons.prems(2) [unfolded kp] show ?case
  proof (cases rule: trk.run_step)
    case (seen ob t1 rs1)
    then have "tracker_advance t (rtp_sequence p) = (Inr ob, t1)"
      using tracker_observe_cases by fastforce
    then have "t1 = t" "ob = tracker_observation t sequence_class.RestartRequired None"
      using Cons.prems(1) by (auto simp: tracker_advance_def)
    then show ?thesis using seen Cons.IH [of rs1] Cons.prems(1) by (simp add: tracker_observation_def)
  qed (use Cons in simp)
qed simp

lemma tracker_observe_restart:
  assumes "tracker_observe t k p = (Inr ob, t')" and "obs_class ob = sequence_class.RestartRequired"
  shows "restart_required t'"
proof -
  have "tracker_advance t (rtp_sequence p) = (Inr ob, t')"
    using tracker_observe_cases [OF assms(1)] by simp
  then show ?thesis
    using assms(2)
    by (auto simp: tracker_advance_def tracker_observation_def Let_def split: option.splits if_splits
        dest: tracker_account_Inr(3))
qed

text \<open>A confirmed restart is never merged into the old epoch. Once an observation reports that a
  restart is required, every later observation of that tracker reports the same without a position
  and changes nothing, and the only tracker \<open>restart\<close> will open is a fresh one, with no admitted
  position, for the same ingress under a strictly newer generation.\<close>

theorem tracker_restart_final:
  assumes "tracker_observe t k p = (Inr ob, t1)" and "obs_class ob = sequence_class.RestartRequired"
    and "tracker_run t1 ps = (rs, t2)"
  shows "t2 = t1
    \<and> (\<forall>r\<in>set rs. case r of Inl _ \<Rightarrow> True
        | Inr ob \<Rightarrow> obs_class ob = sequence_class.RestartRequired \<and> extended_sequence ob = None)
    \<and> (\<forall>key pt n. tracker_restart t2 key pt = Inr n \<longrightarrow>
        ingress key = ingress (trk_key t1) \<and> generation (trk_key t1) < generation key
        \<and> trk_key n = key \<and> tracker_inv n {})"
proof -
  note r = tracker_restart_required_run [OF tracker_observe_restart [OF assms(1,2)] assms(3)]
  have "tracker_restart t1 key pt = Inr n \<Longrightarrow>
      ingress key = ingress (trk_key t1) \<and> generation (trk_key t1) < generation key
      \<and> trk_key n = key \<and> tracker_inv n {}" for key pt n
    using tracker_new_inv [of key pt n]
    by (auto simp: tracker_restart_def tracker_new_def split: if_splits)
  with r show ?thesis by blast
qed

text \<open>A concrete stream for the witnesses: SSRC 7, payload type 96, header-only packets.\<close>

definition sample_key :: stream_key where
  "sample_key = \<lparr>ingress = 1, generation = 1, key_ssrc = 7\<rparr>"

definition sample_packet :: "u16 \<Rightarrow> rtp_packet" where
  "sample_packet sq =
     \<lparr>rtp_bytes = [0x80, 96] @ to_be16 sq @ [0, 0, 0, 0, 0, 0, 0, 7],
      rtp_payload_start = 12, rtp_payload_end = 12, rtp_extension = None\<rparr>"

definition sample_tracker :: sequence_tracker where
  "sample_tracker =
     \<lparr>trk_key = sample_key, trk_payload_type = 96, probation = None, trk_base = None, highest = 0,
      seen = 0, bad_next = None, restart_required = False, trk_stats = stats_zero\<rparr>"

lemma sample_packet_reads [simp]:
  "rtp_sequence (sample_packet sq) = sq" "rtp_ssrc (sample_packet sq) = 7"
  "rtp_payload_type (sample_packet sq) = 96"
  by (simp_all add: sample_packet_def rtp_sequence_def rtp_ssrc_def rtp_payload_type_def subslice_def
      be32_def to_be16_def be16_to_be16 [unfolded to_be16_def])

lemma sample_tracker_new: "tracker_new sample_key 96 = Inr sample_tracker"
  by (simp add: tracker_new_def sample_key_def sample_tracker_def)

definition sample_arrivals :: "(stream_key \<times> rtp_packet) list" where
  "sample_arrivals = map (\<lambda>sq. (sample_key, sample_packet sq)) [0xfffe, 0xffff, 1, 0, 0]"

lemma sample_run:
  "admitted_positions (fst (tracker_run sample_tracker sample_arrivals)) = [65535, 65537, 65536]"
  "trk_stats (snd (tracker_run sample_tracker sample_arrivals)) =
     \<lparr>expected = 3, received = 4, unique = 3, missing = 0\<rparr>"
  by (simp_all add: sample_arrivals_def tracker_observe_def tracker_advance_def tracker_account_def
      tracker_observation_def sample_tracker_def sample_key_def checked_add_def checked_sub_def
      u64_max_def is_unique_def Let_def)

theorem tracker_run_exact_witness:
  "tracker_new sample_key 96 = Inr sample_tracker
   \<and> tracker_run sample_tracker sample_arrivals =
       (fst (tracker_run sample_tracker sample_arrivals), snd (tracker_run sample_tracker sample_arrivals))
   \<and> distinct [65535, 65537, 65536 :: nat]
   \<and> unique (trk_stats (snd (tracker_run sample_tracker sample_arrivals))) = 3"
  using tracker_run_exact [OF sample_tracker_new, of sample_arrivals
      "fst (tracker_run sample_tracker sample_arrivals)" "snd (tracker_run sample_tracker sample_arrivals)"]
    sample_run sample_tracker_new by simp


lemma sample_next:
  "tracker_observe (snd (tracker_run sample_tracker sample_arrivals)) sample_key (sample_packet 0)
   = (Inr \<lparr>obs_class = sequence_class.Duplicate, extended_sequence = Some 65536,
           obs_stats = \<lparr>expected = 3, received = 5, unique = 3, missing = 0\<rparr>\<rparr>,
      (snd (tracker_run sample_tracker sample_arrivals))
        \<lparr>trk_stats := \<lparr>expected = 3, received = 5, unique = 3, missing = 0\<rparr>\<rparr>)"
  by (simp add: sample_arrivals_def tracker_observe_def tracker_advance_def tracker_account_def
      tracker_observation_def sample_tracker_def sample_key_def checked_add_def checked_sub_def
      u64_max_def is_unique_def Let_def)

theorem tracker_duplicate_exact_witness:
  "65536 \<in> set (admitted_positions (fst (tracker_run sample_tracker sample_arrivals)))
   \<and> of_nat 65536 = rtp_sequence (sample_packet 0)"
  using tracker_duplicate_exact [OF sample_tracker_new prod.collapse [symmetric] sample_next]
  by simp

definition sample_broken :: sequence_tracker where
  "sample_broken = sample_tracker\<lparr>trk_base := Some 10, highest := 10, seen := 1, bad_next := Some 20001\<rparr>"

lemma sample_restart:
  "tracker_observe sample_broken sample_key (sample_packet 20001)
   = (Inr \<lparr>obs_class = sequence_class.RestartRequired, extended_sequence = None, obs_stats = stats_zero\<rparr>,
      sample_broken\<lparr>restart_required := True\<rparr>)"
  by (simp add: sample_broken_def tracker_observe_def tracker_advance_def tracker_observation_def
      sample_tracker_def sample_key_def Let_def)

theorem tracker_restart_final_witness:
  "snd (tracker_run (sample_broken\<lparr>restart_required := True\<rparr>) [(sample_key, sample_packet 20002)])
   = sample_broken\<lparr>restart_required := True\<rparr>"
  using tracker_restart_final [OF sample_restart _ prod.collapse [symmetric],
      of "[(sample_key, sample_packet 20002)]"] by simp

end
