(* ===== verification/Reorder_Buffer.thy ===== *)
theory Reorder_Buffer
  imports Sequence_Tracker "HOL-Library.Multiset"
begin

text \<open>
  The bounded jitter buffer, \<open>crates/fss-packet/src/reorder.rs\<close>: transactional admission over the
  sequence tracker, ordered delivery with explicit gaps, deadlines anchored to the oldest queued
  witness, drain, cancellation and restart. Whether the allocator can supply a buffer of a given
  size is the argument \<open>alloc\<close> of the operations that reserve memory. Delivered packets and gaps
  are proved to tile the sequence space without overlap, and every buffered datagram to be
  delivered exactly once, unchanged.
\<close>

section \<open>reorder.rs\<close>

record reorder_limits =
  rl_packet :: packet_limits
  rl_max_packets :: usize
  rl_max_bytes :: usize
  rl_max_delay_ns :: u64

definition reorder_limits_default :: reorder_limits where
  "reorder_limits_default =
     \<lparr>rl_packet = packet_limits_default, rl_max_packets = 128, rl_max_bytes = 8 * 1024 * 1024,
      rl_max_delay_ns = 100000000\<rparr>"

datatype reorder_error =
    Configuration
  | Packet packet_error
  | Continuity continuity_error
  | Closed
  | PacketCapacity
  | ByteCapacity
  | Allocation
  | ConflictingDuplicate

record ordered_rtp_packet =
  op_key :: stream_key
  op_sequence :: u64
  op_received_ns :: u64
  op_admitted_ns :: u64
  op_bytes :: bytes
  op_limits :: packet_limits

definition ordered_packet :: "ordered_rtp_packet \<Rightarrow> packet_error + rtp_packet" where
  "ordered_packet q = rtp_parse (op_bytes q) (op_limits q)"

datatype reorder_disposition =
    Buffered
  | NotAdmitted
  | Duplicate
  | TooLate
  | RestartRequired

datatype queue_discard_reason =
    Cancelled
  | RestartRequired

record queue_discard =
  qd_key :: stream_key
  qd_reason :: queue_discard_reason
  qd_packets :: usize
  qd_bytes :: usize
  qd_first_sequence :: "u64 option"
  qd_last_sequence :: "u64 option"

record reorder_admission =
  ra_sequence :: sequence_observation
  ra_disposition :: reorder_disposition
  ra_discarded :: "queue_discard option"

datatype reorder_gap_reason = Deadline | EndOfInput

record reorder_gap =
  gap_key :: stream_key
  gap_first_sequence :: u64
  gap_last_sequence :: u64
  gap_reason :: reorder_gap_reason

datatype reorder_poll =
    Packet ordered_rtp_packet
  | Gap reorder_gap
  | Pending "u64 option"
  | Ended

datatype phase = Open | Draining | Closed

record reorder_buffer =
  rb_key :: stream_key
  rb_limits :: reorder_limits
  rb_tracker :: sequence_tracker
  rb_queue :: "ordered_rtp_packet list"
  rb_bytes :: usize
  rb_next_sequence :: "u64 option"
  rb_last_now_ns :: u64
  rb_phase :: phase

definition reorder_new ::
  "(usize \<Rightarrow> bool) \<Rightarrow> stream_key \<Rightarrow> u8 \<Rightarrow> reorder_limits \<Rightarrow> reorder_error + reorder_buffer" where
  "reorder_new alloc key pt limits =
     try_then (map_err reorder_error.Packet (packet_limits_validate (rl_packet limits))) (\<lambda>_.
     if \<not> (1 \<le> rl_max_packets limits \<and> rl_max_packets limits \<le> 128)
        \<or> \<not> (12 \<le> rl_max_bytes limits \<and> rl_max_bytes limits \<le> 16 * 1024 * 1024)
        \<or> \<not> (1 \<le> rl_max_delay_ns limits \<and> rl_max_delay_ns limits \<le> 60000000000)
     then Inl reorder_error.Configuration
     else
       try_then (map_err reorder_error.Continuity (tracker_new key pt)) (\<lambda>tracker.
       if \<not> alloc (rl_max_packets limits) then Inl reorder_error.Allocation
       else Inr \<lparr>rb_key = key, rb_limits = limits, rb_tracker = tracker, rb_queue = [],
                 rb_bytes = 0, rb_next_sequence = None, rb_last_now_ns = 0, rb_phase = Open\<rparr>))"

definition reorder_next_wake_ns :: "reorder_buffer \<Rightarrow> u64 option" where
  "reorder_next_wake_ns b =
     (if rb_phase b \<noteq> Open then Some (rb_last_now_ns b)
      else case rb_queue b of
        [] \<Rightarrow> None
      | first # _ \<Rightarrow>
          if Some (op_sequence first) = rb_next_sequence b then Some (rb_last_now_ns b)
          else checked_add (min_list (map op_admitted_ns (rb_queue b))) (rl_max_delay_ns (rb_limits b)))"

definition reorder_check_time :: "reorder_buffer \<Rightarrow> u64 \<Rightarrow> reorder_error + unit" where
  "reorder_check_time b now =
     (if now < rb_last_now_ns b then Inl (reorder_error.Continuity continuity_error.ClockReversed)
      else Inr ())"

definition reorder_retire ::
  "reorder_buffer \<Rightarrow> queue_discard_reason \<Rightarrow> queue_discard \<times> reorder_buffer" where
  "reorder_retire b reason =
     (\<lparr>qd_key = rb_key b, qd_reason = reason, qd_packets = length (rb_queue b), qd_bytes = rb_bytes b,
       qd_first_sequence = (case rb_queue b of [] \<Rightarrow> None | q # _ \<Rightarrow> Some (op_sequence q)),
       qd_last_sequence = (case rb_queue b of [] \<Rightarrow> None | q # qs \<Rightarrow> Some (op_sequence (last (q # qs))))\<rparr>,
      b\<lparr>rb_queue := [], rb_bytes := 0\<rparr>)"

text \<open>\<open>slice::partition_point\<close> on a partitioned slice, and \<open>Vec::insert\<close> at an index.\<close>

definition partition_point :: "('a \<Rightarrow> bool) \<Rightarrow> 'a list \<Rightarrow> usize" where
  "partition_point P xs = length (takeWhile P xs)"

definition insert_at :: "usize \<Rightarrow> 'a \<Rightarrow> 'a list \<Rightarrow> 'a list" where
  "insert_at i x xs = take i xs @ x # drop i xs"

definition reorder_ingest_received ::
  "(usize \<Rightarrow> bool) \<Rightarrow> reorder_buffer \<Rightarrow> stream_key \<Rightarrow> bytes \<Rightarrow> u64 \<Rightarrow> u64 \<Rightarrow>
     (reorder_error + reorder_admission) \<times> reorder_buffer" where
  "reorder_ingest_received alloc b key wire received_ns now_ns =
     (if key \<noteq> rb_key b then (Inl (reorder_error.Continuity continuity_error.StreamMismatch), b)
      else if rb_phase b \<noteq> Open then (Inl reorder_error.Closed, b)
      else (case reorder_check_time b now_ns of Inl e \<Rightarrow> (Inl e, b) | Inr _ \<Rightarrow>
      if received_ns > now_ns then (Inl (reorder_error.Continuity continuity_error.ClockReversed), b)
      else (case rtp_parse wire (rl_packet (rb_limits b)) of Inl e \<Rightarrow> (Inl (reorder_error.Packet e), b)
      | Inr packet \<Rightarrow>
      (case tracker_observe (rb_tracker b) key packet of
         (Inl e, _) \<Rightarrow> (Inl (reorder_error.Continuity e), b)
       | (Inr sequence, tracker) \<Rightarrow>
         let admit = (\<lambda>b disposition discarded.
               (Inr \<lparr>ra_sequence = sequence, ra_disposition = disposition, ra_discarded = discarded\<rparr>,
                b\<lparr>rb_tracker := tracker, rb_last_now_ns := now_ns\<rparr>)) in
         if is_unique sequence then
           (case extended_sequence sequence of
              None \<Rightarrow> (Inl (reorder_error.Continuity continuity_error.Exhausted), b)
            | Some extended \<Rightarrow>
              if (case rb_next_sequence b of None \<Rightarrow> False | Some n \<Rightarrow> extended < n)
              then admit b reorder_disposition.TooLate None
              else if length (rb_queue b) = rl_max_packets (rb_limits b)
              then (Inl reorder_error.PacketCapacity, b)
              else
                (case (case checked_add (rb_bytes b) (length wire) of
                         None \<Rightarrow> None
                       | Some s \<Rightarrow> if s \<le> rl_max_bytes (rb_limits b) then Some s else None) of
                   None \<Rightarrow> (Inl reorder_error.ByteCapacity, b)
                 | Some bytes \<Rightarrow>
                   if extended = u64_max \<or> checked_add now_ns (rl_max_delay_ns (rb_limits b)) = None
                   then (Inl (reorder_error.Continuity continuity_error.Exhausted), b)
                   else if \<not> alloc (length wire) then (Inl reorder_error.Allocation, b)
                   else
                     let index = partition_point (\<lambda>q. op_sequence q < extended) (rb_queue b);
                         b = b\<lparr>rb_queue := insert_at index
                                 \<lparr>op_key = key, op_sequence = extended, op_received_ns = received_ns,
                                  op_admitted_ns = now_ns, op_bytes = wire,
                                  op_limits = rl_packet (rb_limits b)\<rparr> (rb_queue b),
                               rb_bytes := bytes\<rparr>;
                         b = (if rb_next_sequence b = None then b\<lparr>rb_next_sequence := Some extended\<rparr> else b)
                     in admit b reorder_disposition.Buffered None))
         else if obs_class sequence = sequence_class.Duplicate then
           if list_ex (\<lambda>q. Some (op_sequence q) = extended_sequence sequence \<and> op_bytes q \<noteq> wire) (rb_queue b)
           then (Inl reorder_error.ConflictingDuplicate, b)
           else admit b reorder_disposition.Duplicate None
         else if obs_class sequence = sequence_class.RestartRequired then
           let (discard, b) = reorder_retire b queue_discard_reason.RestartRequired;
               b = b\<lparr>rb_phase := phase.Closed\<rparr>
           in admit b reorder_disposition.RestartRequired (Some discard)
         else admit b reorder_disposition.NotAdmitted None))))"

definition reorder_ingest ::
  "(usize \<Rightarrow> bool) \<Rightarrow> reorder_buffer \<Rightarrow> stream_key \<Rightarrow> bytes \<Rightarrow> u64 \<Rightarrow>
     (reorder_error + reorder_admission) \<times> reorder_buffer" where
  "reorder_ingest alloc b key wire now_ns = reorder_ingest_received alloc b key wire now_ns now_ns"

definition reorder_poll_step :: "reorder_buffer \<Rightarrow> u64 \<Rightarrow> (reorder_error + reorder_poll) \<times> reorder_buffer" where
  "reorder_poll_step b now_ns =
     (case reorder_check_time b now_ns of
        Inl e \<Rightarrow> (Inl e, b)
      | Inr _ \<Rightarrow>
        let b = b\<lparr>rb_last_now_ns := now_ns\<rparr> in
        (case rb_queue b of
           [] \<Rightarrow> if rb_phase b \<noteq> Open then (Inr Ended, b\<lparr>rb_phase := phase.Closed\<rparr>)
                 else (Inr (Pending None), b)
         | first # rest \<Rightarrow>
           let n = (case rb_next_sequence b of None \<Rightarrow> op_sequence first | Some n \<Rightarrow> n) in
           if op_sequence first = n then
             (Inr (reorder_poll.Packet first),
              b\<lparr>rb_queue := rest, rb_bytes := rb_bytes b - length (op_bytes first),
                rb_next_sequence := Some (op_sequence first + 1)\<rparr>)
           else
             let deadline = reorder_next_wake_ns b in
             if rb_phase b = Draining \<or> (case deadline of None \<Rightarrow> False | Some at \<Rightarrow> now_ns \<ge> at) then
               (Inr (Gap \<lparr>gap_key = rb_key b, gap_first_sequence = n,
                          gap_last_sequence = op_sequence first - 1,
                          gap_reason = (if rb_phase b = Draining then EndOfInput else Deadline)\<rparr>),
                b\<lparr>rb_next_sequence := Some (op_sequence first)\<rparr>)
             else (Inr (Pending deadline), b)))"

definition reorder_finish :: "reorder_buffer \<Rightarrow> reorder_buffer" where
  "reorder_finish b = (if rb_phase b = Open then b\<lparr>rb_phase := Draining\<rparr> else b)"

definition reorder_cancel :: "reorder_buffer \<Rightarrow> queue_discard \<times> reorder_buffer" where
  "reorder_cancel b = reorder_retire (b\<lparr>rb_phase := phase.Closed\<rparr>) queue_discard_reason.Cancelled"

definition reorder_restart ::
  "(usize \<Rightarrow> bool) \<Rightarrow> reorder_buffer \<Rightarrow> stream_key \<Rightarrow> u8 \<Rightarrow> reorder_limits \<Rightarrow>
     reorder_error + reorder_buffer" where
  "reorder_restart alloc b key pt limits =
     try_then (map_err reorder_error.Continuity (tracker_restart (rb_tracker b) key pt)) (\<lambda>_.
       reorder_new alloc key pt limits)"

definition reorder_queued_packets :: "reorder_buffer \<Rightarrow> usize" where
  "reorder_queued_packets b = length (rb_queue b)"

definition reorder_queued_bytes :: "reorder_buffer \<Rightarrow> usize" where
  "reorder_queued_bytes b = rb_bytes b"

definition reorder_stats :: "reorder_buffer \<Rightarrow> sequence_stats" where
  "reorder_stats b = trk_stats (rb_tracker b)"


section \<open>Invariant\<close>

text \<open>
  \<open>S\<close> is the set of admitted extended positions, as in \<open>tracker_inv\<close>. While input can still be
  delivered, the queue holds exactly the admitted positions at or after the delivery cursor.
\<close>

definition queued_ok :: "reorder_buffer \<Rightarrow> ordered_rtp_packet \<Rightarrow> bool" where
  "queued_ok b q \<longleftrightarrow>
     op_key q = rb_key b \<and> op_limits q = rl_packet (rb_limits b) \<and> op_sequence q < u64_max
     \<and> op_received_ns q \<le> op_admitted_ns q \<and> op_admitted_ns q \<le> rb_last_now_ns b
     \<and> op_admitted_ns q + rl_max_delay_ns (rb_limits b) \<le> u64_max
     \<and> (\<exists>p. ordered_packet q = Inr p \<and> rtp_sequence p = of_nat (op_sequence q)
          \<and> rtp_ssrc p = key_ssrc (rb_key b) \<and> rtp_payload_type p = trk_payload_type (rb_tracker b))"

definition queue_bytes :: "ordered_rtp_packet list \<Rightarrow> usize" where
  "queue_bytes qs = sum_list (map (\<lambda>q. length (op_bytes q)) qs)"

definition reorder_inv :: "reorder_buffer \<Rightarrow> u64 set \<Rightarrow> bool" where
  "reorder_inv b S \<longleftrightarrow>
     tracker_inv (rb_tracker b) S
     \<and> sorted_wrt (<) (map op_sequence (rb_queue b))
     \<and> rb_bytes b = queue_bytes (rb_queue b)
     \<and> length (rb_queue b) \<le> rl_max_packets (rb_limits b)
     \<and> rb_bytes b \<le> rl_max_bytes (rb_limits b)
     \<and> (\<forall>q\<in>set (rb_queue b). queued_ok b q)
     \<and> (rb_phase b = phase.Closed \<longrightarrow> rb_queue b = [])
     \<and> (case rb_next_sequence b of
          None \<Rightarrow> S = {} \<and> rb_queue b = []
        | Some n \<Rightarrow> rb_phase b \<noteq> phase.Closed \<longrightarrow> op_sequence ` set (rb_queue b) = {e\<in>S. n \<le> e})"

lemma reorder_inv_parts:
  assumes "reorder_inv b S"
  shows "tracker_inv (rb_tracker b) S" "sorted_wrt (<) (map op_sequence (rb_queue b))"
    "rb_bytes b = queue_bytes (rb_queue b)" "length (rb_queue b) \<le> rl_max_packets (rb_limits b)"
    "rb_bytes b \<le> rl_max_bytes (rb_limits b)" "\<And>q. q \<in> set (rb_queue b) \<Longrightarrow> queued_ok b q"
    "rb_phase b = phase.Closed \<Longrightarrow> rb_queue b = []"
    "rb_next_sequence b = None \<Longrightarrow> S = {} \<and> rb_queue b = []"
    "\<And>n. rb_next_sequence b = Some n \<Longrightarrow> rb_phase b \<noteq> phase.Closed \<Longrightarrow>
       op_sequence ` set (rb_queue b) = {e\<in>S. n \<le> e}"
  using assms by (auto simp: reorder_inv_def)

lemma queue_bytes_simps [simp]:
  "queue_bytes [] = 0" "queue_bytes (q # qs) = length (op_bytes q) + queue_bytes qs"
  "queue_bytes (qs @ rs) = queue_bytes qs + queue_bytes rs"
  by (simp_all add: queue_bytes_def)

lemma insert_at_set [simp]: "set (insert_at i x xs) = insert x (set xs)"
  unfolding insert_at_def by (metis append_take_drop_id list.set(2) set_append Un_insert_right)

lemma insert_at_length [simp]: "length (insert_at i x xs) = Suc (length xs)"
  by (simp add: insert_at_def)

lemma insert_at_mset [simp]: "mset (insert_at i x xs) = add_mset x (mset xs)"
  unfolding insert_at_def by (metis append_take_drop_id mset.simps(2) mset_append union_mset_add_mset_right)

lemma insert_at_bytes [simp]: "queue_bytes (insert_at i q qs) = length (op_bytes q) + queue_bytes qs"
  unfolding queue_bytes_def sum_mset_sum_list [symmetric] mset_map by simp

lemma insert_at_partition_sorted:
  assumes "sorted_wrt (<) (map op_sequence qs)" and "op_sequence q \<notin> op_sequence ` set qs"
  shows "sorted_wrt (<) (map op_sequence (insert_at (partition_point (\<lambda>r. op_sequence r < op_sequence q) qs) q qs))"
  using assms
proof (induction qs)
  case (Cons r qs)
  then show ?case
    by (cases "op_sequence r < op_sequence q")
      (fastforce simp: insert_at_def partition_point_def dest: in_set_takeD in_set_dropD)+
qed (simp add: insert_at_def partition_point_def)

section \<open>Every operation keeps the invariant\<close>

lemma reorder_new_inv:
  assumes "reorder_new alloc key pt limits = Inr b"
  shows "reorder_inv b {}"
  using assms tracker_new_inv
  by (auto simp: reorder_new_def reorder_inv_def rust_simps split: if_splits)

text \<open>The inverted shape of a successful admission.\<close>

lemma reorder_ingest_refused:
  assumes "reorder_ingest_received alloc b key wire received_ns now_ns = (Inl e, b')"
  shows "b' = b"
  using assms
  by (auto simp: reorder_ingest_received_def Let_def split: if_splits sum.splits prod.splits option.splits)


definition entry_of :: "reorder_buffer \<Rightarrow> bytes \<Rightarrow> u64 \<Rightarrow> u64 \<Rightarrow> u64 \<Rightarrow> ordered_rtp_packet" where
  "entry_of b wire received_ns now_ns e =
     \<lparr>op_key = rb_key b, op_sequence = e, op_received_ns = received_ns, op_admitted_ns = now_ns,
      op_bytes = wire, op_limits = rl_packet (rb_limits b)\<rparr>"

lemma entry_of_simps [simp]:
  "op_key (entry_of b w r n e) = rb_key b" "op_sequence (entry_of b w r n e) = e"
  "op_received_ns (entry_of b w r n e) = r" "op_admitted_ns (entry_of b w r n e) = n"
  "op_bytes (entry_of b w r n e) = w" "op_limits (entry_of b w r n e) = rl_packet (rb_limits b)"
  by (simp_all add: entry_of_def)

lemma reorder_ingest_common:
  assumes "reorder_ingest_received alloc b key wire received_ns now_ns = (Inr a, b')"
  obtains p t where "key = rb_key b" "rb_phase b = Open" "rb_last_now_ns b \<le> now_ns"
    "received_ns \<le> now_ns" "rtp_parse wire (rl_packet (rb_limits b)) = Inr p"
    "tracker_observe (rb_tracker b) (rb_key b) p = (Inr (ra_sequence a), t)"
    "rb_tracker b' = t" "rb_last_now_ns b' = now_ns" "rb_key b' = rb_key b" "rb_limits b' = rb_limits b"
  using assms
  by (auto simp: reorder_ingest_received_def reorder_check_time_def reorder_retire_def Let_def
      split: if_splits sum.splits prod.splits option.splits)

lemma reorder_ingest_cases:
  assumes "reorder_ingest_received alloc b key wire received_ns now_ns = (Inr a, b')"
  obtains
    (buffered) e where "ra_disposition a = Buffered" "is_unique (ra_sequence a)"
      "extended_sequence (ra_sequence a) = Some e" "\<And>n. rb_next_sequence b = Some n \<Longrightarrow> n \<le> e"
      "length (rb_queue b) \<noteq> rl_max_packets (rb_limits b)"
      "rb_bytes b + length wire \<le> rl_max_bytes (rb_limits b)" "e \<noteq> u64_max"
      "now_ns + rl_max_delay_ns (rb_limits b) \<le> u64_max"
      "rb_queue b' = insert_at (partition_point (\<lambda>q. op_sequence q < e) (rb_queue b))
         (entry_of b wire received_ns now_ns e) (rb_queue b)"
      "rb_bytes b' = rb_bytes b + length wire" "rb_phase b' = Open"
      "rb_next_sequence b' = (if rb_next_sequence b = None then Some e else rb_next_sequence b)"
  | (kept) "ra_disposition a \<notin> {Buffered, reorder_disposition.RestartRequired}"
      "is_unique (ra_sequence a) \<longrightarrow> ra_disposition a = TooLate \<and>
         (\<exists>e n. extended_sequence (ra_sequence a) = Some e \<and> rb_next_sequence b = Some n \<and> e < n)"
      "rb_queue b' = rb_queue b" "rb_bytes b' = rb_bytes b" "rb_phase b' = Open"
      "rb_next_sequence b' = rb_next_sequence b"
  | (retired) "ra_disposition a = reorder_disposition.RestartRequired" "\<not> is_unique (ra_sequence a)"
      "rb_queue b' = []" "rb_bytes b' = 0" "rb_phase b' = phase.Closed"
      "rb_next_sequence b' = rb_next_sequence b"
  using assms
  by (auto simp: reorder_ingest_received_def reorder_check_time_def reorder_retire_def Let_def
      checked_add_def entry_of_def
      split: if_splits sum.splits prod.splits option.splits)


lemma tracker_observe_reads:
  assumes "tracker_observe t key p = (Inr ob, t')"
  shows "rtp_ssrc p = key_ssrc key" "rtp_payload_type p = trk_payload_type t"
    "trk_payload_type t' = trk_payload_type t"
proof -
  show "rtp_ssrc p = key_ssrc key" using tracker_observe_cases [OF assms] by auto
  show "rtp_payload_type p = trk_payload_type t" using assms by (simp add: tracker_observe_def split: if_splits)
  have "tracker_advance t (rtp_sequence p) = (Inr ob, t')" using tracker_observe_cases [OF assms] by auto
  then show "trk_payload_type t' = trk_payload_type t"
    by (auto simp: tracker_advance_def tracker_account_def Let_def split: option.splits if_splits)
qed

lemma queued_ok_later:
  assumes "queued_ok b q" "rb_key b' = rb_key b" "rb_limits b' = rb_limits b"
    "trk_payload_type (rb_tracker b') = trk_payload_type (rb_tracker b)"
    "rb_last_now_ns b \<le> rb_last_now_ns b'"
  shows "queued_ok b' q"
  using assms by (auto simp: queued_ok_def)

lemma reorder_ingest_inv:
  assumes inv: "reorder_inv b S"
    and ing: "reorder_ingest_received alloc b key wire received_ns now_ns = (Inr a, b')"
  shows "reorder_inv b' (S \<union> admits (ra_sequence a))"
proof -
  obtain p t where opn: "rb_phase b = Open" and now: "rb_last_now_ns b \<le> now_ns" "received_ns \<le> now_ns"
    and parse: "rtp_parse wire (rl_packet (rb_limits b)) = Inr p"
    and obs: "tracker_observe (rb_tracker b) (rb_key b) p = (Inr (ra_sequence a), t)"
    and b': "rb_tracker b' = t" "rb_last_now_ns b' = now_ns" "rb_key b' = rb_key b" "rb_limits b' = rb_limits b"
    using ing by (rule reorder_ingest_common)
  note I = reorder_inv_parts [OF inv]
  have trk: "tracker_inv (rb_tracker b') (S \<union> admits (ra_sequence a))"
    and cls: "classified (ra_sequence a) (rtp_sequence p) S"
    using trk.extends [OF I(1) obs] trk.truthful [OF I(1) obs] b'(1) by auto
  have old: "\<And>q. q \<in> set (rb_queue b) \<Longrightarrow> queued_ok b' q"
    using queued_ok_later [OF I(6)] b' now tracker_observe_reads(3) [OF obs] by simp
  from ing show ?thesis
  proof (cases rule: reorder_ingest_cases)
    case (buffered e)
    have adm: "admits (ra_sequence a) = {e}" and e: "e \<notin> S" "of_nat e = rtp_sequence p"
      using buffered cls by (auto simp: admits_def classified_def)
    have E: "e < u64_max"
      using tracker_inv_card trk adm buffered(7)
      by (fastforce simp: tracker_inv_def split: option.splits)
    have new: "queued_ok b' (entry_of b wire received_ns now_ns e)"
      using parse b' now buffered(8) tracker_observe_reads [OF obs] e E
      by (auto simp: queued_ok_def ordered_packet_def)
    have fresh: "op_sequence (entry_of b wire received_ns now_ns e) \<notin> op_sequence ` set (rb_queue b)"
      using e I(8,9) opn by (cases "rb_next_sequence b") auto
    have "sorted_wrt (<) (map op_sequence (rb_queue b'))"
      using insert_at_partition_sorted [OF I(2) fresh] buffered(9) by simp
    moreover have "case rb_next_sequence b' of None \<Rightarrow> False
        | Some n \<Rightarrow> op_sequence ` set (rb_queue b') = {x\<in>insert e S. n \<le> x}"
      using I(8,9) opn buffered by (cases "rb_next_sequence b") auto
    ultimately show ?thesis
      using trk I(3,4) b' adm buffered old new by (auto simp: reorder_inv_def split: option.splits)
  next
    case kept
    have "{e \<in> S \<union> admits (ra_sequence a). n \<le> e} = {e\<in>S. n \<le> e}" if "rb_next_sequence b = Some n" for n
      using kept(2) that by (auto simp: admits_def)
    moreover have "rb_next_sequence b = None \<Longrightarrow> admits (ra_sequence a) = {}"
      using kept(2) by (auto simp: admits_def)
    ultimately show ?thesis
      using trk I b' kept old opn by (auto simp: reorder_inv_def split: option.splits)
  next
    case retired
    then show ?thesis
      using trk I b' by (auto simp: reorder_inv_def admits_def split: option.splits)
  qed
qed

lemma reorder_poll_cases:
  assumes "reorder_inv b S" and "reorder_poll_step b now_ns = (r, b')"
  obtains (clock) "now_ns < rb_last_now_ns b" "b' = b"
      "r = Inl (reorder_error.Continuity continuity_error.ClockReversed)"
  | (ended) "rb_last_now_ns b \<le> now_ns" "rb_queue b = []" "rb_phase b \<noteq> Open" "r = Inr Ended"
      "b' = b\<lparr>rb_last_now_ns := now_ns, rb_phase := phase.Closed\<rparr>"
  | (idle) "rb_last_now_ns b \<le> now_ns" "rb_queue b = []" "rb_phase b = Open" "r = Inr (Pending None)"
      "b' = b\<lparr>rb_last_now_ns := now_ns\<rparr>"
  | (packet) q qs where "rb_last_now_ns b \<le> now_ns" "rb_queue b = q # qs"
      "rb_next_sequence b = Some (op_sequence q)" "r = Inr (reorder_poll.Packet q)"
      "b' = b\<lparr>rb_last_now_ns := now_ns, rb_queue := qs, rb_bytes := rb_bytes b - length (op_bytes q),
              rb_next_sequence := Some (op_sequence q + 1)\<rparr>"
  | (gap) q qs n reason where "rb_last_now_ns b \<le> now_ns" "rb_queue b = q # qs"
      "rb_next_sequence b = Some n" "n < op_sequence q"
      "rb_phase b = Draining \<or>
         (\<exists>at. reorder_next_wake_ns (b\<lparr>rb_last_now_ns := now_ns\<rparr>) = Some at \<and> at \<le> now_ns)"
      "reason = (if rb_phase b = Draining then EndOfInput else Deadline)"
      "r = Inr (Gap \<lparr>gap_key = rb_key b, gap_first_sequence = n, gap_last_sequence = op_sequence q - 1,
                     gap_reason = reason\<rparr>)"
      "b' = b\<lparr>rb_last_now_ns := now_ns, rb_next_sequence := Some (op_sequence q)\<rparr>"
  | (wait) q qs n where "rb_last_now_ns b \<le> now_ns" "rb_queue b = q # qs" "rb_phase b = Open"
      "rb_next_sequence b = Some n" "n < op_sequence q"
      "r = Inr (Pending (reorder_next_wake_ns (b\<lparr>rb_last_now_ns := now_ns\<rparr>)))"
      "\<forall>at. reorder_next_wake_ns (b\<lparr>rb_last_now_ns := now_ns\<rparr>) = Some at \<longrightarrow> now_ns < at"
      "b' = b\<lparr>rb_last_now_ns := now_ns\<rparr>"
proof -
  note I = reorder_inv_parts [OF assms(1)]
  have nx: "rb_queue b = q # qs \<Longrightarrow> \<exists>n. rb_next_sequence b = Some n \<and> n \<le> op_sequence q \<and> rb_phase b \<noteq> phase.Closed"
    for q qs using I(7-9) by (cases "rb_next_sequence b") auto
  show thesis
  proof (cases "now_ns < rb_last_now_ns b")
    case True
    then show ?thesis using assms(2) by (intro clock) (auto simp: reorder_poll_step_def reorder_check_time_def)
  next
    case late: False
    show ?thesis
    proof (cases "rb_queue b")
      case Nil
      then show ?thesis using assms(2) late
        by (cases "rb_phase b = Open")
          (auto intro: ended idle simp: reorder_poll_step_def reorder_check_time_def)
    next
      case (Cons q qs)
      obtain n where n: "rb_next_sequence b = Some n" "n \<le> op_sequence q" "rb_phase b \<noteq> phase.Closed"
        using nx [OF Cons] by blast
      have ph: "rb_phase b = Open" if "rb_phase b \<noteq> Draining" using n(3) that by (cases "rb_phase b") auto
      let ?b = "b\<lparr>rb_last_now_ns := now_ns\<rparr>"
      let ?due = "rb_phase b = Draining \<or> (\<exists>at. reorder_next_wake_ns ?b = Some at \<and> at \<le> now_ns)"
      note step = assms(2) [unfolded reorder_poll_step_def reorder_check_time_def Let_def]
      consider "op_sequence q = n" | "n < op_sequence q" ?due | "n < op_sequence q" "\<not> ?due"
        using n(2) le_eq_less_or_eq by blast
      then show ?thesis
      proof cases
        case 1
        with step late Cons n show ?thesis by (intro packet) auto
      next
        case 2
        with step late Cons n ph show ?thesis
          by (intro gap [of q qs n "if rb_phase b = Draining then EndOfInput else Deadline"])
            (auto split: option.splits if_splits)
      next
        case 3
        with step late Cons n ph show ?thesis
          by (intro wait [of q qs n]) (auto split: option.splits if_splits)
      qed
    qed
  qed
qed


lemma reorder_poll_inv:
  assumes inv: "reorder_inv b S" and poll: "reorder_poll_step b now_ns = (r, b')"
  shows "reorder_inv b' S"
proof -
  note I = reorder_inv_parts [OF inv]
  from inv poll show ?thesis
  proof (cases rule: reorder_poll_cases)
    case (packet q qs)
    have gt: "\<forall>x\<in>set qs. op_sequence q < op_sequence x" using I(2) packet(2) by simp
    have "rb_phase b \<noteq> phase.Closed" using I(7) packet(2) by auto
    then have "insert (op_sequence q) (op_sequence ` set qs) = {e\<in>S. op_sequence q \<le> e}"
      using I(9) [OF packet(3)] packet(2) by simp
    moreover from this have "op_sequence ` set qs = {e\<in>S. op_sequence q < e}"
      using gt by (auto simp: set_eq_iff)
    moreover have "\<forall>x\<in>set qs. queued_ok b' x"
      using queued_ok_later [OF I(6)] packet by simp
    ultimately show ?thesis
      using I packet by (auto simp: reorder_inv_def Suc_le_eq)
  next
    case (gap q qs n reason)
    have opn: "rb_phase b \<noteq> phase.Closed" using I(7) gap(2) by auto
    have q: "op_sequence ` set (rb_queue b) = {e\<in>S. n \<le> e}" using I(9) [OF gap(3) opn] .
    have "\<forall>e\<in>op_sequence ` set (rb_queue b). op_sequence q \<le> e"
      using I(2) gap(2) by (auto simp: less_imp_le)
    then have "{e\<in>S. n \<le> e} = {e\<in>S. op_sequence q \<le> e}"
      using q gap(4) by fastforce
    moreover have "\<forall>x\<in>set (rb_queue b). queued_ok b' x"
      using queued_ok_later [OF I(6)] gap by simp
    ultimately show ?thesis using I q gap opn by (simp add: reorder_inv_def)
  qed (use inv in \<open>auto simp: reorder_inv_def intro: queued_ok_later split: option.splits\<close>)
qed

lemma reorder_finish_inv: "reorder_inv b S \<Longrightarrow> reorder_inv (reorder_finish b) S"
  by (auto simp: reorder_finish_def reorder_inv_def intro: queued_ok_later split: option.splits)

lemma reorder_cancel_inv: "reorder_inv b S \<Longrightarrow> reorder_inv (snd (reorder_cancel b)) S"
  by (auto simp: reorder_cancel_def reorder_retire_def reorder_inv_def split: option.splits)

section \<open>The delivery contract\<close>

text \<open>
  One step of a delivery machine is labelled with what crosses its boundary: a datagram taken into
  custody, an output, datagrams dropped with a receipt, or nothing. \<open>labelled_run\<close> composes steps
  in order.
\<close>

datatype delivery_label =
    Took ordered_rtp_packet
  | Emitted reorder_poll
  | Dropped "ordered_rtp_packet list"
  | Quiet

fun taken :: "delivery_label list \<Rightarrow> ordered_rtp_packet list" where
  "taken [] = []"
| "taken (Took q # ls) = q # taken ls"
| "taken (_ # ls) = taken ls"

text \<open>The position of the first datagram taken into custody.\<close>

definition first_taken :: "delivery_label list \<Rightarrow> u64 option" where
  "first_taken ls = (case taken ls of [] \<Rightarrow> None | q # _ \<Rightarrow> Some (op_sequence q))"

lemma first_taken_simps [simp]:
  "first_taken [] = None" "first_taken (Took q # ls) = Some (op_sequence q)"
  "first_taken (Emitted out # ls) = first_taken ls" "first_taken (Dropped qs # ls) = first_taken ls"
  "first_taken (Quiet # ls) = first_taken ls"
  by (simp_all add: first_taken_def)

fun delivered :: "delivery_label list \<Rightarrow> ordered_rtp_packet list" where
  "delivered [] = []"
| "delivered (Emitted (reorder_poll.Packet q) # ls) = q # delivered ls"
| "delivered (_ # ls) = delivered ls"

fun dropped :: "delivery_label list \<Rightarrow> ordered_rtp_packet list" where
  "dropped [] = []"
| "dropped (Dropped qs # ls) = qs @ dropped ls"
| "dropped (_ # ls) = dropped ls"

text \<open>The inclusive ranges of positions the outputs account for, in output order.\<close>

fun ranges :: "delivery_label list \<Rightarrow> (u64 \<times> u64) list" where
  "ranges [] = []"
| "ranges (Emitted (reorder_poll.Packet q) # ls) = (op_sequence q, op_sequence q) # ranges ls"
| "ranges (Emitted (Gap g) # ls) = (gap_first_sequence g, gap_last_sequence g) # ranges ls"
| "ranges (_ # ls) = ranges ls"

text \<open>How often position \<open>e\<close> is accounted for.\<close>

definition accounted :: "delivery_label list \<Rightarrow> u64 \<Rightarrow> nat" where
  "accounted ls e = length (filter (\<lambda>(a, z). a \<le> e \<and> e \<le> z) (ranges ls))"

fun tiles :: "u64 \<Rightarrow> (u64 \<times> u64) list \<Rightarrow> u64 \<Rightarrow> bool" where
  "tiles n [] m \<longleftrightarrow> n = m"
| "tiles n ((a, z) # xs) m \<longleftrightarrow> a = n \<and> a \<le> z \<and> tiles (z + 1) xs m"

lemma tiles_le: "tiles n xs m \<Longrightarrow> n \<le> m"
  by (induction n xs m rule: tiles.induct) auto

lemma tiles_count:
  "tiles n xs m \<Longrightarrow> length (filter (\<lambda>(a, z). a \<le> e \<and> e \<le> z) xs) = (if n \<le> e \<and> e < m then 1 else 0)"
proof (induction n xs m rule: tiles.induct)
  case (2 n a z xs m)
  then show ?case using tiles_le [of "z + 1" xs m] by (simp split: if_splits)
qed simp

inductive labelled_run :: "('s \<Rightarrow> delivery_label \<Rightarrow> 's \<Rightarrow> bool) \<Rightarrow> 's \<Rightarrow> delivery_label list \<Rightarrow> 's \<Rightarrow> bool"
  for step where
  run_nil: "labelled_run step s [] s"
| run_cons: "step s l s1 \<Longrightarrow> labelled_run step s1 ls s2 \<Longrightarrow> labelled_run step s (l # ls) s2"

inductive_simps labelled_run_simps [simp]:
  "labelled_run step s [] s'" "labelled_run step s (l # ls) s'"

locale ordered_delivery =
  fixes step :: "'s \<Rightarrow> delivery_label \<Rightarrow> 's \<Rightarrow> bool"
    and good :: "'s \<Rightarrow> bool"
    and cursor :: "'s \<Rightarrow> u64 option"
    and held :: "'s \<Rightarrow> ordered_rtp_packet multiset"
  assumes keeps: "good s \<Longrightarrow> step s l s' \<Longrightarrow> good s'"
    and custody: "good s \<Longrightarrow> step s l s' \<Longrightarrow>
      held s + mset (taken [l]) = held s' + mset (delivered [l]) + mset (dropped [l])"
    and advances: "good s \<Longrightarrow> step s l s' \<Longrightarrow> ranges [l] = [(a, z)] \<Longrightarrow>
      cursor s = Some a \<and> a \<le> z \<and> cursor s' = Some (z + 1)"
    and waits: "good s \<Longrightarrow> step s l s' \<Longrightarrow> ranges [l] = [] \<Longrightarrow>
      cursor s' = (case cursor s of None \<Rightarrow> first_taken [l] | Some n \<Rightarrow> Some n)"
begin

lemma run_keeps: "labelled_run step s ls s' \<Longrightarrow> good s \<Longrightarrow> good s'"
  by (induction rule: labelled_run.induct) (auto dest: keeps)

lemma run_custody:
  "labelled_run step s ls s' \<Longrightarrow> good s \<Longrightarrow>
     held s + mset (taken ls) = held s' + mset (delivered ls) + mset (dropped ls)"
proof (induction rule: labelled_run.induct)
  case (run_cons s l s1 ls s2)
  have split: "mset (taken (l # ls)) = mset (taken [l]) + mset (taken ls)"
    "mset (delivered (l # ls)) = mset (delivered [l]) + mset (delivered ls)"
    "mset (dropped (l # ls)) = mset (dropped [l]) + mset (dropped ls)"
    by (cases l; simp; cases "case l of Emitted p \<Rightarrow> p | _ \<Rightarrow> Ended"; simp)+
  have "held s + mset (taken [l]) = held s1 + mset (delivered [l]) + mset (dropped [l])"
    and "held s1 + mset (taken ls) = held s2 + mset (delivered ls) + mset (dropped ls)"
    using custody [OF run_cons.prems run_cons.hyps(1)] run_cons.IH keeps [OF run_cons.prems run_cons.hyps(1)]
    by auto
  then show ?case unfolding split by (metis (no_types, lifting) add.assoc add.commute)
qed simp

lemma run_tiles:
  "labelled_run step s ls s' \<Longrightarrow> good s \<Longrightarrow>
     (case (case cursor s of None \<Rightarrow> first_taken ls | Some n \<Rightarrow> Some n) of
        None \<Rightarrow> cursor s' = None \<and> ranges ls = []
      | Some n \<Rightarrow> \<exists>m. cursor s' = Some m \<and> tiles n (ranges ls) m)"
proof (induction rule: labelled_run.induct)
  case (run_cons s l s1 ls s2)
  have split: "ranges (l # ls) = ranges [l] @ ranges ls"
    by (cases l; simp; cases "case l of Emitted p \<Rightarrow> p | _ \<Rightarrow> Ended"; simp)
  have first: "first_taken (l # ls) = (case first_taken [l] of None \<Rightarrow> first_taken ls | Some n \<Rightarrow> Some n)"
    by (cases l) simp_all
  have one: "ranges [l] = [] \<or> (\<exists>a z. ranges [l] = [(a, z)])"
    by (cases l; simp; cases "case l of Emitted p \<Rightarrow> p | _ \<Rightarrow> Ended"; simp)
  note IH = run_cons.IH [OF keeps [OF run_cons.prems run_cons.hyps(1)]]
  from one show ?case
  proof (elim disjE exE)
    assume "ranges [l] = []"
    then show ?thesis
      using waits [OF run_cons.prems run_cons.hyps(1)] IH split first by (auto split: option.splits)
  next
    fix a z assume "ranges [l] = [(a, z)]"
    then show ?thesis
      using advances [OF run_cons.prems run_cons.hyps(1)] IH split by (auto split: option.splits)
  qed
qed (simp split: option.splits)

lemma run_accounts_once:
  assumes "labelled_run step s ls s'" and "good s"
  shows "case (case cursor s of None \<Rightarrow> first_taken ls | Some n \<Rightarrow> Some n) of
      None \<Rightarrow> cursor s' = None \<and> (\<forall>e. accounted ls e = 0)
    | Some n \<Rightarrow> \<exists>m\<ge>n. cursor s' = Some m
        \<and> (\<forall>e. accounted ls e = (if n \<le> e \<and> e < m then 1 else 0))"
proof -
  have c: "n \<le> m \<and> (\<forall>e. accounted ls e = (if n \<le> e \<and> e < m then 1 else 0))" if "tiles n (ranges ls) m" for n m
    using tiles_le [OF that] tiles_count [OF that] by (simp add: accounted_def)
  have z: "\<forall>e. accounted ls e = 0" if "ranges ls = []" using that by (simp add: accounted_def)
  show ?thesis
    using run_tiles [OF assms] z by (auto dest: c split: option.splits)
qed

end


section \<open>The buffer as a delivery machine\<close>

text \<open>
  The state is the buffer with its set of admitted positions. The allocator may answer differently
  at every call, and refused calls are steps like any other.
\<close>

type_synonym reorder_state = "reorder_buffer \<times> u64 set"

inductive reorder_step :: "reorder_state \<Rightarrow> delivery_label \<Rightarrow> reorder_state \<Rightarrow> bool" where
  step_buffered:
    "reorder_ingest_received alloc b key wire received_ns now_ns = (Inr a, b') \<Longrightarrow>
     ra_disposition a = Buffered \<Longrightarrow> extended_sequence (ra_sequence a) = Some e \<Longrightarrow>
     reorder_step (b, S) (Took (entry_of b wire received_ns now_ns e)) (b', S \<union> admits (ra_sequence a))"
| step_retired:
    "reorder_ingest_received alloc b key wire received_ns now_ns = (Inr a, b') \<Longrightarrow>
     ra_disposition a = reorder_disposition.RestartRequired \<Longrightarrow>
     reorder_step (b, S) (Dropped (rb_queue b)) (b', S \<union> admits (ra_sequence a))"
| step_observed:
    "reorder_ingest_received alloc b key wire received_ns now_ns = (Inr a, b') \<Longrightarrow>
     ra_disposition a \<notin> {Buffered, reorder_disposition.RestartRequired} \<Longrightarrow>
     reorder_step (b, S) Quiet (b', S \<union> admits (ra_sequence a))"
| step_refused:
    "reorder_ingest_received alloc b key wire received_ns now_ns = (Inl e, b') \<Longrightarrow>
     reorder_step (b, S) Quiet (b', S)"
| step_poll:
    "reorder_poll_step b now_ns = (Inr out, b') \<Longrightarrow> reorder_step (b, S) (Emitted out) (b', S)"
| step_poll_refused:
    "reorder_poll_step b now_ns = (Inl e, b') \<Longrightarrow> reorder_step (b, S) Quiet (b', S)"
| step_finish: "reorder_step (b, S) Quiet (reorder_finish b, S)"
| step_cancel: "reorder_step (b, S) (Dropped (rb_queue b)) (snd (reorder_cancel b), S)"

definition reorder_good :: "reorder_state \<Rightarrow> bool" where
  "reorder_good s \<longleftrightarrow> reorder_inv (fst s) (snd s)"

definition reorder_held :: "reorder_state \<Rightarrow> ordered_rtp_packet multiset" where
  "reorder_held s = mset (rb_queue (fst s))"

definition reorder_cursor :: "reorder_state \<Rightarrow> u64 option" where
  "reorder_cursor s = rb_next_sequence (fst s)"

lemmas reorder_state_defs = reorder_good_def reorder_held_def reorder_cursor_def

lemma reorder_step_keeps:
  assumes "reorder_step s l s'" and "reorder_good s"
  shows "reorder_good s'"
  using assms
  by (induction rule: reorder_step.induct)
    (auto simp: reorder_good_def reorder_cancel_inv
      dest: reorder_ingest_inv reorder_ingest_refused reorder_poll_inv reorder_finish_inv)

lemma reorder_ingest_effect:
  assumes "reorder_ingest_received alloc b key wire received_ns now_ns = (Inr a, b')"
  shows "(ra_disposition a = Buffered \<longrightarrow> (\<exists>e. extended_sequence (ra_sequence a) = Some e
        \<and> mset (rb_queue b') = add_mset (entry_of b wire received_ns now_ns e) (mset (rb_queue b))))
    \<and> (ra_disposition a = reorder_disposition.RestartRequired \<longrightarrow> rb_queue b' = [])
    \<and> (ra_disposition a \<notin> {Buffered, reorder_disposition.RestartRequired} \<longrightarrow> rb_queue b' = rb_queue b)
    \<and> (rb_next_sequence b' = rb_next_sequence b \<or> rb_next_sequence b = None)"
  using assms by (cases rule: reorder_ingest_cases) auto

lemma reorder_ingest_cursor:
  assumes "reorder_ingest_received alloc b key wire received_ns now_ns = (Inr a, b')"
  shows "rb_next_sequence b' = (case rb_next_sequence b of
      None \<Rightarrow> if ra_disposition a = Buffered then extended_sequence (ra_sequence a) else None
    | Some n \<Rightarrow> Some n)"
  using assms by (cases rule: reorder_ingest_cases) (auto split: option.splits)

lemma reorder_poll_effect:
  assumes inv: "reorder_inv b S" and poll: "reorder_poll_step b now_ns = (Inr out, b')"
  shows "mset (rb_queue b) = mset (rb_queue b') + mset (delivered [Emitted out])"
    and "ranges [Emitted out] = [] \<Longrightarrow> rb_next_sequence b' = rb_next_sequence b"
    and "ranges [Emitted out] = [(a, z)] \<Longrightarrow>
      rb_next_sequence b = Some a \<and> a \<le> z \<and> rb_next_sequence b' = Some (z + 1)"
  using inv poll by (cases rule: reorder_poll_cases; auto)+

interpretation jitter: ordered_delivery reorder_step reorder_good reorder_cursor reorder_held
proof
  show "reorder_good s \<Longrightarrow> reorder_step s l s' \<Longrightarrow> reorder_good s'" for s l s'
    by (rule reorder_step_keeps)
next
  show "reorder_held s + mset (taken [l]) = reorder_held s' + mset (delivered [l]) + mset (dropped [l])"
    if "reorder_good s" "reorder_step s l s'" for s l s'
    using that(2,1)
  proof (induction rule: reorder_step.induct)
    case (step_poll b now_ns out b' S)
    then show ?case
      using reorder_poll_effect(1) [of b S now_ns out b'] by (cases out) (auto simp: reorder_state_defs)
  next
    case (step_poll_refused b now_ns e b' S)
    then show ?case by (auto simp: reorder_state_defs elim!: reorder_poll_cases)
  qed (auto simp: reorder_state_defs reorder_finish_def reorder_cancel_def reorder_retire_def
      dest: reorder_ingest_effect reorder_ingest_refused)
next
  show "reorder_cursor s = Some a \<and> a \<le> z \<and> reorder_cursor s' = Some (z + 1)"
    if "reorder_good s" "reorder_step s l s'" "ranges [l] = [(a, z)]" for s l s' a z
    using that(2,1,3)
  proof (induction rule: reorder_step.induct)
    case (step_poll b now_ns out b' S)
    then show ?case using reorder_poll_effect(3) [of b S now_ns out b' a z] by (simp add: reorder_state_defs)
  qed auto
next
  show "reorder_cursor s' = (case reorder_cursor s of None \<Rightarrow> first_taken [l] | Some n \<Rightarrow> Some n)"
    if "reorder_good s" "reorder_step s l s'" "ranges [l] = []" for s l s'
    using that(2,1,3)
  proof (induction rule: reorder_step.induct)
    case (step_poll_refused b now_ns e b' S)
    then show ?case by (auto simp: reorder_state_defs elim!: reorder_poll_cases split: option.splits)
  qed (auto simp: reorder_state_defs reorder_finish_def reorder_cancel_def reorder_retire_def
      dest: reorder_ingest_cursor reorder_ingest_refused reorder_poll_effect split: option.splits)
qed


lemma delivered_sorted:
  "tiles n (ranges ls) m \<Longrightarrow>
     sorted_wrt (<) (map op_sequence (delivered ls)) \<and> (\<forall>q\<in>set (delivered ls). n \<le> op_sequence q)"
proof (induction ls arbitrary: n rule: ranges.induct)
  case (3 g ls)
  then show ?case by fastforce
qed (auto simp: Suc_le_eq, fastforce+)

lemma delivered_no_ranges: "ranges ls = [] \<Longrightarrow> delivered ls = []"
  by (induction ls rule: ranges.induct) auto

lemma reorder_step_takes:
  assumes "reorder_step s l s'" and "reorder_good s"
  shows "op_sequence ` set (taken [l]) \<subseteq> snd s' - snd s \<and> snd s \<subseteq> snd s'"
  using assms
proof (induction rule: reorder_step.induct)
  case (step_buffered alloc b key wire received_ns now_ns a b' e S)
  obtain p t where "tracker_observe (rb_tracker b) (rb_key b) p = (Inr (ra_sequence a), t)"
    using step_buffered(1) by (rule reorder_ingest_common)
  then have "classified (ra_sequence a) (rtp_sequence p) S"
    using trk.truthful reorder_inv_parts(1) step_buffered(4) by (fastforce simp: reorder_good_def)
  moreover have "is_unique (ra_sequence a)"
    using step_buffered(1,2) by (cases rule: reorder_ingest_cases) auto
  ultimately show ?case using step_buffered(3) by (auto simp: classified_def admits_def)
qed auto

lemma reorder_run_takes:
  assumes "labelled_run reorder_step s ls s'" and "reorder_good s"
  shows "distinct (map op_sequence (taken ls)) \<and> op_sequence ` set (taken ls) \<subseteq> snd s' - snd s
    \<and> snd s \<subseteq> snd s'"
  using assms
proof (induction rule: labelled_run.induct)
  case (run_cons s l s1 ls s2)
  have step: "op_sequence ` set (taken [l]) \<subseteq> snd s1 - snd s" "snd s \<subseteq> snd s1"
    using reorder_step_takes [OF run_cons.hyps(1) run_cons.prems] by auto
  note IH = run_cons.IH [OF reorder_step_keeps [OF run_cons.hyps(1) run_cons.prems]]
  have "taken (l # ls) = taken [l] @ taken ls" by (cases l) simp_all
  moreover have "distinct (map op_sequence (taken [l]))" by (cases l) simp_all
  ultimately show ?case using step IH by auto
qed simp

section \<open>Properties\<close>

lemma reorder_start: "reorder_new alloc key pt limits = Inr b \<Longrightarrow> reorder_good (b, {})"
  by (simp add: reorder_good_def reorder_new_inv)

text \<open>C6: Ordered delivery accounts for the sequence space exactly once. In every run of a fresh buffer,
  whatever is offered, refused, polled, finished or cancelled in between, let \<open>q\<close> be the first
  datagram the run takes into the queue. Its position is one the tracker admitted, and the packets
  and gaps emitted cover each position from that of \<open>q\<close> up to the delivery cursor exactly once and no
  other position. A run that takes no datagram admits no position, emits no packet and no
  gap and has no cursor. The packets come out in strictly increasing extended sequence.\<close>

theorem reorder_accounts_once:
  assumes "reorder_new alloc key pt limits = Inr b0" and "labelled_run reorder_step (b0, {}) ls (b, S)"
  shows "(case taken ls of
            [] \<Rightarrow> rb_next_sequence b = None \<and> S = {} \<and> (\<forall>e. accounted ls e = 0)
          | q # _ \<Rightarrow> op_sequence q \<in> S
              \<and> (\<exists>m\<ge>op_sequence q. rb_next_sequence b = Some m
                   \<and> (\<forall>e. accounted ls e = (if op_sequence q \<le> e \<and> e < m then 1 else 0))))
    \<and> sorted_wrt (<) (map op_sequence (delivered ls))"
proof -
  note good = reorder_start [OF assms(1)]
  have none: "rb_next_sequence b0 = None"
    using assms(1) by (auto simp: reorder_new_def rust_simps split: if_splits)
  have "sorted_wrt (<) (map op_sequence (delivered ls))"
    using jitter.run_tiles [OF assms(2) good] delivered_sorted delivered_no_ranges
    by (auto split: option.splits)
  moreover have "S = {}" if "rb_next_sequence b = None"
    using jitter.run_keeps [OF assms(2) good] reorder_inv_parts(8) [OF _ that] by (simp add: reorder_good_def)
  ultimately show ?thesis
    using jitter.run_accounts_once [OF assms(2) good] reorder_run_takes [OF assms(2) good] none
    by (auto simp: reorder_cursor_def first_taken_def split: list.splits)
qed

text \<open>C14: Custody of datagrams is exact. In every run of a fresh buffer the datagrams taken into the
  queue, with their bytes, receipt and admission times, are precisely those delivered, those
  discarded under a retirement receipt and those still queued, each once; and no two of them carry
  the same extended sequence.\<close>

theorem reorder_custody:
  assumes "reorder_new alloc key pt limits = Inr b0" and "labelled_run reorder_step (b0, {}) ls (b, S)"
  shows "mset (taken ls) = mset (delivered ls) + mset (dropped ls) + mset (rb_queue b)
    \<and> distinct (map op_sequence (taken ls))"
proof -
  have "rb_queue b0 = []"
    using reorder_inv_parts(8) [OF reorder_new_inv [OF assms(1)]] assms(1)
    by (auto simp: reorder_new_def rust_simps split: if_splits)
  then show ?thesis
    using jitter.run_custody [OF assms(2) reorder_start [OF assms(1)]]
      reorder_run_takes [OF assms(2) reorder_start [OF assms(1)]]
    by (simp add: reorder_held_def union_ac)
qed

lemma reorder_step_config:
  assumes "reorder_step s l s'" and "reorder_good s"
  shows "rb_limits (fst s') = rb_limits (fst s) \<and> rb_key (fst s') = rb_key (fst s)"
  using assms
proof (induction rule: reorder_step.induct)
  case (step_poll b now_ns out b' S)
  then show ?case by (auto simp: reorder_good_def elim!: reorder_poll_cases)
next
  case (step_poll_refused b now_ns e b' S)
  then show ?case by (auto simp: reorder_good_def elim!: reorder_poll_cases)
qed (auto simp: reorder_finish_def reorder_cancel_def reorder_retire_def
    dest: reorder_ingest_refused elim: reorder_ingest_common)


lemma min_list_in: "xs \<noteq> [] \<Longrightarrow> min_list (map f xs) \<in> f ` set xs" for f :: "'a \<Rightarrow> nat"
  using Min_in [of "f ` set xs"] min_list_Min [of "map f xs"] by simp

lemma reorder_run_config:
  assumes "labelled_run reorder_step s ls s'" and "reorder_good s"
  shows "rb_limits (fst s') = rb_limits (fst s) \<and> rb_key (fst s') = rb_key (fst s)"
  using assms
  by (induction rule: labelled_run.induct)
    (simp_all add: reorder_step_config [simplified] reorder_step_keeps)

lemma reorder_new_config:
  "reorder_new alloc key pt limits = Inr b \<Longrightarrow> rb_limits b = limits \<and> rb_key b = key"
  by (auto simp: reorder_new_def rust_simps split: if_splits)

lemma reorder_run_inv:
  assumes "reorder_new alloc key pt limits = Inr b0" and "labelled_run reorder_step (b0, {}) ls (b, S)"
  shows "reorder_inv b S" "rb_limits b = limits" "rb_key b = key"
  using jitter.run_keeps [OF assms(2) reorder_start [OF assms(1)]] reorder_new_config [OF assms(1)]
    reorder_run_config [OF assms(2) reorder_start [OF assms(1)]]
  by (simp_all add: reorder_good_def)

text \<open>C15: The queue stays within its configured bounds and holds only validated input. After any run
  the packet count and the exact byte sum are within the limits the buffer was opened with, and
  every queued datagram parses under those limits, belongs to the stream's SSRC and carries the
  sequence number it is queued under.\<close>

theorem reorder_bounded:
  assumes "reorder_new alloc key pt limits = Inr b0" and "labelled_run reorder_step (b0, {}) ls (b, S)"
  shows "reorder_queued_packets b \<le> rl_max_packets limits
    \<and> reorder_queued_bytes b = sum_list (map (\<lambda>q. length (op_bytes q)) (rb_queue b))
    \<and> reorder_queued_bytes b \<le> rl_max_bytes limits
    \<and> (\<forall>q\<in>set (rb_queue b). op_key q = key \<and> op_received_ns q \<le> op_admitted_ns q
        \<and> (\<exists>p. ordered_packet q = Inr p \<and> rtp_sequence p = of_nat (op_sequence q)
             \<and> rtp_ssrc p = key_ssrc key))"
  using reorder_run_inv [OF assms]
  by (auto simp: reorder_inv_def reorder_queued_packets_def reorder_queued_bytes_def queue_bytes_def
      queued_ok_def)

text \<open>An emitted gap is truthful. When a poll retires a gap, no datagram ever taken into the queue
  has a position inside it, the range is nonempty, and the reason is evidence: either input was
  already closed, or some queued datagram has waited at least the configured delay.\<close>

theorem reorder_gap_truthful:
  assumes "reorder_new alloc key pt limits = Inr b0" and "labelled_run reorder_step (b0, {}) ls (b, S)"
    and "reorder_poll_step b now_ns = (Inr (Gap g), b')"
  shows "gap_first_sequence g \<le> gap_last_sequence g
    \<and> (\<forall>q\<in>set (taken ls). op_sequence q < gap_first_sequence g \<or> gap_last_sequence g < op_sequence q)
    \<and> (if gap_reason g = EndOfInput then rb_phase b = Draining
       else rb_phase b = Open
         \<and> (\<exists>q\<in>set (rb_queue b). op_admitted_ns q + rl_max_delay_ns limits \<le> now_ns))"
proof -
  note inv = reorder_run_inv(1) [OF assms(1,2)] and lim = reorder_run_inv(2) [OF assms(1,2)]
  note I = reorder_inv_parts [OF inv]
  have S: "op_sequence ` set (taken ls) \<subseteq> S"
    using reorder_run_takes [OF assms(2) reorder_start [OF assms(1)]] by auto
  from inv assms(3) show ?thesis
  proof (cases rule: reorder_poll_cases)
    case (gap q qs n reason)
    have ph: "rb_phase b \<noteq> phase.Closed" using I(7) gap(2) by auto
    have le: "op_sequence q \<le> e" if "e \<in> S" "n \<le> e" for e
    proof -
      have "e \<in> op_sequence ` set (q # qs)" using I(9) [OF gap(3) ph] gap(2) that by auto
      then show ?thesis using I(2) gap(2) by auto
    qed
    have min: "min_list (map op_admitted_ns (q # qs)) \<in> op_admitted_ns ` set (q # qs)"
      by (rule min_list_in) simp
    have "\<exists>x\<in>set (rb_queue b). op_admitted_ns x + rl_max_delay_ns limits \<le> now_ns" if "rb_phase b = Open"
      using gap(2-5) that min lim
      by (auto simp: reorder_next_wake_ns_def checked_add_def simp del: min_list.simps list.map split: if_splits)
    then show ?thesis
      using gap S le ph by (cases "rb_phase b") (fastforce simp: not_le)+
  qed auto
qed

text \<open>A refused call changes nothing. Whatever the reason an admission is refused for (ownership,
  clock, parse, sequence arithmetic, packet or byte capacity, allocation, conflicting duplicate),
  the buffer is left exactly as it was, so that the same datagram offered again after draining is
  not mistaken for a duplicate; a poll refused for a reversed clock changes nothing either.\<close>

theorem reorder_refused_unchanged:
  "(\<forall>e b'. reorder_ingest_received alloc b key wire received_ns now_ns = (Inl e, b') \<longrightarrow> b' = b)
   \<and> (\<forall>e b'. reorder_poll_step b now_ns = (Inl e, b') \<longrightarrow> b' = b \<and> now_ns < rb_last_now_ns b)"
  using reorder_ingest_refused
  by (auto simp: reorder_poll_step_def reorder_check_time_def Let_def
      split: if_splits list.splits sum.splits option.splits)


subsection \<open>Progress\<close>

text \<open>Polls at the given times, in order.\<close>

fun poll_all :: "reorder_buffer \<Rightarrow> u64 list \<Rightarrow> (reorder_error + reorder_poll) list \<times> reorder_buffer" where
  "poll_all b [] = ([], b)"
| "poll_all b (t # ts) =
     (let (r, b1) = reorder_poll_step b t; (rs, b2) = poll_all b1 ts in (r # rs, b2))"

definition head_ready :: "reorder_buffer \<Rightarrow> bool" where
  "head_ready b \<longleftrightarrow> (case rb_queue b of [] \<Rightarrow> False | q # _ \<Rightarrow> rb_next_sequence b = Some (op_sequence q))"

definition drain_work :: "reorder_buffer \<Rightarrow> nat" where
  "drain_work b = 2 * length (rb_queue b) - (if head_ready b then 1 else 0)"

lemma draining_poll:
  assumes inv: "reorder_inv b S" and ph: "rb_phase b \<noteq> Open" and t: "rb_last_now_ns b \<le> t"
  obtains out b1 where "reorder_poll_step b t = (Inr out, b1)" "reorder_inv b1 S" "rb_phase b1 \<noteq> Open"
    "rb_last_now_ns b1 = t" "delivered [Emitted out] @ rb_queue b1 = rb_queue b"
    "rb_queue b = [] \<longleftrightarrow> out = Ended"
    "rb_queue b \<noteq> [] \<longrightarrow> drain_work b1 < drain_work b"
proof -
  obtain r b1 where poll: "reorder_poll_step b t = (r, b1)" by fastforce
  from inv poll show thesis
    by (cases rule: reorder_poll_cases)
      (use that [of _ b1] reorder_poll_inv [OF inv poll] poll ph t in \<open>auto simp: head_ready_def drain_work_def split: list.splits\<close>)
qed

lemma draining_polls:
  assumes "reorder_inv b S" "rb_phase b \<noteq> Open" "sorted (rb_last_now_ns b # ts)"
  shows "\<exists>outs b'. poll_all b ts = (map Inr outs, b') \<and> reorder_inv b' S
    \<and> delivered (map Emitted outs) @ rb_queue b' = rb_queue b
    \<and> (drain_work b \<le> length ts \<longrightarrow> rb_queue b' = [])
    \<and> (drain_work b < length ts \<longrightarrow> last outs = Ended)"
  using assms
proof (induction ts arbitrary: b)
  case (Cons t ts)
  obtain out b1 where p: "reorder_poll_step b t = (Inr out, b1)" "reorder_inv b1 S" "rb_phase b1 \<noteq> Open"
    "rb_last_now_ns b1 = t" "delivered [Emitted out] @ rb_queue b1 = rb_queue b"
    "rb_queue b = [] \<longleftrightarrow> out = Ended" "rb_queue b \<noteq> [] \<longrightarrow> drain_work b1 < drain_work b"
    using Cons.prems by (auto elim: draining_poll [of b S t])
  obtain outs b' where r: "poll_all b1 ts = (map Inr outs, b')" "reorder_inv b' S"
    "delivered (map Emitted outs) @ rb_queue b' = rb_queue b1"
    "drain_work b1 \<le> length ts \<longrightarrow> rb_queue b' = []" "drain_work b1 < length ts \<longrightarrow> last outs = Ended"
    using Cons.IH [OF p(2,3)] Cons.prems(3) p(4) by auto
  have d: "delivered (map Emitted (out # outs)) = delivered [Emitted out] @ delivered (map Emitted outs)"
    by (cases out) simp_all
  have w0: "drain_work b = 0 \<longleftrightarrow> rb_queue b = []"
    by (cases "rb_queue b") (auto simp: drain_work_def head_ready_def)
  have e1: "rb_queue b = [] \<Longrightarrow> rb_queue b1 = [] \<and> drain_work b1 = 0" using p(5) by (simp add: drain_work_def)
  have "outs = [] \<longleftrightarrow> ts = []" using r(1) by (cases ts) (auto split: prod.splits)
  then show ?case
    using p r d w0 e1 by (intro exI [of _ "out # outs"] exI [of _ b']) (cases "rb_queue b"; auto)
qed (auto simp: drain_work_def head_ready_def split: list.splits)

text \<open>Closing input drains completely in bounded work. From any reachable buffer whose owner calls
  \<open>finish\<close>, polling at any non-decreasing times never fails and never asks to wait; after twice as
  many polls as there were queued datagrams, plus one, every queued datagram has been delivered, in
  queue order, and the last poll reports the end.\<close>

theorem reorder_drains:
  assumes "reorder_new alloc key pt limits = Inr b0" and "labelled_run reorder_step (b0, {}) ls (b, S)"
    and "sorted (rb_last_now_ns b # ts)" and "2 * length (rb_queue b) < length ts"
  shows "\<exists>outs b'. poll_all (reorder_finish b) ts = (map Inr outs, b') \<and> rb_queue b' = []
    \<and> delivered (map Emitted outs) = rb_queue b \<and> last outs = Ended"
proof -
  have f: "rb_phase (reorder_finish b) \<noteq> Open" "rb_queue (reorder_finish b) = rb_queue b"
    "rb_last_now_ns (reorder_finish b) = rb_last_now_ns b"
    by (auto simp: reorder_finish_def)
  have "drain_work (reorder_finish b) < length ts" using assms(4) f by (simp add: drain_work_def)
  then show ?thesis
    using draining_polls [OF reorder_finish_inv [OF reorder_run_inv(1) [OF assms(1,2)]] f(1), of ts] assms(3) f
    by fastforce
qed

text \<open>Waiting is bounded. While input is open and something is queued, the buffer always names a
  wake time, no later than the last supplied time or the oldest queued admission plus the configured
  delay (an addition that cannot overflow), and a poll at or after that time releases output rather
  than waiting again.\<close>

theorem reorder_wait_bounded:
  assumes "reorder_new alloc key pt limits = Inr b0" and "labelled_run reorder_step (b0, {}) ls (b, S)"
    and "rb_phase b = Open" and "rb_queue b \<noteq> []"
  shows "\<exists>at. reorder_next_wake_ns b = Some at
    \<and> (at = rb_last_now_ns b \<or> (\<forall>q\<in>set (rb_queue b). at \<le> op_admitted_ns q + rl_max_delay_ns limits))
    \<and> (\<forall>now\<ge>max at (rb_last_now_ns b). \<exists>out b'. reorder_poll_step b now = (Inr out, b')
         \<and> (\<forall>w. out \<noteq> Pending w) \<and> out \<noteq> Ended)"
proof -
  note inv = reorder_run_inv(1) [OF assms(1,2)] and lim = reorder_run_inv(2) [OF assms(1,2)]
  note I = reorder_inv_parts [OF inv]
  obtain q qs where q: "rb_queue b = q # qs" using assms(4) by (cases "rb_queue b") auto
  let ?m = "min_list (map op_admitted_ns (q # qs))"
  have m: "?m \<in> op_admitted_ns ` set (q # qs)" by (rule min_list_in) simp
  then obtain x where x: "x \<in> set (rb_queue b)" "op_admitted_ns x = ?m" using q by (metis imageE)
  have fit: "?m + rl_max_delay_ns (rb_limits b) \<le> u64_max"
    using I(6) [OF x(1)] x(2) by (simp add: queued_ok_def)
  have least: "?m \<le> op_admitted_ns y" if "y \<in> set (rb_queue b)" for y
    using that q by (simp add: min_list_Min del: min_list.simps list.map) (auto intro: Min_le)
  have wake: "reorder_next_wake_ns (b\<lparr>rb_last_now_ns := t\<rparr>) =
      (if rb_next_sequence b = Some (op_sequence q) then Some t else Some (?m + rl_max_delay_ns limits))" for t
    using assms(3) q fit lim
    by (auto simp: reorder_next_wake_ns_def checked_add_def simp del: min_list.simps list.map)
  have out: "\<exists>out b'. reorder_poll_step b now = (Inr out, b') \<and> (\<forall>w. out \<noteq> Pending w) \<and> out \<noteq> Ended"
    if now: "rb_last_now_ns b \<le> now" "rb_next_sequence b = Some (op_sequence q) \<or> ?m + rl_max_delay_ns limits \<le> now"
    for now
  proof -
    obtain r b' where poll: "reorder_poll_step b now = (r, b')" by fastforce
    from inv poll show ?thesis
      by (cases rule: reorder_poll_cases) (use now q poll wake [of now] in \<open>auto split: if_splits\<close>)
  qed
  have "b\<lparr>rb_last_now_ns := rb_last_now_ns b\<rparr> = b" by simp
  then show ?thesis
    using wake [of "rb_last_now_ns b"] out least by (auto simp: q split: if_splits)
qed


section \<open>A concrete stream\<close>

text \<open>
  Sequence 9 is heard first and only starts probation; 10 is the baseline; 12 arrives early. The
  buffer delivers 10, waits for 11 until the deadline, retires it as a gap and delivers 12.
\<close>

definition sample_wire :: "u16 \<Rightarrow> bytes" where
  "sample_wire sq = [0x80, 96] @ to_be16 sq @ [0, 0, 0, 0, 0, 0, 0, 7]"

definition sample_buffer :: reorder_buffer where
  "sample_buffer =
     \<lparr>rb_key = sample_key, rb_limits = reorder_limits_default, rb_tracker = sample_tracker, rb_queue = [],
      rb_bytes = 0, rb_next_sequence = None, rb_last_now_ns = 0, rb_phase = Open\<rparr>"

definition sample_queue :: reorder_buffer where
  "sample_queue = sample_buffer
     \<lparr>rb_tracker := sample_tracker\<lparr>probation := Some 9, trk_base := Some 10, highest := 12, seen := 5,
        trk_stats := \<lparr>expected = 3, received = 2, unique = 2, missing = 1\<rparr>\<rparr>,
      rb_queue := [entry_of sample_buffer (sample_wire 10) 2 2 10, entry_of sample_buffer (sample_wire 12) 3 3 12],
      rb_bytes := 24, rb_next_sequence := Some 10, rb_last_now_ns := 3\<rparr>"

lemma sample_buffer_new: "reorder_new (\<lambda>_. True) sample_key 96 reorder_limits_default = Inr sample_buffer"
  by (simp add: reorder_new_def sample_buffer_def sample_tracker_new reorder_limits_default_def
      packet_limits_validate_def packet_limits_default_def try_then_def map_err_def)

lemma sample_wire_parse:
  "rtp_parse (sample_wire sq) packet_limits_default = Inr (sample_packet sq)"
  by (simp add: rtp_parse_def sample_wire_def sample_packet_def packet_limits_check_def
      packet_limits_validate_def packet_limits_default_def try_then_def span_def get_slice_def ok_or_def
      subslice_def checked_add_def u64_max_def to_be16_def)

definition sample_first :: reorder_buffer where
  "sample_first = sample_buffer
     \<lparr>rb_tracker := sample_tracker\<lparr>probation := Some 9\<rparr>, rb_last_now_ns := 1\<rparr>"

definition sample_second :: reorder_buffer where
  "sample_second = sample_buffer
     \<lparr>rb_tracker := sample_tracker\<lparr>probation := Some 9, trk_base := Some 10, highest := 10, seen := 1,
        trk_stats := \<lparr>expected = 1, received = 1, unique = 1, missing = 0\<rparr>\<rparr>,
      rb_queue := [entry_of sample_buffer (sample_wire 10) 2 2 10],
      rb_bytes := 12, rb_next_sequence := Some 10, rb_last_now_ns := 2\<rparr>"

lemmas sample_ingest_defs =
  reorder_ingest_received_def reorder_check_time_def sample_buffer_def sample_wire_parse
  reorder_limits_default_def Let_def tracker_observe_def tracker_advance_def tracker_account_def
  tracker_observation_def sample_tracker_def sample_key_def checked_add_def checked_sub_def u64_max_def
  is_unique_def stats_zero_def partition_point_def insert_at_def entry_of_def

lemma sample_ingest_first:
  "\<exists>a. reorder_ingest_received (\<lambda>_. True) sample_buffer sample_key (sample_wire 9) 1 1 = (Inr a, sample_first)
     \<and> ra_disposition a = NotAdmitted \<and> admits (ra_sequence a) = {}"
  by (simp add: sample_ingest_defs sample_first_def admits_def)

lemma sample_ingest_second:
  "\<exists>a. reorder_ingest_received (\<lambda>_. True) sample_first sample_key (sample_wire 10) 2 2 = (Inr a, sample_second)
     \<and> ra_disposition a = Buffered \<and> extended_sequence (ra_sequence a) = Some 10 \<and> admits (ra_sequence a) = {10}"
  by (simp add: sample_ingest_defs sample_first_def sample_second_def admits_def) (simp add: sample_wire_def to_be16_def)

lemma sample_ingest_third:
  "\<exists>a. reorder_ingest_received (\<lambda>_. True) sample_second sample_key (sample_wire 12) 3 3 = (Inr a, sample_queue)
     \<and> ra_disposition a = Buffered \<and> extended_sequence (ra_sequence a) = Some 12 \<and> admits (ra_sequence a) = {12}"
  by (simp add: sample_ingest_defs sample_second_def sample_queue_def admits_def) (simp add: sample_wire_def to_be16_def)


abbreviation sample_e10 :: ordered_rtp_packet where
  "sample_e10 \<equiv> entry_of sample_buffer (sample_wire 10) 2 2 10"

abbreviation sample_e12 :: ordered_rtp_packet where
  "sample_e12 \<equiv> entry_of sample_buffer (sample_wire 12) 3 3 12"

definition sample_gap :: reorder_gap where
  "sample_gap = \<lparr>gap_key = sample_key, gap_first_sequence = 11, gap_last_sequence = 11, gap_reason = Deadline\<rparr>"

definition sample_after :: reorder_buffer where
  "sample_after = sample_queue\<lparr>rb_queue := [sample_e12], rb_bytes := 12, rb_next_sequence := Some 11,
     rb_last_now_ns := 4\<rparr>"

lemma sample_admission:
  "labelled_run reorder_step (sample_buffer, {}) [Quiet, Took sample_e10, Took sample_e12] (sample_queue, {12, 10})"
proof -
  obtain a1 where "reorder_ingest_received (\<lambda>_. True) sample_buffer sample_key (sample_wire 9) 1 1 = (Inr a1, sample_first)"
    "ra_disposition a1 = NotAdmitted" "admits (ra_sequence a1) = {}" using sample_ingest_first by blast
  then have 1: "reorder_step (sample_buffer, {}) Quiet (sample_first, {})"
    using step_observed [of "\<lambda>_. True" sample_buffer sample_key "sample_wire 9" 1 1 a1 sample_first "{}"] by simp
  obtain a2 where "reorder_ingest_received (\<lambda>_. True) sample_first sample_key (sample_wire 10) 2 2 = (Inr a2, sample_second)"
    "ra_disposition a2 = Buffered" "extended_sequence (ra_sequence a2) = Some 10" "admits (ra_sequence a2) = {10}"
    using sample_ingest_second by blast
  then have 2: "reorder_step (sample_first, {}) (Took sample_e10) (sample_second, {10})"
    using step_buffered [of "\<lambda>_. True" sample_first sample_key "sample_wire 10" 2 2 a2 sample_second 10 "{}"]
    by (simp add: entry_of_def sample_first_def)
  obtain a3 where "reorder_ingest_received (\<lambda>_. True) sample_second sample_key (sample_wire 12) 3 3 = (Inr a3, sample_queue)"
    "ra_disposition a3 = Buffered" "extended_sequence (ra_sequence a3) = Some 12" "admits (ra_sequence a3) = {12}"
    using sample_ingest_third by blast
  then have 3: "reorder_step (sample_second, {10}) (Took sample_e12) (sample_queue, {12, 10})"
    using step_buffered [of "\<lambda>_. True" sample_second sample_key "sample_wire 12" 3 3 a3 sample_queue 12 "{10}"]
    by (simp add: entry_of_def sample_second_def)
  from 1 2 3 show ?thesis by (simp only: labelled_run_simps) blast
qed

lemma sample_wire_length [simp]: "length (sample_wire sq) = 12"
  by (simp add: sample_wire_def to_be16_def)

lemmas sample_poll_defs =
  reorder_poll_step_def reorder_check_time_def reorder_next_wake_ns_def sample_queue_def sample_after_def
  sample_buffer_def sample_gap_def reorder_limits_default_def checked_add_def u64_max_def Let_def entry_of_def

lemma sample_polls:
  "reorder_poll_step sample_queue 4 = (Inr (reorder_poll.Packet sample_e10), sample_after)"
  "reorder_poll_step sample_after 100000003 =
     (Inr (Gap sample_gap), sample_after\<lparr>rb_next_sequence := Some 12, rb_last_now_ns := 100000003\<rparr>)"
  by (simp_all add: sample_poll_defs)

lemma sample_delivery:
  "labelled_run reorder_step (sample_buffer, {})
     [Quiet, Took sample_e10, Took sample_e12, Emitted (reorder_poll.Packet sample_e10)] (sample_after, {12, 10})"
  using sample_admission step_poll [OF sample_polls(1), of "{12, 10}"] by (simp only: labelled_run_simps) blast

theorem reorder_accounts_once_witness:
  "\<forall>e. accounted [Quiet, Took sample_e10, Took sample_e12, Emitted (reorder_poll.Packet sample_e10)] e
        = (if 10 \<le> e \<and> e < 11 then 1 else 0)"
  using reorder_accounts_once [OF sample_buffer_new sample_delivery] by (simp add: sample_after_def)

theorem reorder_custody_witness:
  "mset [sample_e10, sample_e12] = mset [sample_e10] + mset [] + mset (rb_queue sample_after)
   \<and> distinct (map op_sequence [sample_e10, sample_e12])"
  using reorder_custody [OF sample_buffer_new sample_delivery] by simp

theorem reorder_bounded_witness:
  "reorder_queued_packets sample_queue \<le> 128 \<and> reorder_queued_bytes sample_queue = 24 \<and> 24 \<le> rl_max_bytes reorder_limits_default"
  using reorder_bounded [OF sample_buffer_new sample_admission]
  by (simp add: reorder_queued_bytes_def sample_queue_def reorder_limits_default_def)

theorem reorder_gap_truthful_witness:
  "gap_first_sequence sample_gap \<le> gap_last_sequence sample_gap
   \<and> (\<exists>q\<in>set (rb_queue sample_after). op_admitted_ns q + rl_max_delay_ns reorder_limits_default \<le> 100000003)"
  using reorder_gap_truthful [OF sample_buffer_new sample_delivery sample_polls(2)]
  by (simp add: sample_gap_def)

theorem reorder_drains_witness:
  "\<exists>outs b'. poll_all (reorder_finish sample_queue) [4, 4, 5, 6, 7] = (map Inr outs, b') \<and> rb_queue b' = []
     \<and> delivered (map Emitted outs) = [sample_e10, sample_e12] \<and> last outs = Ended"
  using reorder_drains [OF sample_buffer_new sample_admission, of "[4, 4, 5, 6, 7]"]
  by (simp add: sample_queue_def)

theorem reorder_wait_bounded_witness:
  "\<exists>at. reorder_next_wake_ns sample_after = Some at
     \<and> (\<exists>out b'. reorder_poll_step sample_after (max at 4) = (Inr out, b') \<and> out \<noteq> Ended)"
proof -
  have "rb_phase sample_after = Open" "rb_queue sample_after \<noteq> []" "rb_last_now_ns sample_after = 4"
    by (simp_all add: sample_after_def sample_queue_def sample_buffer_def)
  then show ?thesis using reorder_wait_bounded [OF sample_buffer_new sample_delivery] by fastforce
qed

lemma sample_refusal:
  "reorder_ingest_received (\<lambda>_. True) sample_queue sample_key (sample_wire 11) 1 1
   = (Inl (reorder_error.Continuity continuity_error.ClockReversed), sample_queue)"
  by (simp add: reorder_ingest_received_def reorder_check_time_def sample_queue_def sample_buffer_def)

theorem reorder_refused_unchanged_witness:
  "snd (reorder_ingest_received (\<lambda>_. True) sample_queue sample_key (sample_wire 11) 1 1) = sample_queue"
  using reorder_refused_unchanged [of "\<lambda>_. True" sample_queue sample_key "sample_wire 11" 1 1] sample_refusal
  by (metis snd_conv)

end
