(* ===== verification/H264_Depacketizer.thy ===== *)
theory H264_Depacketizer
  imports Reorder_Buffer
begin

text \<open>
  RFC 6184 reconstruction, \<open>crates/fss-packet/src/h264.rs\<close>: single NAL units, STAP-A aggregation and
  FU-A fragmentation with bounded pending state, explicit discard receipts and a source span for
  every reconstructed byte. Allocation is the argument \<open>alloc\<close>: whether a vector of the given
  number of elements is or can be made available. Fragmentation and aggregation are proved to be
  inverted exactly, and every emitted NAL unit to be a copy of the wire bytes its spans name.
\<close>

section \<open>h264.rs\<close>

datatype h264_mode = SingleNal | NonInterleaved

record h264_limits =
  max_nal_bytes :: usize
  max_packet_nals :: usize
  max_fragment_packets :: usize
  max_pending_age_ns :: u64

definition h264_limits_default :: h264_limits where
  "h264_limits_default =
     \<lparr>max_nal_bytes = 8 * 1024 * 1024, max_packet_nals = 64, max_fragment_packets = 4096,
      max_pending_age_ns = 2000000000\<rparr>"

datatype h264_error =
    Configuration
  | StreamMismatch
  | Closed
  | ClockReversed
  | Malformed
  | Unsupported
  | Corrupt
  | Limit
  | Allocation
  | Gap
  | MissingStart
  | FragmentMismatch
  | Interrupted
  | Deadline
  | Cancelled
  | EndOfInput

record fragment_discard =
  fd_key :: stream_key
  fd_reason :: h264_error
  fd_first_sequence :: u64
  fd_last_sequence :: u64
  fd_byte_len :: usize
  fd_fragments :: usize

record h264_failure =
  hf_reason :: h264_error
  hf_discarded :: "fragment_discard option"

record nal_source_span =
  sp_sequence :: u64
  sp_wire_range :: "usize \<times> usize"
  sp_nal_range :: "usize \<times> usize"
  sp_fragment_header_range :: "(usize \<times> usize) option"

record nal_unit =
  nal_key :: stream_key
  nal_timestamp :: u32
  nal_bytes :: bytes
  nal_sources :: "nal_source_span list"
  nal_marker :: bool
  nal_started_ns :: u64
  nal_first_sequence :: u64

definition nal_type :: "nal_unit \<Rightarrow> u8" where
  "nal_type n = nal_bytes n ! 0 AND 31"

datatype h264_status = Complete | FragmentPending | IgnoredNonIncreasing

record h264_output =
  ho_status :: h264_status
  ho_nals :: "nal_unit list"
  ho_gap_before :: bool
  ho_discarded :: "fragment_discard option"

record h264_depacketizer =
  hd_key :: stream_key
  hd_payload_type :: u8
  hd_mode :: h264_mode
  hd_limits :: h264_limits
  hd_last_sequence :: "u64 option"
  hd_last_now_ns :: u64
  hd_pending :: "nal_unit option"
  hd_closed :: bool

definition h264_new ::
  "stream_key \<Rightarrow> u8 \<Rightarrow> h264_mode \<Rightarrow> h264_limits \<Rightarrow> h264_failure + h264_depacketizer" where
  "h264_new key pt mode limits =
     (if ingress key = 0 \<or> generation key = 0 \<or> pt > 127
         \<or> \<not> (1 \<le> max_nal_bytes limits \<and> max_nal_bytes limits \<le> 16 * 1024 * 1024)
         \<or> \<not> (1 \<le> max_packet_nals limits \<and> max_packet_nals limits \<le> 256)
         \<or> \<not> (2 \<le> max_fragment_packets limits \<and> max_fragment_packets limits \<le> 4096)
         \<or> \<not> (1 \<le> max_pending_age_ns limits \<and> max_pending_age_ns limits \<le> 60000000000)
      then Inl \<lparr>hf_reason = h264_error.Configuration, hf_discarded = None\<rparr>
      else Inr \<lparr>hd_key = key, hd_payload_type = pt, hd_mode = mode, hd_limits = limits,
                hd_last_sequence = None, hd_last_now_ns = 0, hd_pending = None, hd_closed = False\<rparr>)"

definition h264_pending_bytes :: "h264_depacketizer \<Rightarrow> usize" where
  "h264_pending_bytes d = (case hd_pending d of None \<Rightarrow> 0 | Some nal \<Rightarrow> length (nal_bytes nal))"

definition h264_next_deadline_ns :: "h264_depacketizer \<Rightarrow> u64 option" where
  "h264_next_deadline_ns d =
     (case hd_pending d of None \<Rightarrow> None
      | Some nal \<Rightarrow> checked_add (nal_started_ns nal) (max_pending_age_ns (hd_limits d)))"

definition h264_discard ::
  "h264_depacketizer \<Rightarrow> h264_error \<Rightarrow> fragment_discard option \<times> h264_depacketizer" where
  "h264_discard d reason =
     (case hd_pending d of
        None \<Rightarrow> (None, d)
      | Some nal \<Rightarrow>
          (Some \<lparr>fd_key = nal_key nal, fd_reason = reason, fd_first_sequence = nal_first_sequence nal,
                 fd_last_sequence = (case nal_sources nal of [] \<Rightarrow> nal_first_sequence nal
                                     | s # ss \<Rightarrow> sp_sequence (last (s # ss))),
                 fd_byte_len = length (nal_bytes nal), fd_fragments = length (nal_sources nal)\<rparr>,
           d\<lparr>hd_pending := None\<rparr>))"

definition h264_discard_gap :: "h264_depacketizer \<Rightarrow> fragment_discard option \<times> h264_depacketizer" where
  "h264_discard_gap d = h264_discard d h264_error.Gap"

definition h264_expire ::
  "h264_depacketizer \<Rightarrow> u64 \<Rightarrow> (h264_failure + fragment_discard option) \<times> h264_depacketizer" where
  "h264_expire d now_ns =
     (if now_ns < hd_last_now_ns d
      then (Inl \<lparr>hf_reason = h264_error.ClockReversed, hf_discarded = None\<rparr>, d)
      else
        let d = d\<lparr>hd_last_now_ns := now_ns\<rparr>;
            expired = (case hd_pending d of None \<Rightarrow> False
                       | Some nal \<Rightarrow> now_ns - nal_started_ns nal \<ge> max_pending_age_ns (hd_limits d))
        in if expired then let (discarded, d) = h264_discard d h264_error.Deadline in (Inr discarded, d)
           else (Inr None, d))"

definition h264_cancel :: "h264_depacketizer \<Rightarrow> fragment_discard option \<times> h264_depacketizer" where
  "h264_cancel d = h264_discard (d\<lparr>hd_closed := True\<rparr>) h264_error.Cancelled"

definition h264_finish :: "h264_depacketizer \<Rightarrow> fragment_discard option \<times> h264_depacketizer" where
  "h264_finish d = h264_discard (d\<lparr>hd_closed := True\<rparr>) h264_error.EndOfInput"

definition reserve :: "(usize \<Rightarrow> bool) \<Rightarrow> usize \<Rightarrow> usize \<Rightarrow> h264_error + unit" where
  "reserve alloc needed ceiling =
     (if needed > ceiling then Inl h264_error.Limit
      else if \<not> alloc needed then Inl h264_error.Allocation else Inr ())"

text \<open>One round of the \<open>while offset < payload.len()\<close> loop is one unfolding.\<close>

function validate_stap_from :: "bytes \<Rightarrow> h264_limits \<Rightarrow> usize \<Rightarrow> usize \<Rightarrow> u8 \<Rightarrow> h264_error + usize \<times> u8" where
  "validate_stap_from payload limits offset cnt nri =
     (if offset < length payload then
        if cnt = max_packet_nals limits then Inl h264_error.Limit
        else
          try_then (ok_or (get_slice payload offset (offset + 2)) h264_error.Malformed) (\<lambda>pair.
            let len = unat (be16 pair); offset = offset + 2 in
            if len = 0 \<or> len > max_nal_bytes limits
            then Inl (if len = 0 then h264_error.Malformed else h264_error.Limit)
            else
              try_then (ok_or (get_slice payload offset (offset + len)) h264_error.Malformed) (\<lambda>bs.
                if bs ! 0 AND 0x80 \<noteq> 0 then Inl h264_error.Corrupt
                else if \<not> (1 \<le> bs ! 0 AND 31 \<and> bs ! 0 AND 31 \<le> 23) then Inl h264_error.Malformed
                else validate_stap_from payload limits (offset + len) (cnt + 1) (max nri (bs ! 0 AND 0x60))))
      else Inr (cnt, nri))"
  by pat_completeness auto
termination
  by (relation "measure (\<lambda>(payload, _, offset, _, _). length payload - offset)")
    (auto simp: rust_simps)

declare validate_stap_from.simps [simp del]

definition validate_stap :: "bytes \<Rightarrow> h264_limits \<Rightarrow> h264_error + usize" where
  "validate_stap payload limits =
     try_then (validate_stap_from payload limits 1 0 0) (\<lambda>(count, nri).
       if count = 0 \<or> payload ! 0 AND 0x60 \<noteq> nri then Inl h264_error.Malformed else Inr count)"

definition h264_copy_nal ::
  "(usize \<Rightarrow> bool) \<Rightarrow> h264_depacketizer \<Rightarrow> u64 \<Rightarrow> rtp_packet \<Rightarrow> usize \<times> usize \<Rightarrow> u64 \<Rightarrow> bool \<Rightarrow>
     h264_error + nal_unit" where
  "h264_copy_nal alloc d sq packet rng now_ns marker =
     try_then (reserve alloc (snd rng - fst rng) (max_nal_bytes (hd_limits d))) (\<lambda>_.
       let bytes = subslice (rtp_payload packet) (fst rng) (snd rng) in
       try_then (reserve alloc 1 (max_fragment_packets (hd_limits d))) (\<lambda>_.
         let wire = fst (rtp_payload_range packet) in
         Inr \<lparr>nal_key = hd_key d, nal_timestamp = rtp_timestamp packet, nal_bytes = bytes,
              nal_sources =
                [\<lparr>sp_sequence = sq, sp_wire_range = (wire + fst rng, wire + snd rng),
                  sp_nal_range = (0, length bytes), sp_fragment_header_range = None\<rparr>],
              nal_marker = marker, nal_started_ns = now_ns, nal_first_sequence = sq\<rparr>))"

text \<open>The \<open>for index in 0..count\<close> loop over an already validated STAP-A payload.\<close>

fun h264_stap_nals ::
  "(usize \<Rightarrow> bool) \<Rightarrow> h264_depacketizer \<Rightarrow> u64 \<Rightarrow> rtp_packet \<Rightarrow> u64 \<Rightarrow> usize \<Rightarrow> nat \<Rightarrow> h264_error + nal_unit list" where
  "h264_stap_nals alloc d sq packet now_ns offset 0 = Inr []"
| "h264_stap_nals alloc d sq packet now_ns offset (Suc left) =
     (let len = unat (be16 (subslice (rtp_payload packet) offset (offset + 2))); offset = offset + 2 in
      try_then (h264_copy_nal alloc d sq packet (offset, offset + len) now_ns
                  (rtp_marker packet \<and> left = 0)) (\<lambda>nal.
      try_then (h264_stap_nals alloc d sq packet now_ns (offset + len) left) (\<lambda>nals. Inr (nal # nals))))"

text \<open>\<open>*discarded = discarded.take().or_else(|| self.discard(reason))\<close>.\<close>

definition or_discard ::
  "h264_depacketizer \<Rightarrow> fragment_discard option \<Rightarrow> h264_error \<Rightarrow> fragment_discard option \<times> h264_depacketizer" where
  "or_discard d discarded reason =
     (case discarded of Some x \<Rightarrow> (Some x, d) | None \<Rightarrow> h264_discard d reason)"

type_synonym 'a consuming = "(h264_error + 'a) \<times> h264_depacketizer \<times> fragment_discard option"

definition h264_consume_single ::
  "(usize \<Rightarrow> bool) \<Rightarrow> h264_depacketizer \<Rightarrow> u64 \<Rightarrow> rtp_packet \<Rightarrow> u64 \<Rightarrow> fragment_discard option \<Rightarrow>
     nal_unit list consuming" where
  "h264_consume_single alloc d sq packet now_ns discarded =
     (case try_then (reserve alloc 1 (max_packet_nals (hd_limits d))) (\<lambda>_.
             h264_copy_nal alloc d sq packet (0, length (rtp_payload packet)) now_ns (rtp_marker packet)) of
        Inl e \<Rightarrow> (Inl e, d, discarded)
      | Inr nal \<Rightarrow>
          let (discarded, d) = or_discard d discarded h264_error.Interrupted in (Inr [nal], d, discarded))"

definition h264_consume_stap ::
  "(usize \<Rightarrow> bool) \<Rightarrow> h264_depacketizer \<Rightarrow> u64 \<Rightarrow> rtp_packet \<Rightarrow> u64 \<Rightarrow> fragment_discard option \<Rightarrow>
     nal_unit list consuming" where
  "h264_consume_stap alloc d sq packet now_ns discarded =
     (case try_then (validate_stap (rtp_payload packet) (hd_limits d)) (\<lambda>count.
           try_then (reserve alloc count (max_packet_nals (hd_limits d))) (\<lambda>_.
             h264_stap_nals alloc d sq packet now_ns 1 count)) of
        Inl e \<Rightarrow> (Inl e, d, discarded)
      | Inr nals \<Rightarrow>
          let (discarded, d) = or_discard d discarded h264_error.Interrupted in (Inr nals, d, discarded))"

definition h264_fu_start ::
  "(usize \<Rightarrow> bool) \<Rightarrow> h264_depacketizer \<Rightarrow> u64 \<Rightarrow> rtp_packet \<Rightarrow> u64 \<Rightarrow> u8 \<Rightarrow> fragment_discard option \<Rightarrow>
     unit consuming" where
  "h264_fu_start alloc d sq packet now_ns nal_header discarded =
     (case try_then (ok_or (checked_add now_ns (max_pending_age_ns (hd_limits d))) h264_error.Limit) (\<lambda>_.
           try_then (reserve alloc (length (rtp_payload packet) - 1) (max_nal_bytes (hd_limits d))) (\<lambda>_.
             reserve alloc 1 (max_fragment_packets (hd_limits d)))) of
        Inl e \<Rightarrow> (Inl e, d, discarded)
      | Inr _ \<Rightarrow>
          let (discarded, d) = or_discard d discarded h264_error.Interrupted in
          (Inr (),
           d\<lparr>hd_pending := Some
               \<lparr>nal_key = hd_key d, nal_timestamp = rtp_timestamp packet, nal_bytes = [nal_header],
                nal_sources = [], nal_marker = False, nal_started_ns = now_ns, nal_first_sequence = sq\<rparr>\<rparr>,
           discarded))"

definition h264_fu_append ::
  "(usize \<Rightarrow> bool) \<Rightarrow> h264_depacketizer \<Rightarrow> u64 \<Rightarrow> rtp_packet \<Rightarrow> u8 \<Rightarrow> bool \<Rightarrow> fragment_discard option \<Rightarrow>
     nal_unit list consuming" where
  "h264_fu_append alloc d sq packet nal_header final discarded =
     (case hd_pending d of
        None \<Rightarrow> (Inl h264_error.MissingStart, d, discarded)
      | Some nal \<Rightarrow>
          if nal_timestamp nal \<noteq> rtp_timestamp packet \<or> nal_bytes nal ! 0 \<noteq> nal_header
          then (Inl h264_error.FragmentMismatch, d, discarded)
          else
            let payload = rtp_payload packet; start = length (nal_bytes nal) in
            (case try_then (ok_or (checked_add start (length payload - 2)) h264_error.Limit) (\<lambda>needed.
                  try_then (reserve alloc needed (max_nal_bytes (hd_limits d))) (\<lambda>_.
                  try_then (reserve alloc (length (nal_sources nal) + 1) (max_fragment_packets (hd_limits d))) (\<lambda>_.
                    Inr needed))) of
               Inl e \<Rightarrow> (Inl e, d, discarded)
             | Inr needed \<Rightarrow>
                 let wire = fst (rtp_payload_range packet);
                     nal = nal\<lparr>nal_bytes := nal_bytes nal @ drop 2 payload,
                               nal_sources := nal_sources nal @
                                 [\<lparr>sp_sequence = sq, sp_wire_range = (wire + 2, wire + length payload),
                                   sp_nal_range = (start, needed),
                                   sp_fragment_header_range = Some (wire, wire + 2)\<rparr>]\<rparr>
                 in
                 if final then
                   let nal = nal\<lparr>nal_marker := rtp_marker packet\<rparr> in
                   (case reserve alloc 1 (max_packet_nals (hd_limits d)) of
                      Inl e \<Rightarrow> (Inl e, d\<lparr>hd_pending := Some nal\<rparr>, discarded)
                    | Inr _ \<Rightarrow> (Inr [nal], d\<lparr>hd_pending := None\<rparr>, discarded))
                 else (Inr [], d\<lparr>hd_pending := Some nal\<rparr>, discarded)))"

definition h264_consume_fu ::
  "(usize \<Rightarrow> bool) \<Rightarrow> h264_depacketizer \<Rightarrow> u64 \<Rightarrow> rtp_packet \<Rightarrow> u64 \<Rightarrow> u8 \<Rightarrow> fragment_discard option \<Rightarrow>
     nal_unit list consuming" where
  "h264_consume_fu alloc d sq packet now_ns header discarded =
     (case get_at (rtp_payload packet) 1 of
        None \<Rightarrow> (Inl h264_error.Malformed, d, discarded)
      | Some fu \<Rightarrow>
          let start = (fu AND 0x80 \<noteq> 0); final = (fu AND 0x40 \<noteq> 0);
              nal_header = (header AND 0x60) OR (fu AND 31) in
          if (start \<and> final) \<or> \<not> (1 \<le> fu AND 31 \<and> fu AND 31 \<le> 23) \<or> (rtp_marker packet \<and> \<not> final)
          then (Inl h264_error.Malformed, d, discarded)
          else
            (case (if start then h264_fu_start alloc d sq packet now_ns nal_header discarded
                   else (Inr (), d, discarded)) of
               (Inl e, d, discarded) \<Rightarrow> (Inl e, d, discarded)
             | (Inr _, d, discarded) \<Rightarrow> h264_fu_append alloc d sq packet nal_header final discarded))"

definition h264_consume ::
  "(usize \<Rightarrow> bool) \<Rightarrow> h264_depacketizer \<Rightarrow> u64 \<Rightarrow> rtp_packet \<Rightarrow> u64 \<Rightarrow> fragment_discard option \<Rightarrow>
     h264_output consuming" where
  "h264_consume alloc d sq packet now_ns discarded =
     (case get_at (rtp_payload packet) 0 of
        None \<Rightarrow> (Inl h264_error.Malformed, d, discarded)
      | Some header \<Rightarrow>
          if header AND 0x80 \<noteq> 0 then (Inl h264_error.Corrupt, d, discarded)
          else
            let kind = header AND 31 in
            if \<not> (1 \<le> kind \<and> kind \<le> 23) \<and> hd_mode d = SingleNal
            then (Inl h264_error.Unsupported, d, discarded)
            else
              (case (if 1 \<le> kind \<and> kind \<le> 23 then h264_consume_single alloc d sq packet now_ns discarded
                     else if kind = 24 then h264_consume_stap alloc d sq packet now_ns discarded
                     else if kind = 28 then h264_consume_fu alloc d sq packet now_ns header discarded
                     else (Inl h264_error.Unsupported, d, discarded)) of
                 (Inl e, d, discarded) \<Rightarrow> (Inl e, d, discarded)
               | (Inr nals, d, discarded) \<Rightarrow>
                   (Inr \<lparr>ho_status = (if nals = [] then FragmentPending else Complete), ho_nals = nals,
                         ho_gap_before = False, ho_discarded = None\<rparr>, d, discarded)))"

definition h264_push ::
  "(usize \<Rightarrow> bool) \<Rightarrow> h264_depacketizer \<Rightarrow> stream_key \<Rightarrow> u64 \<Rightarrow> rtp_packet \<Rightarrow> u64 \<Rightarrow>
     (h264_failure + h264_output) \<times> h264_depacketizer" where
  "h264_push alloc d key sq packet now_ns =
     (let failure = (\<lambda>reason. Inl \<lparr>hf_reason = reason, hf_discarded = None\<rparr>) in
      if key \<noteq> hd_key d \<or> rtp_ssrc packet \<noteq> key_ssrc key \<or> rtp_payload_type packet \<noteq> hd_payload_type d
         \<or> rtp_sequence packet \<noteq> of_nat sq
      then (failure h264_error.StreamMismatch, d)
      else if hd_closed d then (failure h264_error.Closed, d)
      else if now_ns < hd_last_now_ns d then (failure h264_error.ClockReversed, d)
      else
        (case h264_expire d now_ns of
           (Inl f, d) \<Rightarrow> (Inl f, d)
         | (Inr discarded, d) \<Rightarrow>
             if (case hd_last_sequence d of None \<Rightarrow> False | Some prev \<Rightarrow> sq \<le> prev)
             then (Inr \<lparr>ho_status = IgnoredNonIncreasing, ho_nals = [], ho_gap_before = False,
                        ho_discarded = discarded\<rparr>, d)
             else
               let gap = (case hd_last_sequence d of None \<Rightarrow> False
                          | Some prev \<Rightarrow> checked_add prev 1 \<noteq> Some sq);
                   (discarded, d) = (if gap \<and> discarded = None then h264_discard d h264_error.Gap
                                     else (discarded, d));
                   d = d\<lparr>hd_last_sequence := Some sq\<rparr>
               in
               (case h264_consume alloc d sq packet now_ns discarded of
                  (Inr out, d, discarded) \<Rightarrow>
                    (Inr (out\<lparr>ho_gap_before := gap, ho_discarded := discarded\<rparr>), d)
                | (Inl reason, d, discarded) \<Rightarrow>
                    let (remaining, d) = h264_discard d reason in
                    (Inl \<lparr>hf_reason = reason,
                          hf_discarded = (case discarded of Some x \<Rightarrow> Some x | None \<Rightarrow> remaining)\<rparr>, d))))"


section \<open>Provenance\<close>

text \<open>
  \<open>H\<close> is the set of datagrams the depacketizer was given, as pairs of extended sequence and wire
  bytes. A span is exact when the NAL bytes it covers are the wire bytes it names; for a fragment the
  synthesized header byte is also recomputed from the named indicator and FU header.
\<close>

definition span_exact :: "(u64 \<times> bytes) set \<Rightarrow> bytes \<Rightarrow> nal_source_span \<Rightarrow> bool" where
  "span_exact H bs sp \<longleftrightarrow>
     (\<exists>w. (sp_sequence sp, w) \<in> H
       \<and> fst (sp_wire_range sp) \<le> snd (sp_wire_range sp) \<and> snd (sp_wire_range sp) \<le> length w
       \<and> fst (sp_nal_range sp) \<le> snd (sp_nal_range sp) \<and> snd (sp_nal_range sp) \<le> length bs
       \<and> subslice bs (fst (sp_nal_range sp)) (snd (sp_nal_range sp))
         = subslice w (fst (sp_wire_range sp)) (snd (sp_wire_range sp))
       \<and> (case sp_fragment_header_range sp of
            None \<Rightarrow> True
          | Some (f, g) \<Rightarrow> g = f + 2 \<and> g \<le> length w
              \<and> bs ! 0 = (w ! f AND 0x60) OR (w ! (f + 1) AND 31)))"

fun spans_tile :: "usize \<Rightarrow> nal_source_span list \<Rightarrow> usize \<Rightarrow> bool" where
  "spans_tile n [] m \<longleftrightarrow> n = m"
| "spans_tile n (sp # sps) m \<longleftrightarrow> fst (sp_nal_range sp) = n \<and> spans_tile (snd (sp_nal_range sp)) sps m"

definition nal_header_ok :: "u8 \<Rightarrow> bool" where
  "nal_header_ok h \<longleftrightarrow> h AND 0x80 = 0 \<and> 1 \<le> h AND 31 \<and> h AND 31 \<le> 23"

text \<open>
  Every byte of the unit is covered once: a whole unit by its only span, a fragmented unit by its
  header byte and then consecutive spans from consecutively numbered datagrams.
\<close>

definition nal_sourced :: "(u64 \<times> bytes) set \<Rightarrow> nal_unit \<Rightarrow> bool" where
  "nal_sourced H n \<longleftrightarrow>
     map sp_sequence (nal_sources n) = [nal_first_sequence n ..< nal_first_sequence n + length (nal_sources n)]
     \<and> (\<forall>sp\<in>set (nal_sources n). span_exact H (nal_bytes n) sp)
     \<and> (if \<exists>sp. nal_sources n = [sp] \<and> sp_fragment_header_range sp = None
        then spans_tile 0 (nal_sources n) (length (nal_bytes n))
        else (\<forall>sp\<in>set (nal_sources n). sp_fragment_header_range sp \<noteq> None)
          \<and> spans_tile 1 (nal_sources n) (length (nal_bytes n)))"

definition nal_ok :: "(u64 \<times> bytes) set \<Rightarrow> stream_key \<Rightarrow> h264_limits \<Rightarrow> nal_unit \<Rightarrow> bool" where
  "nal_ok H key l n \<longleftrightarrow>
     nal_key n = key \<and> nal_bytes n \<noteq> [] \<and> nal_header_ok (nal_bytes n ! 0)
     \<and> length (nal_bytes n) \<le> max_nal_bytes l
     \<and> nal_sources n \<noteq> [] \<and> length (nal_sources n) \<le> max_fragment_packets l
     \<and> nal_sourced H n"

text \<open>The retained fragment chain before the datagram numbered \<open>next\<close>.\<close>

definition chain_ok :: "(u64 \<times> bytes) set \<Rightarrow> stream_key \<Rightarrow> h264_limits \<Rightarrow> u64 \<Rightarrow> u64 \<Rightarrow> nal_unit \<Rightarrow> bool" where
  "chain_ok H key l now nxt n \<longleftrightarrow>
     nal_key n = key \<and> nal_bytes n \<noteq> [] \<and> nal_header_ok (nal_bytes n ! 0)
     \<and> length (nal_bytes n) \<le> max_nal_bytes l
     \<and> length (nal_sources n) \<le> max_fragment_packets l
     \<and> nal_first_sequence n + length (nal_sources n) = nxt
     \<and> map sp_sequence (nal_sources n) = [nal_first_sequence n ..< nxt]
     \<and> (\<forall>sp\<in>set (nal_sources n). span_exact H (nal_bytes n) sp \<and> sp_fragment_header_range sp \<noteq> None)
     \<and> spans_tile 1 (nal_sources n) (length (nal_bytes n))
     \<and> nal_started_ns n \<le> now \<and> nal_started_ns n + max_pending_age_ns l \<le> u64_max"

definition h264_inv :: "(u64 \<times> bytes) set \<Rightarrow> h264_depacketizer \<Rightarrow> bool" where
  "h264_inv H d \<longleftrightarrow>
     (case hd_pending d of
        None \<Rightarrow> True
      | Some n \<Rightarrow> nal_sources n \<noteq> [] \<and> (\<exists>prev. hd_last_sequence d = Some prev
          \<and> chain_ok H (hd_key d) (hd_limits d) (hd_last_now_ns d) (prev + 1) n))"

lemma subslice_subslice:
  "s + z \<le> e \<Longrightarrow> subslice (subslice bs s e) a z = subslice bs (s + a) (s + z)"
  by (simp add: subslice_def drop_take min_def add.commute)

lemma reserve_Inr [rust_simps]: "reserve alloc n c = Inr u \<longleftrightarrow> n \<le> c \<and> alloc n"
  by (auto simp: reserve_def)

lemma span_exact_mono: "span_exact H bs sp \<Longrightarrow> H \<subseteq> H' \<Longrightarrow> span_exact H' bs sp"
  unfolding span_exact_def by blast

lemma span_exact_append: "span_exact H bs sp \<Longrightarrow> bs \<noteq> [] \<Longrightarrow> span_exact H (bs @ cs) sp"
  by (fastforce simp: span_exact_def subslice_append_left nth_append split: option.splits)

lemma chain_ok_mono: "chain_ok H k l now nxt n \<Longrightarrow> H \<subseteq> H' \<Longrightarrow> now \<le> now' \<Longrightarrow> chain_ok H' k l now' nxt n"
  unfolding chain_ok_def using span_exact_mono by fastforce

lemma spans_tile_append [simp]:
  "spans_tile n (sps @ [sp]) m \<longleftrightarrow> spans_tile n sps (fst (sp_nal_range sp)) \<and> snd (sp_nal_range sp) = m"
  by (induction n sps m rule: spans_tile.induct) auto

lemma rtp_payload_slice:
  assumes "rtp_wf p" and "z \<le> length (rtp_payload p)"
  shows "subslice (rtp_payload p) a z = subslice (rtp_bytes p) (rtp_payload_start p + a) (rtp_payload_start p + z)"
  unfolding rtp_payload_def
  using assms by (intro subslice_subslice) (auto simp: length_rtp_payload rtp_wf_def)

lemma rtp_payload_nth:
  assumes "rtp_wf p" and "i < length (rtp_payload p)"
  shows "rtp_payload p ! i = rtp_bytes p ! (rtp_payload_start p + i)"
  using assms by (simp add: rtp_payload_def nth_subslice rtp_wf_def)

lemma copy_nal_ok:
  assumes c: "h264_copy_nal alloc d sq p (a, z) now m = Inr n"
    and p: "rtp_wf p" "(sq, rtp_bytes p) \<in> H"
    and r: "a < z" "z \<le> length (rtp_payload p)" and h: "nal_header_ok (rtp_payload p ! a)"
  shows "nal_ok H (hd_key d) (hd_limits d) n \<and> nal_bytes n = subslice (rtp_payload p) a z
    \<and> nal_marker n = m \<and> nal_timestamp n = rtp_timestamp p"
proof -
  have len: "length (subslice (rtp_payload p) a z) = z - a" using r by simp
  have hd: "subslice (rtp_payload p) a z ! 0 = rtp_payload p ! a" using r by (simp add: nth_subslice)
  have fits: "rtp_payload_start p + z \<le> length (rtp_bytes p)"
    using p(1) r(2) by (auto simp: length_rtp_payload rtp_wf_def)
  let ?bs = "subslice (rtp_payload p) a z" and ?w = "rtp_payload_start p"
  have ne: "?bs \<noteq> []" using len r(1) by auto
  have "subslice ?bs 0 (z - a) = ?bs" using len by (metis subslice_all)
  then have "span_exact H ?bs \<lparr>sp_sequence = sq, sp_wire_range = (?w + a, ?w + z),
      sp_nal_range = (0, z - a), sp_fragment_header_range = None\<rparr>"
    using p r fits len rtp_payload_slice [OF p(1) r(2), of a]
    by (auto simp: span_exact_def intro!: exI [of _ "rtp_bytes p"])
  then show ?thesis
    using c h len hd ne
    by (auto simp: h264_copy_nal_def rust_simps Let_def nal_ok_def nal_sourced_def rtp_payload_range_def)
qed


text \<open>A validated aggregation payload: the loop of \<open>consume\<close> reads what \<open>validate_stap\<close> checked.\<close>

lemma validate_stap_step:
  assumes "validate_stap_from payload l off cnt nri = Inr r" and "off < length payload"
  obtains len where "len = unat (be16 (subslice payload off (off + 2)))" "0 < len" "len \<le> max_nal_bytes l"
    "off + 2 + len \<le> length payload" "nal_header_ok (payload ! (off + 2))" "cnt \<noteq> max_packet_nals l"
    "validate_stap_from payload l (off + 2 + len) (cnt + 1) (max nri (payload ! (off + 2) AND 0x60)) = Inr r"
proof -
  define len where "len = unat (be16 (subslice payload off (off + 2)))"
  note step = assms(1) [unfolded validate_stap_from.simps [of payload l off cnt nri] Let_def]
  have *: "cnt \<noteq> max_packet_nals l" "off + 2 \<le> length payload" "0 < len" "len \<le> max_nal_bytes l"
    "off + 2 + len \<le> length payload"
    using step assms(2) by (auto simp: rust_simps len_def split: if_splits)
  then have "subslice payload (off + 2) (off + 2 + len) ! 0 = payload ! (off + 2)"
    by (simp add: nth_subslice)
  with * step assms(2) show thesis
    by (intro that [of len]) (auto simp: rust_simps len_def nal_header_ok_def split: if_splits)
qed

lemma validate_stap_from_ok:
  assumes "validate_stap_from payload l off cnt nri = Inr (total_nals, nri')"
    and "payload = rtp_payload p" "l = hd_limits d" "rtp_wf p" "(sq, rtp_bytes p) \<in> H" "cnt \<le> max_packet_nals l"
  shows "cnt \<le> total_nals \<and> total_nals \<le> max_packet_nals l
    \<and> (\<forall>nals. h264_stap_nals alloc d sq p now off (total_nals - cnt) = Inr nals \<longrightarrow>
        length nals = total_nals - cnt \<and> (\<forall>n\<in>set nals. nal_ok H (hd_key d) l n))"
  using assms(1,6)
proof (induction "length payload - off" arbitrary: off cnt nri rule: less_induct)
  case less
  show ?case
  proof (cases "off < length payload")
    case False
    with less.prems have "total_nals = cnt" by (simp add: validate_stap_from.simps)
    then show ?thesis using less.prems by simp
  next
    case True
    from less.prems(1) True obtain len where len: "len = unat (be16 (subslice payload off (off + 2)))" "0 < len"
      "off + 2 + len \<le> length payload" "nal_header_ok (payload ! (off + 2))" "cnt \<noteq> max_packet_nals l"
      "validate_stap_from payload l (off + 2 + len) (cnt + 1) (max nri (payload ! (off + 2) AND 0x60)) = Inr (total_nals, nri')"
      by (rule validate_stap_step)
    have IH: "cnt + 1 \<le> total_nals \<and> total_nals \<le> max_packet_nals l
      \<and> (\<forall>nals. h264_stap_nals alloc d sq p now (off + 2 + len) (total_nals - (cnt + 1)) = Inr nals \<longrightarrow>
        length nals = total_nals - (cnt + 1) \<and> (\<forall>n\<in>set nals. nal_ok H (hd_key d) l n))"
      using len less.prems(2) by (intro less.hyps) auto
    from conjunct1 [OF this] have split: "total_nals - cnt = Suc (total_nals - (cnt + 1))" by simp
    show ?thesis
      unfolding split using IH len assms(2-5) copy_nal_ok [of alloc d sq p "off + 2" "off + 2 + len" now _ _ H]
      by (auto simp: rust_simps Let_def)
  qed
qed


text \<open>
  Inside \<open>consume\<close> the pending chain waits for exactly the datagram being consumed; afterwards it
  waits for the following one.
\<close>

definition waits_for :: "(u64 \<times> bytes) set \<Rightarrow> u64 \<Rightarrow> u64 \<Rightarrow> h264_depacketizer \<Rightarrow> bool" where
  "waits_for H now nxt d \<longleftrightarrow>
     (case hd_pending d of None \<Rightarrow> True
      | Some n \<Rightarrow> chain_ok H (hd_key d) (hd_limits d) now nxt n \<and> nal_sources n \<noteq> [])"

definition same_config :: "h264_depacketizer \<Rightarrow> h264_depacketizer \<Rightarrow> bool" where
  "same_config d d' \<longleftrightarrow> hd_key d' = hd_key d \<and> hd_payload_type d' = hd_payload_type d \<and> hd_mode d' = hd_mode d
     \<and> hd_limits d' = hd_limits d \<and> hd_last_sequence d' = hd_last_sequence d
     \<and> hd_last_now_ns d' = hd_last_now_ns d \<and> hd_closed d' = hd_closed d"

lemma same_config_simps [simp]:
  "same_config d d" "same_config d (d\<lparr>hd_pending := x\<rparr>)"
  "same_config d d1 \<Longrightarrow> same_config d (d1\<lparr>hd_pending := x\<rparr>)"
  by (simp_all add: same_config_def)

lemma h264_discard_state [simp]: "snd (h264_discard d r) = d\<lparr>hd_pending := None\<rparr>"
  by (cases "hd_pending d") (simp_all add: h264_discard_def)

lemma or_discard_state:
  assumes "or_discard d x r = (y, d')"
  shows "same_config d d' \<and> (hd_pending d' = hd_pending d \<or> hd_pending d' = None)
    \<and> (x \<noteq> None \<longrightarrow> hd_pending d' = hd_pending d) \<and> (x = None \<longrightarrow> hd_pending d' = None)"
  using assms by (auto simp: or_discard_def same_config_def h264_discard_def split: option.splits)

lemma fu_start_ok:
  assumes "h264_fu_start alloc d sq p now h disc = (Inr u, d', disc')"
    and "nal_header_ok h" and "2 \<le> length (rtp_payload p)"
  shows "same_config d d' \<and> (\<exists>n. hd_pending d' = Some n \<and> chain_ok H (hd_key d) (hd_limits d) now sq n
    \<and> nal_bytes n = [h] \<and> nal_timestamp n = rtp_timestamp p \<and> nal_started_ns n = now
    \<and> nal_sources n = [])"
  using assms
  by (auto simp: h264_fu_start_def rust_simps chain_ok_def Let_def same_config_def dest!: or_discard_state
      split: sum.splits prod.splits)

lemma fu_append_span:
  assumes p: "rtp_wf p" "(sq, rtp_bytes p) \<in> H" and l: "2 \<le> length (rtp_payload p)"
    and h: "bs ! 0 = (rtp_payload p ! 0 AND 0x60) OR (rtp_payload p ! 1 AND 31)" and ne: "bs \<noteq> []"
  shows "span_exact H (bs @ drop 2 (rtp_payload p))
    \<lparr>sp_sequence = sq,
     sp_wire_range = (rtp_payload_start p + 2, rtp_payload_start p + length (rtp_payload p)),
     sp_nal_range = (length bs, length bs + (length (rtp_payload p) - 2)),
     sp_fragment_header_range = Some (rtp_payload_start p, rtp_payload_start p + 2)\<rparr>"
proof -
  let ?pl = "rtp_payload p" and ?s = "rtp_payload_start p"
  have fin: "?s + length ?pl \<le> length (rtp_bytes p)"
    using p(1) by (auto simp: length_rtp_payload rtp_wf_def)
  have "drop 2 ?pl = subslice ?pl 2 (length ?pl)" by (simp add: subslice_def)
  then have "drop 2 ?pl = subslice (rtp_bytes p) (?s + 2) (?s + length ?pl)"
    using rtp_payload_slice [OF p(1), of "length ?pl" 2] by simp
  moreover have "?pl ! 0 = rtp_bytes p ! ?s" "?pl ! 1 = rtp_bytes p ! (?s + 1)"
    using rtp_payload_nth [OF p(1), of 0] rtp_payload_nth [OF p(1), of 1] l by (force, force)
  ultimately show ?thesis
    unfolding span_exact_def using p l h fin ne
    by (intro exI [of _ "rtp_bytes p"]) (simp add: subslice_append_right subslice_def nth_append)
qed

lemma chain_nal_ok: "chain_ok H k l now nxt n \<Longrightarrow> nal_sources n \<noteq> [] \<Longrightarrow> nal_ok H k l n"
  by (auto simp: chain_ok_def nal_ok_def nal_sourced_def)

lemma chain_ok_marker [simp]: "chain_ok H k l now nxt (n\<lparr>nal_marker := m\<rparr>) = chain_ok H k l now nxt n"
  by (simp add: chain_ok_def)

lemma fu_append_ok:
  assumes app: "h264_fu_append alloc d sq p h final disc = (r, d', disc')"
    and p: "rtp_wf p" "(sq, rtp_bytes p) \<in> H" and l: "2 \<le> length (rtp_payload p)"
    and h: "h = (rtp_payload p ! 0 AND 0x60) OR (rtp_payload p ! 1 AND 31)"
    and chain: "\<And>n. hd_pending d = Some n \<Longrightarrow> chain_ok H (hd_key d) (hd_limits d) now sq n"
  shows "same_config d d' \<and> disc' = disc
    \<and> (\<forall>nals. r = Inr nals \<longrightarrow> waits_for H now (sq + 1) d'
        \<and> (\<forall>n\<in>set nals. nal_ok H (hd_key d) (hd_limits d) n) \<and> length nals \<le> max_packet_nals (hd_limits d))"
proof (cases "hd_pending d")
  case (Some n)
  let ?sp = "\<lparr>sp_sequence = sq,
     sp_wire_range = (rtp_payload_start p + 2, rtp_payload_start p + length (rtp_payload p)),
     sp_nal_range = (length (nal_bytes n), length (nal_bytes n) + (length (rtp_payload p) - 2)),
     sp_fragment_header_range = Some (rtp_payload_start p, rtp_payload_start p + 2)\<rparr>"
  define n' where "n' = n\<lparr>nal_bytes := nal_bytes n @ drop 2 (rtp_payload p), nal_sources := nal_sources n @ [?sp]\<rparr>"
  have grow: "chain_ok H (hd_key d) (hd_limits d) now (sq + 1) n'"
    if hdr: "nal_bytes n ! 0 = h"
      and fit: "length (nal_bytes n) + (length (rtp_payload p) - 2) \<le> max_nal_bytes (hd_limits d)"
        "length (nal_sources n) + 1 \<le> max_fragment_packets (hd_limits d)"
  proof -
    note C = chain [OF Some, unfolded chain_ok_def]
    have "span_exact H (nal_bytes n') ?sp"
      using fu_append_span [OF p l, of "nal_bytes n"] C h hdr by (simp add: n'_def)
    moreover have "\<forall>sp\<in>set (nal_sources n). span_exact H (nal_bytes n') sp"
      using C span_exact_append by (simp add: n'_def)
    ultimately show ?thesis
      using C fit l by (simp add: chain_ok_def n'_def nth_append)
  qed
  have ne: "nal_sources n' \<noteq> []" by (simp add: n'_def)
  show ?thesis
    using app Some grow ne chain_nal_ok [of H "hd_key d" "hd_limits d" now "sq + 1" "n'\<lparr>nal_marker := rtp_marker p\<rparr>"]
    by (auto simp: h264_fu_append_def rust_simps Let_def waits_for_def n'_def rtp_payload_range_def same_config_def
        split: if_splits sum.splits)
qed (use app in \<open>auto simp: h264_fu_append_def\<close>)


lemma or_bytes_header:
  "nal_header_ok ((a AND 0x60) OR (f AND 31)) \<longleftrightarrow> 1 \<le> f AND 31 \<and> f AND 31 \<le> 23" for a f :: u8
proof -
  have "((a AND 0x60) OR (f AND 31)) AND 31 = f AND 31" "((a AND 0x60) OR (f AND 31)) AND 0x80 = 0"
    by (simp_all add: bit.conj_disj_distrib2 and.assoc)
  then show ?thesis by (simp add: nal_header_ok_def)
qed

lemma consume_fu_ok:
  assumes c: "h264_consume_fu alloc d sq p now (rtp_payload p ! 0) disc = (r, d', disc')"
    and p: "rtp_wf p" "(sq, rtp_bytes p) \<in> H" and w: "waits_for H now sq d"
  shows "same_config d d' \<and> (\<forall>nals. r = Inr nals \<longrightarrow> waits_for H now (sq + 1) d'
        \<and> (\<forall>n\<in>set nals. nal_ok H (hd_key d) (hd_limits d) n) \<and> length nals \<le> max_packet_nals (hd_limits d))"
proof -
  let ?fu = "rtp_payload p ! 1"
  let ?h = "(rtp_payload p ! 0 AND 0x60) OR (?fu AND 31)"
  show ?thesis
  proof (cases "2 \<le> length (rtp_payload p) \<and> nal_header_ok ?h")
    case False
    then show ?thesis
      using c by (auto simp: h264_consume_fu_def get_at_def Let_def or_bytes_header split: if_splits)
  next
    case True
    then have len: "2 \<le> length (rtp_payload p)" and hok: "nal_header_ok ?h" by auto
    note app = fu_append_ok [OF _ p len refl, of alloc _ _ _ r d' disc' now]
    show ?thesis
    proof (cases "?fu AND 0x80 \<noteq> 0")
      case True
      obtain rs ds discs where st: "h264_fu_start alloc d sq p now ?h disc = (rs, ds, discs)"
        by (metis prod.exhaust)
      show ?thesis
      proof (cases rs)
        case (Inl e)
        then have "ds = d" using st by (auto simp: h264_fu_start_def Let_def split: sum.splits prod.splits)
        then show ?thesis using c st Inl True len
          by (auto simp: h264_consume_fu_def get_at_def Let_def split: if_splits)
      next
        case (Inr u)
        note S = fu_start_ok [OF st [unfolded Inr] hok len, of H]
        show ?thesis using c st Inr True len S app [of ds _ discs]
          by (auto simp: h264_consume_fu_def get_at_def Let_def same_config_def split: if_splits)
      qed
    next
      case False
      then show ?thesis
        using c len w app [of d _ disc]
        by (auto simp: h264_consume_fu_def get_at_def Let_def waits_for_def split: if_splits option.splits)
    qed
  qed
qed

lemma consume_single_ok:
  assumes c: "h264_consume_single alloc d sq p now disc = (r, d', disc')"
    and p: "rtp_wf p" "(sq, rtp_bytes p) \<in> H" and h: "rtp_payload p \<noteq> []" "nal_header_ok (rtp_payload p ! 0)"
    and disc: "disc \<noteq> None \<longrightarrow> hd_pending d = None"
  shows "same_config d d' \<and> (\<forall>nals. r = Inr nals \<longrightarrow> hd_pending d' = None
        \<and> (\<forall>n\<in>set nals. nal_ok H (hd_key d) (hd_limits d) n) \<and> length nals \<le> max_packet_nals (hd_limits d))"
  using c p h disc copy_nal_ok [of alloc d sq p 0 "length (rtp_payload p)" now "rtp_marker p" _ H]
  by (auto simp: h264_consume_single_def rust_simps Let_def split: sum.splits prod.splits dest!: or_discard_state)

lemma consume_stap_ok:
  assumes c: "h264_consume_stap alloc d sq p now disc = (r, d', disc')"
    and p: "rtp_wf p" "(sq, rtp_bytes p) \<in> H"
    and disc: "disc \<noteq> None \<longrightarrow> hd_pending d = None"
  shows "same_config d d' \<and> (\<forall>nals. r = Inr nals \<longrightarrow> hd_pending d' = None
        \<and> (\<forall>n\<in>set nals. nal_ok H (hd_key d) (hd_limits d) n) \<and> length nals \<le> max_packet_nals (hd_limits d))"
proof -
  have nals: "(\<forall>n\<in>set nals. nal_ok H (hd_key d) (hd_limits d) n) \<and> length nals \<le> max_packet_nals (hd_limits d)"
    if "validate_stap (rtp_payload p) (hd_limits d) = Inr k" "h264_stap_nals alloc d sq p now 1 k = Inr nals" for k nals
    using that validate_stap_from_ok [OF _ refl refl p, of d 1 0 0 k _ alloc now]
    by (auto simp: validate_stap_def rust_simps split: if_splits)
  show ?thesis
    using c disc nals
    by (auto simp: h264_consume_stap_def rust_simps Let_def split: sum.splits prod.splits dest!: or_discard_state)
qed


lemma consume_ok:
  assumes c: "h264_consume alloc d sq p now disc = (r, d', disc')"
    and p: "rtp_wf p" "(sq, rtp_bytes p) \<in> H" and w: "waits_for H now sq d"
    and disc: "disc \<noteq> None \<longrightarrow> hd_pending d = None"
  shows "same_config d d' \<and> (\<forall>out. r = Inr out \<longrightarrow> waits_for H now (sq + 1) d'
        \<and> (\<forall>n\<in>set (ho_nals out). nal_ok H (hd_key d) (hd_limits d) n)
        \<and> length (ho_nals out) \<le> max_packet_nals (hd_limits d))"
proof (cases "rtp_payload p = [] \<or> rtp_payload p ! 0 AND 0x80 \<noteq> 0")
  case True
  then show ?thesis using c by (auto simp: h264_consume_def get_at_def split: if_splits)
next
  case False
  let ?k = "rtp_payload p ! 0 AND 31"
  consider "1 \<le> ?k \<and> ?k \<le> 23" | "?k = 24" "\<not> (1 \<le> ?k \<and> ?k \<le> 23)" | "?k = 28" "\<not> (1 \<le> ?k \<and> ?k \<le> 23)"
    | "\<not> (1 \<le> ?k \<and> ?k \<le> 23)" "?k \<noteq> 24" "?k \<noteq> 28" by blast
  then show ?thesis
  proof cases
    case 1
    then have h: "nal_header_ok (rtp_payload p ! 0)" using False by (simp add: nal_header_ok_def)
    show ?thesis using c 1 False consume_single_ok [OF _ p _ h disc, of alloc now]
      by (fastforce simp: h264_consume_def get_at_def Let_def waits_for_def split: prod.splits sum.splits)
  next
    case 2
    then show ?thesis using c False consume_stap_ok [OF _ p disc, of alloc now]
      by (fastforce simp: h264_consume_def get_at_def Let_def waits_for_def split: prod.splits sum.splits if_splits)
  next
    case 3
    then show ?thesis using c False consume_fu_ok [OF _ p w, of alloc disc]
      by (fastforce simp: h264_consume_def get_at_def Let_def split: prod.splits sum.splits if_splits)
  next
    case 4
    then show ?thesis using c False
      by (auto simp: h264_consume_def get_at_def Let_def split: if_splits)
  qed
qed

lemma expire_ok:
  assumes "h264_inv H d" and "h264_expire d now = (r, d')"
  shows "h264_inv H d' \<and> hd_key d' = hd_key d \<and> hd_limits d' = hd_limits d \<and> hd_closed d' = hd_closed d
    \<and> hd_last_sequence d' = hd_last_sequence d \<and> hd_payload_type d' = hd_payload_type d \<and> hd_mode d' = hd_mode d
    \<and> (\<forall>x. r = Inr x \<longrightarrow> hd_last_now_ns d' = now \<and> hd_last_now_ns d \<le> now
        \<and> (x \<noteq> None \<longrightarrow> hd_pending d' = None) \<and> (x = None \<longrightarrow> hd_pending d' = hd_pending d))
    \<and> (\<forall>e. r = Inl e \<longrightarrow> d' = d)"
  using assms
  by (auto simp: h264_expire_def h264_inv_def h264_discard_def Let_def not_less
      split: if_splits option.splits prod.splits elim: chain_ok_mono)

lemma h264_inv_mono: "h264_inv H d \<Longrightarrow> H \<subseteq> H' \<Longrightarrow> h264_inv H' d"
  by (cases "hd_pending d") (auto simp: h264_inv_def intro: chain_ok_mono)

lemma nal_ok_mono: "nal_ok H k l n \<Longrightarrow> H \<subseteq> H' \<Longrightarrow> nal_ok H' k l n"
  unfolding nal_ok_def nal_sourced_def by (meson span_exact_mono)

definition breaks :: "h264_depacketizer \<Rightarrow> u64 \<Rightarrow> bool" where
  "breaks d sq \<longleftrightarrow> (case hd_last_sequence d of None \<Rightarrow> False | Some prev \<Rightarrow> checked_add prev 1 \<noteq> Some sq)"

lemma h264_discard_pair: "h264_discard d r = (fst (h264_discard d r), d\<lparr>hd_pending := None\<rparr>)"
  by (metis h264_discard_state prod.collapse)

definition after_gap :: "h264_depacketizer \<Rightarrow> u64 \<Rightarrow> fragment_discard option \<Rightarrow> h264_depacketizer" where
  "after_gap d1 sq disc =
     (if breaks d1 sq \<and> disc = None then d1\<lparr>hd_pending := None\<rparr> else d1)\<lparr>hd_last_sequence := Some sq\<rparr>"

definition gap_receipt :: "h264_depacketizer \<Rightarrow> u64 \<Rightarrow> fragment_discard option \<Rightarrow> fragment_discard option" where
  "gap_receipt d1 sq disc =
     (if breaks d1 sq \<and> disc = None then fst (h264_discard d1 h264_error.Gap) else disc)"

lemma h264_push_eq:
  assumes "h264_expire d now = (Inr disc, d1)"
    and "rtp_ssrc p = key_ssrc (hd_key d)" "rtp_payload_type p = hd_payload_type d" "rtp_sequence p = of_nat sq"
    and "\<not> hd_closed d" "hd_last_now_ns d \<le> now"
    and "case hd_last_sequence d1 of None \<Rightarrow> True | Some prev \<Rightarrow> prev < sq"
  shows "h264_push alloc d (hd_key d) sq p now =
    (case h264_consume alloc (after_gap d1 sq disc) sq p now (gap_receipt d1 sq disc) of
      (Inr out, d, disc) \<Rightarrow> (Inr (out\<lparr>ho_gap_before := breaks d1 sq, ho_discarded := disc\<rparr>), d)
    | (Inl e, d, disc) \<Rightarrow>
        (Inl \<lparr>hf_reason = e,
              hf_discarded = (case disc of Some x \<Rightarrow> Some x | None \<Rightarrow> fst (h264_discard d e))\<rparr>,
         d\<lparr>hd_pending := None\<rparr>))"
proof -
  obtain g where gp: "h264_discard d1 h264_error.Gap = (g, d1\<lparr>hd_pending := None\<rparr>)"
    using h264_discard_pair [of d1 h264_error.Gap] by blast
  obtain rc d3 disc3 where c: "h264_consume alloc (after_gap d1 sq disc) sq p now (gap_receipt d1 sq disc) = (rc, d3, disc3)"
    by (metis prod.exhaust)
  have "h264_push alloc d (hd_key d) sq p now = (case rc of
      Inr out \<Rightarrow> (Inr (out\<lparr>ho_gap_before := breaks d1 sq, ho_discarded := disc3\<rparr>), d3)
    | Inl e \<Rightarrow> (let (remaining, d) = h264_discard d3 e in
        (Inl \<lparr>hf_reason = e, hf_discarded = (case disc3 of Some x \<Rightarrow> Some x | None \<Rightarrow> remaining)\<rparr>, d)))"
    using assms c gp unfolding after_gap_def gap_receipt_def breaks_def h264_push_def
    by (cases "hd_last_sequence d1"; cases disc; cases rc) (auto split: if_splits)
  then show ?thesis
    using c by (cases rc; cases disc3) (simp_all add: case_prod_unfold)
qed

lemma h264_push_cases:
  assumes "h264_push alloc d key sq p now = (r, d')" and "h264_expire d now = (x, d1)"
  obtains (early) "d' = d \<or> d' = d1" "\<forall>out. r = Inr out \<longrightarrow> ho_nals out = []"
    | (run) disc rc d3 disc3 where "x = Inr disc" "hd_last_now_ns d1 = now"
      "(case hd_last_sequence d1 of None \<Rightarrow> True | Some prev \<Rightarrow> prev < sq)"
      "h264_consume alloc (after_gap d1 sq disc) sq p now (gap_receipt d1 sq disc) = (rc, d3, disc3)"
      "\<forall>out. r = Inr out \<longrightarrow> (\<exists>o'. rc = Inr o' \<and> ho_nals out = ho_nals o') \<and> d' = d3"
      "\<forall>f. r = Inl f \<longrightarrow> d' = d3\<lparr>hd_pending := None\<rparr>"
proof (cases "key \<noteq> hd_key d \<or> rtp_ssrc p \<noteq> key_ssrc key \<or> rtp_payload_type p \<noteq> hd_payload_type d
    \<or> rtp_sequence p \<noteq> of_nat sq \<or> hd_closed d \<or> now < hd_last_now_ns d
    \<or> (case hd_last_sequence d1 of None \<Rightarrow> False | Some prev \<Rightarrow> sq \<le> prev)")
  case True
  have "x = Inl f \<Longrightarrow> d1 = d" for f using assms(2) by (auto simp: h264_expire_def Let_def split: if_splits prod.splits)
  with True assms show thesis
    by (intro early; cases x) (auto simp: h264_push_def Let_def split: if_splits)
next
  case False
  then obtain disc where x: "x = Inr disc" and now: "hd_last_now_ns d1 = now"
    using assms(2)
    by (cases x) (auto simp: h264_expire_def Let_def h264_discard_def split: if_splits prod.splits option.splits)
  have last: "case hd_last_sequence d1 of None \<Rightarrow> True | Some prev \<Rightarrow> prev < sq"
    using False by (auto split: option.splits)
  obtain rc d3 disc3 where c: "h264_consume alloc (after_gap d1 sq disc) sq p now (gap_receipt d1 sq disc) = (rc, d3, disc3)"
    by (metis prod.exhaust)
  from False have "h264_push alloc d (hd_key d) sq p now = (r, d')" using assms(1) by simp
  with h264_push_eq [OF assms(2) [unfolded x], of p sq alloc] False last c x now show thesis
    by (intro run [of disc rc d3 disc3]) (auto split: sum.splits option.splits)
qed

lemma h264_push_ok:
  assumes push: "h264_push alloc d key sq p now = (r, d')" and inv: "h264_inv H d" and p: "rtp_wf p"
  defines "H' \<equiv> insert (sq, rtp_bytes p) H"
  shows "h264_inv H' d' \<and> hd_key d' = hd_key d \<and> hd_limits d' = hd_limits d
    \<and> (\<forall>out. r = Inr out \<longrightarrow> (\<forall>n\<in>set (ho_nals out). nal_ok H' (hd_key d) (hd_limits d) n)
        \<and> length (ho_nals out) \<le> max_packet_nals (hd_limits d))"
proof -
  have inv': "h264_inv H' d" using inv h264_inv_mono H'_def by blast
  obtain x d1 where ex: "h264_expire d now = (x, d1)" by fastforce
  note E = expire_ok [OF inv' ex]
  from push ex show ?thesis
  proof (cases rule: h264_push_cases)
    case early
    then show ?thesis using inv' E by auto
  next
    case (run disc rc d3 disc3)
    let ?d2 = "after_gap d1 sq disc"
    have d2: "hd_key ?d2 = hd_key d" "hd_limits ?d2 = hd_limits d" "hd_last_sequence ?d2 = Some sq" "hd_last_now_ns ?d2 = now"
      using run E by (auto simp: after_gap_def)
    have "waits_for H' now sq ?d2"
      using run(1-3) E d2(1,2)
      by (auto simp: waits_for_def h264_inv_def after_gap_def breaks_def rust_simps split: option.splits if_splits)
    moreover have "gap_receipt d1 sq disc \<noteq> None \<longrightarrow> hd_pending ?d2 = None"
      using run(1) E by (auto simp: gap_receipt_def after_gap_def)
    ultimately have C: "same_config ?d2 d3 \<and> (\<forall>out. rc = Inr out \<longrightarrow> waits_for H' now (sq + 1) d3
        \<and> (\<forall>n\<in>set (ho_nals out). nal_ok H' (hd_key ?d2) (hd_limits ?d2) n)
        \<and> length (ho_nals out) \<le> max_packet_nals (hd_limits ?d2))"
      using consume_ok [OF run(4) p] H'_def by blast
    show ?thesis
      using C d2 run(5,6)
      by (cases r) (auto simp: h264_inv_def waits_for_def same_config_def split: option.splits)
  qed
qed

section \<open>The reassembly contract\<close>

text \<open>
  A reassembler is driven by events; an event may hand it datagrams. Its contract: with every
  datagram handed over recorded in the history, each unit it emits satisfies \<open>ok\<close> for that history.
\<close>

fun reassembly_run :: "('d \<Rightarrow> 'ev \<Rightarrow> 'n list \<times> 'd) \<Rightarrow> 'd \<Rightarrow> 'ev list \<Rightarrow> 'n list \<times> 'd" where
  "reassembly_run step d [] = ([], d)"
| "reassembly_run step d (ev # evs) =
     (let (ns, d1) = step d ev; (ms, d2) = reassembly_run step d1 evs in (ns @ ms, d2))"

locale reassembler =
  fixes step :: "'d \<Rightarrow> 'ev \<Rightarrow> 'n list \<times> 'd"
    and given :: "'ev \<Rightarrow> (u64 \<times> bytes) set"
    and legal :: "'ev \<Rightarrow> bool"
    and good :: "(u64 \<times> bytes) set \<Rightarrow> 'd \<Rightarrow> bool"
    and ok :: "(u64 \<times> bytes) set \<Rightarrow> 'd \<Rightarrow> 'n \<Rightarrow> bool"
  assumes keeps: "good H d \<Longrightarrow> legal ev \<Longrightarrow> step d ev = (ns, d') \<Longrightarrow> good (H \<union> given ev) d'"
    and emits: "good H d \<Longrightarrow> legal ev \<Longrightarrow> step d ev = (ns, d') \<Longrightarrow> n \<in> set ns \<Longrightarrow> ok (H \<union> given ev) d n"
    and monotone: "ok H d n \<Longrightarrow> H \<subseteq> H' \<Longrightarrow> ok H' d n"
    and stable: "legal ev \<Longrightarrow> good H d \<Longrightarrow> step d ev = (ns, d') \<Longrightarrow> ok H' d' n \<longleftrightarrow> ok H' d n"
begin

lemma run_ok:
  assumes "reassembly_run step d evs = (ns, d')" and "good H d" and "\<forall>ev\<in>set evs. legal ev"
  shows "good (H \<union> \<Union> (given ` set evs)) d' \<and> (\<forall>n\<in>set ns. ok (H \<union> \<Union> (given ` set evs)) d n)"
  using assms
proof (induction evs arbitrary: d H ns)
  case (Cons ev evs)
  obtain n1 d1 where s: "step d ev = (n1, d1)" by fastforce
  obtain n2 where r: "reassembly_run step d1 evs = (n2, d')" and ns: "ns = n1 @ n2"
    using Cons.prems(1) s by (auto split: prod.splits)
  have l: "legal ev" using Cons.prems(3) by simp
  have IH: "good (H \<union> given ev \<union> \<Union> (given ` set evs)) d' \<and>
      (\<forall>n\<in>set n2. ok (H \<union> given ev \<union> \<Union> (given ` set evs)) d1 n)"
    using Cons.IH [OF r keeps [OF Cons.prems(2) l s]] Cons.prems(3) by auto
  have "ok (H \<union> given ev \<union> \<Union> (given ` set evs)) d n" if "n \<in> set n1" for n
    using emits [OF Cons.prems(2) l s that] monotone by blast
  with IH ns stable [OF l Cons.prems(2) s] show ?case by (auto simp: Un_assoc)
qed simp

end

datatype h264_event =
    Push "usize \<Rightarrow> bool" stream_key u64 rtp_packet u64
  | Expire u64
  | DiscardGap
  | Cancel
  | Finish

fun h264_step :: "h264_depacketizer \<Rightarrow> h264_event \<Rightarrow> nal_unit list \<times> h264_depacketizer" where
  "h264_step d (Push alloc key sq p now) =
     (case h264_push alloc d key sq p now of (Inl _, d') \<Rightarrow> ([], d') | (Inr out, d') \<Rightarrow> (ho_nals out, d'))"
| "h264_step d (Expire now) = ([], snd (h264_expire d now))"
| "h264_step d DiscardGap = ([], snd (h264_discard_gap d))"
| "h264_step d Cancel = ([], snd (h264_cancel d))"
| "h264_step d Finish = ([], snd (h264_finish d))"

fun h264_given :: "h264_event \<Rightarrow> (u64 \<times> bytes) set" where
  "h264_given (Push _ _ sq p _) = {(sq, rtp_bytes p)}"
| "h264_given _ = {}"

fun h264_legal :: "h264_event \<Rightarrow> bool" where
  "h264_legal (Push _ _ _ p _) \<longleftrightarrow> rtp_wf p"
| "h264_legal _ \<longleftrightarrow> True"

lemma h264_step_ok:
  assumes "h264_inv H d" "h264_legal ev" "h264_step d ev = (ns, d')"
  shows "h264_inv (H \<union> h264_given ev) d' \<and> hd_key d' = hd_key d \<and> hd_limits d' = hd_limits d
    \<and> (\<forall>n\<in>set ns. nal_ok (H \<union> h264_given ev) (hd_key d) (hd_limits d) n)"
proof (cases ev)
  case (Push alloc key sq p now)
  obtain r d1 where push: "h264_push alloc d key sq p now = (r, d1)" by fastforce
  then have "d1 = d'" "ns = (case r of Inl _ \<Rightarrow> [] | Inr out \<Rightarrow> ho_nals out)"
    using assms(3) Push by (auto split: sum.splits)
  then show ?thesis
    using h264_push_ok [OF push assms(1)] assms(2) Push by (cases r) auto
next
  case (Expire now)
  then show ?thesis using assms expire_ok [OF assms(1) prod.collapse [symmetric], of now] by auto
qed (use assms in \<open>auto simp: h264_discard_gap_def h264_cancel_def h264_finish_def h264_inv_def\<close>)

interpretation fu: reassembler h264_step h264_given h264_legal h264_inv "\<lambda>H d. nal_ok H (hd_key d) (hd_limits d)"
proof
  show "h264_inv H d \<Longrightarrow> h264_legal ev \<Longrightarrow> h264_step d ev = (ns, d') \<Longrightarrow> h264_inv (H \<union> h264_given ev) d'"
    for H d ev ns d' using h264_step_ok by blast
  show "nal_ok (H \<union> h264_given ev) (hd_key d) (hd_limits d) n"
    if "h264_inv H d" "h264_legal ev" "h264_step d ev = (ns, d')" "n \<in> set ns" for H d ev ns d' n
    using h264_step_ok [OF that(1-3)] that(4) by blast
  show "nal_ok H (hd_key d) (hd_limits d) n \<Longrightarrow> H \<subseteq> H' \<Longrightarrow> nal_ok H' (hd_key d) (hd_limits d) n" for H H' d n
    by (rule nal_ok_mono)
  show "nal_ok H' (hd_key d') (hd_limits d') n = nal_ok H' (hd_key d) (hd_limits d) n"
    if "h264_legal ev" "h264_inv H d" "h264_step d ev = (ns, d')" for ev H d ns d' H' n
    using h264_step_ok [OF that(2,1,3)] by simp
qed

section \<open>Properties\<close>

text \<open>C9: Every reconstructed byte is traceable. Whatever well-formed datagrams, in whatever order and at
  whatever times, are pushed into a fresh depacketizer between expiries, gaps, cancellation and end
  of input, each NAL unit it emits has a clear forbidden bit and a type from 1 to 23, respects the
  size and fragment limits, and is exactly covered by its source spans: each span's bytes are the
  named bytes of the named pushed datagram, spans tile the unit, fragments come from consecutively
  numbered datagrams, and a synthesized header is the one their FU headers encode.\<close>

theorem h264_nals_sourced:
  assumes "h264_new key pt mode limits = Inr d" and "reassembly_run h264_step d evs = (ns, d')"
    and "\<forall>ev\<in>set evs. h264_legal ev"
  shows "\<forall>n\<in>set ns. nal_ok (\<Union> (h264_given ` set evs)) key limits n"
proof -
  have "h264_inv {} d" "hd_key d = key" "hd_limits d = limits"
    using assms(1) by (auto simp: h264_new_def h264_inv_def split: if_splits)
  then show ?thesis using fu.run_ok [OF assms(2) _ assms(3), of "{}"] by simp
qed

lemma h264_run_limits:
  assumes "reassembly_run h264_step d evs = (ns, d')" "h264_inv H d" "\<forall>ev\<in>set evs. h264_legal ev"
  shows "hd_limits d' = hd_limits d \<and> hd_key d' = hd_key d"
  using assms
proof (induction evs arbitrary: d H ns)
  case (Cons ev evs)
  obtain n1 d1 where s: "h264_step d ev = (n1, d1)" by fastforce
  obtain n2 where r: "reassembly_run h264_step d1 evs = (n2, d')"
    using Cons.prems(1) s by (auto split: prod.splits)
  show ?case
    using h264_step_ok [OF Cons.prems(2) _ s] Cons.IH [OF r, of "H \<union> h264_given ev"] Cons.prems(3) by simp
qed simp

text \<open>Retained state is bounded. After any such history the pending fragment chain is within the NAL
  size limit, and when something is pending its deadline is representable and lies at most the
  configured age after the last supplied time, so that a poll can always retire it.\<close>

theorem h264_pending_bounded:
  assumes "h264_new key pt mode limits = Inr d" and "reassembly_run h264_step d evs = (ns, d')"
    and "\<forall>ev\<in>set evs. h264_legal ev"
  shows "h264_pending_bytes d' \<le> max_nal_bytes limits
    \<and> (hd_pending d' \<noteq> None \<longrightarrow> (\<exists>at. h264_next_deadline_ns d' = Some at
        \<and> at \<le> hd_last_now_ns d' + max_pending_age_ns limits
        \<and> (\<forall>now\<ge>max at (hd_last_now_ns d'). \<exists>disc d''. h264_expire d' now = (Inr (Some disc), d'')
             \<and> fd_reason disc = h264_error.Deadline \<and> hd_pending d'' = None)))"
proof (cases "hd_pending d'")
  case None
  then show ?thesis by (simp add: h264_pending_bytes_def)
next
  case (Some n)
  have "h264_inv {} d" "hd_limits d = limits"
    using assms(1) by (auto simp: h264_new_def h264_inv_def split: if_splits)
  then have inv: "h264_inv (\<Union> (h264_given ` set evs)) d'" "hd_limits d' = limits"
    using fu.run_ok [OF assms(2) _ assms(3), of "{}"] h264_run_limits [OF assms(2) _ assms(3), of "{}"] by auto
  then show ?thesis
    using Some
    by (auto simp: h264_inv_def chain_ok_def h264_pending_bytes_def h264_next_deadline_ns_def rust_simps
        h264_expire_def h264_discard_def Let_def)
qed


section \<open>Fragmentation is inverted\<close>

text \<open>
  A sender's FU-A train for the NAL unit with header \<open>h\<close> and body \<open>concat cs\<close>: consecutive
  sequence numbers, one RTP timestamp, the start bit on the first, the end bit and possibly the
  marker on the last packet.
\<close>

definition fu_indicator :: "u8 \<Rightarrow> u8" where
  "fu_indicator h = (h AND 0x60) OR 28"

definition fu_header :: "u8 \<Rightarrow> bool \<Rightarrow> bool \<Rightarrow> u8" where
  "fu_header h start final = (if start then 0x80 else 0) OR (if final then 0x40 else 0) OR (h AND 31)"

definition bound_packet :: "h264_depacketizer \<Rightarrow> u64 \<Rightarrow> rtp_packet \<Rightarrow> bool" where
  "bound_packet d sq p \<longleftrightarrow> rtp_ssrc p = key_ssrc (hd_key d) \<and> rtp_payload_type p = hd_payload_type d
     \<and> rtp_sequence p = of_nat sq"

definition fu_fragment :: "u8 \<Rightarrow> u32 \<Rightarrow> bool \<Rightarrow> bool \<Rightarrow> bytes \<Rightarrow> rtp_packet \<Rightarrow> bool" where
  "fu_fragment h ts start final c p \<longleftrightarrow> rtp_timestamp p = ts \<and> (rtp_marker p \<longrightarrow> final)
     \<and> rtp_payload p = fu_indicator h # fu_header h start final # c"

fun fu_train :: "u8 \<Rightarrow> u32 \<Rightarrow> bool \<Rightarrow> bytes list \<Rightarrow> rtp_packet list \<Rightarrow> bool" where
  "fu_train h ts start [c] [p] \<longleftrightarrow> fu_fragment h ts start True c p"
| "fu_train h ts start (c # cs) (p # ps) \<longleftrightarrow> fu_fragment h ts start False c p \<and> fu_train h ts False cs ps"
| "fu_train h ts start _ _ \<longleftrightarrow> False"

text \<open>Pushes the packets under consecutive extended sequences, each at its own time.\<close>

fun push_all :: "h264_depacketizer \<Rightarrow> u64 \<Rightarrow> (rtp_packet \<times> u64) list \<Rightarrow>
    (h264_failure + h264_output) list \<times> h264_depacketizer" where
  "push_all d sq [] = ([], d)"
| "push_all d sq ((p, t) # ps) =
     (let (r, d1) = h264_push (\<lambda>_. True) d (hd_key d) sq p t; (rs, d2) = push_all d1 (sq + 1) ps
      in (r # rs, d2))"

lemma fu_bits:
  "fu_indicator h AND 0x80 = 0" "fu_indicator h AND 31 = 28" "fu_indicator h AND 0x60 = h AND 0x60"
  "fu_header h s f AND 31 = h AND 31" "fu_header h s f AND 0x80 \<noteq> 0 \<longleftrightarrow> s" "fu_header h s f AND 0x40 \<noteq> 0 \<longleftrightarrow> f"
  by (auto simp: fu_indicator_def fu_header_def bit.conj_disj_distrib2 and.assoc)

lemma nal_header_split:
  assumes "nal_header_ok h" shows "(h AND 0x60) OR (h AND 31) = h"
proof -
  have "(0x60 OR 31 OR 0x80 :: u8) = - 1" by simp
  then have "h = h AND (0x60 OR 31 OR 0x80)" by (simp only: bit.conj_one_right)
  also have "\<dots> = (h AND 0x60) OR (h AND 31) OR (h AND 0x80)" by (simp only: bit.conj_disj_distrib)
  finally show ?thesis using assms by (simp add: nal_header_ok_def)
qed


text \<open>What a chain has collected so far: its bytes, and room for what is still to come.\<close>

definition collecting :: "h264_depacketizer \<Rightarrow> u64 \<Rightarrow> u8 \<Rightarrow> u32 \<Rightarrow> u64 \<Rightarrow> bytes \<Rightarrow> usize \<Rightarrow> nal_unit \<Rightarrow> bool" where
  "collecting d sq h ts t0 bs k n \<longleftrightarrow>
     hd_pending d = Some n \<and> nal_bytes n = h # bs \<and> nal_timestamp n = ts \<and> nal_started_ns n = t0
     \<and> length (nal_sources n) = k \<and> \<not> hd_closed d \<and> hd_mode d = NonInterleaved
     \<and> hd_last_sequence d = Some (sq - 1) \<and> 0 < sq \<and> t0 \<le> hd_last_now_ns d
     \<and> 1 \<le> max_packet_nals (hd_limits d)"

definition same_stream :: "h264_depacketizer \<Rightarrow> h264_depacketizer \<Rightarrow> bool" where
  "same_stream d d' \<longleftrightarrow> hd_key d' = hd_key d \<and> hd_payload_type d' = hd_payload_type d \<and> hd_limits d' = hd_limits d"

lemma append_fragment:
  assumes c: "hd_pending d = Some n" "nal_bytes n = h # bs" "nal_timestamp n = ts" "length (nal_sources n) = k"
      "1 \<le> max_packet_nals (hd_limits d)"
    and h: "nal_header_ok h" and f: "fu_fragment h ts s final c p"
    and fit: "1 + length bs + length c \<le> max_nal_bytes (hd_limits d)" "max_nal_bytes (hd_limits d) \<le> u64_max"
      "k + 1 \<le> max_fragment_packets (hd_limits d)"
  shows "\<exists>n' nals. h264_fu_append (\<lambda>_. True) d sq p h final disc
      = (Inr nals, d\<lparr>hd_pending := (if final then None else Some n')\<rparr>, disc)
    \<and> nals = (if final then [n'] else []) \<and> nal_bytes n' = h # bs @ c \<and> nal_timestamp n' = ts
    \<and> nal_started_ns n' = nal_started_ns n \<and> length (nal_sources n') = k + 1
    \<and> (final \<longrightarrow> nal_marker n' = rtp_marker p)"
proof -
  define n1 where "n1 = n\<lparr>nal_bytes := nal_bytes n @ c, nal_sources := nal_sources n @
        [\<lparr>sp_sequence = sq, sp_wire_range = (rtp_payload_start p + 2, rtp_payload_start p + length (rtp_payload p)),
          sp_nal_range = (1 + length bs, 1 + length bs + length c),
          sp_fragment_header_range = Some (rtp_payload_start p, rtp_payload_start p + 2)\<rparr>]\<rparr>"
  define n2 where "n2 = (if final then n1\<lparr>nal_marker := rtp_marker p\<rparr> else n1)"
  have "h264_fu_append (\<lambda>_. True) d sq p h final disc
      = (Inr (if final then [n2] else []), d\<lparr>hd_pending := (if final then None else Some n2)\<rparr>, disc)"
    using c h f fit
    by (simp add: h264_fu_append_def Let_def fu_fragment_def reserve_def checked_add_def rtp_payload_range_def
        n1_def n2_def)
  moreover have "nal_bytes n2 = h # bs @ c \<and> nal_timestamp n2 = ts \<and> nal_started_ns n2 = nal_started_ns n
      \<and> length (nal_sources n2) = k + 1 \<and> (final \<longrightarrow> nal_marker n2 = rtp_marker p)"
    using c by (simp add: n1_def n2_def)
  ultimately show ?thesis by blast
qed

lemma push_fragment:
  assumes C: "collecting d sq h ts t0 bs k n" and h: "nal_header_ok h"
    and f: "fu_fragment h ts False final c p" and b: "bound_packet d sq p"
    and fit: "1 + length bs + length c \<le> max_nal_bytes (hd_limits d)" "max_nal_bytes (hd_limits d) \<le> u64_max"
      "k + 1 \<le> max_fragment_packets (hd_limits d)" "sq \<le> u64_max"
    and t: "hd_last_now_ns d \<le> t" "t < t0 + max_pending_age_ns (hd_limits d)"
  shows "\<exists>out d' n'. h264_push (\<lambda>_. True) d (hd_key d) sq p t = (Inr out, d') \<and> same_stream d d'
    \<and> nal_bytes n' = h # bs @ c \<and> nal_timestamp n' = ts \<and> hd_last_now_ns d' = t
    \<and> (if final then ho_status out = Complete \<and> ho_nals out = [n'] \<and> hd_pending d' = None
         \<and> nal_marker n' = rtp_marker p
       else ho_status out = FragmentPending \<and> ho_nals out = [] \<and> collecting d' (sq + 1) h ts t0 (bs @ c) (k + 1) n')"
proof -
  define d2 where "d2 = d\<lparr>hd_last_now_ns := t, hd_last_sequence := Some sq\<rparr>"
  note C' = C [unfolded collecting_def]
  have ex: "h264_expire d t = (Inr None, d\<lparr>hd_last_now_ns := t\<rparr>)"
    using C' t by (auto simp: h264_expire_def Let_def)
  have hdr: "(rtp_payload p ! 0 AND 0x60) OR (rtp_payload p ! 1 AND 31) = h"
    using f nal_header_split [OF h] by (simp add: fu_fragment_def fu_bits)
  obtain n' nals where A: "h264_fu_append (\<lambda>_. True) d2 sq p h final None
      = (Inr nals, d2\<lparr>hd_pending := (if final then None else Some n')\<rparr>, None)"
    "nals = (if final then [n'] else [])" "nal_bytes n' = h # bs @ c" "nal_timestamp n' = ts"
    "nal_started_ns n' = t0" "length (nal_sources n') = k + 1" "final \<longrightarrow> nal_marker n' = rtp_marker p"
    using append_fragment [of d2 n h bs ts k False final c p sq None] C' h f fit by (auto simp: d2_def)
  have "h264_consume (\<lambda>_. True) d2 sq p t None
      = (Inr \<lparr>ho_status = (if final then Complete else FragmentPending), ho_nals = nals,
              ho_gap_before = False, ho_discarded = None\<rparr>, d2\<lparr>hd_pending := (if final then None else Some n')\<rparr>, None)"
    using A f h C' hdr
    by (simp add: h264_consume_def h264_consume_fu_def fu_fragment_def get_at_def fu_bits Let_def d2_def nal_header_ok_def)
  moreover have "after_gap (d\<lparr>hd_last_now_ns := t\<rparr>) sq None = d2" "gap_receipt (d\<lparr>hd_last_now_ns := t\<rparr>) sq None = None"
    using C' fit(4) by (simp_all add: after_gap_def gap_receipt_def breaks_def checked_add_def d2_def)
  moreover note h264_push_eq [OF ex, of p sq "\<lambda>_. True"] C' b t(1) fit(4)
  ultimately show ?thesis
    using A by (auto simp: same_stream_def collecting_def d2_def bound_packet_def)
qed


lemma consume_first_fragment:
  assumes d2: "hd_mode d = NonInterleaved" "1 \<le> max_packet_nals (hd_limits d)"
    and h: "nal_header_ok h" and f: "fu_fragment h ts True False c p"
    and fit: "1 + length c \<le> max_nal_bytes (hd_limits d)" "max_nal_bytes (hd_limits d) \<le> u64_max"
      "1 \<le> max_fragment_packets (hd_limits d)" "t + max_pending_age_ns (hd_limits d) \<le> u64_max"
  shows "\<exists>n' disc'. h264_consume (\<lambda>_. True) d sq p t disc
      = (Inr \<lparr>ho_status = FragmentPending, ho_nals = [], ho_gap_before = False, ho_discarded = None\<rparr>,
         d\<lparr>hd_pending := Some n'\<rparr>, disc') \<and> nal_bytes n' = h # c \<and> nal_timestamp n' = ts
         \<and> nal_started_ns n' = t \<and> length (nal_sources n') = 1"
proof -
  have hdr: "(rtp_payload p ! 0 AND 0x60) OR (rtp_payload p ! 1 AND 31) = h"
    using f nal_header_split [OF h] by (simp add: fu_fragment_def fu_bits)
  obtain d3 disc3 where od: "or_discard d disc h264_error.Interrupted = (disc3, d3)" by (metis prod.exhaust)
  define n0 where "n0 = \<lparr>nal_key = hd_key d3, nal_timestamp = rtp_timestamp p,
    nal_bytes = [h], nal_sources = [], nal_marker = False, nal_started_ns = t, nal_first_sequence = sq\<rparr>"
  have d3: "\<And>y. d3\<lparr>hd_pending := y\<rparr> = d\<lparr>hd_pending := y\<rparr>"
    using od by (auto simp: or_discard_def h264_discard_def split: option.splits)
  have start: "h264_fu_start (\<lambda>_. True) d sq p t h disc = (Inr (), d\<lparr>hd_pending := Some n0\<rparr>, disc3)"
    using od fit f d3 by (simp add: h264_fu_start_def reserve_def checked_add_def fu_fragment_def n0_def)
  obtain n' where n': "h264_fu_append (\<lambda>_. True) (d\<lparr>hd_pending := Some n0\<rparr>) sq p h False disc3
      = (Inr [], d\<lparr>hd_pending := Some n'\<rparr>, disc3)"
    "nal_bytes n' = h # c" "nal_timestamp n' = ts" "nal_started_ns n' = t" "length (nal_sources n') = 1"
    using append_fragment [of "d\<lparr>hd_pending := Some n0\<rparr>" n0 h "[]" ts 0 True False c p sq disc3] d2 h f fit
    by (auto simp: n0_def fu_fragment_def)
  have "h264_consume_fu (\<lambda>_. True) d sq p t (rtp_payload p ! 0) disc = (Inr [], d\<lparr>hd_pending := Some n'\<rparr>, disc3)"
    using f h hdr start n'(1)
    by (simp add: h264_consume_fu_def fu_fragment_def get_at_def fu_bits Let_def nal_header_ok_def)
  with n' f d2 show ?thesis
    by (intro exI [of _ n'] exI [of _ disc3]) (simp add: h264_consume_def fu_fragment_def get_at_def fu_bits)
qed

lemma push_first_fragment:
  assumes d: "\<not> hd_closed d" "hd_mode d = NonInterleaved" "\<And>prev. hd_last_sequence d = Some prev \<Longrightarrow> prev < sq"
      "1 \<le> max_packet_nals (hd_limits d)"
    and h: "nal_header_ok h" and f: "fu_fragment h ts True False c p" and b: "bound_packet d sq p"
    and fit: "1 + length c \<le> max_nal_bytes (hd_limits d)" "max_nal_bytes (hd_limits d) \<le> u64_max"
      "1 \<le> max_fragment_packets (hd_limits d)" "sq \<le> u64_max"
    and t: "hd_last_now_ns d \<le> t" "t + max_pending_age_ns (hd_limits d) \<le> u64_max"
  shows "\<exists>out d' n'. h264_push (\<lambda>_. True) d (hd_key d) sq p t = (Inr out, d') \<and> same_stream d d'
    \<and> hd_last_now_ns d' = t \<and> ho_status out = FragmentPending \<and> ho_nals out = []
    \<and> collecting d' (sq + 1) h ts t c 1 n'"
proof -
  obtain x d1 where ex: "h264_expire d t = (x, d1)" by fastforce
  have x: "\<exists>disc. x = Inr disc" and d1: "same_stream d d1" "hd_last_now_ns d1 = t" "hd_mode d1 = hd_mode d"
      "hd_closed d1 = hd_closed d" "hd_last_sequence d1 = hd_last_sequence d"
    using ex t by (auto simp: h264_expire_def h264_discard_def same_stream_def Let_def split: if_splits option.splits)
  obtain disc where disc: "x = Inr disc" using x by blast
  let ?d2 = "after_gap d1 sq disc"
  have d2: "hd_mode ?d2 = NonInterleaved" "hd_limits ?d2 = hd_limits d" "same_stream d ?d2" "\<not> hd_closed ?d2"
      "hd_last_sequence ?d2 = Some sq" "hd_last_now_ns ?d2 = t"
    using d1 d by (auto simp: after_gap_def same_stream_def)
  obtain n' disc' where "h264_consume (\<lambda>_. True) ?d2 sq p t (gap_receipt d1 sq disc)
      = (Inr \<lparr>ho_status = FragmentPending, ho_nals = [], ho_gap_before = False, ho_discarded = None\<rparr>,
         ?d2\<lparr>hd_pending := Some n'\<rparr>, disc')" "nal_bytes n' = h # c" "nal_timestamp n' = ts"
      "nal_started_ns n' = t" "length (nal_sources n') = 1"
    using consume_first_fragment [of ?d2 h ts c p t sq "gap_receipt d1 sq disc"] d2 d(4) h f fit t by auto
  moreover have "case hd_last_sequence d1 of None \<Rightarrow> True | Some prev \<Rightarrow> prev < sq"
    using d d1(5) by (auto split: option.splits)
  ultimately show ?thesis
    using h264_push_eq [OF ex [unfolded disc], of p sq "\<lambda>_. True"] b d(1,4) t(1) d2
    by (auto simp: bound_packet_def same_stream_def collecting_def)
qed


lemma push_train:
  assumes "fu_train h ts False cs ps" and "collecting d sq h ts t0 bs k n" and "nal_header_ok h"
    and "length nows = length ps" "sorted (hd_last_now_ns d # nows)"
      "\<forall>t\<in>set nows. t < t0 + max_pending_age_ns (hd_limits d)"
    and "\<forall>i<length ps. bound_packet d (sq + i) (ps ! i)" "sq + length ps \<le> u64_max + 1"
    and "1 + length bs + length (concat cs) \<le> max_nal_bytes (hd_limits d)" "max_nal_bytes (hd_limits d) \<le> u64_max"
      "k + length cs \<le> max_fragment_packets (hd_limits d)"
  shows "\<exists>outs fin d' n'. push_all d sq (zip ps nows) = (map Inr (outs @ [fin]), d')
    \<and> (\<forall>out\<in>set outs. ho_status out = FragmentPending \<and> ho_nals out = [])
    \<and> ho_status fin = Complete \<and> ho_nals fin = [n'] \<and> nal_bytes n' = h # bs @ concat cs
    \<and> nal_timestamp n' = ts \<and> nal_marker n' = rtp_marker (last ps) \<and> hd_pending d' = None"
  using assms
proof (induction cs arbitrary: ps d sq bs k n nows)
  case (Cons c cs)
  from Cons.prems(1) obtain p ps' where ps: "ps = p # ps'" by (cases ps) auto
  with Cons.prems(4) obtain t nows' where nows: "nows = t # nows'" by (cases nows) auto
  have b: "bound_packet d sq p" using Cons.prems(7) ps by force
  show ?case
  proof (cases "cs = []")
    case True
    then have "ps' = []" "fu_fragment h ts False True c p" using Cons.prems(1) ps by (cases ps'; simp)+
    then show ?thesis
      using push_fragment [of d sq h ts t0 bs k n True c p t] Cons.prems ps nows b True by auto
  next
    case False
    then have tr: "fu_fragment h ts False False c p" "fu_train h ts False cs ps'"
      using Cons.prems(1) ps by (cases cs; simp)+
    obtain out d1 n1 where p1: "h264_push (\<lambda>_. True) d (hd_key d) sq p t = (Inr out, d1)" "same_stream d d1"
      "hd_last_now_ns d1 = t" "ho_status out = FragmentPending" "ho_nals out = []"
      "collecting d1 (sq + 1) h ts t0 (bs @ c) (k + 1) n1"
      using push_fragment [of d sq h ts t0 bs k n False c p t] Cons.prems tr(1) ps nows b by auto
    have bp: "\<forall>i<length ps'. bound_packet d1 (sq + 1 + i) (ps' ! i)"
      using Cons.prems(7) p1(2) ps by (auto simp: bound_packet_def same_stream_def dest: spec [of _ "Suc _"])
    have "ps' \<noteq> []" using tr(2) by auto
    moreover obtain outs fin d' n' where
      "push_all d1 (sq + 1) (zip ps' nows') = (map Inr (outs @ [fin]), d')"
      "\<forall>out\<in>set outs. ho_status out = FragmentPending \<and> ho_nals out = []"
      "ho_status fin = Complete" "ho_nals fin = [n']" "nal_bytes n' = h # (bs @ c) @ concat cs"
      "nal_timestamp n' = ts" "nal_marker n' = rtp_marker (last ps')" "hd_pending d' = None"
      using Cons.IH [OF tr(2) p1(6) Cons.prems(3), of nows'] Cons.prems ps nows p1(2,3) bp
      by (auto simp: same_stream_def)
    ultimately show ?thesis
      using p1 ps nows by (intro exI [of _ "out # outs"] exI [of _ fin] exI [of _ d'] exI [of _ n']) auto
  qed
qed simp


text \<open>C16: FU-A fragmentation is inverted exactly. Take any open depacketizer in non-interleaved mode, in
  whatever pending state, and any NAL unit whose body is split into at least two chunks (empty ones
  included) and sent as an FU-A train with fresh consecutive sequence numbers, within the size,
  fragment-count and age limits. Then every packet but the last is reported as a pending fragment
  with no output, and the last one completes exactly one NAL unit, whose bytes are the original
  ones, with the train's timestamp and the last packet's marker; nothing stays pending.\<close>

theorem h264_fragmentation_roundtrip:
  assumes d: "\<not> hd_closed d" "hd_mode d = NonInterleaved" "1 \<le> max_packet_nals (hd_limits d)"
      "max_nal_bytes (hd_limits d) \<le> u64_max" "\<forall>prev. hd_last_sequence d = Some prev \<longrightarrow> prev < sq"
    and train: "nal_header_ok h" "fu_train h ts True cs ps" "2 \<le> length cs"
      "\<forall>i<length ps. bound_packet d (sq + i) (ps ! i)" "sq + length ps \<le> u64_max + 1"
    and fit: "1 + length (concat cs) \<le> max_nal_bytes (hd_limits d)" "length cs \<le> max_fragment_packets (hd_limits d)"
    and times: "length nows = length ps" "sorted (hd_last_now_ns d # nows)"
      "\<forall>t\<in>set nows. t < hd nows + max_pending_age_ns (hd_limits d)"
      "hd nows + max_pending_age_ns (hd_limits d) \<le> u64_max"
  shows "\<exists>outs fin d' n. push_all d sq (zip ps nows) = (map Inr (outs @ [fin]), d')
    \<and> (\<forall>out\<in>set outs. ho_status out = FragmentPending \<and> ho_nals out = [])
    \<and> ho_status fin = Complete \<and> ho_nals fin = [n] \<and> nal_bytes n = h # concat cs
    \<and> nal_timestamp n = ts \<and> nal_marker n = rtp_marker (last ps) \<and> hd_pending d' = None"
proof -
  obtain c cs' where cs: "cs = c # cs'" "cs' \<noteq> []" using train(3) by (cases cs; cases "tl cs") auto
  obtain p ps' where ps: "ps = p # ps'" using train(2) cs by (cases ps) auto
  have tr: "fu_fragment h ts True False c p" "fu_train h ts False cs' ps'"
    using train(2) cs ps by (cases cs'; simp)+
  have ne: "ps' \<noteq> []" using tr(2) by auto
  obtain t nows' where nows: "nows = t # nows'" using times(1) ps by (cases nows) auto
  have b: "bound_packet d sq p" using train(4) ps by force
  obtain out d1 n1 where p1: "h264_push (\<lambda>_. True) d (hd_key d) sq p t = (Inr out, d1)" "same_stream d d1"
    "hd_last_now_ns d1 = t" "ho_status out = FragmentPending" "ho_nals out = []" "collecting d1 (sq + 1) h ts t c 1 n1"
    using push_first_fragment [of d sq h ts c p t] d train(1,5) tr(1) b fit cs ps nows times by auto
  have "\<forall>i<length ps'. bound_packet d1 (sq + 1 + i) (ps' ! i)"
    using train(4) p1(2) ps by (auto simp: bound_packet_def same_stream_def dest: spec [of _ "Suc _"])
  then obtain outs fin d' n' where "push_all d1 (sq + 1) (zip ps' nows') = (map Inr (outs @ [fin]), d')"
      "\<forall>out\<in>set outs. ho_status out = FragmentPending \<and> ho_nals out = []"
      "ho_status fin = Complete" "ho_nals fin = [n']" "nal_bytes n' = h # c @ concat cs'"
      "nal_timestamp n' = ts" "nal_marker n' = rtp_marker (last ps')" "hd_pending d' = None"
    using push_train [OF tr(2) p1(6) train(1), of nows'] d train(5) fit times cs ps nows p1(2,3)
    by (auto simp: same_stream_def)
  then show ?thesis
    using p1 ps nows cs ne by (intro exI [of _ "out # outs"] exI [of _ fin] exI [of _ d'] exI [of _ n']) auto
qed

section \<open>Aggregation is inverted\<close>

definition stap_entry :: "bytes \<Rightarrow> bytes" where
  "stap_entry n = to_be16 (of_nat (length n)) @ n"

definition stap_payload :: "bytes list \<Rightarrow> bytes" where
  "stap_payload ns = (fold (\<lambda>n m. max m (n ! 0 AND 0x60)) ns 0 OR 24) # concat (map stap_entry ns)"

definition stap_unit_ok :: "h264_limits \<Rightarrow> bytes \<Rightarrow> bool" where
  "stap_unit_ok l n \<longleftrightarrow> n \<noteq> [] \<and> length n \<le> 65535 \<and> length n \<le> max_nal_bytes l \<and> nal_header_ok (n ! 0)"

lemma stap_entry_reads:
  assumes "stap_unit_ok l n" and "length pre = off"
  shows "unat (be16 (subslice (pre @ stap_entry n @ post) off (off + 2))) = length n"
    "subslice (pre @ stap_entry n @ post) (off + 2) (off + 2 + length n) = n"
    "(pre @ stap_entry n @ post) ! (off + 2) = n ! 0"
proof -
  have two: "length (to_be16 (of_nat (length n))) = 2" by (simp add: to_be16_def)
  have "subslice (pre @ to_be16 (of_nat (length n)) @ n @ post) off (off + 2) = to_be16 (of_nat (length n))"
    using two assms(2) by (intro subslice_mid) auto
  then show "unat (be16 (subslice (pre @ stap_entry n @ post) off (off + 2))) = length n"
    using assms(1) be16_to_be16 [of "of_nat (length n)"]
    by (simp add: stap_entry_def stap_unit_ok_def unat_of_nat)
  have "subslice ((pre @ to_be16 (of_nat (length n))) @ n @ post) (off + 2) (off + 2 + length n) = n"
    using two assms(2) by (intro subslice_mid) auto
  then show "subslice (pre @ stap_entry n @ post) (off + 2) (off + 2 + length n) = n"
    by (simp add: stap_entry_def)
  show "(pre @ stap_entry n @ post) ! (off + 2) = n ! 0"
    using two assms by (cases n) (simp_all add: stap_entry_def stap_unit_ok_def nth_append)
qed

lemma stap_entry_length [simp]: "length (stap_entry n) = length n + 2"
  by (simp add: stap_entry_def to_be16_def)

lemma validate_stap_from_entries:
  assumes "\<forall>n\<in>set ns. stap_unit_ok l n" and "cnt + length ns \<le> max_packet_nals l" and "length pre = off"
  shows "validate_stap_from (pre @ concat (map stap_entry ns)) l off cnt nri
    = Inr (cnt + length ns, fold (\<lambda>n m. max m (n ! 0 AND 0x60)) ns nri)"
  using assms
proof (induction ns arbitrary: pre off cnt nri)
  case Nil
  then show ?case by (simp add: validate_stap_from.simps)
next
  case (Cons n ns)
  let ?pl = "pre @ stap_entry n @ concat (map stap_entry ns)"
  have ok: "stap_unit_ok l n" using Cons.prems by simp
  note r = stap_entry_reads [OF ok Cons.prems(3), of "concat (map stap_entry ns)"]
  have hd: "n ! 0 AND 0x80 = 0" "1 \<le> n ! 0 AND 31" "n ! 0 AND 31 \<le> 23" "0 < length n" "length n \<le> max_nal_bytes l"
    using ok by (auto simp: stap_unit_ok_def nal_header_ok_def)
  have step: "validate_stap_from ?pl l off cnt nri
      = validate_stap_from ?pl l (off + 2 + length n) (cnt + 1) (max nri (n ! 0 AND 0x60))"
    by (subst validate_stap_from.simps) (use Cons.prems r hd in \<open>simp add: get_slice_def Let_def\<close>)
  show ?case
    using step Cons.IH [of "cnt + 1" "pre @ stap_entry n" "off + 2 + length n"] Cons.prems
    by (simp add: add.commute add.left_commute)
qed


lemma stap_nals_entries:
  assumes "\<forall>n\<in>set ns. stap_unit_ok (hd_limits d) n" and "rtp_payload p = pre @ concat (map stap_entry ns)"
    and "length pre = off" and "1 \<le> max_fragment_packets (hd_limits d)"
  shows "\<exists>nals. h264_stap_nals (\<lambda>_. True) d sq p now off (length ns) = Inr nals \<and> map nal_bytes nals = ns
    \<and> map nal_marker nals = map (\<lambda>i. rtp_marker p \<and> Suc i = length ns) [0..<length ns]
    \<and> (\<forall>n\<in>set nals. nal_timestamp n = rtp_timestamp p)"
  using assms
proof (induction ns arbitrary: pre off)
  case (Cons n ns)
  have ok: "stap_unit_ok (hd_limits d) n" using Cons.prems by simp
  note r = stap_entry_reads [OF ok Cons.prems(3), of "concat (map stap_entry ns)"]
  have pl: "rtp_payload p = pre @ stap_entry n @ concat (map stap_entry ns)" using Cons.prems(2) by simp
  obtain nal where nal: "h264_copy_nal (\<lambda>_. True) d sq p (off + 2, off + 2 + length n) now (rtp_marker p \<and> ns = []) = Inr nal"
    "nal_bytes nal = n" "nal_marker nal = (rtp_marker p \<and> ns = [])" "nal_timestamp nal = rtp_timestamp p"
    using ok r(2) Cons.prems(4) unfolding pl [symmetric]
    by (auto simp: h264_copy_nal_def reserve_def stap_unit_ok_def Let_def)
  obtain nals where IH: "h264_stap_nals (\<lambda>_. True) d sq p now (off + 2 + length n) (length ns) = Inr nals"
    "map nal_bytes nals = ns" "map nal_marker nals = map (\<lambda>i. rtp_marker p \<and> Suc i = length ns) [0..<length ns]"
    "\<forall>n\<in>set nals. nal_timestamp n = rtp_timestamp p"
    using Cons.IH [of "pre @ stap_entry n" "off + 2 + length n"] Cons.prems by auto
  have "h264_stap_nals (\<lambda>_. True) d sq p now off (length (n # ns)) = Inr (nal # nals)"
    using nal(1) IH(1) r(1) by (simp add: pl [symmetric] Let_def)
  moreover have "map nal_marker (nal # nals)
      = map (\<lambda>i. rtp_marker p \<and> Suc i = length (n # ns)) [0..<length (n # ns)]"
    using nal(3) IH(3) by (simp add: upt_conv_Cons map_Suc_upt [symmetric] del: upt_Suc)
  ultimately show ?case using nal IH by auto
qed simp

lemma nri_fold_bits:
  fixes m :: u8
  assumes "\<exists>x. m = x AND 0x60"
  shows "\<exists>x. fold (\<lambda>n m. max m (n ! 0 AND 0x60)) ns m = x AND 0x60"
  using assms
proof (induction ns arbitrary: m)
  case (Cons n ns)
  have "\<exists>x. max m (n ! 0 AND 0x60) = x AND 0x60" using Cons.prems by (auto simp: max_def)
  then show ?case using Cons.IH by simp
qed simp

text \<open>STAP-A aggregation is inverted exactly. Any nonempty list of valid NAL units within the limits,
  aggregated into one payload with the largest NRI in its header, comes back from one push of an
  open depacketizer in non-interleaved mode as exactly those units, in order, with the packet's
  timestamp, and with the packet's marker on the last unit only. An earlier pending fragment chain
  is retired, never completed.\<close>

theorem h264_aggregation_roundtrip:
  assumes d: "\<not> hd_closed d" "hd_mode d = NonInterleaved" "hd_last_now_ns d \<le> now"
      "\<forall>prev. hd_last_sequence d = Some prev \<longrightarrow> prev < sq" "1 \<le> max_fragment_packets (hd_limits d)"
    and ns: "ns \<noteq> []" "\<forall>n\<in>set ns. stap_unit_ok (hd_limits d) n" "length ns \<le> max_packet_nals (hd_limits d)"
    and p: "bound_packet d sq p" "rtp_payload p = stap_payload ns"
  shows "\<exists>out d'. h264_push (\<lambda>_. True) d (hd_key d) sq p now = (Inr out, d') \<and> ho_status out = Complete
    \<and> map nal_bytes (ho_nals out) = ns
    \<and> map nal_marker (ho_nals out) = map (\<lambda>i. rtp_marker p \<and> Suc i = length ns) [0..<length ns]
    \<and> (\<forall>n\<in>set (ho_nals out). nal_timestamp n = rtp_timestamp p)"
proof -
  let ?nri = "fold (\<lambda>n m. max m (n ! 0 AND 0x60)) ns (0 :: u8)"
  have pl: "rtp_payload p = [?nri OR 24] @ concat (map stap_entry ns)" using p(2) by (simp add: stap_payload_def)
  have "\<exists>x. (0 :: u8) = x AND 0x60" by (rule exI [of _ 0]) simp
  from nri_fold_bits [OF this] obtain x where x: "?nri = x AND 0x60" by blast
  have bits: "(?nri OR 24) AND 0x80 = 0" "(?nri OR 24) AND 31 = 24" "(?nri OR 24) AND 0x60 = ?nri"
    unfolding x by (simp_all add: bit.conj_disj_distrib2 and.assoc)
  have val: "validate_stap (rtp_payload p) (hd_limits d) = Inr (length ns)"
    using validate_stap_from_entries [of ns "hd_limits d" 0 "[?nri OR 24]" 1 0] ns bits(3) pl
    by (simp add: validate_stap_def)
  obtain y d1 where y: "h264_expire d now = (y, d1)" by fastforce
  then obtain disc where ex: "h264_expire d now = (Inr disc, d1)" "hd_limits d1 = hd_limits d" "hd_mode d1 = hd_mode d"
      "hd_last_sequence d1 = hd_last_sequence d"
    using d(3) by (auto simp: h264_expire_def h264_discard_def Let_def split: option.splits if_splits)
  let ?d2 = "after_gap d1 sq disc"
  have d2: "hd_limits ?d2 = hd_limits d" "hd_mode ?d2 = NonInterleaved" using ex d by (auto simp: after_gap_def)
  obtain nals where nals: "h264_stap_nals (\<lambda>_. True) ?d2 sq p now 1 (length ns) = Inr nals" "map nal_bytes nals = ns"
    "map nal_marker nals = map (\<lambda>i. rtp_marker p \<and> Suc i = length ns) [0..<length ns]"
    "\<forall>n\<in>set nals. nal_timestamp n = rtp_timestamp p"
    using stap_nals_entries [of ns ?d2 p "[?nri OR 24]" 1 sq now] ns pl d(5) d2 by auto
  obtain d3 disc3 where od: "or_discard ?d2 (gap_receipt d1 sq disc) h264_error.Interrupted = (disc3, d3)"
    by (metis prod.exhaust)
  have "h264_consume (\<lambda>_. True) ?d2 sq p now (gap_receipt d1 sq disc)
      = (Inr \<lparr>ho_status = Complete, ho_nals = nals, ho_gap_before = False, ho_discarded = None\<rparr>, d3, disc3)"
    using val nals od bits ns pl d2
    by (auto simp: h264_consume_def h264_consume_stap_def get_at_def reserve_def Let_def)
  moreover have "case hd_last_sequence d1 of None \<Rightarrow> True | Some prev \<Rightarrow> prev < sq"
    using d(4) ex(4) by (auto split: option.splits)
  ultimately show ?thesis
    using h264_push_eq [OF ex(1), of p sq "\<lambda>_. True"] p(1) d(1,3) nals by (simp add: bound_packet_def)
qed


section \<open>A concrete stream\<close>

definition sample_media :: "u16 \<Rightarrow> bool \<Rightarrow> bytes \<Rightarrow> rtp_packet" where
  "sample_media sq m payload =
     \<lparr>rtp_bytes = [0x80, (if m then 0x80 else 0) OR 96] @ to_be16 sq @ [0, 0, 0, 9, 0, 0, 0, 7] @ payload,
      rtp_payload_start = 12, rtp_payload_end = 12 + length payload, rtp_extension = None\<rparr>"

lemma sample_media_reads [simp]:
  "rtp_sequence (sample_media sq m pl) = sq" "rtp_ssrc (sample_media sq m pl) = 7"
  "rtp_payload_type (sample_media sq m pl) = 96" "rtp_marker (sample_media sq m pl) = m"
  "rtp_timestamp (sample_media sq m pl) = 9" "rtp_payload (sample_media sq m pl) = pl"
  "rtp_wf (sample_media sq m pl)"
  by (simp_all add: sample_media_def rtp_sequence_def rtp_ssrc_def rtp_payload_type_def rtp_marker_def
      rtp_timestamp_def rtp_payload_def rtp_wf_def subslice_def be32_def to_be16_def
      be16_to_be16 [unfolded to_be16_def])

definition sample_depacketizer :: h264_depacketizer where
  "sample_depacketizer =
     \<lparr>hd_key = sample_key, hd_payload_type = 96, hd_mode = NonInterleaved, hd_limits = h264_limits_default,
      hd_last_sequence = None, hd_last_now_ns = 0, hd_pending = None, hd_closed = False\<rparr>"

lemma sample_depacketizer_new:
  "h264_new sample_key 96 NonInterleaved h264_limits_default = Inr sample_depacketizer"
  by (simp add: h264_new_def sample_depacketizer_def sample_key_def h264_limits_default_def)

definition sample_pushes :: "h264_event list" where
  "sample_pushes =
     [Push (\<lambda>_. True) sample_key 10 (sample_media 10 True [0x65, 1, 2]) 5,
      Push (\<lambda>_. True) sample_key 11 (sample_media 11 False [0x7c, 0x85, 3]) 6]"

lemmas sample_push_defs =
  sample_pushes_def sample_depacketizer_def h264_limits_default_def sample_key_def h264_push_def h264_expire_def
  h264_consume_def h264_consume_single_def h264_consume_fu_def h264_fu_start_def h264_fu_append_def
  h264_copy_nal_def or_discard_def h264_discard_def reserve_def get_at_def Let_def checked_add_def u64_max_def

lemma sample_pushes_run:
  "map nal_bytes (fst (reassembly_run h264_step sample_depacketizer sample_pushes)) = [[0x65, 1, 2]]"
  "h264_pending_bytes (snd (reassembly_run h264_step sample_depacketizer sample_pushes)) = 2"
  "hd_pending (snd (reassembly_run h264_step sample_depacketizer sample_pushes)) \<noteq> None"
  by (simp_all add: sample_push_defs h264_pending_bytes_def subslice_def)

lemma sample_pushes_legal: "\<forall>ev\<in>set sample_pushes. h264_legal ev"
  by (simp add: sample_pushes_def)

theorem h264_nals_sourced_witness:
  "\<exists>n. nal_bytes n = [0x65, 1, 2] \<and> nal_ok (\<Union> (h264_given ` set sample_pushes)) sample_key h264_limits_default n"
  using h264_nals_sourced [OF sample_depacketizer_new prod.collapse [symmetric] sample_pushes_legal]
    sample_pushes_run(1) by (cases "fst (reassembly_run h264_step sample_depacketizer sample_pushes)") auto

theorem h264_pending_bounded_witness:
  "\<exists>at. h264_next_deadline_ns (snd (reassembly_run h264_step sample_depacketizer sample_pushes)) = Some at"
  using h264_pending_bounded [OF sample_depacketizer_new prod.collapse [symmetric] sample_pushes_legal]
    sample_pushes_run(3) by blast

theorem h264_fragmentation_roundtrip_witness:
  "\<exists>outs fin d' n. push_all sample_depacketizer 10
      (zip [sample_media 10 False [0x7c, 0x85, 1, 2], sample_media 11 True [0x7c, 0x45, 3]] [5, 6])
      = (map Inr (outs @ [fin]), d') \<and> ho_nals fin = [n] \<and> nal_bytes n = [0x65, 1, 2, 3] \<and> nal_marker n"
  using h264_fragmentation_roundtrip [where d = sample_depacketizer and sq = 10 and h = "0x65" and ts = 9
      and cs = "[[1, 2], [3]]" and nows = "[5, 6]"
      and ps = "[sample_media 10 False [0x7c, 0x85, 1, 2], sample_media 11 True [0x7c, 0x45, 3]]"]
  by (fastforce simp: sample_depacketizer_def sample_key_def h264_limits_default_def u64_max_def nal_header_ok_def
      fu_fragment_def fu_indicator_def fu_header_def bound_packet_def less_Suc_eq)

theorem h264_aggregation_roundtrip_witness:
  "\<exists>out d'. h264_push (\<lambda>_. True) sample_depacketizer sample_key 10
      (sample_media 10 True [0x78, 0, 2, 0x67, 1, 0, 1, 0x68]) 5 = (Inr out, d')
    \<and> map nal_bytes (ho_nals out) = [[0x67, 1], [0x68]] \<and> map nal_marker (ho_nals out) = [False, True]"
  using h264_aggregation_roundtrip [of sample_depacketizer 5 10 "[[0x67, 1], [0x68]]"
      "sample_media 10 True [0x78, 0, 2, 0x67, 1, 0, 1, 0x68]"]
  by (auto simp: sample_depacketizer_def sample_key_def h264_limits_default_def stap_unit_ok_def nal_header_ok_def
      bound_packet_def stap_payload_def stap_entry_def to_be16_def)

end
