(* ===== verification/H264_Receiver.thy ===== *)
theory H264_Receiver
  imports H264_Depacketizer
begin

text \<open>
  The owner-driven receiver, \<open>crates/fss-packet/src/receiver.rs\<close>: the reorder buffer and the H.264
  depacketizer composed, with one progress step per poll. The composition is proved to keep both
  layers' clocks and ends in step, so that no datagram released by the transport is lost to a codec
  refusal, no unit spans a delivery gap, and a finished receiver becomes quiescent.
\<close>

section \<open>receiver.rs\<close>

datatype h264_receive_error =
    Transport reorder_error
  | Codec h264_failure
  | Packet packet_error

record h264_receive_admission =
  rv_transport :: reorder_admission
  rv_discarded :: "fragment_discard option"

datatype h264_receive_poll =
    PacketOut ordered_rtp_packet "h264_receive_error + h264_output"
  | GapOut reorder_gap "fragment_discard option"
  | FragmentDiscarded fragment_discard
  | PendingOut "u64 option"
  | EndedOut "fragment_discard option"

record h264_receive_cancellation =
  rc_queue :: queue_discard
  rc_fragment :: "fragment_discard option"

record h264_receiver =
  rx_reorder :: reorder_buffer
  rx_depacketizer :: h264_depacketizer
  rx_last_now_ns :: u64
  rx_ended :: bool

definition receiver_new ::
  "(usize \<Rightarrow> bool) \<Rightarrow> stream_key \<Rightarrow> u8 \<Rightarrow> h264_mode \<Rightarrow> reorder_limits \<Rightarrow> h264_limits \<Rightarrow>
     h264_receive_error + h264_receiver" where
  "receiver_new alloc key pt mode rl hl =
     try_then (map_err Codec (h264_new key pt mode hl)) (\<lambda>depacketizer.
     try_then (map_err Transport (reorder_new alloc key pt rl)) (\<lambda>reorder.
     Inr \<lparr>rx_reorder = reorder, rx_depacketizer = depacketizer, rx_last_now_ns = 0, rx_ended = False\<rparr>))"

definition receiver_queued_packets :: "h264_receiver \<Rightarrow> usize" where
  "receiver_queued_packets r = reorder_queued_packets (rx_reorder r)"

definition receiver_queued_bytes :: "h264_receiver \<Rightarrow> usize" where
  "receiver_queued_bytes r = reorder_queued_bytes (rx_reorder r)"

definition receiver_pending_nal_bytes :: "h264_receiver \<Rightarrow> usize" where
  "receiver_pending_nal_bytes r = h264_pending_bytes (rx_depacketizer r)"

definition receiver_stats :: "h264_receiver \<Rightarrow> sequence_stats" where
  "receiver_stats r = reorder_stats (rx_reorder r)"

definition receiver_next_wake_ns :: "h264_receiver \<Rightarrow> u64 option" where
  "receiver_next_wake_ns r =
     (if rx_ended r then None
      else
        let wake = (case (reorder_next_wake_ns (rx_reorder r), h264_next_deadline_ns (rx_depacketizer r)) of
                      (Some a, Some b) \<Rightarrow> Some (min a b)
                    | (Some a, None) \<Rightarrow> Some a
                    | (None, b) \<Rightarrow> b)
        in map_option (\<lambda>at. max at (rx_last_now_ns r)) wake)"

definition receiver_check_time :: "h264_receiver \<Rightarrow> u64 \<Rightarrow> h264_receive_error + unit" where
  "receiver_check_time r now_ns =
     (if now_ns < rx_last_now_ns r
      then Inl (Transport (reorder_error.Continuity continuity_error.ClockReversed)) else Inr ())"

definition receiver_ingest_received ::
  "(usize \<Rightarrow> bool) \<Rightarrow> h264_receiver \<Rightarrow> stream_key \<Rightarrow> bytes \<Rightarrow> u64 \<Rightarrow> u64 \<Rightarrow>
     (h264_receive_error + h264_receive_admission) \<times> h264_receiver" where
  "receiver_ingest_received alloc r key wire received_ns now_ns =
     (case receiver_check_time r now_ns of Inl e \<Rightarrow> (Inl e, r) | Inr _ \<Rightarrow>
      (case reorder_ingest_received alloc (rx_reorder r) key wire received_ns now_ns of
         (Inl e, b) \<Rightarrow> (Inl (Transport e), r\<lparr>rx_reorder := b\<rparr>)
       | (Inr transport, b) \<Rightarrow>
           let r = r\<lparr>rx_reorder := b, rx_last_now_ns := now_ns\<rparr> in
           if ra_disposition transport = reorder_disposition.RestartRequired then
             let (discarded, d) = h264_discard_gap (rx_depacketizer r);
                 (_, d) = h264_finish d
             in (Inr \<lparr>rv_transport = transport, rv_discarded = discarded\<rparr>,
                 r\<lparr>rx_depacketizer := d, rx_ended := True\<rparr>)
           else (Inr \<lparr>rv_transport = transport, rv_discarded = None\<rparr>, r)))"

definition receiver_ingest ::
  "(usize \<Rightarrow> bool) \<Rightarrow> h264_receiver \<Rightarrow> stream_key \<Rightarrow> bytes \<Rightarrow> u64 \<Rightarrow>
     (h264_receive_error + h264_receive_admission) \<times> h264_receiver" where
  "receiver_ingest alloc r key wire now_ns = receiver_ingest_received alloc r key wire now_ns now_ns"

definition receiver_deliver ::
  "(usize \<Rightarrow> bool) \<Rightarrow> h264_receiver \<Rightarrow> reorder_poll \<Rightarrow> u64 \<Rightarrow> h264_receive_poll \<times> h264_receiver" where
  "receiver_deliver alloc r polled now_ns =
     (case polled of
        reorder_poll.Packet source \<Rightarrow>
          (case ordered_packet source of
             Inr packet \<Rightarrow>
               let (reconstruction, d) =
                 h264_push alloc (rx_depacketizer r) (op_key source) (op_sequence source) packet now_ns
               in (PacketOut source (map_err Codec reconstruction), r\<lparr>rx_depacketizer := d\<rparr>)
           | Inl error \<Rightarrow> (PacketOut source (Inl (Packet error)), r))
      | reorder_poll.Gap gap \<Rightarrow>
          let (discarded, d) = h264_discard_gap (rx_depacketizer r)
          in (GapOut gap discarded, r\<lparr>rx_depacketizer := d\<rparr>)
      | Pending _ \<Rightarrow> (PendingOut (receiver_next_wake_ns r), r)
      | Ended \<Rightarrow>
          let r = r\<lparr>rx_ended := True\<rparr>; (discarded, d) = h264_finish (rx_depacketizer r)
          in (EndedOut discarded, r\<lparr>rx_depacketizer := d\<rparr>))"

definition receiver_poll ::
  "(usize \<Rightarrow> bool) \<Rightarrow> h264_receiver \<Rightarrow> u64 \<Rightarrow> (h264_receive_error + h264_receive_poll) \<times> h264_receiver" where
  "receiver_poll alloc r now_ns =
     (case receiver_check_time r now_ns of Inl e \<Rightarrow> (Inl e, r) | Inr _ \<Rightarrow>
      let r = r\<lparr>rx_last_now_ns := now_ns\<rparr> in
      if rx_ended r then (Inr (EndedOut None), r)
      else
        (case h264_expire (rx_depacketizer r) now_ns of
           (Inl f, d) \<Rightarrow> (Inl (Codec f), r\<lparr>rx_depacketizer := d\<rparr>)
         | (Inr (Some discarded), d) \<Rightarrow> (Inr (FragmentDiscarded discarded), r\<lparr>rx_depacketizer := d\<rparr>)
         | (Inr None, d) \<Rightarrow>
             let r = r\<lparr>rx_depacketizer := d\<rparr> in
             (case reorder_poll_step (rx_reorder r) now_ns of
                (Inl e, b) \<Rightarrow> (Inl (Transport e), r\<lparr>rx_reorder := b\<rparr>)
              | (Inr polled, b) \<Rightarrow>
                  let (out, r) = receiver_deliver alloc (r\<lparr>rx_reorder := b\<rparr>) polled now_ns in (Inr out, r))))"

definition receiver_finish :: "h264_receiver \<Rightarrow> h264_receiver" where
  "receiver_finish r = r\<lparr>rx_reorder := reorder_finish (rx_reorder r)\<rparr>"

definition receiver_cancel :: "h264_receiver \<Rightarrow> h264_receive_cancellation \<times> h264_receiver" where
  "receiver_cancel r =
     (let (queue, b) = reorder_cancel (rx_reorder r); (fragment, d) = h264_cancel (rx_depacketizer r)
      in (\<lparr>rc_queue = queue, rc_fragment = fragment\<rparr>,
          r\<lparr>rx_ended := True, rx_reorder := b, rx_depacketizer := d\<rparr>))"

definition receiver_restart ::
  "(usize \<Rightarrow> bool) \<Rightarrow> h264_receiver \<Rightarrow> stream_key \<Rightarrow> u8 \<Rightarrow> h264_mode \<Rightarrow> reorder_limits \<Rightarrow> h264_limits \<Rightarrow>
     h264_receive_error + h264_receiver" where
  "receiver_restart alloc r key pt mode rl hl =
     try_then (map_err Codec (h264_new key pt mode hl)) (\<lambda>depacketizer.
     try_then (map_err Transport (reorder_restart alloc (rx_reorder r) key pt rl)) (\<lambda>reorder.
     Inr \<lparr>rx_reorder = reorder, rx_depacketizer = depacketizer, rx_last_now_ns = 0, rx_ended = False\<rparr>))"


section \<open>Runs\<close>

datatype receiver_event =
    Ingest "usize \<Rightarrow> bool" stream_key bytes u64 u64
  | Poll "usize \<Rightarrow> bool" u64
  | FinishInput
  | CancelAll

fun receiver_step :: "h264_receiver \<Rightarrow> receiver_event \<Rightarrow> h264_receive_poll list \<times> h264_receiver" where
  "receiver_step r (Ingest alloc key wire received_ns now_ns) =
     ([], snd (receiver_ingest_received alloc r key wire received_ns now_ns))"
| "receiver_step r (Poll alloc now_ns) =
     (case receiver_poll alloc r now_ns of (Inl _, r') \<Rightarrow> ([], r') | (Inr out, r') \<Rightarrow> ([out], r'))"
| "receiver_step r FinishInput = ([], receiver_finish r)"
| "receiver_step r CancelAll = ([], snd (receiver_cancel r))"

fun receiver_run :: "h264_receiver \<Rightarrow> receiver_event list \<Rightarrow> h264_receive_poll list \<times> h264_receiver" where
  "receiver_run r [] = ([], r)"
| "receiver_run r (ev # evs) =
     (let (os, r1) = receiver_step r ev; (ps, r2) = receiver_run r1 evs in (os @ ps, r2))"

fun released :: "h264_receive_poll list \<Rightarrow> ordered_rtp_packet list" where
  "released [] = []"
| "released (PacketOut q _ # os) = q # released os"
| "released (_ # os) = released os"

fun emitted :: "h264_receive_poll list \<Rightarrow> nal_unit list" where
  "emitted [] = []"
| "emitted (PacketOut _ (Inr out) # os) = ho_nals out @ emitted os"
| "emitted (_ # os) = emitted os"

definition wires :: "ordered_rtp_packet list \<Rightarrow> (u64 \<times> bytes) set" where
  "wires qs = (\<lambda>q. (op_sequence q, op_bytes q)) ` set qs"

lemma wires_simps [simp]:
  "wires [] = {}" "wires [q] = {(op_sequence q, op_bytes q)}" "wires (qs @ rs) = wires qs \<union> wires rs"
  by (auto simp: wires_def)

lemma released_append [simp]: "released (os @ ps) = released os @ released ps"
  by (induction os rule: released.induct) auto

lemma emitted_append [simp]: "emitted (os @ ps) = emitted os @ emitted ps"
  by (induction os rule: emitted.induct) auto

section \<open>Invariant\<close>

text \<open>
  \<open>D\<close> is the list of datagrams released so far. The codec never runs ahead of the transport in time
  or in sequence, and an ended receiver retains nothing in either layer.
\<close>

definition receiver_inv :: "h264_receiver \<Rightarrow> ordered_rtp_packet list \<Rightarrow> bool" where
  "receiver_inv r D \<longleftrightarrow>
     (\<exists>S. reorder_inv (rx_reorder r) S)
     \<and> h264_inv (wires D) (rx_depacketizer r)
     \<and> hd_key (rx_depacketizer r) = rb_key (rx_reorder r)
     \<and> hd_payload_type (rx_depacketizer r) = trk_payload_type (rb_tracker (rx_reorder r))
     \<and> rb_last_now_ns (rx_reorder r) \<le> rx_last_now_ns r
     \<and> hd_last_now_ns (rx_depacketizer r) \<le> rx_last_now_ns r
     \<and> (hd_closed (rx_depacketizer r) \<longrightarrow> rx_ended r)
     \<and> (rx_ended r \<longrightarrow> rb_queue (rx_reorder r) = [] \<and> rb_phase (rx_reorder r) = phase.Closed
          \<and> hd_pending (rx_depacketizer r) = None)
     \<and> (\<forall>prev. hd_last_sequence (rx_depacketizer r) = Some prev \<longrightarrow>
          (\<exists>n. rb_next_sequence (rx_reorder r) = Some n \<and> prev < n))"

lemma receiver_new_inv:
  assumes "receiver_new alloc key pt mode rl hl = Inr r"
  shows "receiver_inv r []"
proof -
  obtain d b where d: "h264_new key pt mode hl = Inr d" and b: "reorder_new alloc key pt rl = Inr b"
    and r: "r = \<lparr>rx_reorder = b, rx_depacketizer = d, rx_last_now_ns = 0, rx_ended = False\<rparr>"
    using assms by (auto simp: receiver_new_def rust_simps)
  have "rb_last_now_ns b = 0" "rb_key b = key" "trk_payload_type (rb_tracker b) = pt"
    using b by (auto simp: reorder_new_def tracker_new_def rust_simps split: if_splits)
  moreover have "hd_key d = key" "hd_payload_type d = pt" "hd_last_now_ns d = 0" "\<not> hd_closed d"
      "hd_last_sequence d = None" "hd_pending d = None"
    using d by (auto simp: h264_new_def split: if_splits)
  ultimately show ?thesis
    using reorder_new_inv [OF b] r by (auto simp: receiver_inv_def h264_inv_def)
qed

lemma reorder_ingest_same:
  assumes "reorder_ingest_received alloc b key wire received_ns now_ns = (Inr a, b')"
  shows "rb_key b' = rb_key b" "trk_payload_type (rb_tracker b') = trk_payload_type (rb_tracker b)"
    "rb_last_now_ns b' = now_ns"
    "\<And>n. rb_next_sequence b = Some n \<Longrightarrow> rb_next_sequence b' = Some n"
    "ra_disposition a = reorder_disposition.RestartRequired \<Longrightarrow> rb_queue b' = [] \<and> rb_phase b' = phase.Closed"
    "rb_phase b = Open"
proof -
  obtain p t where c: "rb_phase b = Open" "tracker_observe (rb_tracker b) (rb_key b) p = (Inr (ra_sequence a), t)"
    "rb_tracker b' = t" "rb_last_now_ns b' = now_ns" "rb_key b' = rb_key b"
    using assms by (rule reorder_ingest_common)
  then show "rb_key b' = rb_key b" "trk_payload_type (rb_tracker b') = trk_payload_type (rb_tracker b)"
    "rb_last_now_ns b' = now_ns" "rb_phase b = Open"
    using tracker_observe_reads(3) by auto
  show "\<And>n. rb_next_sequence b = Some n \<Longrightarrow> rb_next_sequence b' = Some n"
    using reorder_ingest_effect [OF assms] by auto
  show "ra_disposition a = reorder_disposition.RestartRequired \<Longrightarrow> rb_queue b' = [] \<and> rb_phase b' = phase.Closed"
    using assms by (cases rule: reorder_ingest_cases) auto
qed

lemma h264_discard_keeps:
  assumes "h264_inv H d"
  shows "h264_inv H (d\<lparr>hd_pending := None\<rparr>)" "h264_inv H (d\<lparr>hd_closed := c, hd_pending := None\<rparr>)"
  using assms by (auto simp: h264_inv_def)

lemma receiver_ingest_inv:
  assumes inv: "receiver_inv r D" and ing: "receiver_ingest_received alloc r key wire received_ns now_ns = (x, r')"
  shows "receiver_inv r' D"
proof (cases "now_ns < rx_last_now_ns r")
  case True
  then show ?thesis using inv ing by (simp add: receiver_ingest_received_def receiver_check_time_def)
next
  case False
  obtain res b where i: "reorder_ingest_received alloc (rx_reorder r) key wire received_ns now_ns = (res, b)"
    by fastforce
  show ?thesis
  proof (cases res)
    case (Inl e)
    then have "b = rx_reorder r" using i reorder_ingest_refused by blast
    then show ?thesis using inv ing i Inl False
      by (auto simp: receiver_ingest_received_def receiver_check_time_def)
  next
    case (Inr a)
    note S = reorder_ingest_same [OF i [unfolded Inr]]
    obtain S0 where "reorder_inv (rx_reorder r) S0" using inv by (auto simp: receiver_inv_def)
    then have "\<exists>S. reorder_inv b S" using reorder_ingest_inv i Inr by blast
    moreover have "\<not> rx_ended r" using inv S(6) by (auto simp: receiver_inv_def)
    moreover have "r' = r\<lparr>rx_reorder := b, rx_last_now_ns := now_ns\<rparr> \<or>
       (ra_disposition a = reorder_disposition.RestartRequired \<and>
        r' = r\<lparr>rx_reorder := b, rx_last_now_ns := now_ns, rx_ended := True,
           rx_depacketizer := (rx_depacketizer r)\<lparr>hd_closed := True, hd_pending := None\<rparr>\<rparr>)"
      using ing i Inr False
      by (auto simp: receiver_ingest_received_def receiver_check_time_def h264_discard_gap_def h264_finish_def
          Let_def case_prod_unfold split: if_splits)
    ultimately show ?thesis
      using inv S False h264_discard_keeps(2) [of "wires D" "rx_depacketizer r" True]
      by (auto simp: receiver_inv_def)
  qed
qed


section \<open>A released datagram always reaches reconstruction\<close>

definition payload_reasons :: "h264_error set" where
  "payload_reasons = {h264_error.Malformed, h264_error.Unsupported, h264_error.Corrupt, h264_error.Limit,
     h264_error.Allocation, h264_error.MissingStart, h264_error.FragmentMismatch}"

lemma reserve_reasons: "reserve alloc n c = Inl e \<Longrightarrow> e \<in> payload_reasons"
  by (auto simp: reserve_def payload_reasons_def split: if_splits)

lemma copy_nal_reasons: "h264_copy_nal alloc d sq p rng now m = Inl e \<Longrightarrow> e \<in> payload_reasons"
  by (auto simp: h264_copy_nal_def rust_simps Let_def dest: reserve_reasons)

lemma stap_nals_reasons: "h264_stap_nals alloc d sq p now off k = Inl e \<Longrightarrow> e \<in> payload_reasons"
  by (induction alloc d sq p now off k rule: h264_stap_nals.induct)
    (auto simp: rust_simps Let_def dest: copy_nal_reasons)

lemma validate_stap_reasons:
  "validate_stap_from payload l off cnt nri = Inl e \<Longrightarrow> e \<in> payload_reasons"
proof (induction "length payload - off" arbitrary: off cnt nri rule: less_induct)
  case less
  have "e \<in> payload_reasons \<or> (\<exists>off' cnt' nri'. length payload - off' < length payload - off
      \<and> validate_stap_from payload l off' cnt' nri' = Inl e)"
    using less.prems [unfolded validate_stap_from.simps [of payload l off cnt nri] Let_def]
    by (fastforce simp: rust_simps payload_reasons_def split: if_splits)
  then show ?case using less.hyps by blast
qed

lemma consume_parts:
  shows "h264_consume_single alloc d sq p now disc = (r, d', x) \<Longrightarrow>
      same_config d d' \<and> (\<forall>e. r = Inl e \<longrightarrow> e \<in> payload_reasons)"
    and "h264_consume_stap alloc d sq p now disc = (r, d', x) \<Longrightarrow>
      same_config d d' \<and> (\<forall>e. r = Inl e \<longrightarrow> e \<in> payload_reasons)"
    and "h264_fu_start alloc d sq p now h disc = (u, d', x) \<Longrightarrow>
      same_config d d' \<and> (\<forall>e. u = Inl e \<longrightarrow> e \<in> payload_reasons)"
    and "h264_fu_append alloc d sq p h final disc = (r, d', x) \<Longrightarrow>
      same_config d d' \<and> (\<forall>e. r = Inl e \<longrightarrow> e \<in> payload_reasons)"
proof -
  show "h264_consume_single alloc d sq p now disc = (r, d', x) \<Longrightarrow>
      same_config d d' \<and> (\<forall>e. r = Inl e \<longrightarrow> e \<in> payload_reasons)"
    by (auto simp: h264_consume_single_def rust_simps split: sum.splits prod.splits
        dest: or_discard_state reserve_reasons copy_nal_reasons)
  show "h264_consume_stap alloc d sq p now disc = (r, d', x) \<Longrightarrow>
      same_config d d' \<and> (\<forall>e. r = Inl e \<longrightarrow> e \<in> payload_reasons)"
    by (auto simp: h264_consume_stap_def validate_stap_def rust_simps split: sum.splits prod.splits if_splits
        dest: or_discard_state reserve_reasons stap_nals_reasons validate_stap_reasons)
      (auto simp: payload_reasons_def)
  show "h264_fu_start alloc d sq p now h disc = (u, d', x) \<Longrightarrow>
      same_config d d' \<and> (\<forall>e. u = Inl e \<longrightarrow> e \<in> payload_reasons)"
    by (auto simp: h264_fu_start_def rust_simps Let_def split: sum.splits prod.splits if_splits
        dest: or_discard_state reserve_reasons) (auto simp: payload_reasons_def)
  show "h264_fu_append alloc d sq p h final disc = (r, d', x) \<Longrightarrow>
      same_config d d' \<and> (\<forall>e. r = Inl e \<longrightarrow> e \<in> payload_reasons)"
    by (auto simp: h264_fu_append_def rust_simps Let_def split: sum.splits option.splits if_splits
        dest: reserve_reasons) (auto simp: payload_reasons_def)
qed


lemma consume_fu_part:
  assumes "h264_consume_fu alloc d sq p now h disc = (r, d', x)"
  shows "same_config d d' \<and> (\<forall>e. r = Inl e \<longrightarrow> e \<in> payload_reasons)"
proof (cases "get_at (rtp_payload p) 1")
  case None
  then show ?thesis using assms by (auto simp: h264_consume_fu_def payload_reasons_def)
next
  case (Some fu)
  obtain u d1 y where st: "(if fu AND 0x80 \<noteq> 0 then h264_fu_start alloc d sq p now ((h AND 0x60) OR (fu AND 31)) disc
      else (Inr (), d, disc)) = (u, d1, y)" by (metis prod.exhaust)
  then have u: "same_config d d1" "\<And>e. u = Inl e \<Longrightarrow> e \<in> payload_reasons"
    using consume_parts(3) by (auto split: if_splits)
  show ?thesis
  proof (cases "((fu AND 0x80 \<noteq> 0) \<and> (fu AND 0x40 \<noteq> 0)) \<or> \<not> (1 \<le> fu AND 31 \<and> fu AND 31 \<le> 23)
      \<or> (rtp_marker p \<and> \<not> (fu AND 0x40 \<noteq> 0))")
    case True
    then show ?thesis using assms Some by (auto simp: h264_consume_fu_def Let_def payload_reasons_def)
  next
    case False
    then have "(r, d', x) = (case u of Inl e \<Rightarrow> (Inl e, d1, y)
        | Inr _ \<Rightarrow> h264_fu_append alloc d1 sq p ((h AND 0x60) OR (fu AND 31)) (fu AND 0x40 \<noteq> 0) y)"
      using assms Some st by (cases u) (auto simp: h264_consume_fu_def Let_def split: if_splits)
    then show ?thesis
      using u consume_parts(4) [of alloc d1 sq p _ _ y r d' x]
      by (cases u) (auto simp: same_config_def)
  qed
qed

lemma consume_config:
  assumes "h264_consume alloc d sq p now disc = (r, d', x)"
  shows "same_config d d' \<and> (case r of Inl e \<Rightarrow> e \<in> payload_reasons | Inr out \<Rightarrow> ho_status out \<noteq> IgnoredNonIncreasing)"
proof (cases "get_at (rtp_payload p) 0")
  case None
  then show ?thesis using assms by (auto simp: h264_consume_def payload_reasons_def)
next
  case (Some h)
  show ?thesis
  proof (cases "h AND 0x80 \<noteq> 0 \<or> \<not> (1 \<le> h AND 31 \<and> h AND 31 \<le> 23) \<and> hd_mode d = SingleNal")
    case True
    then show ?thesis using assms Some by (auto simp: h264_consume_def Let_def payload_reasons_def split: if_splits)
  next
    case False
    obtain u d1 y where u: "(if 1 \<le> h AND 31 \<and> h AND 31 \<le> 23 then h264_consume_single alloc d sq p now disc
       else if h AND 31 = 24 then h264_consume_stap alloc d sq p now disc
       else if h AND 31 = 28 then h264_consume_fu alloc d sq p now h disc
       else (Inl h264_error.Unsupported, d, disc)) = (u, d1, y)" by (metis prod.exhaust)
    then have "same_config d d1 \<and> (\<forall>e. u = Inl e \<longrightarrow> e \<in> payload_reasons)"
      using consume_parts(1,2) consume_fu_part by (auto simp: payload_reasons_def split: if_splits)
    moreover have "(r, d', x) = (case u of Inl e \<Rightarrow> (Inl e, d1, y)
        | Inr nals \<Rightarrow> (Inr \<lparr>ho_status = (if nals = [] then FragmentPending else Complete), ho_nals = nals,
                         ho_gap_before = False, ho_discarded = None\<rparr>, d1, y))"
      using assms Some False u by (auto simp: h264_consume_def Let_def split: sum.splits)
    ultimately show ?thesis by (cases u) auto
  qed
qed

lemma push_accepted:
  assumes ex: "h264_expire d now = (Inr disc, d1)"
    and b: "bound_packet d sq p" and d: "\<not> hd_closed d" "hd_last_now_ns d \<le> now"
      "\<And>prev. hd_last_sequence d = Some prev \<Longrightarrow> prev < sq"
    and push: "h264_push alloc d (hd_key d) sq p now = (r, d')"
  shows "hd_last_sequence d' = Some sq \<and> hd_last_now_ns d' = now \<and> hd_closed d' = hd_closed d
    \<and> hd_payload_type d' = hd_payload_type d \<and> hd_key d' = hd_key d
    \<and> (case r of Inl f \<Rightarrow> hf_reason f \<in> payload_reasons \<and> hd_pending d' = None
       | Inr out \<Rightarrow> ho_status out \<noteq> IgnoredNonIncreasing)"
proof -
  have d1: "hd_last_sequence d1 = hd_last_sequence d" "hd_last_now_ns d1 = now" "hd_closed d1 = hd_closed d"
    "hd_payload_type d1 = hd_payload_type d" "hd_key d1 = hd_key d"
    using ex d(2) by (auto simp: h264_expire_def Let_def h264_discard_def split: if_splits option.splits)
  obtain rc d3 disc3 where c: "h264_consume alloc (after_gap d1 sq disc) sq p now (gap_receipt d1 sq disc) = (rc, d3, disc3)"
    by (metis prod.exhaust)
  have last: "case hd_last_sequence d1 of None \<Rightarrow> True | Some prev \<Rightarrow> prev < sq"
    using d(3) d1(1) by (auto split: option.splits)
  note C = consume_config [OF c]
  have "(r, d') = (case rc of Inr out \<Rightarrow> (Inr (out\<lparr>ho_gap_before := breaks d1 sq, ho_discarded := disc3\<rparr>), d3)
    | Inl e \<Rightarrow> (Inl \<lparr>hf_reason = e, hf_discarded = (case disc3 of Some x \<Rightarrow> Some x | None \<Rightarrow> fst (h264_discard d3 e))\<rparr>,
         d3\<lparr>hd_pending := None\<rparr>))"
    using h264_push_eq [OF ex _ _ _ d(1,2) last, of p alloc] b push c by (cases rc) (auto simp: bound_packet_def)
  then show ?thesis
    using C d1 by (cases rc) (auto simp: same_config_def after_gap_def)
qed


section \<open>Poll\<close>

lemma reorder_poll_same:
  assumes "reorder_inv b S" and "reorder_poll_step b now = (r, b')"
  shows "rb_key b' = rb_key b" "rb_tracker b' = rb_tracker b" "rb_limits b' = rb_limits b"
    "rb_last_now_ns b \<le> now \<Longrightarrow> rb_last_now_ns b' = now \<and> (\<exists>out. r = Inr out)"
    "\<And>n. rb_next_sequence b = Some n \<Longrightarrow> \<exists>m\<ge>n. rb_next_sequence b' = Some m"
    "\<And>q. r = Inr (reorder_poll.Packet q) \<Longrightarrow> queued_ok b q \<and> rb_next_sequence b = Some (op_sequence q)
       \<and> rb_next_sequence b' = Some (op_sequence q + 1)"
    "r = Inr Ended \<Longrightarrow> rb_queue b' = [] \<and> rb_phase b' = phase.Closed"
  using assms by (cases rule: reorder_poll_cases; auto simp: reorder_inv_parts(6))+

lemma receiver_deliver_packet:
  assumes inv: "receiver_inv r D" and e: "\<not> rx_ended r" and now: "rx_last_now_ns r \<le> now"
    and poll: "reorder_poll_step (rx_reorder r) now = (Inr (reorder_poll.Packet q), b)"
    and ex: "h264_expire (rx_depacketizer r) now = (Inr None, d)"
    and del: "receiver_deliver alloc (r\<lparr>rx_last_now_ns := now, rx_depacketizer := d, rx_reorder := b\<rparr>)
       (reorder_poll.Packet q) now = (out, r')"
  shows "\<exists>res. out = PacketOut q res \<and> receiver_inv r' (D @ [q])
    \<and> (case res of Inl f \<Rightarrow> \<exists>g. f = Codec g \<and> hf_reason g \<in> payload_reasons
       | Inr h \<Rightarrow> ho_status h \<noteq> IgnoredNonIncreasing
           \<and> (\<forall>n\<in>set (ho_nals h). nal_ok (wires (D @ [q])) (hd_key (rx_depacketizer r)) (hd_limits (rx_depacketizer r)) n))
    \<and> hd_limits (rx_depacketizer r') = hd_limits (rx_depacketizer r)"
proof -
  obtain S where S: "reorder_inv (rx_reorder r) S" using inv by (auto simp: receiver_inv_def)
  note R = reorder_poll_same [OF S poll]
  note I = inv [unfolded receiver_inv_def]
  have q: "queued_ok (rx_reorder r) q" using R(6) by blast
  then obtain p where p: "ordered_packet q = Inr p" "rtp_sequence p = of_nat (op_sequence q)"
    "rtp_ssrc p = key_ssrc (rb_key (rx_reorder r))" "rtp_payload_type p = trk_payload_type (rb_tracker (rx_reorder r))"
    and k: "op_key q = rb_key (rx_reorder r)"
    by (auto simp: queued_ok_def)
  have wf: "rtp_wf p" "rtp_bytes p = op_bytes q" using p(1) rtp_parse_wf by (auto simp: ordered_packet_def)
  have E: "h264_inv (wires D) d" "hd_key d = hd_key (rx_depacketizer r)" "hd_limits d = hd_limits (rx_depacketizer r)"
    "\<not> hd_closed d" "hd_last_sequence d = hd_last_sequence (rx_depacketizer r)" "hd_last_now_ns d = now"
    "hd_payload_type d = hd_payload_type (rx_depacketizer r)"
    using expire_ok [OF _ ex, of "wires D"] I e by auto
  obtain x d' where push: "h264_push alloc d (hd_key d) (op_sequence q) p now = (x, d')" by fastforce
  have b: "bound_packet d (op_sequence q) p" using p E I by (auto simp: bound_packet_def)
  have last: "\<And>prev. hd_last_sequence d = Some prev \<Longrightarrow> prev < op_sequence q" using I E(5) R(6) by auto
  obtain disc2 d2 where ex2: "h264_expire d now = (Inr disc2, d2)"
    using E(6) by (fastforce simp: h264_expire_def Let_def split: if_splits prod.splits)
  note A = push_accepted [OF ex2 b E(4) _ last push, unfolded E(6), simplified]
  note K = h264_push_ok [OF push E(1) wf(1), unfolded wf(2)]
  have out: "out = PacketOut q (map_err Codec x)" "r' = r\<lparr>rx_last_now_ns := now, rx_depacketizer := d', rx_reorder := b\<rparr>"
    using del p(1) push k E(2) I by (auto simp: receiver_deliver_def Let_def)
  have "\<exists>S. reorder_inv b S" using reorder_poll_inv [OF S poll] by blast
  then have "receiver_inv r' (D @ [q])"
    using I K A R e now out(2) E by (auto simp: receiver_inv_def split: sum.splits)
  then show ?thesis
    using out K A E by (cases x) auto
qed

lemma receiver_inv_discard:
  "receiver_inv r D \<Longrightarrow> receiver_inv (r\<lparr>rx_depacketizer := (rx_depacketizer r)\<lparr>hd_pending := None\<rparr>\<rparr>) D"
  using h264_discard_keeps(1) by (auto simp: receiver_inv_def)

lemma receiver_poll_progress:
  assumes inv: "receiver_inv r D" and now: "rx_last_now_ns r \<le> now"
  shows "\<exists>out r'. receiver_poll alloc r now = (Inr out, r') \<and> receiver_inv r' (D @ released [out])
    \<and> (\<forall>n\<in>set (emitted [out]). nal_ok (wires (D @ released [out])) (hd_key (rx_depacketizer r)) (hd_limits (rx_depacketizer r)) n)
    \<and> hd_limits (rx_depacketizer r') = hd_limits (rx_depacketizer r)
    \<and> (\<forall>q res. out = PacketOut q res \<longrightarrow>
         (case res of Inl f \<Rightarrow> \<exists>g. f = Codec g \<and> hf_reason g \<in> payload_reasons
          | Inr h \<Rightarrow> ho_status h \<noteq> IgnoredNonIncreasing))"
proof (cases "rx_ended r")
  case True
  then have "receiver_poll alloc r now = (Inr (EndedOut None), r\<lparr>rx_last_now_ns := now\<rparr>)"
    using now by (simp add: receiver_poll_def receiver_check_time_def)
  then show ?thesis using inv now by (auto simp: receiver_inv_def)
next
  case e: False
  obtain S where S: "reorder_inv (rx_reorder r) S" using inv by (auto simp: receiver_inv_def)
  note I = inv [unfolded receiver_inv_def]
  obtain x d where ex: "h264_expire (rx_depacketizer r) now = (x, d)" by fastforce
  have "\<exists>y. x = Inr y" using ex I now by (auto simp: h264_expire_def Let_def split: if_splits prod.splits)
  then obtain y where x: "x = Inr y" by blast
  note E = expire_ok [OF _ ex, of "wires D"]
  show ?thesis
  proof (cases y)
    case (Some disc)
    then have "receiver_poll alloc r now = (Inr (FragmentDiscarded disc), r\<lparr>rx_last_now_ns := now, rx_depacketizer := d\<rparr>)"
      using ex x now e by (simp add: receiver_poll_def receiver_check_time_def Let_def)
    then show ?thesis using I E now x Some e by (auto simp: receiver_inv_def)
  next
    case None
    let ?r = "r\<lparr>rx_last_now_ns := now, rx_depacketizer := d\<rparr>"
    obtain z b where poll: "reorder_poll_step (rx_reorder r) now = (z, b)" by fastforce
    note R = reorder_poll_same [OF S poll]
    have "rb_last_now_ns (rx_reorder r) \<le> now" using I now by linarith
    then obtain polled where z: "z = Inr polled" using R(4) by blast
    obtain out r' where del: "receiver_deliver alloc (?r\<lparr>rx_reorder := b\<rparr>) polled now = (out, r')" by fastforce
    have pl: "receiver_poll alloc r now = (Inr out, r')"
      using ex x None poll z del now e by (simp add: receiver_poll_def receiver_check_time_def Let_def)
    have inv1: "receiver_inv (?r\<lparr>rx_reorder := b\<rparr>) D" if "polled \<noteq> Ended" "\<And>q. polled \<noteq> reorder_poll.Packet q"
    proof -
      have "\<exists>S. reorder_inv b S" using reorder_poll_inv [OF S poll] by blast
      then show ?thesis using I E R now e x \<open>rb_last_now_ns (rx_reorder r) \<le> now\<close>
        by (fastforce simp: receiver_inv_def)
    qed
    show ?thesis
    proof (cases polled)
      case (Packet q)
      obtain res where res: "out = PacketOut q res" "receiver_inv r' (D @ [q])"
        "case res of Inl f \<Rightarrow> \<exists>g. f = Codec g \<and> hf_reason g \<in> payload_reasons
         | Inr h \<Rightarrow> ho_status h \<noteq> IgnoredNonIncreasing
           \<and> (\<forall>n\<in>set (ho_nals h). nal_ok (wires (D @ [q])) (hd_key (rx_depacketizer r)) (hd_limits (rx_depacketizer r)) n)"
        "hd_limits (rx_depacketizer r') = hd_limits (rx_depacketizer r)"
        using receiver_deliver_packet [OF inv e now poll [unfolded z Packet] ex [unfolded x None], of alloc out r']
          del Packet by auto
      then show ?thesis using pl by (cases res) auto
    next
      case (Gap g)
      have "out = GapOut g (fst (h264_discard_gap d))"
        "r' = ?r\<lparr>rx_reorder := b, rx_depacketizer := d\<lparr>hd_pending := None\<rparr>\<rparr>"
        using del Gap by (auto simp: receiver_deliver_def h264_discard_gap_def case_prod_unfold Let_def)
      moreover have "receiver_inv (?r\<lparr>rx_reorder := b, rx_depacketizer := d\<lparr>hd_pending := None\<rparr>\<rparr>) D"
        using receiver_inv_discard [OF inv1] Gap by simp
      ultimately show ?thesis using pl E I by simp
    next
      case (Pending w)
      then have "out = PendingOut (receiver_next_wake_ns (?r\<lparr>rx_reorder := b\<rparr>))" "r' = ?r\<lparr>rx_reorder := b\<rparr>"
        using del by (auto simp: receiver_deliver_def)
      then show ?thesis using inv1 Pending pl E I by simp
    next
      case Ended
      have "\<exists>S. reorder_inv b S" using reorder_poll_inv [OF S poll] by blast
      moreover have "out = EndedOut (fst (h264_finish d))"
        "r' = r\<lparr>rx_last_now_ns := now, rx_reorder := b, rx_ended := True,
              rx_depacketizer := d\<lparr>hd_closed := True, hd_pending := None\<rparr>\<rparr>"
        using del Ended by (auto simp: receiver_deliver_def h264_finish_def Let_def case_prod_unfold)
      ultimately show ?thesis
        using pl I E R z Ended x \<open>rb_last_now_ns (rx_reorder r) \<le> now\<close> h264_discard_keeps(2) [of "wires D" d True]
        by (fastforce simp: receiver_inv_def)
    qed
  qed
qed


lemma receiver_finish_inv: "receiver_inv r D \<Longrightarrow> receiver_inv (receiver_finish r) D"
  unfolding receiver_finish_def receiver_inv_def
  using reorder_finish_inv by (fastforce simp: reorder_finish_def)

lemma receiver_cancel_inv: "receiver_inv r D \<Longrightarrow> receiver_inv (snd (receiver_cancel r)) D"
  using reorder_cancel_inv h264_discard_keeps(2) [of "wires D" "rx_depacketizer r" True]
  by (fastforce simp: receiver_inv_def receiver_cancel_def h264_cancel_def reorder_cancel_def reorder_retire_def
      case_prod_unfold Let_def)

lemma receiver_codec_same:
  "hd_key (rx_depacketizer (snd (receiver_ingest_received alloc r key wire rec now))) = hd_key (rx_depacketizer r)"
  "hd_limits (rx_depacketizer (snd (receiver_ingest_received alloc r key wire rec now))) = hd_limits (rx_depacketizer r)"
  by (auto simp: receiver_ingest_received_def h264_discard_gap_def h264_finish_def case_prod_unfold Let_def
      split: sum.splits prod.splits)

lemma receiver_step_ok:
  assumes inv: "receiver_inv r D" and step: "receiver_step r ev = (os, r')"
  shows "receiver_inv r' (D @ released os)
    \<and> hd_limits (rx_depacketizer r') = hd_limits (rx_depacketizer r)
    \<and> (\<forall>n\<in>set (emitted os). nal_ok (wires (D @ released os)) (hd_key (rx_depacketizer r)) (hd_limits (rx_depacketizer r)) n)"
proof (cases ev)
  case (Ingest alloc key wire received_ns now_ns)
  then show ?thesis
    using step receiver_ingest_inv [OF inv prod.collapse [symmetric]] receiver_codec_same(2) by auto
next
  case (Poll alloc now)
  show ?thesis
  proof (cases "rx_last_now_ns r \<le> now")
    case True
    obtain out r1 where "receiver_poll alloc r now = (Inr out, r1)" "receiver_inv r1 (D @ released [out])"
      "hd_limits (rx_depacketizer r1) = hd_limits (rx_depacketizer r)"
      "\<forall>n\<in>set (emitted [out]). nal_ok (wires (D @ released [out])) (hd_key (rx_depacketizer r)) (hd_limits (rx_depacketizer r)) n"
      using receiver_poll_progress [OF inv True, of alloc] by blast
    then show ?thesis using step Poll by simp
  next
    case False
    then show ?thesis using step Poll inv by (simp add: receiver_poll_def receiver_check_time_def)
  qed
qed (use inv step receiver_finish_inv receiver_cancel_inv in
    \<open>auto simp: receiver_finish_def receiver_cancel_def h264_cancel_def case_prod_unfold Let_def\<close>)

lemma receiver_inv_key: "receiver_inv r D \<Longrightarrow> hd_key (rx_depacketizer r) = rb_key (rx_reorder r)"
  by (simp add: receiver_inv_def)

section \<open>The transport inside the receiver\<close>

text \<open>
  Every step of the receiver is at most one step of its reorder buffer, with the same output: the
  receiver refines the delivery machine, so the delivery properties carry over.
\<close>

definition ingested :: "receiver_event list \<Rightarrow> ordered_rtp_packet \<Rightarrow> bool" where
  "ingested evs q \<longleftrightarrow>
     (\<exists>alloc k. Ingest alloc k (op_bytes q) (op_received_ns q) (op_admitted_ns q) \<in> set evs)"

lemma receiver_deliver_transport:
  assumes "receiver_deliver alloc r polled now = (out, r')"
  shows "rx_reorder r' = rx_reorder r \<and> released [out] = delivered [Emitted polled]
    \<and> rx_last_now_ns r' = rx_last_now_ns r \<and> rx_ended r' = (rx_ended r \<or> polled = Ended)
    \<and> (polled = Ended \<longrightarrow> (\<exists>x. out = EndedOut x))"
  using assms
  by (auto simp: receiver_deliver_def Let_def case_prod_unfold split: reorder_poll.splits sum.splits)

lemma receiver_poll_transport:
  assumes "receiver_poll alloc r now = (x, r')"
  shows "(rx_reorder r' = rx_reorder r \<and> (\<forall>out. x = Inr out \<longrightarrow> released [out] = []))
    \<or> (\<exists>polled out. reorder_poll_step (rx_reorder r) now = (Inr polled, rx_reorder r') \<and> x = Inr out
         \<and> released [out] = delivered [Emitted polled])
    \<or> (\<exists>e e'. reorder_poll_step (rx_reorder r) now = (Inl e, rx_reorder r') \<and> x = Inl e')"
proof -
  let ?r = "r\<lparr>rx_last_now_ns := now\<rparr>"
  obtain y d where ex: "h264_expire (rx_depacketizer r) now = (y, d)" by fastforce
  obtain z b where poll: "reorder_poll_step (rx_reorder r) now = (z, b)" by fastforce
  consider "now < rx_last_now_ns r \<or> rx_ended r" | f where "y = Inl f" | disc where "y = Inr (Some disc)"
    | "\<not> (now < rx_last_now_ns r \<or> rx_ended r)" "y = Inr None" by (metis not_Some_eq sum.exhaust)
  then show ?thesis
  proof cases
    case 1
    then have "rx_reorder r' = rx_reorder r \<and> (\<forall>out. x = Inr out \<longrightarrow> released [out] = [])"
      using assms by (auto simp: receiver_poll_def receiver_check_time_def Let_def split: if_splits)
    then show ?thesis by blast
  next
    case 2
    then show ?thesis using assms ex by (auto simp: receiver_poll_def receiver_check_time_def Let_def split: if_splits)
  next
    case 3
    then show ?thesis using assms ex by (auto simp: receiver_poll_def receiver_check_time_def Let_def split: if_splits)
  next
    case 4
    show ?thesis
    proof (cases z)
      case (Inl e)
      then show ?thesis using assms ex 4 poll by (auto simp: receiver_poll_def receiver_check_time_def Let_def)
    next
      case (Inr polled)
      obtain out r1 where del: "receiver_deliver alloc (?r\<lparr>rx_depacketizer := d, rx_reorder := b\<rparr>) polled now = (out, r1)"
        by fastforce
      then have "x = Inr out" "r' = r1"
        using assms ex 4 poll Inr by (auto simp: receiver_poll_def receiver_check_time_def Let_def)
      then show ?thesis using receiver_deliver_transport [OF del] poll Inr by auto
    qed
  qed
qed

lemma receiver_step_transport:
  assumes inv: "receiver_inv r D" and step: "receiver_step r ev = (os, r')"
  shows "\<exists>ls S'. labelled_run reorder_step (rx_reorder r, S) ls (rx_reorder r', S')
    \<and> delivered ls = released os \<and> (\<forall>q\<in>set (taken ls). ingested [ev] q)"
proof (cases ev)
  case (Ingest alloc key wire received_ns now_ns)
  obtain res b where i: "reorder_ingest_received alloc (rx_reorder r) key wire received_ns now_ns = (res, b)" by fastforce
  show ?thesis
  proof (cases "now_ns < rx_last_now_ns r")
    case True
    then have "r' = r" "os = []" using step Ingest by (auto simp: receiver_ingest_received_def receiver_check_time_def)
    then show ?thesis by (intro exI [of _ "[]"] exI [of _ S]) simp
  next
    case False
    then have r': "rx_reorder r' = b" "os = []"
      using step Ingest i by (auto simp: receiver_ingest_received_def receiver_check_time_def Let_def
          case_prod_unfold split: sum.splits)
    obtain l S' where l: "reorder_step (rx_reorder r, S) l (b, S')" "delivered [l] = []" "\<forall>q\<in>set (taken [l]). ingested [ev] q"
    proof (cases res)
      case (Inl e)
      then show thesis using that [of Quiet S] step_refused i by simp
    next
      case (Inr a)
      note eff = reorder_ingest_effect [OF i [unfolded Inr]]
      consider e where "ra_disposition a = Buffered" "extended_sequence (ra_sequence a) = Some e"
        | "ra_disposition a = reorder_disposition.RestartRequired"
        | "ra_disposition a \<notin> {Buffered, reorder_disposition.RestartRequired}" using eff by blast
      then show thesis
      proof cases
        case (1 e)
        then show thesis using that [OF step_buffered [OF i [unfolded Inr] 1]] Ingest by (auto simp: ingested_def)
      next
        case 2
        then show thesis using that [OF step_retired [OF i [unfolded Inr] 2]] by simp
      next
        case 3
        then show thesis using that [OF step_observed [OF i [unfolded Inr] 3]] by simp
      qed
    qed
    then show ?thesis using r' by (intro exI [of _ "[l]"] exI [of _ S']) simp
  qed
next
  case (Poll alloc now)
  obtain x r1 where p: "receiver_poll alloc r now = (x, r1)" by fastforce
  then have r1: "r1 = r'" "os = (case x of Inl _ \<Rightarrow> [] | Inr out \<Rightarrow> [out])"
    using step Poll by (auto split: sum.splits)
  from receiver_poll_transport [OF p] show ?thesis
  proof (elim disjE exE conjE)
    assume "rx_reorder r1 = rx_reorder r" "\<forall>out. x = Inr out \<longrightarrow> released [out] = []"
    then show ?thesis using r1 by (intro exI [of _ "[]"] exI [of _ S]) (auto split: sum.splits)
  next
    fix polled out
    assume "reorder_poll_step (rx_reorder r) now = (Inr polled, rx_reorder r1)" "x = Inr out"
      "released [out] = delivered [Emitted polled]"
    then show ?thesis
      using r1 step_poll by (intro exI [of _ "[Emitted polled]"] exI [of _ S]) auto
  next
    fix e e' assume "reorder_poll_step (rx_reorder r) now = (Inl e, rx_reorder r1)" "x = Inl e'"
    then show ?thesis
      using r1 step_poll_refused by (intro exI [of _ "[Quiet]"] exI [of _ S]) auto
  qed
next
  case FinishInput
  then show ?thesis
    using step step_finish [of "rx_reorder r" S] by (intro exI [of _ "[Quiet]"] exI [of _ S]) (auto simp: receiver_finish_def)
next
  case CancelAll
  then show ?thesis
    using step step_cancel [of "rx_reorder r" S]
    by (intro exI [of _ "[Dropped (rb_queue (rx_reorder r))]"] exI [of _ S])
      (auto simp: receiver_cancel_def case_prod_unfold Let_def)
qed


lemma labelled_run_append:
  "labelled_run step s ls s1 \<Longrightarrow> labelled_run step s1 ms s2 \<Longrightarrow> labelled_run step s (ls @ ms) s2"
  by (induction rule: labelled_run.induct) auto

lemma label_append [simp]:
  "delivered (ls @ ms) = delivered ls @ delivered ms" "taken (ls @ ms) = taken ls @ taken ms"
  by (induction ls rule: delivered.induct; simp) (induction ls rule: taken.induct; simp)

lemma receiver_step_key:
  assumes "receiver_inv r D" and "receiver_step r ev = (os, r')"
  shows "rb_key (rx_reorder r') = rb_key (rx_reorder r)"
proof -
  obtain S where S: "reorder_inv (rx_reorder r) S" using assms(1) by (auto simp: receiver_inv_def)
  obtain ls S' where "labelled_run reorder_step (rx_reorder r, S) ls (rx_reorder r', S')"
    using receiver_step_transport [OF assms, of S] by blast
  then show ?thesis using reorder_run_config S by (fastforce simp: reorder_good_def)
qed

lemma ingested_mono: "ingested evs q \<Longrightarrow> set evs \<subseteq> set evs' \<Longrightarrow> ingested evs' q"
  unfolding ingested_def by blast

lemma receiver_run_ok:
  assumes "receiver_inv r D" and "receiver_run r evs = (os, r')"
  shows "receiver_inv r' (D @ released os) \<and> hd_limits (rx_depacketizer r') = hd_limits (rx_depacketizer r)
    \<and> (\<exists>ls S'. labelled_run reorder_step (rx_reorder r, S) ls (rx_reorder r', S') \<and> delivered ls = released os
        \<and> (\<forall>q\<in>set (taken ls). ingested evs q))
    \<and> (\<forall>n\<in>set (emitted os). nal_ok (wires (D @ released os)) (rb_key (rx_reorder r)) (hd_limits (rx_depacketizer r)) n)"
  using assms
proof (induction evs arbitrary: r D os S)
  case Nil
  then show ?case by (auto intro: exI [of _ "[]"])
next
  case (Cons ev evs)
  obtain o1 r1 where s: "receiver_step r ev = (o1, r1)" by fastforce
  obtain o2 where run: "receiver_run r1 evs = (o2, r')" and os: "os = o1 @ o2"
    using Cons.prems(2) s by (auto split: prod.splits)
  note S1 = receiver_step_ok [OF Cons.prems(1) s]
  obtain l1 S1' where L1: "labelled_run reorder_step (rx_reorder r, S) l1 (rx_reorder r1, S1')"
    "delivered l1 = released o1" "\<forall>q\<in>set (taken l1). ingested [ev] q"
    using receiver_step_transport [OF Cons.prems(1) s, of S] by blast
  note IH = Cons.IH [OF conjunct1 [OF S1] run, of S1']
  then obtain l2 S2 where L2: "labelled_run reorder_step (rx_reorder r1, S1') l2 (rx_reorder r', S2)"
    "delivered l2 = released o2" "\<forall>q\<in>set (taken l2). ingested evs q" by blast
  have "nal_ok (wires (D @ released os)) (rb_key (rx_reorder r)) (hd_limits (rx_depacketizer r)) n" if "n \<in> set (emitted o1)" for n
  proof -
    have "nal_ok (wires (D @ released o1)) (hd_key (rx_depacketizer r)) (hd_limits (rx_depacketizer r)) n"
      using S1 that by blast
    then have "nal_ok (wires (D @ released os)) (hd_key (rx_depacketizer r)) (hd_limits (rx_depacketizer r)) n"
      by (rule nal_ok_mono) (auto simp: os)
    then show ?thesis using receiver_inv_key [OF Cons.prems(1)] by simp
  qed
  moreover have "\<exists>ls S'. labelled_run reorder_step (rx_reorder r, S) ls (rx_reorder r', S') \<and> delivered ls = released os
        \<and> (\<forall>q\<in>set (taken ls). ingested (ev # evs) q)"
    using labelled_run_append [OF L1(1) L2(1)] L1 L2 os 
      ingested_mono [of "[ev]" _ "ev # evs"] ingested_mono [of evs _ "ev # evs"]
    by (intro exI [of _ "l1 @ l2"] exI [of _ S2]) auto
  ultimately show ?case using IH S1 os receiver_step_key [OF Cons.prems(1) s] by auto
qed


section \<open>Properties\<close>

lemma receiver_new_parts:
  assumes "receiver_new alloc key pt mode rl hl = Inr r"
  shows "reorder_new alloc key pt rl = Inr (rx_reorder r)" "rb_key (rx_reorder r) = key"
    "hd_limits (rx_depacketizer r) = hl"
  using assms reorder_new_config [of alloc key pt rl "rx_reorder r"]
  by (auto simp: receiver_new_def h264_new_def rust_simps split: if_splits)

lemma reorder_new_queue: "reorder_new alloc key pt rl = Inr b \<Longrightarrow> rb_queue b = []"
  by (auto simp: reorder_new_def rust_simps split: if_splits)

text \<open>C3: End to end, from datagrams to NAL units. In any run of a fresh receiver, over any interleaving of
  ingests, polls, end of input and cancellation, the datagrams it releases come out in strictly
  increasing extended sequence, each is byte for byte a datagram that was ingested, with its receipt
  and admission times, and every NAL unit it emits is exactly sourced from the datagrams released so
  far, within the codec limits.\<close>

theorem receiver_end_to_end:
  assumes "receiver_new alloc key pt mode rl hl = Inr r0" and "receiver_run r0 evs = (os, r)"
  shows "sorted_wrt (<) (map op_sequence (released os))
    \<and> (\<forall>q\<in>set (released os). ingested evs q)
    \<and> (\<forall>n\<in>set (emitted os). nal_ok (wires (released os)) key hl n)"
proof -
  note N = receiver_new_parts [OF assms(1)]
  note R = receiver_run_ok [OF receiver_new_inv [OF assms(1)] assms(2), of "{}"]
  then obtain ls S where L: "labelled_run reorder_step (rx_reorder r0, {}) ls (rx_reorder r, S)"
    "delivered ls = released os" "\<forall>q\<in>set (taken ls). ingested evs q" by blast
  have g: "reorder_good (rx_reorder r0, {})" using reorder_start [OF N(1)] .
  have "mset (delivered ls) \<subseteq># mset (taken ls)"
    using jitter.run_custody [OF L(1) g] reorder_new_queue [OF N(1)]
    by (auto simp: reorder_held_def)
  then have "set (delivered ls) \<subseteq> set (taken ls)" by (metis set_mset_mono set_mset_mset)
  moreover have "sorted_wrt (<) (map op_sequence (delivered ls))"
    using jitter.run_tiles [OF L(1) g] delivered_sorted delivered_no_ranges by (auto split: option.splits)
  ultimately show ?thesis using R L N by auto
qed

text \<open>C17: A released datagram is never lost to the composition. From any reachable receiver, a poll whose
  clock has not moved backwards always succeeds; when it releases a datagram the codec has really
  processed it: reconstruction either succeeds with a status other than ignored, or is refused for a
  reason in the payload itself, never for ownership, ordering, clock or closed state, and the
  defensive re-parse never fails. An ended receiver retains neither datagrams nor fragments.\<close>

theorem receiver_poll_total:
  assumes "receiver_new alloc key pt mode rl hl = Inr r0" and "receiver_run r0 evs = (os, r)"
    and "rx_last_now_ns r \<le> now"
  shows "\<exists>out r'. receiver_poll alloc' r now = (Inr out, r')
    \<and> (\<forall>q res. out = PacketOut q res \<longrightarrow>
         (case res of Inl f \<Rightarrow> \<exists>g. f = Codec g \<and> hf_reason g \<in> payload_reasons
          | Inr h \<Rightarrow> ho_status h \<noteq> IgnoredNonIncreasing))
    \<and> (rx_ended r' \<longrightarrow> receiver_queued_packets r' = 0 \<and> receiver_pending_nal_bytes r' = 0)"
proof -
  have inv: "receiver_inv r (released os)"
    using receiver_run_ok [OF receiver_new_inv [OF assms(1)] assms(2)] by simp
  have quiet: "rx_ended r' \<Longrightarrow> receiver_queued_packets r' = 0 \<and> receiver_pending_nal_bytes r' = 0"
    if "receiver_inv r' D" for r' D
    using that by (simp add: receiver_inv_def receiver_queued_packets_def reorder_queued_packets_def
        receiver_pending_nal_bytes_def h264_pending_bytes_def)
  show ?thesis using receiver_poll_progress [OF inv assms(3), of alloc'] quiet by blast
qed


subsection \<open>Quiescence\<close>

definition receiver_work :: "h264_receiver \<Rightarrow> nat" where
  "receiver_work r = 2 * drain_work (rx_reorder r) + (if hd_pending (rx_depacketizer r) = None then 0 else 1)"

lemma receiver_drain_step:
  assumes inv: "receiver_inv r D" and e: "\<not> rx_ended r" and ph: "rb_phase (rx_reorder r) \<noteq> Open"
    and now: "rx_last_now_ns r \<le> now"
  shows "\<exists>out r'. receiver_poll alloc r now = (Inr out, r') \<and> rb_phase (rx_reorder r') \<noteq> Open
    \<and> rx_last_now_ns r' = now \<and> released [out] @ rb_queue (rx_reorder r') = rb_queue (rx_reorder r)
    \<and> (if rx_ended r' then (\<exists>x. out = EndedOut x) else receiver_work r' < receiver_work r)"
proof -
  obtain S where S: "reorder_inv (rx_reorder r) S" using inv by (auto simp: receiver_inv_def)
  note I = inv [unfolded receiver_inv_def]
  have t: "rb_last_now_ns (rx_reorder r) \<le> now" using I now by linarith
  obtain x d where ex: "h264_expire (rx_depacketizer r) now = (x, d)" by fastforce
  have "\<exists>y. x = Inr y" using ex I now by (auto simp: h264_expire_def Let_def split: if_splits prod.splits)
  then obtain y where x: "x = Inr y" by blast
  note E = expire_ok [OF _ ex, of "wires D"]
  show ?thesis
  proof (cases y)
    case (Some disc)
    have "hd_pending (rx_depacketizer r) \<noteq> None" "hd_pending d = None"
      using ex x Some by (auto simp: h264_expire_def h264_discard_def Let_def split: if_splits option.splits)
    moreover have "receiver_poll alloc r now = (Inr (FragmentDiscarded disc), r\<lparr>rx_last_now_ns := now, rx_depacketizer := d\<rparr>)"
      using ex x Some now e by (simp add: receiver_poll_def receiver_check_time_def Let_def)
    ultimately show ?thesis using e ph by (auto simp: receiver_work_def)
  next
    case None
    obtain polled b where p: "reorder_poll_step (rx_reorder r) now = (Inr polled, b)" "rb_phase b \<noteq> Open"
      "delivered [Emitted polled] @ rb_queue b = rb_queue (rx_reorder r)"
      "rb_queue (rx_reorder r) = [] \<longleftrightarrow> polled = Ended"
      "rb_queue (rx_reorder r) \<noteq> [] \<longrightarrow> drain_work b < drain_work (rx_reorder r)"
      using draining_poll [OF S ph t] by metis
    obtain out r' where del: "receiver_deliver alloc (r\<lparr>rx_last_now_ns := now, rx_depacketizer := d, rx_reorder := b\<rparr>) polled now = (out, r')"
      by fastforce
    have pl: "receiver_poll alloc r now = (Inr out, r')"
      using ex x None p(1) del now e by (simp add: receiver_poll_def receiver_check_time_def Let_def)
    have T: "rx_reorder r' = b" "released [out] = delivered [Emitted polled]" "rx_last_now_ns r' = now"
      "rx_ended r' = (polled = Ended)" "polled = Ended \<longrightarrow> (\<exists>x. out = EndedOut x)"
      using receiver_deliver_transport [OF del] e by auto
    show ?thesis using pl T p by (auto simp: receiver_work_def)
  qed
qed

fun receiver_polls :: "(usize \<Rightarrow> bool) \<Rightarrow> h264_receiver \<Rightarrow> u64 list \<Rightarrow>
    (h264_receive_error + h264_receive_poll) list \<times> h264_receiver" where
  "receiver_polls alloc r [] = ([], r)"
| "receiver_polls alloc r (t # ts) =
     (let (x, r1) = receiver_poll alloc r t; (xs, r2) = receiver_polls alloc r1 ts in (x # xs, r2))"

lemma receiver_polls_ended:
  assumes "rx_ended r" and "sorted (rx_last_now_ns r # ts)"
  shows "\<exists>r'. receiver_polls alloc r ts = (map Inr (replicate (length ts) (EndedOut None)), r') \<and> rx_ended r'"
  using assms
proof (induction ts arbitrary: r)
  case (Cons t ts)
  have "receiver_poll alloc r t = (Inr (EndedOut None), r\<lparr>rx_last_now_ns := t\<rparr>)"
    using Cons.prems by (simp add: receiver_poll_def receiver_check_time_def)
  then show ?case using Cons.IH [of "r\<lparr>rx_last_now_ns := t\<rparr>"] Cons.prems by auto
qed simp

lemma released_replicate [simp]: "released (replicate n (EndedOut None)) = []"
  by (induction n) auto

lemma receiver_polls_drain:
  assumes "receiver_inv r D" and "\<not> rx_ended r" and "rb_phase (rx_reorder r) \<noteq> Open"
    and "sorted (rx_last_now_ns r # ts)" and "receiver_work r < length ts"
  shows "\<exists>outs r'. receiver_polls alloc r ts = (map Inr outs, r') \<and> rx_ended r'
    \<and> released outs = rb_queue (rx_reorder r) \<and> (\<exists>x. last outs = EndedOut x)"
  using assms
proof (induction ts arbitrary: r D)
  case (Cons t ts)
  have t: "rx_last_now_ns r \<le> t" using Cons.prems(4) by simp
  obtain out r1 where s: "receiver_poll alloc r t = (Inr out, r1)" "rb_phase (rx_reorder r1) \<noteq> Open"
    "rx_last_now_ns r1 = t" "released [out] @ rb_queue (rx_reorder r1) = rb_queue (rx_reorder r)"
    "if rx_ended r1 then (\<exists>x. out = EndedOut x) else receiver_work r1 < receiver_work r"
    using receiver_drain_step [OF Cons.prems(1-3) t, of alloc] by blast
  have inv1: "receiver_inv r1 (D @ released [out])"
    using receiver_poll_progress [OF Cons.prems(1) t, of alloc] s(1) by auto
  have srt: "sorted (rx_last_now_ns r1 # ts)" using Cons.prems(4) s(3) by simp
  show ?case
  proof (cases "rx_ended r1")
    case True
    then obtain r' where "receiver_polls alloc r1 ts = (map Inr (replicate (length ts) (EndedOut None)), r')" "rx_ended r'"
      using receiver_polls_ended [OF True srt] by blast
    moreover have "rb_queue (rx_reorder r1) = []" using inv1 True by (simp add: receiver_inv_def)
    ultimately show ?thesis
      using s True by (intro exI [of _ "out # replicate (length ts) (EndedOut None)"] exI [of _ r']) (cases ts; auto)
  next
    case False
    then obtain outs r' where o: "receiver_polls alloc r1 ts = (map Inr outs, r')" "rx_ended r'"
      "released outs = rb_queue (rx_reorder r1)" "\<exists>x. last outs = EndedOut x"
      using Cons.IH [OF inv1 False s(2) srt] Cons.prems(5) s(5) by auto
    have "outs \<noteq> []" using o(1) s(5) False Cons.prems(5) by (cases ts) (auto split: prod.splits)
    moreover have "released (out # outs) = released [out] @ released outs"
      using released_append [of "[out]" outs] by simp
    ultimately show ?thesis using s o by (intro exI [of _ "out # outs"] exI [of _ r']) auto
  qed
qed simp

text \<open>C18: End of input becomes quiescence in bounded work. From any reachable receiver that has not ended,
  after \<open>finish\<close> any sequence of polls at non-decreasing times, longer than four times the number
  of queued datagrams plus one, succeeds throughout, releases every queued datagram in order and
  reports the end, with nothing left in either layer.\<close>

theorem receiver_drains:
  assumes "receiver_new alloc key pt mode rl hl = Inr r0" and "receiver_run r0 evs = (os, r)"
    and "\<not> rx_ended r" and "sorted (rx_last_now_ns r # ts)" and "4 * receiver_queued_packets r + 1 < length ts"
  shows "\<exists>outs r'. receiver_polls alloc' (receiver_finish r) ts = (map Inr outs, r') \<and> rx_ended r'
    \<and> released outs = rb_queue (rx_reorder r) \<and> (\<exists>x. last outs = EndedOut x)"
proof -
  let ?f = "receiver_finish r"
  have inv: "receiver_inv ?f (released os)"
    using receiver_run_ok [OF receiver_new_inv [OF assms(1)] assms(2)] receiver_finish_inv by simp
  have f: "\<not> rx_ended ?f" "rb_phase (rx_reorder ?f) \<noteq> Open" "rx_last_now_ns ?f = rx_last_now_ns r"
    "rb_queue (rx_reorder ?f) = rb_queue (rx_reorder r)"
    using assms(3) by (auto simp: receiver_finish_def reorder_finish_def)
  have "receiver_work ?f < length ts"
    using assms(5) f(4)
    by (auto simp: receiver_work_def drain_work_def receiver_queued_packets_def reorder_queued_packets_def)
  then show ?thesis using receiver_polls_drain [OF inv f(1,2), of ts alloc'] assms(4) f(3,4) by simp
qed


section \<open>A concrete run\<close>

definition sample_receiver :: h264_receiver where
  "sample_receiver =
     \<lparr>rx_reorder = sample_buffer, rx_depacketizer = sample_depacketizer, rx_last_now_ns = 0, rx_ended = False\<rparr>"

definition sample_datagram :: "u16 \<Rightarrow> bytes" where
  "sample_datagram sq = rtp_bytes (sample_media sq True [0x65, 1, 2])"

definition sample_traffic :: "receiver_event list" where
  "sample_traffic =
     [Ingest (\<lambda>_. True) sample_key (sample_datagram 9) 1 1, Ingest (\<lambda>_. True) sample_key (sample_datagram 10) 2 2,
      Poll (\<lambda>_. True) 3]"

lemma sample_receiver_new:
  "receiver_new (\<lambda>_. True) sample_key 96 NonInterleaved reorder_limits_default h264_limits_default = Inr sample_receiver"
  by (simp add: receiver_new_def sample_depacketizer_new sample_buffer_new sample_receiver_def)

lemma sample_datagram_parse:
  "rtp_parse (sample_datagram sq) packet_limits_default = Inr (sample_media sq True [0x65, 1, 2])"
  by (simp add: sample_datagram_def sample_media_def rtp_parse_def packet_limits_check_def
      packet_limits_validate_def packet_limits_default_def try_then_def span_def get_slice_def ok_or_def
      subslice_def checked_add_def u64_max_def to_be16_def)

lemma sample_datagram_length: "length (sample_datagram sq) = 15"
  by (simp add: sample_datagram_def sample_media_def to_be16_def)

lemma sample_traffic_run:
  "map nal_bytes (emitted (fst (receiver_run sample_receiver sample_traffic))) = [[0x65, 1, 2]]"
  "\<not> rx_ended (snd (receiver_run sample_receiver sample_traffic))"
  "rx_last_now_ns (snd (receiver_run sample_receiver sample_traffic)) = 3"
  "rb_queue (rx_reorder (snd (receiver_run sample_receiver sample_traffic))) = []"
  by (simp_all add: sample_traffic_def receiver_ingest_received_def receiver_check_time_def sample_receiver_def
      sample_ingest_defs sample_datagram_parse sample_datagram_length receiver_poll_def reorder_poll_step_def
      receiver_deliver_def ordered_packet_def sample_push_defs subslice_def)

theorem receiver_end_to_end_witness:
  "\<exists>n. n \<in> set (emitted (fst (receiver_run sample_receiver sample_traffic))) \<and> nal_bytes n = [0x65, 1, 2]
     \<and> nal_ok (wires (released (fst (receiver_run sample_receiver sample_traffic)))) sample_key h264_limits_default n"
  using receiver_end_to_end [OF sample_receiver_new prod.collapse [symmetric], of sample_traffic] sample_traffic_run(1)
  by (cases "emitted (fst (receiver_run sample_receiver sample_traffic))") auto

theorem receiver_poll_total_witness:
  "\<exists>out r'. receiver_poll (\<lambda>_. True) (snd (receiver_run sample_receiver sample_traffic)) 4 = (Inr out, r')"
  using receiver_poll_total [OF sample_receiver_new prod.collapse [symmetric], of sample_traffic 4 "\<lambda>_. True"]
    sample_traffic_run(3) by auto

theorem receiver_drains_witness:
  "\<exists>outs r'. receiver_polls (\<lambda>_. True) (receiver_finish (snd (receiver_run sample_receiver sample_traffic))) [4, 5]
     = (map Inr outs, r') \<and> rx_ended r'"
  using receiver_drains [OF sample_receiver_new prod.collapse [symmetric], of sample_traffic "[4, 5]"]
    sample_traffic_run(2-4) by (fastforce simp: receiver_queued_packets_def reorder_queued_packets_def)

end
