(* ===== verification/Rtcp.thy ===== *)
theory Rtcp
  imports Packet_Wire
begin

text \<open>
  RTCP datagrams, \<open>crates/fss-packet/src/rtcp.rs\<close>: compound and reduced-size framing, packet
  validation (reports, source descriptions, goodbyes, application packets), the packet iterator and
  the report accessors. A parsed datagram is proved to be exactly the concatenation of the packets
  the iterator yields, and every accessor to stay inside the packet it reads.
\<close>

section \<open>rtcp.rs\<close>

datatype rtcp_mode = Compound | ReducedSize

record ntp_timestamp =
  ntp_seconds :: u32
  ntp_fraction :: u32

definition middle_32 :: "ntp_timestamp \<Rightarrow> u32" where
  "middle_32 t = push_bit 16 (ntp_seconds t) OR drop_bit 16 (ntp_fraction t)"

record sender_report =
  sr_ssrc :: u32
  sr_ntp :: ntp_timestamp
  sr_rtp_timestamp :: u32
  sr_packet_count :: u32
  sr_octet_count :: u32

record reception_report =
  rr_ssrc :: u32
  rr_fraction_lost :: u8
  rr_cumulative_lost :: "32 word"
  rr_extended_highest_sequence :: u32
  rr_jitter :: u32
  rr_last_sender_report :: u32
  rr_delay_since_last_sender_report :: u32

record rtcp_compound =
  rc_bytes :: bytes
  rc_packet_count :: usize

record rtcp_packet =
  rp_bytes :: bytes
  rp_content_end :: usize

definition rtcp_packet_type :: "rtcp_packet \<Rightarrow> u8" where
  "rtcp_packet_type p = rp_bytes p ! 1"

definition rtcp_count :: "rtcp_packet \<Rightarrow> u8" where
  "rtcp_count p = rp_bytes p ! 0 AND 0x1f"

definition rtcp_body :: "rtcp_packet \<Rightarrow> bytes" where
  "rtcp_body p = subslice (rp_bytes p) 4 (rp_content_end p)"

definition REPORT_BLOCK_BYTES :: usize where
  "REPORT_BLOCK_BYTES = 24"

text \<open>\<open>(n + 3) & !3\<close>: the next multiple of four.\<close>

definition align4 :: "usize \<Rightarrow> usize" where
  "align4 n = (n + 3) div 4 * 4"

text \<open>
  The inner \<open>loop\<close> of \<open>validate_sdes\<close> over the items of one chunk; every round consumes at least
  one byte. The result is the offset after the aligned terminator and whether a CNAME was seen.
\<close>

function sdes_items :: "bytes \<Rightarrow> u32 \<Rightarrow> u32 option \<Rightarrow> usize \<Rightarrow> bool \<Rightarrow> packet_error + usize \<times> bool" where
  "sdes_items body ssrc sender offset cname =
     try_then (ok_or (get_at body offset) packet_error.SourceDescription) (\<lambda>kind.
       let offset = offset + 1 in
       if kind = 0 then
         let aligned = align4 offset in
         try_then (map_err (\<lambda>_. packet_error.SourceDescription) (span body offset (aligned - offset))) (\<lambda>pad.
           if list_ex (\<lambda>byte. byte \<noteq> 0) pad then Inl packet_error.SourceDescription
           else Inr (aligned, cname))
       else
         try_then (ok_or (get_at body offset) packet_error.SourceDescription) (\<lambda>len.
           let len = unat len; offset = offset + 1 in
           try_then (map_err (\<lambda>_. packet_error.SourceDescription) (span body offset len)) (\<lambda>_.
             sdes_items body ssrc sender (offset + len)
               (cname \<or> (kind = 1 \<and> len \<noteq> 0 \<and> sender = Some ssrc)))))"
  by pat_completeness auto
termination
  by (relation "measure (\<lambda>(body, _, _, offset, _). length body - offset)") (auto simp: rust_simps)

declare sdes_items.simps [simp del]

fun sdes_chunks :: "bytes \<Rightarrow> u32 option \<Rightarrow> nat \<Rightarrow> usize \<Rightarrow> bool \<Rightarrow> packet_error + usize \<times> bool" where
  "sdes_chunks body sender 0 offset cname = Inr (offset, cname)"
| "sdes_chunks body sender (Suc left) offset cname =
     try_then (map_err (\<lambda>_. packet_error.SourceDescription) (span body offset 4)) (\<lambda>source.
     try_then (sdes_items body (be32 source) sender (offset + 4) cname) (\<lambda>(offset, cname).
       sdes_chunks body sender left offset cname))"

definition validate_sdes :: "bytes \<Rightarrow> usize \<Rightarrow> u32 option \<Rightarrow> packet_error + bool" where
  "validate_sdes body count sender =
     try_then (sdes_chunks body sender count 0 False) (\<lambda>(offset, cname).
       if offset \<noteq> length body then Inl packet_error.SourceDescription else Inr cname)"

definition validate_packet :: "rtcp_packet \<Rightarrow> u32 option \<Rightarrow> packet_error + bool" where
  "validate_packet packet sender =
     (let content = subslice (rp_bytes packet) 0 (rp_content_end packet);
          count = unat (rtcp_count packet) in
      if rtcp_packet_type packet = 200 \<or> rtcp_packet_type packet = 201 then
        let fixed = (if rtcp_packet_type packet = 200 then 28 else 8);
            minimum = fixed + count * REPORT_BLOCK_BYTES in
        if length content < minimum \<or> (length content - minimum) mod 4 \<noteq> 0
        then Inl packet_error.Report else Inr False
      else if rtcp_packet_type packet = 202 then validate_sdes (rtcp_body packet) count sender
      else if rtcp_packet_type packet = 203 then
        let offset = 4 + count * 4 in
        try_then (map_err (\<lambda>_. packet_error.Goodbye) (span content 0 offset)) (\<lambda>_.
          if offset < length content then
            let end = offset + 1 + unat (content ! offset); aligned = align4 end in
            if end > length content \<or> aligned \<noteq> length content
               \<or> list_ex (\<lambda>byte. byte \<noteq> 0) (drop end content)
            then Inl packet_error.Goodbye else Inr False
          else Inr False)
      else if rtcp_packet_type packet = 204 \<and> length content < 12 then Inl packet_error.Application
      else Inr False)"

text \<open>The \<open>while offset < bytes.len()\<close> loop of \<open>RtcpCompound::parse\<close>.\<close>

function rtcp_parse_from ::
  "bytes \<Rightarrow> packet_limits \<Rightarrow> rtcp_mode \<Rightarrow> usize \<Rightarrow> usize \<Rightarrow> u32 option \<Rightarrow> bool \<Rightarrow> packet_error + usize \<times> bool" where
  "rtcp_parse_from bs limits mode offset cnt first_sender cname_seen =
     (if offset < length bs then
        if cnt = max_rtcp_packets limits then Inl packet_error.PacketCount
        else
          try_then (span bs offset 4) (\<lambda>header.
          if drop_bit 6 (header ! 0) \<noteq> 2 then Inl packet_error.Version
          else
            let len = (unat (be16 (drop 2 header)) + 1) * 4 in
            try_then (span bs offset len) (\<lambda>raw.
            try_then
              (if header ! 0 AND 0x20 \<noteq> 0 then
                 let padding = unat (raw ! (len - 1)) in
                 if offset + len \<noteq> length bs \<or> padding = 0 \<or> padding mod 4 \<noteq> 0 \<or> padding > len - 4
                 then Inl packet_error.Padding else Inr (len - padding)
               else Inr len) (\<lambda>content_end.
            let packet = \<lparr>rp_bytes = raw, rp_content_end = content_end\<rparr> in
            try_then
              (if cnt = 0 \<and> (rtcp_packet_type packet = 200 \<or> rtcp_packet_type packet = 201)
               then try_then (span raw 4 4) (\<lambda>s. Inr (Some (be32 s)))
               else if cnt = 0 \<and> mode = Compound then Inl packet_error.Compound
               else Inr first_sender) (\<lambda>first_sender.
            try_then (validate_packet packet first_sender) (\<lambda>cname.
              rtcp_parse_from bs limits mode (offset + len) (cnt + 1) first_sender (cname_seen \<or> cname))))))
      else Inr (cnt, cname_seen))"
  by pat_completeness auto
termination
  by (relation "measure (\<lambda>(bs, _, _, offset, _, _, _). length bs - offset)")
    (auto simp: rust_simps span_def)

declare rtcp_parse_from.simps [simp del]

definition rtcp_parse :: "bytes \<Rightarrow> packet_limits \<Rightarrow> rtcp_mode \<Rightarrow> packet_error + rtcp_compound" where
  "rtcp_parse bs limits mode =
     try_then (packet_limits_check limits bs) (\<lambda>_.
     if bs = [] then Inl packet_error.Compound
     else
       try_then (rtcp_parse_from bs limits mode 0 0 None False) (\<lambda>(cnt, cname_seen).
       if mode = Compound \<and> \<not> cname_seen then Inl packet_error.Compound
       else Inr \<lparr>rc_bytes = bs, rc_packet_count = cnt\<rparr>))"

text \<open>The iterator's state, its \<open>next\<close>, and the sequence it yields.\<close>

record rtcp_packets =
  ri_remaining :: bytes
  ri_count :: usize

definition rtcp_packets_of :: "rtcp_compound \<Rightarrow> rtcp_packets" where
  "rtcp_packets_of c = \<lparr>ri_remaining = rc_bytes c, ri_count = rc_packet_count c\<rparr>"

definition rtcp_next :: "rtcp_packets \<Rightarrow> rtcp_packet option \<times> rtcp_packets" where
  "rtcp_next it =
     (if ri_count it = 0 then (None, it)
      else
        let len = (unat (be16 (subslice (ri_remaining it) 2 4)) + 1) * 4;
            bytes = subslice (ri_remaining it) 0 len;
            content_end = (if bytes ! 0 AND 0x20 \<noteq> 0 then len - unat (bytes ! (len - 1)) else len)
        in (Some \<lparr>rp_bytes = bytes, rp_content_end = content_end\<rparr>,
            \<lparr>ri_remaining = drop len (ri_remaining it), ri_count = ri_count it - 1\<rparr>))"

fun rtcp_collect :: "nat \<Rightarrow> rtcp_packets \<Rightarrow> rtcp_packet list" where
  "rtcp_collect 0 it = []"
| "rtcp_collect (Suc n) it =
     (case rtcp_next it of (None, _) \<Rightarrow> [] | (Some p, it') \<Rightarrow> p # rtcp_collect n it')"

definition rtcp_all_packets :: "rtcp_compound \<Rightarrow> rtcp_packet list" where
  "rtcp_all_packets c = rtcp_collect (rc_packet_count c) (rtcp_packets_of c)"

definition rtcp_sender_report :: "rtcp_packet \<Rightarrow> sender_report option" where
  "rtcp_sender_report p =
     (if rtcp_packet_type p \<noteq> 200 then None
      else
        let field = (\<lambda>a. be32 (subslice (rp_bytes p) a (a + 4))) in
        Some \<lparr>sr_ssrc = field 4, sr_ntp = \<lparr>ntp_seconds = field 8, ntp_fraction = field 12\<rparr>,
              sr_rtp_timestamp = field 16, sr_packet_count = field 20, sr_octet_count = field 24\<rparr>)"

text \<open>\<open>as_chunks::<24>().0\<close>: the complete chunks of a slice.\<close>

function chunks24 :: "bytes \<Rightarrow> bytes list" where
  "chunks24 bs = (if length bs < 24 then [] else take 24 bs # chunks24 (drop 24 bs))"
  by pat_completeness auto
termination by (relation "measure length") auto

declare chunks24.simps [simp del]

definition report_start :: "rtcp_packet \<Rightarrow> usize option" where
  "report_start p =
     (if rtcp_packet_type p = 200 then Some 28 else if rtcp_packet_type p = 201 then Some 8 else None)"

definition rtcp_report_chunks :: "rtcp_packet \<Rightarrow> bytes list" where
  "rtcp_report_chunks p =
     (case report_start p of
        None \<Rightarrow> chunks24 (subslice (rp_bytes p) 0 0)
      | Some start \<Rightarrow>
          chunks24 (subslice (rp_bytes p) start (start + unat (rtcp_count p) * REPORT_BLOCK_BYTES)))"

definition report_block :: "bytes \<Rightarrow> reception_report" where
  "report_block b =
     (let lost = be32 [0, b ! 5, b ! 6, b ! 7];
          field = (\<lambda>a. be32 (subslice b a (a + 4)))
      in \<lparr>rr_ssrc = field 0, rr_fraction_lost = b ! 4,
          rr_cumulative_lost = (if lost AND 0x800000 \<noteq> 0 then lost OR NOT 0xffffff else lost),
          rr_extended_highest_sequence = field 8, rr_jitter = field 12,
          rr_last_sender_report = field 16, rr_delay_since_last_sender_report = field 20\<rparr>)"

definition rtcp_report_blocks :: "rtcp_packet \<Rightarrow> reception_report list" where
  "rtcp_report_blocks p = map report_block (rtcp_report_chunks p)"

definition rtcp_report_extension :: "rtcp_packet \<Rightarrow> bytes option" where
  "rtcp_report_extension p =
     map_option (\<lambda>start. subslice (rp_bytes p) (start + unat (rtcp_count p) * 24) (rp_content_end p))
       (report_start p)"


section \<open>Framing\<close>

text \<open>The framing part of one round of the loop, and the round in terms of it.\<close>

definition rtcp_frame :: "bytes \<Rightarrow> usize \<Rightarrow> packet_error + rtcp_packet" where
  "rtcp_frame bs offset =
     try_then (span bs offset 4) (\<lambda>header.
     if drop_bit 6 (header ! 0) \<noteq> 2 then Inl packet_error.Version
     else
       let len = (unat (be16 (drop 2 header)) + 1) * 4 in
       try_then (span bs offset len) (\<lambda>raw.
       try_then
         (if header ! 0 AND 0x20 \<noteq> 0 then
            let padding = unat (raw ! (len - 1)) in
            if offset + len \<noteq> length bs \<or> padding = 0 \<or> padding mod 4 \<noteq> 0 \<or> padding > len - 4
            then Inl packet_error.Padding else Inr (len - padding)
          else Inr len) (\<lambda>content_end.
       Inr \<lparr>rp_bytes = raw, rp_content_end = content_end\<rparr>)))"

definition first_sender_of :: "rtcp_mode \<Rightarrow> usize \<Rightarrow> u32 option \<Rightarrow> rtcp_packet \<Rightarrow> packet_error + u32 option" where
  "first_sender_of mode cnt fs p =
     (if cnt = 0 \<and> (rtcp_packet_type p = 200 \<or> rtcp_packet_type p = 201)
      then try_then (span (rp_bytes p) 4 4) (\<lambda>s. Inr (Some (be32 s)))
      else if cnt = 0 \<and> mode = Compound then Inl packet_error.Compound
      else Inr fs)"

lemma span_eq:
  "span bs a n = (if a + n \<le> u64_max \<and> a + n \<le> length bs then Inr (subslice bs a (a + n)) else Inl packet_error.Truncated)"
  by (auto simp: span_def checked_add_def get_slice_def)

lemma try_then_assoc: "try_then (try_then m f) g = try_then m (\<lambda>x. try_then (f x) g)"
  by (cases m) auto

lemma try_then_if: "try_then (if c then a else b) f = (if c then try_then a f else try_then b f)"
  by simp

definition frame_len :: "bytes \<Rightarrow> usize \<Rightarrow> usize" where
  "frame_len bs off = (unat (be16 (drop 2 (subslice bs off (off + 4)))) + 1) * 4"

lemma rtcp_frame_iff:
  "rtcp_frame bs off = Inr p \<longleftrightarrow>
     off + 4 \<le> u64_max \<and> off + 4 \<le> length bs \<and> drop_bit 6 (subslice bs off (off + 4) ! 0) = 2
     \<and> off + frame_len bs off \<le> u64_max \<and> off + frame_len bs off \<le> length bs
     \<and> rp_bytes p = subslice bs off (off + frame_len bs off)
     \<and> (if subslice bs off (off + 4) ! 0 AND 0x20 \<noteq> 0
        then (let padding = unat (rp_bytes p ! (frame_len bs off - 1)) in
            off + frame_len bs off = length bs \<and> padding \<noteq> 0 \<and> padding mod 4 = 0 \<and> padding \<le> frame_len bs off - 4
            \<and> rp_content_end p = frame_len bs off - padding)
        else rp_content_end p = frame_len bs off)"
proof -
  define L where "L = frame_len bs off"
  define h where "h = subslice bs off (off + 4)"
  define B where "B = subslice bs off (off + L)"
  have eq: "rtcp_frame bs off =
    (if off + 4 \<le> u64_max \<and> off + 4 \<le> length bs then
       if drop_bit 6 (h ! 0) \<noteq> 2 then Inl packet_error.Version
       else if off + L \<le> u64_max \<and> off + L \<le> length bs then
         if h ! 0 AND 0x20 \<noteq> 0 then
           if off + L \<noteq> length bs \<or> unat (subslice bs off (off + L) ! (L - 1)) = 0
              \<or> unat (subslice bs off (off + L) ! (L - 1)) mod 4 \<noteq> 0
              \<or> unat (subslice bs off (off + L) ! (L - 1)) > L - 4
           then Inl packet_error.Padding
           else Inr \<lparr>rp_bytes = subslice bs off (off + L),
                     rp_content_end = L - unat (subslice bs off (off + L) ! (L - 1))\<rparr>
         else Inr \<lparr>rp_bytes = subslice bs off (off + L), rp_content_end = L\<rparr>
       else Inl packet_error.Truncated
     else Inl packet_error.Truncated)"
    unfolding rtcp_frame_def Let_def span_eq L_def frame_len_def h_def
    by (simp only: if_distrib [of "\<lambda>m. try_then m _"] try_then_simps split: if_split)
  show ?thesis
    unfolding eq Let_def L_def [symmetric] h_def [symmetric] B_def [symmetric]
    by (cases p) (auto simp: not_less)
qed

lemma rtcp_frame_Inr:
  assumes "rtcp_frame bs off = Inr p"
  shows "off + length (rp_bytes p) \<le> length bs" "rp_bytes p = subslice bs off (off + length (rp_bytes p))"
    "length (rp_bytes p) = (unat (be16 (subslice (rp_bytes p) 2 4)) + 1) * 4"
    "drop_bit 6 (rp_bytes p ! 0) = 2" "4 \<le> rp_content_end p" "rp_content_end p \<le> length (rp_bytes p)"
    "rp_content_end p = (if rp_bytes p ! 0 AND 0x20 \<noteq> 0
       then length (rp_bytes p) - unat (rp_bytes p ! (length (rp_bytes p) - 1)) else length (rp_bytes p))"
    "rp_bytes p ! 0 AND 0x20 \<noteq> 0 \<Longrightarrow> off + length (rp_bytes p) = length bs"
    "rp_content_end p mod 4 = 0"
proof -
  note f = assms [unfolded rtcp_frame_iff Let_def]
  have four: "4 \<le> frame_len bs off" and mult: "frame_len bs off mod 4 = 0" by (simp_all add: frame_len_def)
  have l: "length (rp_bytes p) = frame_len bs off" using f by simp
  have hd: "subslice bs off (off + 4) ! 0 = rp_bytes p ! 0" using f four by (simp add: nth_subslice)
  have "drop 2 (subslice bs off (off + 4)) = subslice (rp_bytes p) 2 4"
    using f four by (simp add: subslice_def min_def drop_take)
  then show "length (rp_bytes p) = (unat (be16 (subslice (rp_bytes p) 2 4)) + 1) * 4"
    using l by (simp add: frame_len_def)
  show "off + length (rp_bytes p) \<le> length bs" "rp_bytes p = subslice bs off (off + length (rp_bytes p))"
    "drop_bit 6 (rp_bytes p ! 0) = 2" using f l hd by auto
  show "4 \<le> rp_content_end p" "rp_content_end p \<le> length (rp_bytes p)"
    "rp_content_end p = (if rp_bytes p ! 0 AND 0x20 \<noteq> 0
       then length (rp_bytes p) - unat (rp_bytes p ! (length (rp_bytes p) - 1)) else length (rp_bytes p))"
    "rp_bytes p ! 0 AND 0x20 \<noteq> 0 \<Longrightarrow> off + length (rp_bytes p) = length bs"
    using f hd four unfolding l by (auto split: if_splits)
  show "rp_content_end p mod 4 = 0"
    using f hd mult by (cases "rp_bytes p ! 0 AND 0x20 \<noteq> 0") (auto simp: mod_eq_0_iff_dvd dvd_diff_nat)
qed

lemma rtcp_parse_from_round:
  "rtcp_parse_from bs limits mode offset cnt fs seen =
     (if offset < length bs then
        if cnt = max_rtcp_packets limits then Inl packet_error.PacketCount
        else try_then (rtcp_frame bs offset) (\<lambda>p.
             try_then (first_sender_of mode cnt fs p) (\<lambda>fs'.
             try_then (validate_packet p fs') (\<lambda>c.
               rtcp_parse_from bs limits mode (offset + length (rp_bytes p)) (cnt + 1) fs' (seen \<or> c))))
      else Inr (cnt, seen))"
proof -
  have len: "span bs offset n = Inr raw \<Longrightarrow> length raw = n" for n raw by (auto simp: rust_simps)
  show ?thesis
    by (subst rtcp_parse_from.simps, unfold rtcp_frame_def first_sender_of_def Let_def)
      (cases "span bs offset 4"; auto dest: len simp: try_then_assoc split: sum.splits intro!: try_then_cong)
qed


section \<open>The grammar of datagrams\<close>

text \<open>
  One packet framed as RFC 3550 requires; padding only where \<open>final\<close>, that is at the end of the
  datagram.
\<close>

definition rtcp_framed :: "bool \<Rightarrow> rtcp_packet \<Rightarrow> bool" where
  "rtcp_framed final p \<longleftrightarrow>
     length (rp_bytes p) = (unat (be16 (subslice (rp_bytes p) 2 4)) + 1) * 4
     \<and> drop_bit 6 (rp_bytes p ! 0) = 2
     \<and> (if rp_bytes p ! 0 AND 0x20 \<noteq> 0
        then (let padding = unat (rp_bytes p ! (length (rp_bytes p) - 1)) in
            final \<and> padding \<noteq> 0 \<and> padding mod 4 = 0 \<and> padding \<le> length (rp_bytes p) - 4
            \<and> rp_content_end p = length (rp_bytes p) - padding)
        else rp_content_end p = length (rp_bytes p))"

fun rtcp_valid :: "u32 option \<Rightarrow> rtcp_packet list \<Rightarrow> bool" where
  "rtcp_valid s [] \<longleftrightarrow> True"
| "rtcp_valid s (p # ps) \<longleftrightarrow> rtcp_framed (ps = []) p \<and> (\<exists>c. validate_packet p s = Inr c) \<and> rtcp_valid s ps"

definition rtcp_sender :: "rtcp_packet list \<Rightarrow> u32 option" where
  "rtcp_sender ps =
     (case ps of [] \<Rightarrow> None
      | p # _ \<Rightarrow> if rtcp_packet_type p = 200 \<or> rtcp_packet_type p = 201
                 then Some (be32 (subslice (rp_bytes p) 4 8)) else None)"

definition rtcp_grammar :: "rtcp_mode \<Rightarrow> rtcp_packet list \<Rightarrow> bool" where
  "rtcp_grammar mode ps \<longleftrightarrow>
     ps \<noteq> [] \<and> rtcp_valid (rtcp_sender ps) ps
     \<and> (mode = Compound \<longrightarrow> rtcp_sender ps \<noteq> None
          \<and> (\<exists>p\<in>set ps. validate_packet p (rtcp_sender ps) = Inr True))"

lemma rtcp_framed_length: "rtcp_framed f p \<Longrightarrow> 4 \<le> length (rp_bytes p)"
  by (simp add: rtcp_framed_def)

lemma head_of_slice:
  assumes "4 \<le> n" and "off + n \<le> length bs"
  shows "drop 2 (subslice bs off (off + 4)) = subslice (subslice bs off (off + n)) 2 4
    \<and> subslice bs off (off + 4) ! 0 = subslice bs off (off + n) ! 0"
  using assms by (simp add: subslice_def min_def drop_take nth_append)

lemma rtcp_frame_spec:
  assumes "length bs \<le> u64_max"
  shows "rtcp_frame bs off = Inr p \<longleftrightarrow>
    rtcp_framed (off + length (rp_bytes p) = length bs) p \<and> off + length (rp_bytes p) \<le> length bs
    \<and> rp_bytes p = subslice bs off (off + length (rp_bytes p))" (is "?l \<longleftrightarrow> ?r")
proof
  assume f: ?l
  note F = rtcp_frame_Inr [OF f]
  have "unat (rp_bytes p ! (length (rp_bytes p) - 1)) \<le> length (rp_bytes p) - 4
      \<and> unat (rp_bytes p ! (length (rp_bytes p) - 1)) mod 4 = 0
      \<and> unat (rp_bytes p ! (length (rp_bytes p) - 1)) \<noteq> 0" if "rp_bytes p ! 0 AND 0x20 \<noteq> 0"
  proof -
    have four: "4 \<le> frame_len bs off" by (simp add: frame_len_def)
    note i = f [unfolded rtcp_frame_iff Let_def]
    have L: "length (rp_bytes p) = frame_len bs off" using i by simp
    have hd: "subslice bs off (off + 4) ! 0 = rp_bytes p ! 0" using i four by (simp add: nth_subslice)
    show ?thesis unfolding L using i [unfolded hd if_P [OF that]] by blast
  qed
  then show ?r using F by (auto simp: rtcp_framed_def Let_def)
next
  assume r: ?r
  then have l4: "4 \<le> length (rp_bytes p)" using rtcp_framed_length by blast
  note head = head_of_slice [OF l4, of off bs, folded conjunct2 [OF conjunct2 [OF r]]]
  then have len: "frame_len bs off = length (rp_bytes p)" using r by (simp add: frame_len_def rtcp_framed_def)
  have hd: "subslice bs off (off + 4) ! 0 = rp_bytes p ! 0" using head r by simp
  show ?l unfolding rtcp_frame_iff len hd using r l4 assms by (auto simp: rtcp_framed_def Let_def)
qed


lemma subslice_prefix:
  assumes "drop off bs = b @ rest" and "off \<le> length bs"
  shows "subslice bs off (off + length b) = b \<and> drop (off + length b) bs = rest"
proof -
  have "drop (length b) (drop off bs) = rest" using assms(1) by simp
  moreover have "drop (length b) (drop off bs) = drop (off + length b) bs" by (simp add: add.commute)
  ultimately show ?thesis using assms by (simp add: subslice_def)
qed

lemma subslice_drop: "off + n \<le> length bs \<Longrightarrow> subslice bs off (off + n) @ drop (off + n) bs = drop off bs"
  by (simp add: subslice_def) (metis add.commute append_take_drop_id drop_drop)

lemma rtcp_valid_concat_Nil: "rtcp_valid s ps \<Longrightarrow> concat (map rp_bytes ps) = [] \<longleftrightarrow> ps = []"
  using rtcp_framed_length by (cases ps) force+

text \<open>Cutting one packet off the rest of the datagram.\<close>

lemma rtcp_frame_cons:
  assumes "length bs \<le> u64_max" and "off \<le> length bs" and v: "rtcp_valid s ps"
  shows "rtcp_frame bs off = Inr p \<and> drop (off + length (rp_bytes p)) bs = concat (map rp_bytes ps)
    \<longleftrightarrow> drop off bs = concat (map rp_bytes (p # ps)) \<and> rtcp_framed (ps = []) p" (is "?l \<longleftrightarrow> ?r")
proof
  assume l: ?l
  then have F: "rtcp_framed (off + length (rp_bytes p) = length bs) p" "off + length (rp_bytes p) \<le> length bs"
    "rp_bytes p = subslice bs off (off + length (rp_bytes p))"
    using rtcp_frame_spec [OF assms(1)] by auto
  have "ps = [] \<longleftrightarrow> off + length (rp_bytes p) = length bs"
    using rtcp_valid_concat_Nil [OF v] l F(2) by (metis drop_eq_Nil le_antisym order_refl)
  then show ?r using F subslice_drop [OF F(2)] l by simp
next
  assume r: ?r
  have pre: "subslice bs off (off + length (rp_bytes p)) = rp_bytes p"
    "drop (off + length (rp_bytes p)) bs = concat (map rp_bytes ps)"
    using subslice_prefix [of off bs "rp_bytes p" "concat (map rp_bytes ps)"] r assms(2) by auto
  have le: "off + length (rp_bytes p) \<le> length bs"
    using arg_cong [of _ _ length, OF conjunct1 [OF r]] assms(2) by simp
  have "ps = [] \<longleftrightarrow> off + length (rp_bytes p) = length bs"
    using rtcp_valid_concat_Nil [OF v] pre(2) le by (metis drop_eq_Nil le_antisym order_refl)
  then show ?l using r le pre by (simp add: rtcp_frame_spec [OF assms(1)])
qed

lemma rtcp_parse_from_iff:
  assumes "length bs \<le> u64_max" and "off \<le> length bs" and "0 < cnt" and "cnt \<le> max_rtcp_packets l"
  shows "rtcp_parse_from bs l mode off cnt fs seen = Inr (n, seen') \<longleftrightarrow>
    (\<exists>ps. drop off bs = concat (map rp_bytes ps) \<and> rtcp_valid fs ps \<and> n = cnt + length ps
      \<and> n \<le> max_rtcp_packets l \<and> (seen' \<longleftrightarrow> seen \<or> (\<exists>p\<in>set ps. validate_packet p fs = Inr True)))"
  using assms(2-4)
proof (induction "length bs - off" arbitrary: off cnt seen rule: less_induct)
  case less
  show ?case
  proof (cases "off < length bs")
    case False
    then have "(\<exists>ps. drop off bs = concat (map rp_bytes ps) \<and> rtcp_valid fs ps \<and> P ps) \<longleftrightarrow> P []" for P
      using rtcp_valid_concat_Nil [of fs] by (metis concat.simps(1) drop_all list.simps(8) not_less rtcp_valid.simps(1))
    then show ?thesis using False less.prems by (auto simp: rtcp_parse_from_round)
  next
    case True
    have step: "rtcp_parse_from bs l mode off cnt fs seen = Inr (n, seen') \<longleftrightarrow>
        cnt < max_rtcp_packets l \<and> (\<exists>p c. rtcp_frame bs off = Inr p \<and> validate_packet p fs = Inr c
          \<and> rtcp_parse_from bs l mode (off + length (rp_bytes p)) (cnt + 1) fs (seen \<or> c) = Inr (n, seen'))"
      using True less.prems by (subst rtcp_parse_from_round) (auto simp: first_sender_of_def rust_simps)
    have IH: "rtcp_parse_from bs l mode (off + length (rp_bytes p)) (cnt + 1) fs (seen \<or> c) = Inr (n, seen') \<longleftrightarrow>
        (\<exists>ps. drop (off + length (rp_bytes p)) bs = concat (map rp_bytes ps) \<and> rtcp_valid fs ps
          \<and> n = cnt + 1 + length ps \<and> n \<le> max_rtcp_packets l
          \<and> (seen' \<longleftrightarrow> (seen \<or> c) \<or> (\<exists>p\<in>set ps. validate_packet p fs = Inr True)))"
      if "rtcp_frame bs off = Inr p" "cnt < max_rtcp_packets l" for p c
    proof (rule less.hyps)
      show "length bs - (off + length (rp_bytes p)) < length bs - off" "off + length (rp_bytes p) \<le> length bs"
        using that(1) True rtcp_framed_length by (fastforce simp: rtcp_frame_spec [OF assms(1)])+
    qed (use that in auto)
    note cut = rtcp_frame_cons [OF assms(1) less.prems(1)]
    show ?thesis (is "?l \<longleftrightarrow> (\<exists>ps. ?g ps)")
    proof
      assume ?l
      then obtain p c where p: "cnt < max_rtcp_packets l" "rtcp_frame bs off = Inr p" "validate_packet p fs = Inr c"
        "rtcp_parse_from bs l mode (off + length (rp_bytes p)) (cnt + 1) fs (seen \<or> c) = Inr (n, seen')"
        using step by blast
      then show "\<exists>ps. ?g ps" using IH [OF p(2,1)] cut [of fs _ p]
        by (clarsimp) (rule exI [of _ "p # _"], auto)
    next
      assume "\<exists>ps. ?g ps"
      then obtain p ps where g: "?g (p # ps)" using True by (metis (no_types) concat.simps(1) drop_eq_Nil list.map(1) neq_Nil_conv not_less)
      then obtain c where c: "validate_packet p fs = Inr c" by auto
      then show ?l using step IH cut [of fs ps p] g by auto
    qed
  qed
qed

lemma validate_report_length:
  "validate_packet p s = Inr c \<Longrightarrow> rtcp_packet_type p = 200 \<or> rtcp_packet_type p = 201
    \<Longrightarrow> rp_content_end p \<le> length (rp_bytes p) \<Longrightarrow> 8 \<le> rp_content_end p"
  by (auto simp: validate_packet_def Let_def split: if_splits)

lemma rtcp_framed_content: "rtcp_framed f p \<Longrightarrow> 4 \<le> rp_content_end p \<and> rp_content_end p \<le> length (rp_bytes p)"
  using rtcp_framed_length [of f p] by (auto simp: rtcp_framed_def Let_def split: if_splits)

lemma first_sender_of_first:
  assumes "rtcp_framed f p" and "length (rp_bytes p) \<le> u64_max"
  shows "(\<exists>fs. first_sender_of mode 0 None p = Inr fs \<and> validate_packet p fs = Inr c \<and> P fs) \<longleftrightarrow>
    (mode = Compound \<longrightarrow> rtcp_sender (p # ps) \<noteq> None) \<and> validate_packet p (rtcp_sender (p # ps)) = Inr c
    \<and> P (rtcp_sender (p # ps))"
proof (cases "rtcp_packet_type p = 200 \<or> rtcp_packet_type p = 201")
  case True
  then have "8 \<le> length (rp_bytes p)" if "validate_packet p s = Inr c" for s
    using validate_report_length [OF that True] rtcp_framed_content [OF assms(1)] by linarith
  then show ?thesis using True assms(2)
    by (auto simp: first_sender_of_def rtcp_sender_def rust_simps u64_max_def)
next
  case False
  then show ?thesis by (auto simp: first_sender_of_def rtcp_sender_def)
qed

lemma rtcp_parse_from_first:
  assumes "length bs \<le> u64_max" and "bs \<noteq> []" and "0 < max_rtcp_packets l"
  shows "rtcp_parse_from bs l mode 0 0 None False = Inr (n, seen) \<longleftrightarrow>
    (\<exists>ps. bs = concat (map rp_bytes ps) \<and> ps \<noteq> [] \<and> rtcp_valid (rtcp_sender ps) ps
      \<and> (mode = Compound \<longrightarrow> rtcp_sender ps \<noteq> None) \<and> n = length ps \<and> n \<le> max_rtcp_packets l
      \<and> (seen \<longleftrightarrow> (\<exists>p\<in>set ps. validate_packet p (rtcp_sender ps) = Inr True)))" (is "?l \<longleftrightarrow> (\<exists>ps. ?g ps)")
proof -
  let ?rest = "\<lambda>p fs c. rtcp_parse_from bs l mode (length (rp_bytes p)) 1 fs c = Inr (n, seen)"
  define S where "S = (\<lambda>p. rtcp_sender [p])"
  have snd: "rtcp_sender (p # ps) = S p" for p ps by (simp add: rtcp_sender_def S_def)
  have fr: "rtcp_framed (length (rp_bytes p) = length bs) p" "length (rp_bytes p) \<le> length bs"
    if "rtcp_frame bs 0 = Inr p" for p using that by (auto simp: rtcp_frame_spec [OF assms(1)])
  have rest: "?rest p fs c \<longleftrightarrow> (\<exists>ps. drop (length (rp_bytes p)) bs = concat (map rp_bytes ps) \<and> rtcp_valid fs ps
      \<and> n = 1 + length ps \<and> n \<le> max_rtcp_packets l
      \<and> (seen \<longleftrightarrow> c \<or> (\<exists>q\<in>set ps. validate_packet q fs = Inr True)))" if "rtcp_frame bs 0 = Inr p" for p fs c
    by (rule rtcp_parse_from_iff) (use fr [OF that] assms in auto)
  have g: "?g (p # ps) \<longleftrightarrow> (\<exists>c. rtcp_frame bs 0 = Inr p \<and> (mode = Compound \<longrightarrow> S p \<noteq> None)
      \<and> validate_packet p (S p) = Inr c
      \<and> drop (length (rp_bytes p)) bs = concat (map rp_bytes ps) \<and> rtcp_valid (S p) ps
      \<and> n = 1 + length ps \<and> n \<le> max_rtcp_packets l
      \<and> (seen \<longleftrightarrow> c \<or> (\<exists>q\<in>set ps. validate_packet q (S p) = Inr True)))" for p ps
    using rtcp_frame_cons [OF assms(1) le0, of "S p" ps p]
    by (cases "validate_packet p (S p)"; cases "rtcp_valid (S p) ps") (auto simp: snd)
  have "?l \<longleftrightarrow> (\<exists>p c. rtcp_frame bs 0 = Inr p
      \<and> (\<exists>fs. first_sender_of mode 0 None p = Inr fs \<and> validate_packet p fs = Inr c \<and> ?rest p fs c))"
    using assms(2,3) by (subst rtcp_parse_from_round) (auto simp: rust_simps)
  also have "\<dots> \<longleftrightarrow> (\<exists>p c. rtcp_frame bs 0 = Inr p \<and> (mode = Compound \<longrightarrow> S p \<noteq> None)
      \<and> validate_packet p (S p) = Inr c \<and> ?rest p (S p) c)"
    unfolding S_def by (intro ex_cong1 conj_cong refl first_sender_of_first [OF fr(1)] order_trans [OF fr(2) assms(1)])
  also have "\<dots> \<longleftrightarrow> (\<exists>p c ps. rtcp_frame bs 0 = Inr p \<and> (mode = Compound \<longrightarrow> S p \<noteq> None)
      \<and> validate_packet p (S p) = Inr c
      \<and> drop (length (rp_bytes p)) bs = concat (map rp_bytes ps) \<and> rtcp_valid (S p) ps
      \<and> n = 1 + length ps \<and> n \<le> max_rtcp_packets l
      \<and> (seen \<longleftrightarrow> c \<or> (\<exists>q\<in>set ps. validate_packet q (S p) = Inr True)))"
    by (intro ex_cong1) (simp cong: conj_cong add: rest [simplified])
  also have "\<dots> \<longleftrightarrow> (\<exists>p ps. ?g (p # ps))"
    unfolding g by blast
  also have "\<dots> \<longleftrightarrow> (\<exists>ps. ?g ps)"
  proof (intro iffI; elim exE)
    show "\<exists>ps. ?g ps" if "?g (p # ps)" for p ps using that by (rule exI [of ?g])
    show "\<exists>p ps. ?g (p # ps)" if "?g ps" for ps using that by (cases ps) blast+
  qed
  finally show ?thesis .
qed


section \<open>The iterator\<close>

lemma rtcp_next_framed:
  assumes "rtcp_framed f p"
  shows "rtcp_next \<lparr>ri_remaining = rp_bytes p @ rest, ri_count = Suc n\<rparr> =
    (Some p, \<lparr>ri_remaining = rest, ri_count = n\<rparr>)"
proof -
  note l = rtcp_framed_length [OF assms]
  have "subslice (rp_bytes p @ rest) 2 4 = subslice (rp_bytes p) 2 4"
    using l by (simp add: subslice_append_left)
  then have len: "(unat (be16 (subslice (rp_bytes p @ rest) 2 4)) + 1) * 4 = length (rp_bytes p)"
    using assms by (simp add: rtcp_framed_def)
  have bytes: "subslice (rp_bytes p @ rest) 0 (length (rp_bytes p)) = rp_bytes p" by (simp add: subslice_def)
  have ce: "rp_content_end p = (if rp_bytes p ! 0 AND 0x20 \<noteq> 0
       then length (rp_bytes p) - unat (rp_bytes p ! (length (rp_bytes p) - 1)) else length (rp_bytes p))"
    using assms by (simp only: rtcp_framed_def Let_def) (metis (full_types))
  show ?thesis unfolding rtcp_next_def Let_def rtcp_packets.simps len bytes ce [symmetric] by simp
qed

lemma rtcp_collect_framed:
  "rtcp_valid s ps \<Longrightarrow>
    rtcp_collect (length ps) \<lparr>ri_remaining = concat (map rp_bytes ps) @ rest, ri_count = length ps\<rparr> = ps"
  by (induction ps) (auto simp: rtcp_next_framed)

lemma rtcp_all_packets_framed:
  "rtcp_valid s ps \<Longrightarrow> rtcp_all_packets \<lparr>rc_bytes = concat (map rp_bytes ps), rc_packet_count = length ps\<rparr> = ps"
  using rtcp_collect_framed [of s ps "[]"] by (simp add: rtcp_all_packets_def rtcp_packets_of_def)

lemma concat_Nil_grammar: "rtcp_grammar mode ps \<Longrightarrow> concat (map rp_bytes ps) \<noteq> []"
  using rtcp_valid_concat_Nil by (auto simp: rtcp_grammar_def)

lemma rtcp_parse_packets:
  "rtcp_parse bs l mode = Inr c \<longleftrightarrow>
     packet_limits_check l bs = Inr ()
     \<and> (\<exists>ps. rtcp_grammar mode ps \<and> bs = concat (map rp_bytes ps) \<and> length ps \<le> max_rtcp_packets l
          \<and> c = \<lparr>rc_bytes = bs, rc_packet_count = length ps\<rparr>)" (is "?l \<longleftrightarrow> ?r")
proof (cases "packet_limits_check l bs = Inr () \<and> bs \<noteq> []")
  case True
  then have lim: "length bs \<le> u64_max" "0 < max_rtcp_packets l"
    by (auto simp: rust_simps packet_limits_validate_def u64_max_def split: if_splits)
  have ex: "?l \<longleftrightarrow> (\<exists>n seen. rtcp_parse_from bs l mode 0 0 None False = Inr (n, seen)
      \<and> (mode = Compound \<longrightarrow> seen) \<and> c = \<lparr>rc_bytes = bs, rc_packet_count = n\<rparr>)"
    using True by (auto simp: rtcp_parse_def rust_simps)
  then show ?thesis
    unfolding rtcp_parse_from_first [OF lim(1) conjunct2 [OF True] lim(2)] rtcp_grammar_def using True by blast
next
  case False
  then show ?thesis using concat_Nil_grammar
    by (cases "packet_limits_check l bs") (auto simp: rtcp_parse_def)
qed

lemma rtcp_grammar_packets:
  "rtcp_grammar mode ps \<Longrightarrow> rtcp_all_packets \<lparr>rc_bytes = concat (map rp_bytes ps), rc_packet_count = length ps\<rparr> = ps"
  using rtcp_all_packets_framed by (auto simp: rtcp_grammar_def)

text \<open>C19:
  Parsing a datagram succeeds exactly when the datagram is, within the limits, the concatenation of
  a nonempty sequence of framed and valid packets, padding only on the last, where in compound mode
  the first packet is a report and some source description names the reporting source. The packets
  the iterator yields from the view are then exactly that sequence, so framing is unambiguous.
\<close>

theorem rtcp_parse_exact:
  "rtcp_parse bs l mode = Inr c \<longleftrightarrow>
     packet_limits_check l bs = Inr ()
     \<and> rtcp_grammar mode (rtcp_all_packets c)
     \<and> bs = concat (map rp_bytes (rtcp_all_packets c))
     \<and> length (rtcp_all_packets c) \<le> max_rtcp_packets l
     \<and> c = \<lparr>rc_bytes = bs, rc_packet_count = length (rtcp_all_packets c)\<rparr>"
  unfolding rtcp_parse_packets
proof (intro conj_cong refl iffI)
  assume "\<exists>ps. rtcp_grammar mode ps \<and> bs = concat (map rp_bytes ps) \<and> length ps \<le> max_rtcp_packets l
      \<and> c = \<lparr>rc_bytes = bs, rc_packet_count = length ps\<rparr>"
  then obtain ps where ps: "rtcp_grammar mode ps" "bs = concat (map rp_bytes ps)" "length ps \<le> max_rtcp_packets l"
    "c = \<lparr>rc_bytes = bs, rc_packet_count = length ps\<rparr>" by blast
  then have "rtcp_all_packets c = ps" using rtcp_grammar_packets by simp
  then show "rtcp_grammar mode (rtcp_all_packets c) \<and> bs = concat (map rp_bytes (rtcp_all_packets c))
    \<and> length (rtcp_all_packets c) \<le> max_rtcp_packets l
    \<and> c = \<lparr>rc_bytes = bs, rc_packet_count = length (rtcp_all_packets c)\<rparr>" using ps by simp
qed (rule exI, assumption)


section \<open>Report accessors\<close>

lemma chunks24_exact:
  "length bs = n * 24 \<Longrightarrow> length (chunks24 bs) = n \<and> concat (chunks24 bs) = bs \<and> (\<forall>c\<in>set (chunks24 bs). length c = 24)"
proof (induction n arbitrary: bs)
  case 0
  then show ?case by (subst chunks24.simps, subst chunks24.simps, subst chunks24.simps) simp
next
  case (Suc n)
  then have "chunks24 bs = take 24 bs # chunks24 (drop 24 bs)" by (subst chunks24.simps) simp
  then show ?case using Suc.IH [of "drop 24 bs"] Suc.prems by simp
qed

lemma rtcp_valid_all: "rtcp_valid s ps \<Longrightarrow> p \<in> set ps \<Longrightarrow> (\<exists>f. rtcp_framed f p) \<and> (\<exists>c. validate_packet p s = Inr c)"
  by (induction ps) auto

text \<open>C20:
  In a parsed datagram every sender or receiver report carries exactly as many report blocks as its
  header counts, each of 24 bytes, all read from inside the packet: the header and sender part, the
  blocks and the profile extension together are the packet's content with nothing left over, and the
  extension is a whole number of words.
\<close>

theorem rtcp_reports_exact:
  assumes "rtcp_parse bs l mode = Inr c" and "p \<in> set (rtcp_all_packets c)" and "report_start p = Some start"
  shows "length (rtcp_report_blocks p) = unat (rtcp_count p)
    \<and> (\<forall>b\<in>set (rtcp_report_chunks p). length b = 24)
    \<and> (\<exists>e. rtcp_report_extension p = Some e \<and> length e mod 4 = 0
         \<and> subslice (rp_bytes p) 0 (rp_content_end p) = subslice (rp_bytes p) 0 start @ concat (rtcp_report_chunks p) @ e)"
proof -
  let ?n = "unat (rtcp_count p) * 24"
  obtain f s v where fr: "rtcp_framed f p" and v: "validate_packet p s = Inr v"
    using assms(1,2) rtcp_valid_all rtcp_grammar_packets unfolding rtcp_parse_packets rtcp_grammar_def by metis
  note ce = rtcp_framed_content [OF fr]
  have fit: "start + ?n \<le> rp_content_end p \<and> (rp_content_end p - (start + ?n)) mod 4 = 0"
    using v assms(3) ce by (auto simp: validate_packet_def report_start_def REPORT_BLOCK_BYTES_def Let_def split: if_splits)
  have ch: "rtcp_report_chunks p = chunks24 (subslice (rp_bytes p) start (start + ?n))"
    using assms(3) by (simp add: rtcp_report_chunks_def REPORT_BLOCK_BYTES_def)
  have "length (subslice (rp_bytes p) start (start + ?n)) = unat (rtcp_count p) * 24" using fit ce by simp
  note C = chunks24_exact [OF this, folded ch]
  have "subslice (rp_bytes p) 0 start @ subslice (rp_bytes p) start (start + ?n) @ subslice (rp_bytes p) (start + ?n) (rp_content_end p)
      = subslice (rp_bytes p) 0 (rp_content_end p)"
    using fit by (simp add: subslice_append_subslice)
  moreover have "rtcp_report_extension p = Some (subslice (rp_bytes p) (start + ?n) (rp_content_end p))"
    using assms(3) by (simp add: rtcp_report_extension_def)
  ultimately show ?thesis using C fit ce by (simp add: rtcp_report_blocks_def)
qed

definition rr_datagram :: bytes where
  "rr_datagram = [0x81, 201, 0, 7, 0, 0, 0, 9] @ [0, 0, 0, 5, 1, 0xff, 0xff, 0xfe] @ replicate 16 3"

definition rr_packet :: rtcp_packet where
  "rr_packet = \<lparr>rp_bytes = rr_datagram, rp_content_end = 32\<rparr>"

lemma rr_packet_grammar: "rtcp_grammar ReducedSize [rr_packet]"
  by (simp add: rtcp_grammar_def rtcp_framed_def rr_packet_def validate_packet_def rr_datagram_def Let_def
      rtcp_packet_type_def rtcp_count_def REPORT_BLOCK_BYTES_def be16_def subslice_def rtcp_sender_def) (rule exI [of _ False], simp)

lemma rr_datagram_parse:
  "rtcp_parse rr_datagram packet_limits_default ReducedSize = Inr \<lparr>rc_bytes = rr_datagram, rc_packet_count = 1\<rparr>"
proof -
  have "packet_limits_check packet_limits_default rr_datagram = Inr ()"
    by (simp add: packet_limits_check_def packet_limits_validate_def packet_limits_default_def rr_datagram_def)
  moreover have "1 \<le> max_rtcp_packets packet_limits_default" by (simp add: packet_limits_default_def)
  moreover have "rr_datagram = concat (map rp_bytes [rr_packet])" by (simp add: rr_packet_def)
  ultimately show ?thesis using rr_packet_grammar unfolding rtcp_parse_packets
    by (intro conjI exI [of _ "[rr_packet]"]) auto
qed

theorem rtcp_reports_exact_witness:
  "report_start rr_packet = Some 8 \<and> length (rtcp_report_blocks rr_packet) = unat (rtcp_count rr_packet)"
proof -
  have "report_start rr_packet = Some 8"
    by (simp add: report_start_def rr_packet_def rr_datagram_def rtcp_packet_type_def)
  then show ?thesis
    using rtcp_reports_exact [OF rr_datagram_parse, of rr_packet 8] rtcp_grammar_packets [OF rr_packet_grammar]
    by (simp add: rr_packet_def)
qed

lemma byte_bit: "bit (x :: 8 word) n \<Longrightarrow> n < 8"
  using bit_imp_le_length [of x n] by simp

lemma be24_value:
  "be32 [0, x, y, z] = word_of_int (uint x * 65536 + uint y * 256 + uint z)"
proof -
  have "be32 [0, x, y, z] = push_bit 16 (ucast x) + (push_bit 8 (ucast y) + ucast z)"
    by (simp add: be32_def or.assoc) (subst (1 2) disjunctive_add; auto simp: bit_simps dest: byte_bit)
  also have "\<dots> = word_of_int (uint x * 65536 + uint y * 256 + uint z)"
    by (simp only: ucast_eq push_bit_eq_mult of_int_add of_int_mult) (simp add: mult.commute)
  finally show ?thesis .
qed

lemma sign_extend24:
  fixes w :: u32
  assumes "w = word_of_int n" "0 \<le> n" "n < 2^24"
  shows "sint (if w AND 0x800000 \<noteq> 0 then w OR NOT 0xffffff else w) = (if n < 2 ^ 23 then n else n - 2 ^ 24)"
proof -
  have "w AND 0x800000 \<noteq> 0 \<longleftrightarrow> bit w 23"
    using bit_iff_and_push_bit_not_eq_0 [of w 23] by simp
  also have "\<dots> \<longleftrightarrow> odd (n div 2 ^ 23)" using assms(1) by (simp add: bit_word_of_int_iff) (simp add: bit_iff_odd)
  also have "\<dots> \<longleftrightarrow> 2 ^ 23 \<le> n"
  proof (cases "2 ^ 23 \<le> n")
    case True
    then have "n div 2 ^ 23 = 1" using assms by (simp add: int_div_pos_eq)
    then show ?thesis using True by simp
  qed (use assms in simp)
  finally have s: "w AND 0x800000 \<noteq> 0 \<longleftrightarrow> 2 ^ 23 \<le> n" .
  have "uint w = n" using assms by (simp add: uint_word_of_int)
  then have "take_bit 24 w = w"
    using assms by (intro word_uint_eqI) (simp add: unsigned_take_bit_eq take_bit_int_eq_self)
  then have "w AND NOT (mask 24) = 0" by (metis and.assoc and.commute and_zero_eq bit.conj_cancel_right take_bit_eq_mask)
  then have "w OR NOT 0xffffff = w + NOT 0xffffff" using disjunctive_add_eq_or [of w "NOT (mask 24)"]
    by (simp add: mask_eq_exp_minus_1)
  then have o: "w OR NOT 0xffffff = word_of_int (n - 2 ^ 24)" using assms(1) by (simp add: not_eq_complement)
  show ?thesis unfolding s o using assms by (simp add: int_word_sint del: of_int_diff)
qed
text \<open>The cumulative number of packets lost is the 24-bit two's complement field of the report block:
  the sign extension in \<open>report_blocks\<close> yields exactly its signed value.
\<close>

theorem cumulative_lost_signed:
  "sint (rr_cumulative_lost (report_block b)) =
     (let raw = uint (b ! 5) * 65536 + uint (b ! 6) * 256 + uint (b ! 7)
      in if raw < 2 ^ 23 then raw else raw - 2 ^ 24)"
proof -
  have lt: "uint (b ! i) < 256" for i using uint_lt2p [of "b ! i"] by simp
  show ?thesis
    unfolding report_block_def Let_def reception_report.simps
    by (rule sign_extend24 [OF be24_value]) (use lt [of 5] lt [of 6] lt [of 7] in auto)
qed

end
