(* ===== verification/Rtp_Timing.thy ===== *)
theory Rtp_Timing
  imports Sequence_Tracker Rtcp Complex_Main
begin

text \<open>
  Timing, \<open>crates/fss-packet/src/timing.rs\<close>: the interarrival jitter estimator, the conversion of
  monotonic nanoseconds to RTP ticks, and the sender-report clock that maps a nearby RTP timestamp
  to an interval of sender time.
\<close>

section \<open>timing.rs\<close>

record jitter_estimator =
  je_previous :: "(u64 \<times> u32) option"
  je_scaled :: u64

definition jitter_estimator_default :: jitter_estimator where
  "jitter_estimator_default = \<lparr>je_previous = None, je_scaled = 0\<rparr>"

definition jitter_ticks :: "jitter_estimator \<Rightarrow> u32" where
  "jitter_ticks j = of_nat (je_scaled j div 16)"

definition jitter_observe ::
  "jitter_estimator \<Rightarrow> u64 \<Rightarrow> u32 \<Rightarrow> (continuity_error + u32) \<times> jitter_estimator" where
  "jitter_observe j arrival timestamp =
     (let finish = (\<lambda>j. let j = j\<lparr>je_previous := Some (arrival, timestamp)\<rparr> in (Inr (jitter_ticks j), j)) in
      case je_previous j of
        None \<Rightarrow> finish j
      | Some (previous_arrival, previous_timestamp) \<Rightarrow>
          (case checked_sub arrival previous_arrival of
             None \<Rightarrow> (Inl continuity_error.ClockReversed, j)
           | Some arrival_delta \<Rightarrow>
               let raw_delta = timestamp - previous_timestamp in
               if arrival_delta \<ge> 0x80000000 \<or> raw_delta = 0x80000000
               then (Inl continuity_error.ClockAmbiguous, j)
               else
                 let variation = nat \<bar>int arrival_delta - sint raw_delta\<bar> in
                 finish (j\<lparr>je_scaled := je_scaled j + variation - (je_scaled j + 8) div 16\<rparr>)))"

definition arrival_ticks :: "u64 \<Rightarrow> u32 \<Rightarrow> continuity_error + u64" where
  "arrival_ticks monotonic_ns clock_rate =
     (if clock_rate = 0 \<or> clock_rate > 1000000000 then Inl continuity_error.Configuration
      else
        let ticks = monotonic_ns * unat clock_rate div 1000000000 in
        if ticks \<le> u64_max then Inr ticks else Inl continuity_error.Exhausted)"

record sender_time_estimate =
  earliest_ntp_ns :: i128
  latest_ntp_ns :: i128
  ste_key :: stream_key

record sender_report_clock =
  src_key :: stream_key
  src_rate :: u32
  src_report :: sender_report
  src_received_ns :: u64
  src_uncertainty_ns :: u64
  src_max_distance_ticks :: u32

definition src_new ::
  "stream_key \<Rightarrow> u32 \<Rightarrow> sender_report \<Rightarrow> u64 \<Rightarrow> u64 \<Rightarrow> u32 \<Rightarrow> continuity_error + sender_report_clock" where
  "src_new key rate report received_ns uncertainty_ns max_distance_ticks =
     (if ingress key = 0 \<or> generation key = 0 \<or> rate = 0 \<or> rate > 1000000000
         \<or> max_distance_ticks = 0 \<or> max_distance_ticks \<ge> 0x80000000
      then Inl continuity_error.Configuration
      else if sr_ssrc report \<noteq> key_ssrc key then Inl continuity_error.StreamMismatch
      else if ntp_seconds (sr_ntp report) = 0 \<and> ntp_fraction (sr_ntp report) = 0
      then Inl continuity_error.NoSenderReport
      else Inr \<lparr>src_key = key, src_rate = rate, src_report = report, src_received_ns = received_ns,
                src_uncertainty_ns = uncertainty_ns, src_max_distance_ticks = max_distance_ticks\<rparr>)"

text \<open>
  \<open>div_euclid\<close> and \<open>rem_euclid\<close> by a positive rate are HOL's \<open>div\<close> and \<open>mod\<close>; the \<open>i128\<close>
  operations cannot overflow on 32- and 64-bit operands.
\<close>

definition src_estimate :: "sender_report_clock \<Rightarrow> stream_key \<Rightarrow> u32 \<Rightarrow> continuity_error + sender_time_estimate" where
  "src_estimate c key timestamp =
     (if key \<noteq> src_key c then Inl continuity_error.StreamMismatch
      else
        let raw = timestamp - sr_rtp_timestamp (src_report c) in
        if raw = 0x80000000 then Inl continuity_error.ClockAmbiguous
        else
          let delta = sint raw in
          if nat \<bar>delta\<bar> > unat (src_max_distance_ticks c) then Inl continuity_error.ClockAmbiguous
          else
            let ntp = sr_ntp (src_report c);
                fraction = uint (ntp_fraction ntp) * 1000000000;
                ntp_floor = uint (ntp_seconds ntp) * 1000000000 + fraction div 2 ^ 32;
                numerator = delta * 1000000000;
                rate = uint (src_rate c);
                offset_floor = numerator div rate;
                offset_ceil = offset_floor + of_bool (numerator mod rate \<noteq> 0)
            in Inr \<lparr>earliest_ntp_ns = ntp_floor + offset_floor - int (src_uncertainty_ns c),
                    latest_ntp_ns = ntp_floor + 1 + offset_ceil + int (src_uncertainty_ns c),
                    ste_key = key\<rparr>)"

definition src_report_delay :: "sender_report_clock \<Rightarrow> u64 \<Rightarrow> continuity_error + u32 \<times> u32" where
  "src_report_delay c now_ns =
     try_then (ok_or (checked_sub now_ns (src_received_ns c)) continuity_error.ClockReversed) (\<lambda>elapsed.
       let delay = elapsed * 65536 div 1000000000 in
       if delay < 2 ^ 32 then Inr (middle_32 (sr_ntp (src_report c)), of_nat delay)
       else Inl continuity_error.ClockAmbiguous)"


section \<open>Jitter\<close>

fun jitter_run :: "jitter_estimator \<Rightarrow> (u64 \<times> u32) list \<Rightarrow> jitter_estimator" where
  "jitter_run j [] = j"
| "jitter_run j ((a, t) # xs) = jitter_run (snd (jitter_observe j a t)) xs"

text \<open>The transit-time differences \<open>|D(i-1, i)|\<close> between consecutive accepted arrivals.\<close>

fun jitter_variations :: "(u64 \<times> u32) option \<Rightarrow> (u64 \<times> u32) list \<Rightarrow> nat list" where
  "jitter_variations p [] = []"
| "jitter_variations None (x # xs) = jitter_variations (Some x) xs"
| "jitter_variations (Some (pa, pt)) ((a, t) # xs) =
     (if a < pa \<or> a - pa \<ge> 2 ^ 31 \<or> t - pt = 0x80000000 then jitter_variations (Some (pa, pt)) xs
      else nat \<bar>int (a - pa) - sint (t - pt)\<bar> # jitter_variations (Some (a, t)) xs)"

lemma jitter_step_le:
  fixes s :: nat
  assumes "s \<le> 16 * d" and "v \<le> d"
  shows "s + v - (s + 8) div 16 \<le> 16 * d"
proof -
  have "s + 8 < 16 * ((s + 8) div 16) + 16" using div_less_iff_less_mult [of 16 "s + 8" "(s + 8) div 16 + 1"] by simp
  then show ?thesis using assms by linarith
qed

lemma jitter_decay_le: "(s + 8) div 16 \<le> s" for s :: nat
  using div_le_mono [of "s + 8" "16 * s" 16] by (cases "s = 0") auto

lemma jitter_run_scaled:
  "je_scaled (jitter_run j xs) = foldl (\<lambda>s v. s + v - (s + 8) div 16) (je_scaled j) (jitter_variations (je_previous j) xs)"
proof (induction j xs rule: jitter_run.induct)
  case (2 j a t xs)
  then show ?case
    by (cases "je_previous j") (auto simp: jitter_observe_def checked_sub_def Let_def)
qed simp

lemma jitter_fold_le:
  "(s::nat) \<le> 16 * d \<Longrightarrow> (\<forall>v\<in>set vs. v \<le> d) \<Longrightarrow> foldl (\<lambda>s v. s + v - (s + 8) div 16) s vs \<le> 16 * d"
  by (induction vs arbitrary: s) (auto intro: jitter_step_le)

lemma jitter_variations_lt: "v \<in> set (jitter_variations p xs) \<Longrightarrow> v \<le> 2 ^ 32 - 1"
proof (induction p xs rule: jitter_variations.induct)
  case (3 pa pt a t xs)
  have "- (2 ^ 31) \<le> sint (t - pt)" "sint (t - pt) < 2 ^ 31"
    using sint_range_size [of "t - pt"] by (simp_all add: word_size)
  then have "nat \<bar>int (a - pa) - sint (t - pt)\<bar> \<le> 2 ^ 32 - 1" if "a - pa < 2 ^ 31"
    using that by simp
  then show ?case using 3 by (auto split: if_splits)
qed simp_all

text \<open>C21:
  Whatever arrivals a fresh estimator observes, accepted or refused, the scaled accumulator is the
  RFC 3550 A.8 recurrence over the transit differences of consecutive accepted arrivals; the
  reported jitter never exceeds the largest difference seen, the cast to 32 bits loses nothing, and
  no addition of the next update can overflow 64 bits, nor its subtraction underflow.
\<close>

theorem jitter_exact:
  "let j = jitter_run jitter_estimator_default xs; vs = jitter_variations None xs in
     je_scaled j = foldl (\<lambda>s v. s + v - (s + 8) div 16) 0 vs
     \<and> unat (jitter_ticks j) = je_scaled j div 16
     \<and> unat (jitter_ticks j) \<le> Max (insert 0 (set vs))
     \<and> je_scaled j + 2 ^ 32 \<le> u64_max \<and> (je_scaled j + 8) div 16 \<le> je_scaled j"
proof -
  let ?vs = "jitter_variations None xs" and ?j = "jitter_run jitter_estimator_default xs"
  have s: "je_scaled ?j = foldl (\<lambda>s v. s + v - (s + 8) div 16) 0 ?vs"
    using jitter_run_scaled [of jitter_estimator_default] by (simp add: jitter_estimator_default_def)
  have all: "\<forall>v\<in>set ?vs. v \<le> Max (insert 0 (set ?vs))" by (simp add: Max_ge)
  have le: "je_scaled ?j \<le> 16 * Max (insert 0 (set ?vs))" unfolding s by (rule jitter_fold_le [OF _ all]) simp
  have "Max (insert 0 (set ?vs)) \<le> 2 ^ 32 - 1" using jitter_variations_lt by (subst Max_le_iff) auto
  with le have b: "je_scaled ?j \<le> 16 * (2 ^ 32 - 1)" by linarith
  then have u: "unat (jitter_ticks ?j) = je_scaled ?j div 16"
    by (simp add: jitter_ticks_def unat_of_nat take_bit_nat_eq_self)
  have "je_scaled ?j div 16 \<le> Max (insert 0 (set ?vs))" using le by linarith
  moreover have "(je_scaled ?j + 8) div 16 \<le> je_scaled ?j" by (rule jitter_decay_le)
  ultimately show ?thesis using s u b by (simp add: Let_def u64_max_def)
qed


section \<open>Sender time\<close>

text \<open>The sender's own clock at RTP timestamp distance \<open>delta\<close> from its report, in nanoseconds.\<close>

definition sender_time :: "sender_report_clock \<Rightarrow> int \<Rightarrow> real" where
  "sender_time c delta =
     real_of_int (uint (ntp_seconds (sr_ntp (src_report c)))) * 10 ^ 9
     + real_of_int (uint (ntp_fraction (sr_ntp (src_report c)))) * 10 ^ 9 / 2 ^ 32
     + real_of_int delta * 10 ^ 9 / real_of_int (uint (src_rate c))"

lemma floor_div_bounds:
  assumes "0 < (b::int)"
  shows "real_of_int (a div b) \<le> real_of_int a / real_of_int b"
    "real_of_int a / real_of_int b \<le> real_of_int (a div b + of_bool (a mod b \<noteq> 0))"
proof -
  have e: "real_of_int a / real_of_int b = real_of_int (a div b) + real_of_int (a mod b) / real_of_int b"
    using assms by (simp add: field_simps flip: of_int_mult of_int_add)
  have "0 \<le> a mod b" "a mod b < b" using assms by simp_all
  then show "real_of_int (a div b) \<le> real_of_int a / real_of_int b"
    "real_of_int a / real_of_int b \<le> real_of_int (a div b + of_bool (a mod b \<noteq> 0))"
    unfolding e using assms by (auto simp: divide_le_eq intro: less_imp_le)
qed


lemma sint_near:
  fixes x y :: u32
  assumes "\<bar>d\<bar> < 2 ^ 31"
  shows "x = y + word_of_int d \<longleftrightarrow> sint (x - y) = d"
proof -
  have "sint (word_of_int d :: u32) = d" using assms by (simp add: int_word_sint)
  then have "x - y = word_of_int d \<longleftrightarrow> sint (x - y) = d" by (auto intro: signed_word_eqI)
  then show ?thesis by (auto simp: algebra_simps)
qed

lemma src_estimate_at:
  assumes "src_new key rate report rcv uncertainty reach = Inr c"
    and "\<bar>delta\<bar> \<le> uint reach" and "ts = sr_rtp_timestamp report + word_of_int delta"
  shows "\<exists>e. src_estimate c key ts = Inr e
    \<and> real_of_int (earliest_ntp_ns e) + real uncertainty \<le> sender_time c delta
    \<and> sender_time c delta \<le> real_of_int (latest_ntp_ns e) - real uncertainty
    \<and> latest_ntp_ns e - earliest_ntp_ns e \<le> 2 * int uncertainty + 2 \<and> ste_key e = key"
proof -
  let ?s = "uint (ntp_seconds (sr_ntp report))" and ?f = "uint (ntp_fraction (sr_ntp report)) * 10 ^ 9"
  let ?r = "uint rate" and ?n = "delta * 10 ^ 9"
  have c: "c = \<lparr>src_key = key, src_rate = rate, src_report = report, src_received_ns = rcv,
                src_uncertainty_ns = uncertainty, src_max_distance_ticks = reach\<rparr>"
    and rate: "rate \<noteq> 0" and reach: "reach < 0x80000000"
    using assms(1) by (auto simp: src_new_def split: if_splits)
  have "uint reach < 2 ^ 31" using reach by (simp add: word_less_def)
  then have d: "\<bar>delta\<bar> < 2 ^ 31" using assms(2) by linarith
  have s: "sint (ts - sr_rtp_timestamp report) = delta" using sint_near [OF d] assms(3) by blast
  have h: "ts - sr_rtp_timestamp report \<noteq> 0x80000000" using s d by auto
  have r: "0 < ?r" using rate uint_0_iff [of rate] uint_ge_0 [of rate] by (metis less_le)
  define e where "e = \<lparr>earliest_ntp_ns = ?s * 10 ^ 9 + ?f div 2 ^ 32 + ?n div ?r - int uncertainty,
    latest_ntp_ns = ?s * 10 ^ 9 + ?f div 2 ^ 32 + 1 + (?n div ?r + of_bool (?n mod ?r \<noteq> 0)) + int uncertainty,
    ste_key = key\<rparr>"
  have "src_estimate c key ts = Inr e"
    using h s assms(2) unfolding src_estimate_def c e_def by (simp add: Let_def nat_le_iff not_less)
  moreover have "sender_time c delta = ?s * 10 ^ 9 + ?f / 2 ^ 32 + ?n / ?r"
    by (simp add: sender_time_def c)
  moreover have "?f / 2 ^ 32 \<le> real_of_int (?f div 2 ^ 32) + 1" "real_of_int (?f div 2 ^ 32) \<le> ?f / 2 ^ 32"
    using floor_div_bounds [of "2 ^ 32" ?f] by (cases "?f mod 2 ^ 32 = 0"; simp)+
  moreover have "real_of_int (?n div ?r) \<le> ?n / ?r" "?n / ?r \<le> real_of_int (?n div ?r) + of_bool (?n mod ?r \<noteq> 0)"
    using floor_div_bounds [OF r, of ?n] by simp_all
  moreover have "of_bool (?n mod ?r \<noteq> 0) \<le> (1::int)" by simp
  moreover have "real_of_int (earliest_ntp_ns e) = real_of_int (?s * 10 ^ 9) + real_of_int (?f div 2 ^ 32)
      + real_of_int (?n div ?r) - real uncertainty"
    "real_of_int (latest_ntp_ns e) = real_of_int (?s * 10 ^ 9) + real_of_int (?f div 2 ^ 32) + 1
      + (real_of_int (?n div ?r) + of_bool (?n mod ?r \<noteq> 0)) + real uncertainty"
    "latest_ntp_ns e - earliest_ntp_ns e = 1 + of_bool (?n mod ?r \<noteq> 0) + 2 * int uncertainty"
    by (simp_all add: e_def)
  moreover have "ste_key e = key" by (simp add: e_def)
  ultimately show ?thesis by (intro exI [of _ e] conjI) (assumption | linarith)+
qed

text \<open>A clock built from a sender report answers for a timestamp exactly when the key is its own and the
  timestamp lies, modulo \<open>2 ^ 32\<close>, within the allowed distance of the report. The interval it
  answers then contains the sender's exact rational time at that distance even after the declared
  uncertainty is taken off on both sides, and it is at most two nanoseconds wider than twice the
  uncertainty.
\<close>

theorem sender_interval_exact:
  assumes "src_new key rate report rcv uncertainty reach = Inr c"
  shows "((\<exists>e. src_estimate c k ts = Inr e) \<longleftrightarrow>
           k = key \<and> (\<exists>delta. \<bar>delta\<bar> \<le> uint reach \<and> ts = sr_rtp_timestamp report + word_of_int delta))
    \<and> (\<forall>e delta. src_estimate c k ts = Inr e \<and> \<bar>delta\<bar> \<le> uint reach \<and> ts = sr_rtp_timestamp report + word_of_int delta \<longrightarrow>
           real_of_int (earliest_ntp_ns e) + real uncertainty \<le> sender_time c delta
           \<and> sender_time c delta \<le> real_of_int (latest_ntp_ns e) - real uncertainty
           \<and> latest_ntp_ns e - earliest_ntp_ns e \<le> 2 * int uncertainty + 2
           \<and> ste_key e = key)"
proof -
  have c: "src_key c = key" "src_report c = report" "src_max_distance_ticks c = reach" "reach < 0x80000000"
    using assms by (auto simp: src_new_def split: if_splits)
  have "uint reach < 2 ^ 31" using c(4) by (simp add: word_less_def)
  have only: "k = key \<and> (\<exists>delta. \<bar>delta\<bar> \<le> uint reach \<and> ts = sr_rtp_timestamp report + word_of_int delta)"
    if "src_estimate c k ts = Inr e" for e
  proof -
    let ?d = "sint (ts - sr_rtp_timestamp report)"
    have "k = key" and le: "\<bar>?d\<bar> \<le> uint reach"
      using that c by (auto simp: src_estimate_def Let_def not_less nat_le_iff split: if_splits)
    moreover have "ts = sr_rtp_timestamp report + word_of_int ?d" by simp
    ultimately show ?thesis by blast
  qed
  show ?thesis using only src_estimate_at [OF assms] by (metis Inr_inject)
qed

definition sample_report :: sender_report where
  "sample_report = \<lparr>sr_ssrc = 7, sr_ntp = \<lparr>ntp_seconds = 3, ntp_fraction = 0x80000000\<rparr>,
     sr_rtp_timestamp = 100, sr_packet_count = 0, sr_octet_count = 0\<rparr>"

definition sample_clock :: sender_report_clock where
  "sample_clock = \<lparr>src_key = \<lparr>ingress = 1, generation = 1, key_ssrc = 7\<rparr>, src_rate = 90000, src_report = sample_report,
     src_received_ns = 5, src_uncertainty_ns = 2, src_max_distance_ticks = 1000\<rparr>"

lemma sample_clock_new:
  "src_new \<lparr>ingress = 1, generation = 1, key_ssrc = 7\<rparr> 90000 sample_report 5 2 1000 = Inr sample_clock"
  by (simp add: src_new_def sample_report_def sample_clock_def)

theorem sender_interval_exact_witness:
  "\<exists>e. src_estimate sample_clock \<lparr>ingress = 1, generation = 1, key_ssrc = 7\<rparr> 190 = Inr e"
proof -
  have "\<bar>90::int\<bar> \<le> uint (1000 :: u32) \<and> (190 :: u32) = sr_rtp_timestamp sample_report + word_of_int 90"
    by (simp add: sample_report_def)
  then show ?thesis using sender_interval_exact [OF sample_clock_new] by blast
qed


section \<open>Ticks and delays\<close>

lemma arrival_ticks_exact:
  assumes "arrival_ticks ns rate = Inr t"
  shows "t * 10 ^ 9 \<le> ns * unat rate \<and> ns * unat rate < (t + 1) * 10 ^ 9"
  using assms by (auto simp: arrival_ticks_def Let_def split: if_splits)

lemma arrival_ticks_total:
  assumes "rate \<noteq> 0" and "rate \<le> 1000000000" and "ns \<le> u64_max"
  shows "\<exists>t. arrival_ticks ns rate = Inr t"
proof -
  have "unat rate \<le> 1000000000" using assms(2) by (simp add: word_le_nat_alt)
  then have "ns * unat rate \<le> u64_max * 1000000000" using assms(3) mult_le_mono by blast
  then have "ns * unat rate div 1000000000 \<le> u64_max" by (simp add: div_le_mono [THEN le_trans])
  then show ?thesis using assms by (auto simp: arrival_ticks_def Let_def not_less)
qed

lemma src_report_delay_exact:
  assumes "src_report_delay c now = Inr (lsr, dlsr)"
  shows "src_received_ns c \<le> now \<and> unat dlsr * 10 ^ 9 \<le> (now - src_received_ns c) * 65536
    \<and> (now - src_received_ns c) * 65536 < (unat dlsr + 1) * 10 ^ 9
    \<and> lsr = middle_32 (sr_ntp (src_report c))"
proof -
  let ?d = "(now - src_received_ns c) * 65536 div 1000000000"
  have a: "src_received_ns c \<le> now" "?d < 2 ^ 32" "dlsr = of_nat ?d" "lsr = middle_32 (sr_ntp (src_report c))"
    using assms by (auto simp: src_report_delay_def rust_simps Let_def split: if_splits)
  then have "unat dlsr = ?d" by (simp add: unat_of_nat take_bit_nat_eq_self)
  then show ?thesis using a(1,4) by auto
qed

end
