(* ===== verification/Access_Unit.thy ===== *)
theory Access_Unit
  imports FSS_Prelude "HOL-Library.Sublist"
begin

unbundle bit_operations_syntax

text \<open>
  H.264 access units, \<open>crates/fss-packet/src/access_unit.rs\<close>: the emulation-prevention filter and
  Exp-Golomb reader behind the slice-header ids, and the assembler that groups an ordered stream of
  NAL units into access units under budgets.
\<close>

section \<open>access_unit.rs\<close>

datatype access_unit_error = TooManyNals usize | TooManyBytes usize

record access_unit_limits =
  max_nals :: usize
  max_bytes :: usize

definition access_unit_limits_default :: access_unit_limits where
  "access_unit_limits_default = \<lparr>max_nals = 256, max_bytes = 16 * 1024 * 1024\<rparr>"

record access_unit =
  au_nals :: "bytes list"
  contains_idr :: bool
  sps_ids :: "u8 list"
  au_pps_ids :: "u8 list"

definition access_unit_empty :: access_unit where
  "access_unit_empty = \<lparr>au_nals = [], contains_idr = False, sps_ids = [], au_pps_ids = []\<rparr>"

definition au_nal_type :: "bytes \<Rightarrow> u8 option" where
  "au_nal_type nal = (if nal = [] then None else Some (nal ! 0 AND 0x1F))"

text \<open>The \<open>for\<close> loop of \<open>unescape_prefix\<close>, with its \<open>continue\<close> and \<open>break\<close>.\<close>

fun unescape_from :: "usize \<Rightarrow> nat \<Rightarrow> bytes \<Rightarrow> bytes \<Rightarrow> bytes" where
  "unescape_from lim zeros out [] = out"
| "unescape_from lim zeros out (b # bs) =
     (if zeros \<ge> 2 \<and> b = 3 then unescape_from lim 0 out bs
      else
        let zeros = (if b = 0 then zeros + 1 else 0); out = out @ [b] in
        if length out = lim then out else unescape_from lim zeros out bs)"

definition unescape_prefix :: "bytes \<Rightarrow> usize \<Rightarrow> bytes" where
  "unescape_prefix nal lim = unescape_from lim 0 [] (take (lim + 4) nal)"

record golomb =
  gb_bytes :: bytes
  gb_bit :: usize

definition read_bit :: "golomb \<Rightarrow> u32 option \<times> golomb" where
  "read_bit g =
     (let index = gb_bit g div 8 in
      if index \<ge> length (gb_bytes g) then (None, g)
      else
        let offset = 7 - gb_bit g mod 8 in
        (Some (ucast (drop_bit offset (gb_bytes g ! index) AND 1)), g\<lparr>gb_bit := gb_bit g + 1\<rparr>))"

text \<open>The \<open>while\<close> loop that counts leading zeros, and the \<open>for\<close> loop that reads the suffix.\<close>

function read_zeros :: "golomb \<Rightarrow> nat \<Rightarrow> nat option \<times> golomb" where
  "read_zeros g leading_zeros =
     (case read_bit g of
        (None, g) \<Rightarrow> (None, g)
      | (Some b, g) \<Rightarrow>
          if b = 0 then
            if leading_zeros + 1 > 31 then (None, g) else read_zeros g (leading_zeros + 1)
          else (Some leading_zeros, g))"
  by pat_completeness auto
termination by (relation "measure (\<lambda>(_, n). 32 - n)") auto

declare read_zeros.simps [simp del]

fun read_suffix :: "golomb \<Rightarrow> nat \<Rightarrow> u64 \<Rightarrow> u64 option \<times> golomb" where
  "read_suffix g 0 v = (Some v, g)"
| "read_suffix g (Suc n) v =
     (case read_bit g of
        (None, g) \<Rightarrow> (None, g)
      | (Some b, g) \<Rightarrow> read_suffix g n (2 * v + unat b))"

definition read_ue :: "golomb \<Rightarrow> u32 option \<times> golomb" where
  "read_ue g =
     (case read_zeros g 0 of
        (None, g) \<Rightarrow> (None, g)
      | (Some n, g) \<Rightarrow>
          (case read_suffix g n 1 of
             (None, g) \<Rightarrow> (None, g)
           | (Some v, g) \<Rightarrow> (if v - 1 < 2 ^ 32 then Some (of_nat (v - 1)) else None, g)))"

definition golomb_of :: "bytes \<Rightarrow> golomb" where
  "golomb_of nal = \<lparr>gb_bytes = unescape_prefix (drop 1 nal) 8, gb_bit = 0\<rparr>"

definition first_mb_in_slice :: "bytes \<Rightarrow> u32 option" where
  "first_mb_in_slice nal = fst (read_ue (golomb_of nal))"

definition slice_header_ids :: "bytes \<Rightarrow> (u32 \<times> u32) option" where
  "slice_header_ids nal =
     (case read_ue (golomb_of nal) of
        (None, _) \<Rightarrow> None
      | (Some first_mb, g) \<Rightarrow> map_option (\<lambda>pps_id. (first_mb, pps_id)) (fst (read_ue g)))"

definition sps_id :: "bytes \<Rightarrow> u32 option" where
  "sps_id nal = fst (read_ue (golomb_of nal))"

definition pps_ids :: "bytes \<Rightarrow> (u32 \<times> u32) option" where
  "pps_ids nal =
     (case read_ue (golomb_of nal) of
        (None, _) \<Rightarrow> None
      | (Some pps, g) \<Rightarrow> map_option (\<lambda>sps. (pps, sps)) (fst (read_ue g)))"

record access_unit_assembler =
  aua_limits :: access_unit_limits
  aua_current :: access_unit
  aua_saw_vcl :: bool
  aua_emitted :: usize

definition au_validate_limits :: "access_unit_limits \<Rightarrow> access_unit_error + unit" where
  "au_validate_limits l =
     (if max_nals l = 0 \<or> max_bytes l = 0 then Inl (TooManyNals (max_nals l)) else Inr ())"

definition aua_new :: "access_unit_limits \<Rightarrow> access_unit_error + access_unit_assembler" where
  "aua_new l =
     try_then (au_validate_limits l) (\<lambda>_.
       Inr \<lparr>aua_limits = l, aua_current = access_unit_empty, aua_saw_vcl = False, aua_emitted = 0\<rparr>)"

definition current_byte_total :: "access_unit_assembler \<Rightarrow> usize" where
  "current_byte_total a = sum_list (map length (au_nals (aua_current a)))"

definition vcl_kind :: "u8 \<Rightarrow> bool" where
  "vcl_kind kind \<longleftrightarrow> 1 \<le> kind \<and> kind \<le> 5"

text \<open>\<open>u8::try_from(id).is_ok() && !ids.contains(&(id as u8))\<close>, then \<open>push\<close>.\<close>

definition push_id :: "u32 \<Rightarrow> u8 list \<Rightarrow> u8 list" where
  "push_id i ids = (if unat i \<le> 255 \<and> ucast i \<notin> set ids then ids @ [ucast i] else ids)"

definition au_starts_new :: "bool \<Rightarrow> bytes \<Rightarrow> u8 \<Rightarrow> bool" where
  "au_starts_new saw_vcl nal kind =
     (if kind = 9 then True
      else if kind = 7 \<or> kind = 8 then saw_vcl
      else if vcl_kind kind then (if \<not> saw_vcl then False else first_mb_in_slice nal = Some 0)
      else False)"

text \<open>The writes after the split decision: slice ids, parameter-set ids and the NAL itself.\<close>

definition aua_record :: "access_unit_assembler \<Rightarrow> bytes \<Rightarrow> u8 \<Rightarrow> access_unit_assembler" where
  "aua_record a nal kind =
     (let a = (if vcl_kind kind then
           let a = a\<lparr>aua_saw_vcl := True\<rparr>;
               a = (if kind = 5 then a\<lparr>aua_current := (aua_current a)\<lparr>contains_idr := True\<rparr>\<rparr> else a)
           in (case slice_header_ids nal of
                 Some (_, pps) \<Rightarrow> a\<lparr>aua_current := (aua_current a)\<lparr>au_pps_ids := push_id pps (au_pps_ids (aua_current a))\<rparr>\<rparr>
               | None \<Rightarrow> a)
         else a);
         a = (if kind = 7 then
             (case sps_id nal of
                Some i \<Rightarrow> a\<lparr>aua_current := (aua_current a)\<lparr>sps_ids := push_id i (sps_ids (aua_current a))\<rparr>\<rparr>
              | None \<Rightarrow> a)
           else if kind = 8 then
             (case pps_ids nal of
                Some (pps, _) \<Rightarrow> a\<lparr>aua_current := (aua_current a)\<lparr>au_pps_ids := push_id pps (au_pps_ids (aua_current a))\<rparr>\<rparr>
              | None \<Rightarrow> a)
           else a)
     in a\<lparr>aua_current := (aua_current a)\<lparr>au_nals := au_nals (aua_current a) @ [nal]\<rparr>\<rparr>)"

definition aua_push ::
  "access_unit_assembler \<Rightarrow> bytes \<Rightarrow> (access_unit_error + access_unit option) \<times> access_unit_assembler" where
  "aua_push a nal =
     (case au_nal_type nal of
        None \<Rightarrow> (Inl (TooManyNals (max_nals (aua_limits a))), a)
      | Some kind \<Rightarrow>
          if length nal > max_bytes (aua_limits a) then (Inl (TooManyBytes (max_bytes (aua_limits a))), a)
          else
            let starts_new = au_starts_new (aua_saw_vcl a) nal kind in
            if \<not> starts_new \<and> length (au_nals (aua_current a)) \<ge> max_nals (aua_limits a)
            then (Inl (TooManyNals (max_nals (aua_limits a))), a)
            else if \<not> starts_new \<and> current_byte_total a + length nal > max_bytes (aua_limits a)
            then (Inl (TooManyBytes (max_bytes (aua_limits a))), a)
            else if starts_new \<and> au_nals (aua_current a) \<noteq> [] then
              (Inr (Some (aua_current a)),
               aua_record (a\<lparr>aua_current := access_unit_empty, aua_saw_vcl := False, aua_emitted := aua_emitted a + 1\<rparr>) nal kind)
            else (Inr None, aua_record a nal kind))"

definition aua_flush :: "access_unit_assembler \<Rightarrow> access_unit option \<times> access_unit_assembler" where
  "aua_flush a =
     (if au_nals (aua_current a) = [] then (None, a)
      else (Some (aua_current a),
            a\<lparr>aua_current := access_unit_empty, aua_saw_vcl := False, aua_emitted := aua_emitted a + 1\<rparr>))"


section \<open>Exp-Golomb codes\<close>

definition byte_bits :: "u8 \<Rightarrow> bool list" where
  "byte_bits b = map (\<lambda>i. bit b (7 - i)) [0..<8]"

definition bits_of :: "bytes \<Rightarrow> bool list" where
  "bits_of bs = concat (map byte_bits bs)"

definition golomb_rest :: "golomb \<Rightarrow> bool list" where
  "golomb_rest g = drop (gb_bit g) (bits_of (gb_bytes g))"

text \<open>The code of ISO 14496-10, 9.1: as many zeros as the value plus one has bits after its leading one.\<close>

fun ue_len :: "nat \<Rightarrow> nat" where
  "ue_len n = (if n < 2 then 0 else Suc (ue_len (n div 2)))"

declare ue_len.simps [simp del]

fun bin_bits :: "nat \<Rightarrow> nat \<Rightarrow> bool list" where
  "bin_bits 0 n = []"
| "bin_bits (Suc k) n = bin_bits k (n div 2) @ [odd n]"

definition ue_code :: "nat \<Rightarrow> bool list" where
  "ue_code v = replicate (ue_len (v + 1)) False @ True # bin_bits (ue_len (v + 1)) (v + 1)"

lemma length_byte_bits [simp]: "length (byte_bits b) = 8"
  by (simp add: byte_bits_def)

lemma length_bits_of [simp]: "length (bits_of bs) = 8 * length bs"
  by (induction bs) (simp_all add: bits_of_def)

lemma bits_of_nth: "i < 8 * length bs \<Longrightarrow> bits_of bs ! i = bit (bs ! (i div 8)) (7 - i mod 8)"
proof (induction bs arbitrary: i)
  case (Cons b bs)
  show ?case
  proof (cases "i < 8")
    case True
    then show ?thesis by (simp add: bits_of_def nth_append byte_bits_def)
  next
    case False
    then have "bits_of (b # bs) ! i = bits_of bs ! (i - 8)" by (simp add: bits_of_def nth_append)
    then show ?thesis using Cons False by (simp add: div_if mod_if [of i])
  qed
qed simp

lemma read_bit_Cons:
  assumes "golomb_rest g = b # r"
  shows "\<exists>g'. read_bit g = (Some (of_bool b), g') \<and> golomb_rest g' = r"
proof -
  have lt: "gb_bit g < 8 * length (gb_bytes g)" using assms by (metis drop_all golomb_rest_def length_bits_of list.distinct(1) not_less)
  have b: "b = bits_of (gb_bytes g) ! gb_bit g" and r: "r = drop (Suc (gb_bit g)) (bits_of (gb_bytes g))"
    using assms lt by (simp_all add: golomb_rest_def Cons_nth_drop_Suc [symmetric])
  have "ucast (drop_bit (7 - gb_bit g mod 8) (gb_bytes g ! (gb_bit g div 8)) AND 1) = (of_bool b :: u32)"
    unfolding b bits_of_nth [OF lt] by (rule bit_word_eqI) (auto simp: bit_simps)
  moreover have "\<not> length (gb_bytes g) \<le> gb_bit g div 8" using lt by auto
  ultimately show ?thesis using r by (simp add: read_bit_def Let_def golomb_rest_def)
qed

lemma read_zeros_code:
  assumes "golomb_rest g = replicate k False @ True # r" and "n + k \<le> 31"
  shows "\<exists>g'. read_zeros g n = (Some (n + k), g') \<and> golomb_rest g' = r"
  using assms
proof (induction k arbitrary: g n)
  case 0
  then show ?case using read_bit_Cons [of g True r] by (subst read_zeros.simps) auto
next
  case (Suc k)
  obtain g' where g': "read_bit g = (Some 0, g')" "golomb_rest g' = replicate k False @ True # r"
    using read_bit_Cons [of g False] Suc.prems by auto
  then show ?case using Suc.IH [of g' "Suc n"] Suc.prems by (subst read_zeros.simps) auto
qed

lemma read_suffix_code:
  "golomb_rest g = xs @ r \<Longrightarrow>
    \<exists>g'. read_suffix g (length xs) v = (Some (foldl (\<lambda>v b. 2 * v + of_bool b) v xs), g') \<and> golomb_rest g' = r"
proof (induction xs arbitrary: g v)
  case (Cons b xs)
  obtain g' where "read_bit g = (Some (of_bool b), g')" "golomb_rest g' = xs @ r"
    using read_bit_Cons [of g b] Cons.prems by auto
  then show ?case using Cons.IH [of g'] by auto
qed simp

lemma bin_bits_value:
  "foldl (\<lambda>v b. 2 * v + of_bool b) v (bin_bits k n) = v * 2 ^ k + n mod 2 ^ k"
proof (induction k arbitrary: n)
  case (Suc k)
  have "n mod 2 ^ Suc k = 2 * (n div 2 mod 2 ^ k) + n mod 2" by (simp add: mod_mult2_eq)
  then show ?case using Suc [of "n div 2"] by (simp add: algebra_simps mod_2_eq_odd)
qed simp

lemma length_bin_bits [simp]: "length (bin_bits k n) = k"
  by (induction k arbitrary: n) simp_all

lemma ue_len_bounds: "0 < n \<Longrightarrow> 2 ^ ue_len n \<le> n \<and> n < 2 ^ Suc (ue_len n)"
proof (induction n rule: ue_len.induct)
  case (1 n)
  show ?case
  proof (cases "n < 2")
    case False
    then have "2 ^ ue_len (n div 2) \<le> n div 2 \<and> n div 2 < 2 ^ Suc (ue_len (n div 2))" using 1 by simp
    then show ?thesis using False by (subst (1 2) ue_len.simps) auto
  qed (use 1 in \<open>simp add: ue_len.simps\<close>)
qed

lemma read_ue_code:
  assumes "golomb_rest g = ue_code v @ r" and "v < 2 ^ 32 - 1"
  shows "\<exists>g'. read_ue g = (Some (of_nat v), g') \<and> golomb_rest g' = r"
proof -
  let ?k = "ue_len (v + 1)"
  have b: "2 ^ ?k \<le> v + 1" "v + 1 < 2 ^ Suc ?k" using ue_len_bounds [of "v + 1"] by auto
  then have "(2::nat) ^ ?k < 2 ^ 32" using assms(2) by linarith
  then have k: "0 + ?k \<le> 31" by (simp only: power_strict_increasing_iff)
  obtain g1 where g1: "read_zeros g 0 = (Some (0 + ?k), g1)" "golomb_rest g1 = bin_bits ?k (v + 1) @ r"
    using read_zeros_code [of g ?k "bin_bits ?k (v + 1) @ r" 0] assms(1) k by (auto simp: ue_code_def)
  obtain g2 where g2: "read_suffix g1 ?k 1 = (Some (2 ^ ?k + (v + 1) mod 2 ^ ?k), g2)" "golomb_rest g2 = r"
    using read_suffix_code [OF g1(2), of 1] by (auto simp: bin_bits_value)
  have "(v + 1) mod 2 ^ ?k = v + 1 - 2 ^ ?k" using b by (simp add: mod_if)
  then have "2 ^ ?k + (v + 1) mod 2 ^ ?k = v + 1" using b by simp
  then show ?thesis using g1 g2 assms(2) by (simp add: read_ue_def)
qed


text \<open>Conversely, whatever the reader returns is the code of the number it returns.\<close>

lemma read_bit_sound:
  assumes "read_bit g = (Some b, g')"
  shows "\<exists>c. b = of_bool c \<and> golomb_rest g = c # golomb_rest g'"
proof (cases "golomb_rest g")
  case Nil
  then have "length (gb_bytes g) \<le> gb_bit g div 8"
    by (metis div_le_mono drop_eq_Nil golomb_rest_def length_bits_of nonzero_mult_div_cancel_left zero_neq_numeral)
  then show ?thesis using assms by (simp add: read_bit_def Let_def)
next
  case (Cons c r)
  then show ?thesis using read_bit_Cons [OF Cons] assms by auto
qed

lemma read_zeros_sound:
  "read_zeros g n = (Some m, g') \<Longrightarrow> n \<le> 31 \<Longrightarrow>
     \<exists>k. m = n + k \<and> m \<le> 31 \<and> golomb_rest g = replicate k False @ True # golomb_rest g'"
proof (induction g n rule: read_zeros.induct)
  case (1 g n)
  obtain b g1 where b: "read_bit g = (Some b, g1)"
    using 1(2) by (subst (asm) read_zeros.simps) (auto split: prod.splits option.splits)
  obtain c where c: "b = of_bool c" "golomb_rest g = c # golomb_rest g1" using read_bit_sound [OF b] by blast
  show ?case
  proof (cases c)
    case True
    then have "m = n" "g' = g1" using 1(2) b c by (subst (asm) read_zeros.simps, auto)+
    then show ?thesis using True c 1(3) by (intro exI [of _ 0]) simp
  next
    case False
    then have le: "n + 1 \<le> 31" and r: "read_zeros g1 (n + 1) = (Some m, g')"
      using 1(2) b c by (subst (asm) read_zeros.simps, auto split: if_splits)+
    obtain k where "m = n + 1 + k" "m \<le> 31" "golomb_rest g1 = replicate k False @ True # golomb_rest g'"
      using 1(1) [OF b [symmetric] refl _ _ r le] c False le by auto
    then show ?thesis using c False by (intro exI [of _ "Suc k"]) simp
  qed
qed

lemma read_suffix_sound:
  "read_suffix g k v = (Some w, g') \<Longrightarrow>
     \<exists>xs. length xs = k \<and> golomb_rest g = xs @ golomb_rest g' \<and> w = foldl (\<lambda>v b. 2 * v + of_bool b) v xs"
proof (induction k arbitrary: g v)
  case (Suc k)
  obtain b g1 where b: "read_bit g = (Some b, g1)" "read_suffix g1 k (2 * v + unat b) = (Some w, g')"
    using Suc.prems by (auto split: prod.splits option.splits)
  obtain c where c: "b = of_bool c" "golomb_rest g = c # golomb_rest g1" using read_bit_sound [OF b(1)] by blast
  obtain xs where "length xs = k" "golomb_rest g1 = xs @ golomb_rest g'"
    "w = foldl (\<lambda>v b. 2 * v + of_bool b) (2 * v + unat b) xs" using Suc.IH [OF b(2)] by blast
  then show ?case using c by (intro exI [of _ "c # xs"]) (auto split: if_splits)
qed auto

lemma bin_bits_foldl: "bin_bits (length xs) (foldl (\<lambda>v b. 2 * v + of_bool b) v xs) = xs"
  by (induction xs rule: rev_induct) auto

lemma ue_len_unique: "2 ^ k \<le> n \<Longrightarrow> n < 2 ^ Suc k \<Longrightarrow> ue_len n = k"
proof -
  assume k: "2 ^ k \<le> n" "n < 2 ^ Suc k"
  then have "0 < n" by (cases "n = 0") auto
  then have l: "2 ^ ue_len n \<le> n" "n < 2 ^ Suc (ue_len n)" using ue_len_bounds by blast+
  have "(2::nat) ^ k < 2 ^ Suc (ue_len n)" "(2::nat) ^ ue_len n < 2 ^ Suc k" using k l by linarith+
  then have "k < Suc (ue_len n)" "ue_len n < Suc k" by (meson one_less_numeral_iff power_less_imp_less_exp semiring_norm(76))+
  then show ?thesis by simp
qed

lemma read_ue_sound:
  assumes "read_ue g = (Some w, g')"
  shows "\<exists>v. golomb_rest g = ue_code v @ golomb_rest g' \<and> v < 2 ^ 32 - 1 \<and> w = of_nat v"
proof -
  obtain k g1 x where z: "read_zeros g 0 = (Some k, g1)" and s: "read_suffix g1 k 1 = (Some x, g')" and w: "w = of_nat (x - 1)"
    using assms by (auto simp: read_ue_def split: prod.splits option.splits if_splits)
  have k: "k \<le> 31" "golomb_rest g = replicate k False @ True # golomb_rest g1" using read_zeros_sound [OF z] by auto
  obtain xs where xs: "length xs = k" "golomb_rest g1 = xs @ golomb_rest g'" "x = foldl (\<lambda>v b. 2 * v + of_bool b) 1 xs"
    using read_suffix_sound [OF s] by blast
  have bits: "bin_bits k x = xs" using bin_bits_foldl [of xs 1] xs(1,3) by simp
  have x: "x = 2 ^ k + x mod 2 ^ k"
    using bin_bits_value [of 1 k x] bits xs(3) by simp
  have "x mod 2 ^ k < 2 ^ k" by simp
  then have r: "2 ^ k \<le> x" "x < 2 ^ Suc k" using x unfolding power_Suc by linarith+
  have "(2::nat) ^ Suc k \<le> 2 ^ 32" using k(1) by (intro power_increasing) auto
  then have "x < 2 ^ 32" by (rule less_le_trans [OF r(2)])
  moreover have "0 < x" using r(1) by (cases "x = 0") auto
  ultimately have "x - 1 < 2 ^ 32 - 1" "0 < x" by linarith+
  moreover from this have "ue_code (x - 1) = replicate k False @ True # xs"
    using ue_len_unique [OF r] bits by (simp add: ue_code_def)
  ultimately show ?thesis using k(2) xs(2) w by (intro exI [of _ "x - 1"]) simp
qed


section \<open>Emulation prevention\<close>

text \<open>What an encoder does: after two zero bytes a byte of at most 3 is preceded by a 3.\<close>

fun escape_from :: "nat \<Rightarrow> bytes \<Rightarrow> bytes" where
  "escape_from z [] = []"
| "escape_from z (b # bs) =
     (if z \<ge> 2 \<and> b \<le> 3 then 3 # b # escape_from (if b = 0 then 1 else 0) bs
      else b # escape_from (if b = 0 then z + 1 else 0) bs)"

lemma unescape_escape_from:
  "length out + n = lim \<Longrightarrow> 0 < n \<Longrightarrow> z \<le> 2 \<Longrightarrow> n + (n + z - 1) div 2 \<le> m
    \<Longrightarrow> unescape_from lim z out (take m (escape_from z s)) = out @ take n s"
proof (induction s arbitrary: out n z m)
  case (Cons b s)
  obtain k where n: "n = Suc k" using Cons.prems by (cases n) auto
  have cont: "(if length (out @ [b]) = lim then out @ [b] else unescape_from lim z' (out @ [b]) (take m' (escape_from z' s)))
      = out @ take n (b # s)" if "z' \<le> 2" "k + (k + z' - 1) div 2 \<le> m'" for z' m'
    using Cons.IH [of "out @ [b]" k z' m'] Cons.prems(1) n that by auto
  show ?case
  proof (cases "z \<ge> 2 \<and> b \<le> 3")
    case True
    obtain m' where m: "m = Suc (Suc m')" using Cons.prems(4) n True by (cases m; cases "m - 1") auto
    have "k + (k + (if b = 0 then 1 else 0) - 1) div 2 \<le> m'" using Cons.prems(3,4) n True m by auto
    then show ?thesis using True cont [of "if b = 0 then 1 else 0" m'] m by (cases "b = 0") (auto simp: Let_def)
  next
    case False
    obtain m' where m: "m = Suc m'" using Cons.prems(4) n by (cases m) auto
    have "k + (k + (if b = 0 then z + 1 else 0) - 1) div 2 \<le> m'" using Cons.prems(3,4) n m by auto
    then show ?thesis using False cont [of "if b = 0 then z + 1 else 0" m'] m Cons.prems(3) by (auto simp: Let_def)
  qed
qed simp

lemma unescape_escape: "unescape_prefix (escape_from 0 s) 8 = take 8 s"
  using unescape_escape_from [of "[]" 8 8 0 12 s] by (simp add: unescape_prefix_def)

text \<open>Reading back what an encoder writes: if the first eight bytes of a slice header begin with the
  Exp-Golomb codes of two numbers, then from the NAL unit carrying the escaped header the reader
  recovers exactly those two numbers, whatever emulation-prevention bytes the escaping inserted.
\<close>

theorem slice_header_roundtrip:
  assumes "bits_of (take 8 s) = ue_code first_mb @ ue_code pps @ r"
    and "first_mb < 2 ^ 32 - 1" and "pps < 2 ^ 32 - 1"
  shows "slice_header_ids (h # escape_from 0 s) = Some (of_nat first_mb, of_nat pps)
    \<and> first_mb_in_slice (h # escape_from 0 s) = Some (of_nat first_mb)
    \<and> pps_ids (h # escape_from 0 s) = Some (of_nat first_mb, of_nat pps)"
proof -
  have "golomb_rest (golomb_of (h # escape_from 0 s)) = ue_code first_mb @ ue_code pps @ r"
    using assms(1) by (simp add: golomb_of_def golomb_rest_def unescape_escape)
  then obtain g where g: "read_ue (golomb_of (h # escape_from 0 s)) = (Some (of_nat first_mb), g)"
    "golomb_rest g = ue_code pps @ r" using read_ue_code assms(2) by blast
  then obtain g' where "read_ue g = (Some (of_nat pps), g')" using read_ue_code assms(3) by blast
  then show ?thesis using g by (simp add: slice_header_ids_def first_mb_in_slice_def pps_ids_def)
qed

text \<open>A header with two zero bytes followed by 1, which the escaping has to break up.\<close>

theorem slice_header_roundtrip_witness:
  "escape_from 0 [0xa0, 0, 0, 1] = [0xa0, 0, 0, 3, 1]
   \<and> slice_header_ids (0x41 # escape_from 0 [0xa0, 0, 0, 1]) = Some (of_nat 0, of_nat 1)"
proof -
  have "bits_of (take 8 [0xa0, 0, 0, 1]) = ue_code 0 @ ue_code 1 @ drop 4 (bits_of [0xa0, 0, 0, 1])" by code_simp
  then show ?thesis
    using slice_header_roundtrip [of "[0xa0, 0, 0, 1]" 0 1 "drop 4 (bits_of [0xa0, 0, 0, 1])" "0x41"] by simp
qed

text \<open>
  The id that \<open>sps_id\<close> reports is read from the byte that holds \<open>profile_idc\<close>: for every baseline
  (66) parameter set it is 1, whatever \<open>seq_parameter_set_id\<close> the NAL unit carries three bytes later.
\<close>

lemma unescape_from_prefix: "\<exists>r. unescape_from lim z out bs = out @ r"
proof (induction bs arbitrary: z out)
  case (Cons b bs)
  obtain r where "unescape_from lim z' (out @ [b]) bs = out @ b # r z'" for z'
    using Cons [of _ "out @ [b]"] by simp metis
  then show ?case using Cons [of 0 out] by (simp add: Let_def)
qed simp

lemma sps_id_reads_profile: "sps_id (h # 66 # s) = Some 1"
proof -
  obtain r where r: "unescape_prefix (66 # s) 8 = 66 # r"
    using unescape_from_prefix [of 8 0 "[66]"] by (auto simp: unescape_prefix_def)
  have "byte_bits 66 = ue_code 1 @ [False, False, False, True, False]" by code_simp
  then have "golomb_rest (golomb_of (h # 66 # s)) = ue_code 1 @ [False, False, False, True, False] @ bits_of r"
    by (simp add: golomb_of_def golomb_rest_def r bits_of_def)
  then obtain g where "read_ue (golomb_of (h # 66 # s)) = (Some (of_nat 1), g)" using read_ue_code [of _ 1] by auto
  then show ?thesis by (simp add: sps_id_def)
qed


section \<open>The numbers a NAL unit carries\<close>

text \<open>
  What the reader should see, without the reader: the payload with every emulation-prevention byte
  removed (ISO 14496-10, 7.3.1.1: the 3 of every 0, 0, 3), the bits of its first eight bytes, and the
  Exp-Golomb codes these begin with.
\<close>

fun rbsp :: "bytes \<Rightarrow> bytes" where
  "rbsp [] = []"
| "rbsp (b # bs) = (if b = 0 \<and> take 2 bs = [0, 3] then 0 # 0 # rbsp (drop 2 bs) else b # rbsp bs)"

definition rbsp_bits :: "bytes \<Rightarrow> bool list" where
  "rbsp_bits nal = bits_of (take 8 (rbsp (drop 1 nal)))"

definition carries :: "bytes \<Rightarrow> nat list \<Rightarrow> bool" where
  "carries nal vs \<longleftrightarrow> prefix (concat (map ue_code vs)) (rbsp_bits nal) \<and> (\<forall>v\<in>set vs. v < 2 ^ 32 - 1)"

text \<open>The filter of the code, without its limit.\<close>

fun stripped :: "nat \<Rightarrow> bytes \<Rightarrow> bytes" where
  "stripped z [] = []"
| "stripped z (b # bs) =
     (if z \<ge> 2 \<and> b = 3 then stripped 0 bs else b # stripped (if b = 0 then z + 1 else 0) bs)"

lemma stripped_rbsp:
  "stripped 0 bs = rbsp bs \<and> 0 # stripped 1 bs = rbsp (0 # bs) \<and> (\<forall>z\<ge>2. 0 # 0 # stripped z bs = rbsp (0 # 0 # bs))"
proof (induction bs)
  case (Cons b bs)
  have "rbsp (b # bs) = b # rbsp bs" "rbsp (0 # b # bs) = 0 # b # rbsp bs" if "b \<noteq> 0" using that by simp_all
  moreover have "rbsp (0 # 0 # b # bs) = 0 # 0 # b # rbsp bs" if "b \<noteq> 0" "b \<noteq> 3" using that by simp
  moreover have "rbsp (0 # 0 # 3 # bs) = 0 # 0 # rbsp bs" by simp
  moreover have "rbsp (0 # 0 # 0 # bs) = 0 # rbsp (0 # 0 # bs)" by simp
  ultimately show ?case
    using Cons by (cases "b = 0"; cases "b = 3") (auto simp del: rbsp.simps(2) simp: rbsp.simps(2) [of b])
qed simp

lemma unescape_stripped:
  "length out + n = lim \<Longrightarrow> 0 < n \<Longrightarrow> n + (n + min z 2 - 1) div 2 \<le> m
    \<Longrightarrow> unescape_from lim z out (take m s) = out @ take n (stripped z s)"
proof (induction s arbitrary: out n z m)
  case (Cons b s)
  obtain k where n: "n = Suc k" using Cons.prems by (cases n) auto
  obtain m' where m: "m = Suc m'" using Cons.prems(3) n by (cases m) auto
  show ?case
  proof (cases "z \<ge> 2 \<and> b = 3")
    case True
    then have "n + (n + min 0 2 - 1) div 2 \<le> m'" using Cons.prems(3) n m by auto
    then show ?thesis using Cons.IH [of out n 0 m'] Cons.prems(1,2) True m by simp
  next
    case False
    let ?z = "if b = 0 then z + 1 else 0"
    have "k + (k + min ?z 2 - 1) div 2 \<le> m'" using Cons.prems(3) n m by auto
    then have "0 < k \<Longrightarrow> unescape_from lim ?z (out @ [b]) (take m' s) = (out @ [b]) @ take k (stripped ?z s)"
      using Cons.IH [of "out @ [b]" k ?z m'] Cons.prems(1) n by simp
    then show ?thesis using False Cons.prems(1) n m by (cases "k = 0") (auto simp: Let_def)
  qed
qed simp

lemma unescape_rbsp: "unescape_prefix p 8 = take 8 (rbsp p)"
  using unescape_stripped [of "[]" 8 8 0 12 p] stripped_rbsp [of p] by (simp add: unescape_prefix_def)

lemma golomb_of_rest: "golomb_rest (golomb_of nal) = rbsp_bits nal"
  by (simp add: golomb_of_def golomb_rest_def rbsp_bits_def unescape_rbsp)

lemma read_one:
  "fst (read_ue (golomb_of nal)) = Some w \<longleftrightarrow> (\<exists>v. carries nal [v] \<and> w = of_nat v)"
proof
  assume "fst (read_ue (golomb_of nal)) = Some w"
  then obtain g where "read_ue (golomb_of nal) = (Some w, g)" by (metis prod.collapse)
  from read_ue_sound [OF this] show "\<exists>v. carries nal [v] \<and> w = of_nat v"
    by (auto simp: golomb_of_rest carries_def prefix_def)
next
  assume "\<exists>v. carries nal [v] \<and> w = of_nat v"
  then obtain v r where "golomb_rest (golomb_of nal) = ue_code v @ r" "v < 2 ^ 32 - 1" "w = of_nat v"
    by (auto simp: golomb_of_rest carries_def prefix_def)
  then show "fst (read_ue (golomb_of nal)) = Some w" using read_ue_code by fastforce
qed

lemma read_two:
  "(\<exists>g. read_ue (golomb_of nal) = (Some w, g) \<and> fst (read_ue g) = Some x)
   \<longleftrightarrow> (\<exists>v u. carries nal [v, u] \<and> w = of_nat v \<and> x = of_nat u)"
proof
  assume "\<exists>g. read_ue (golomb_of nal) = (Some w, g) \<and> fst (read_ue g) = Some x"
  then obtain g g' where "read_ue (golomb_of nal) = (Some w, g)" "read_ue g = (Some x, g')" by (metis prod.collapse)
  from read_ue_sound [OF this(1)] read_ue_sound [OF this(2)]
  show "\<exists>v u. carries nal [v, u] \<and> w = of_nat v \<and> x = of_nat u"
    by (auto simp: golomb_of_rest carries_def prefix_def) blast
next
  assume "\<exists>v u. carries nal [v, u] \<and> w = of_nat v \<and> x = of_nat u"
  then obtain v u r where r: "golomb_rest (golomb_of nal) = ue_code v @ ue_code u @ r" "v < 2 ^ 32 - 1" "u < 2 ^ 32 - 1"
    and e: "w = of_nat v" "x = of_nat u" by (auto simp: golomb_of_rest carries_def prefix_def)
  obtain g where "read_ue (golomb_of nal) = (Some w, g)" "golomb_rest g = ue_code u @ r" using read_ue_code [OF r(1,2)] e by blast
  then show "\<exists>g. read_ue (golomb_of nal) = (Some w, g) \<and> fst (read_ue g) = Some x"
    using read_ue_code [OF _ r(3)] e by fastforce
qed

text \<open>The four readers of the code, against what the NAL unit carries.\<close>

lemma first_mb_in_slice_carries: "first_mb_in_slice nal = Some w \<longleftrightarrow> (\<exists>v. carries nal [v] \<and> w = of_nat v)"
  by (simp add: first_mb_in_slice_def read_one)

lemma sps_id_carries: "sps_id nal = Some w \<longleftrightarrow> (\<exists>v. carries nal [v] \<and> w = of_nat v)"
  by (simp add: sps_id_def read_one)

lemma slice_header_ids_carries:
  "slice_header_ids nal = Some (w, x) \<longleftrightarrow> (\<exists>v u. carries nal [v, u] \<and> w = of_nat v \<and> x = of_nat u)"
  unfolding read_two [symmetric] by (auto simp: slice_header_ids_def split: prod.splits option.splits)

lemma pps_ids_carries:
  "pps_ids nal = Some (w, x) \<longleftrightarrow> (\<exists>v u. carries nal [v, u] \<and> w = of_nat v \<and> x = of_nat u)"
  unfolding read_two [symmetric] by (auto simp: pps_ids_def split: prod.splits option.splits)

lemma first_mb_zero: "first_mb_in_slice nal = Some 0 \<longleftrightarrow> carries nal [0]"
proof
  assume "first_mb_in_slice nal = Some 0"
  then obtain v where v: "carries nal [v]" "of_nat v = (0 :: u32)" by (metis first_mb_in_slice_carries)
  then have "v < 2 ^ 32" by (simp add: carries_def)
  then have "v = 0" using v(2) by (auto simp: word_of_nat_eq_0_iff dest: dvd_imp_le)
  then show "carries nal [0]" using v by simp
qed (use first_mb_in_slice_carries in force)

lemma carries_reads:
  "carries nal [v] \<Longrightarrow> sps_id nal = Some (of_nat v)"
  "carries nal [v, u] \<Longrightarrow> slice_header_ids nal = Some (of_nat v, of_nat u)"
  "carries nal [v, u] \<Longrightarrow> pps_ids nal = Some (of_nat v, of_nat u)"
  using sps_id_carries slice_header_ids_carries pps_ids_carries by blast+

text \<open>
  A slice header of the standard begins with \<open>first_mb_in_slice\<close>, \<open>slice_type\<close> and
  \<open>pic_parameter_set_id\<close>, in this order. The id that \<open>slice_header_ids\<close> reports is the slice type.
\<close>

lemma slice_pps_id_reads_slice_type:
  assumes "carries nal [first_mb, slice_type, pic_parameter_set_id]"
  shows "slice_header_ids nal = Some (of_nat first_mb, of_nat slice_type)"
proof (rule carries_reads(2))
  show "carries nal [first_mb, slice_type]"
    using assms by (auto simp: carries_def prefix_def)
qed


section \<open>Assembly\<close>

definition kind_of :: "bytes \<Rightarrow> u8" where
  "kind_of nal = nal ! 0 AND 0x1F"

definition has_vcl :: "bytes list \<Rightarrow> bool" where
  "has_vcl ns \<longleftrightarrow> (\<exists>n\<in>set ns. vcl_kind (kind_of n))"

text \<open>
  Where the code splits, on the NAL units already in the unit: before a delimiter, before a parameter
  set after slice data, or before a slice that starts at macroblock 0 after slice data. The module's
  documentation has the third rule without the condition on slice data (\<open>au_documented\<close>).
\<close>

definition au_boundary :: "bytes list \<Rightarrow> bytes \<Rightarrow> bool" where
  "au_boundary cur n \<longleftrightarrow>
     kind_of n = 9
     \<or> kind_of n \<in> {7, 8} \<and> has_vcl cur
     \<or> vcl_kind (kind_of n) \<and> has_vcl cur \<and> carries n [0]"

definition au_documented :: "bytes list \<Rightarrow> bytes \<Rightarrow> bool" where
  "au_documented cur n \<longleftrightarrow>
     kind_of n = 9
     \<or> kind_of n \<in> {7, 8} \<and> has_vcl cur
     \<or> vcl_kind (kind_of n) \<and> carries n [0]"

fun segments_by :: "(bytes list \<Rightarrow> bytes \<Rightarrow> bool) \<Rightarrow> bytes list \<Rightarrow> bytes list \<Rightarrow> bytes list list" where
  "segments_by B cur [] = (if cur = [] then [] else [cur])"
| "segments_by B cur (n # ns) =
     (if cur \<noteq> [] \<and> B cur n then cur # segments_by B [n] ns else segments_by B (cur @ [n]) ns)"

abbreviation au_segments :: "bytes list \<Rightarrow> bytes list \<Rightarrow> bytes list list" where
  "au_segments \<equiv> segments_by au_boundary"

lemma concat_au_segments: "concat (segments_by B cur ns) = cur @ ns"
  by (induction B cur ns rule: segments_by.induct) auto

text \<open>A delimiter and the first slice of a picture: one unit for the code, two by the documented rules.\<close>

lemma carries_0: "carries nal [0] \<longleftrightarrow> (case rbsp_bits nal of [] \<Rightarrow> False | b # _ \<Rightarrow> b)"
  by (auto simp: carries_def ue_code_def ue_len.simps split: list.splits)

lemma documented_splits_first_slice:
  "segments_by au_boundary [] [[9, 240], [0x65, 0x88]] = [[[9, 240], [0x65, 0x88]]]"
  "segments_by au_documented [] [[9, 240], [0x65, 0x88]] = [[[9, 240]], [[0x65, 0x88]]]"
  by (simp_all add: au_boundary_def au_documented_def kind_of_def has_vcl_def vcl_kind_def carries_0 rbsp_bits_def
    bits_of_def byte_bits_def upt_rec)

text \<open>
  What a unit says about itself. The sequence parameter set ids are the first Exp-Golomb codes after
  the header byte of its units of type 7, which is where the code looks (in a sequence parameter set
  of the standard that byte is \<open>profile_idc\<close>, see \<open>sps_id_reads_profile\<close>). The picture parameter set
  ids are the second codes of its slices (in the standard the slice type, see
  \<open>slice_pps_id_reads_slice_type\<close>) and the first codes of its units of type 8. Codes above 255 are left
  out.
\<close>

definition carried :: "(bytes \<Rightarrow> nat \<Rightarrow> bool) \<Rightarrow> bytes list \<Rightarrow> u8 set" where
  "carried P ns = {of_nat v | v. v \<le> 255 \<and> (\<exists>n\<in>set ns. P n v)}"

definition carries_sps :: "bytes \<Rightarrow> nat \<Rightarrow> bool" where
  "carries_sps n v \<longleftrightarrow> kind_of n = 7 \<and> carries n [v]"

definition carries_pps :: "bytes \<Rightarrow> nat \<Rightarrow> bool" where
  "carries_pps n v \<longleftrightarrow>
     vcl_kind (kind_of n) \<and> (\<exists>first_mb. carries n [first_mb, v])
     \<or> kind_of n = 8 \<and> (\<exists>sps. carries n [v, sps])"

definition au_describes :: "access_unit \<Rightarrow> bool" where
  "au_describes u \<longleftrightarrow>
     (contains_idr u \<longleftrightarrow> (\<exists>n\<in>set (au_nals u). kind_of n = 5))
     \<and> set (sps_ids u) = carried carries_sps (au_nals u) \<and> distinct (sps_ids u)
     \<and> set (au_pps_ids u) = carried carries_pps (au_nals u) \<and> distinct (au_pps_ids u)"

text \<open>What the code reads from one unit for each list.\<close>

definition sps_read :: "bytes \<Rightarrow> u32 option" where
  "sps_read n = (if kind_of n = 7 then sps_id n else None)"

definition pps_read :: "bytes \<Rightarrow> u32 option" where
  "pps_read n = (if vcl_kind (kind_of n) then map_option snd (slice_header_ids n)
                 else if kind_of n = 8 then map_option fst (pps_ids n) else None)"

definition au_fits :: "access_unit_limits \<Rightarrow> access_unit \<Rightarrow> bool" where
  "au_fits l u \<longleftrightarrow> length (au_nals u) \<le> max_nals l \<and> sum_list (map length (au_nals u)) \<le> max_bytes l
     \<and> [] \<notin> set (au_nals u)"

definition aua_inv :: "access_unit_limits \<Rightarrow> access_unit_assembler \<Rightarrow> bool" where
  "aua_inv l a \<longleftrightarrow>
     aua_limits a = l \<and> 0 < max_nals l \<and> au_describes (aua_current a) \<and> au_fits l (aua_current a)
     \<and> aua_saw_vcl a = has_vcl (au_nals (aua_current a))"

lemma push_id_set: "set (push_id i ids) = (if unat i \<le> 255 then insert (ucast i) (set ids) else set ids)"
  by (auto simp: push_id_def)

lemma push_id_distinct: "distinct ids \<Longrightarrow> distinct (push_id i ids)"
  by (auto simp: push_id_def)

lemma not_vcl [simp]: "vcl_kind 7 = False" "vcl_kind 8 = False" "vcl_kind 9 = False" "vcl_kind 5 = True"
  by (simp_all add: vcl_kind_def)

lemma sps_read_carries: "sps_read n = Some w \<longleftrightarrow> (\<exists>v. carries_sps n v \<and> w = of_nat v)"
  by (simp add: sps_read_def carries_sps_def sps_id_carries)

lemma pps_read_carries: "pps_read n = Some w \<longleftrightarrow> (\<exists>v. carries_pps n v \<and> w = of_nat v)"
  by (auto simp: pps_read_def carries_pps_def slice_header_ids_carries pps_ids_carries)

text \<open>One more unit: the lists grow by the id read from it, if it fits a byte.\<close>

lemma carried_snoc:
  fixes f :: "bytes \<Rightarrow> u32 option"
  assumes "\<And>w. f n = Some w \<longleftrightarrow> (\<exists>v. P n v \<and> w = of_nat v)" and "\<And>v. P n v \<Longrightarrow> v < 2 ^ 32 - 1"
  shows "carried P (ns @ [n]) = (case f n of
      Some i \<Rightarrow> if unat i \<le> 255 then insert (ucast i) (carried P ns) else carried P ns
    | None \<Rightarrow> carried P ns)"
proof -
  have "carried P (ns @ [n]) = {of_nat v | v. v \<le> 255 \<and> P n v} \<union> carried P ns"
    by (auto simp: carried_def)
  also have "{of_nat v | v. v \<le> 255 \<and> P n v} = (case f n of
      Some i \<Rightarrow> if unat i \<le> 255 then {ucast i :: u8} else {} | None \<Rightarrow> {})"
  proof (cases "f n")
    case None
    then show ?thesis using assms(1) by auto
  next
    case (Some i)
    then obtain v where v: "P n v" "i = of_nat v" using assms(1) by blast
    have u: "unat (of_nat w :: u32) = w" if "P n w" for w
      using assms(2) [OF that] by (simp add: unat_of_nat)
    have "P n w \<longleftrightarrow> w = v" for w
      using u [of w] u [OF v(1)] assms(1) Some v by (metis option.inject)
    then have "{of_nat w | w. w \<le> 255 \<and> P n w} = (if v \<le> 255 then {of_nat v :: u8} else {})" by auto
    moreover have "ucast i = (of_nat v :: u8)" using u [OF v(1)] v(2) by (metis of_nat_unat)
    ultimately show ?thesis using Some u [OF v(1)] v(2) by simp
  qed
  finally show ?thesis by (auto split: option.splits)
qed

lemma carries_bound: "carries_sps n v \<Longrightarrow> v < 2 ^ 32 - 1" "carries_pps n v \<Longrightarrow> v < 2 ^ 32 - 1"
  by (auto simp: carries_sps_def carries_pps_def carries_def)

lemma sps_carried_snoc:
  "carried carries_sps (ns @ [n]) = (case sps_read n of
      Some i \<Rightarrow> if unat i \<le> 255 then insert (ucast i) (carried carries_sps ns) else carried carries_sps ns
    | None \<Rightarrow> carried carries_sps ns)"
  by (rule carried_snoc [OF sps_read_carries]) (rule carries_bound)

lemma pps_carried_snoc:
  "carried carries_pps (ns @ [n]) = (case pps_read n of
      Some i \<Rightarrow> if unat i \<le> 255 then insert (ucast i) (carried carries_pps ns) else carried carries_pps ns
    | None \<Rightarrow> carried carries_pps ns)"
  by (rule carried_snoc [OF pps_read_carries]) (rule carries_bound)

lemma aua_record_fields:
  "aua_limits (aua_record a n k) = aua_limits a" "aua_emitted (aua_record a n k) = aua_emitted a"
  "au_nals (aua_current (aua_record a n k)) = au_nals (aua_current a) @ [n]"
  "aua_saw_vcl (aua_record a n k) = (vcl_kind k \<or> aua_saw_vcl a)"
  "contains_idr (aua_current (aua_record a n k)) = (k = 5 \<or> contains_idr (aua_current a))"
  "sps_ids (aua_current (aua_record a n k)) =
     (if k = 7 then (case sps_id n of Some i \<Rightarrow> push_id i (sps_ids (aua_current a)) | None \<Rightarrow> sps_ids (aua_current a))
      else sps_ids (aua_current a))"
  "au_pps_ids (aua_current (aua_record a n k)) =
     (case (if vcl_kind k then map_option snd (slice_header_ids n) else if k = 8 then map_option fst (pps_ids n) else None) of
        Some i \<Rightarrow> push_id i (au_pps_ids (aua_current a)) | None \<Rightarrow> au_pps_ids (aua_current a))"
  by (auto simp: aua_record_def Let_def split: option.splits)

lemma aua_record_describes:
  assumes "au_describes (aua_current a)"
  shows "au_describes (aua_current (aua_record a n (kind_of n)))"
proof -
  let ?u = "aua_current (aua_record a n (kind_of n))"
  have sps: "sps_ids ?u = (case sps_read n of Some i \<Rightarrow> push_id i (sps_ids (aua_current a)) | None \<Rightarrow> sps_ids (aua_current a))"
    and pps: "au_pps_ids ?u = (case pps_read n of Some i \<Rightarrow> push_id i (au_pps_ids (aua_current a)) | None \<Rightarrow> au_pps_ids (aua_current a))"
    by (simp_all add: aua_record_fields sps_read_def pps_read_def)
  have "set (sps_ids ?u) = carried carries_sps (au_nals ?u) \<and> distinct (sps_ids ?u)"
    using assms unfolding sps aua_record_fields(3) sps_carried_snoc
    by (cases "sps_read n") (simp_all add: au_describes_def push_id_set push_id_distinct)
  moreover have "set (au_pps_ids ?u) = carried carries_pps (au_nals ?u) \<and> distinct (au_pps_ids ?u)"
    using assms unfolding pps aua_record_fields(3) pps_carried_snoc
    by (cases "pps_read n") (simp_all add: au_describes_def push_id_set push_id_distinct)
  moreover have "contains_idr ?u \<longleftrightarrow> (\<exists>n\<in>set (au_nals ?u). kind_of n = 5)"
    using assms by (auto simp: au_describes_def aua_record_fields)
  ultimately show ?thesis by (simp add: au_describes_def)
qed

lemma au_starts_new_boundary: "au_starts_new (has_vcl cur) n (kind_of n) = au_boundary cur n"
  by (auto simp: au_starts_new_def au_boundary_def first_mb_zero)

text \<open>The code's boundaries are the documented ones, less those before the first slice of a unit.\<close>

lemma au_boundary_documented:
  "au_boundary cur n \<longleftrightarrow> au_documented cur n \<and> (vcl_kind (kind_of n) \<longrightarrow> has_vcl cur)"
  by (auto simp: au_boundary_def au_documented_def)

lemma access_unit_empty_simps [simp]:
  "au_nals access_unit_empty = []" "au_describes access_unit_empty" "au_fits l access_unit_empty"
  by (simp_all add: access_unit_empty_def au_describes_def carried_def au_fits_def)

text \<open>One push of the invariant's assembler, by outcome.\<close>

lemma aua_push_Inl: "aua_push a n = (Inl e, a') \<Longrightarrow> a' = a"
  by (auto simp: aua_push_def Let_def split: option.splits if_splits)

lemma aua_push_Inr:
  assumes "aua_inv l a" and "aua_push a n = (Inr u, a')"
  shows "aua_inv l a'"
    "if au_nals (aua_current a) \<noteq> [] \<and> au_boundary (au_nals (aua_current a)) n
     then u = Some (aua_current a) \<and> au_nals (aua_current a') = [n] \<and> aua_emitted a' = aua_emitted a + 1
     else u = None \<and> au_nals (aua_current a') = au_nals (aua_current a) @ [n] \<and> aua_emitted a' = aua_emitted a"
proof -
  have I: "aua_limits a = l" "0 < max_nals l" "au_describes (aua_current a)" "au_fits l (aua_current a)"
    "aua_saw_vcl a = has_vcl (au_nals (aua_current a))" using assms(1) by (auto simp: aua_inv_def)
  let ?b = "au_boundary (au_nals (aua_current a)) n"
  have n: "n \<noteq> []" "au_nal_type n = Some (kind_of n)" "length n \<le> max_bytes l"
    using assms(2) I by (auto simp: aua_push_def au_nal_type_def kind_of_def split: if_splits)
  have st: "au_starts_new (aua_saw_vcl a) n (kind_of n) = ?b" using I(5) au_starts_new_boundary by simp
  have room: "length (au_nals (aua_current a)) < max_nals l" "current_byte_total a + length n \<le> max_bytes l" if "\<not> ?b"
    using assms(2) n st I that by (auto simp: aua_push_def split: if_splits)
  define a0 where "a0 = (if au_nals (aua_current a) \<noteq> [] \<and> ?b
    then a\<lparr>aua_current := access_unit_empty, aua_saw_vcl := False, aua_emitted := aua_emitted a + 1\<rparr> else a)"
  have res: "a' = aua_record a0 n (kind_of n)"
    "u = (if au_nals (aua_current a) \<noteq> [] \<and> ?b then Some (aua_current a) else None)"
    using assms(2) n st I by (auto simp: aua_push_def a0_def Let_def split: if_splits)
  have a0: "aua_limits a0 = l" "au_describes (aua_current a0)" "aua_saw_vcl a0 = has_vcl (au_nals (aua_current a0))"
    "length (au_nals (aua_current a0)) < max_nals l"
    "sum_list (map length (au_nals (aua_current a0))) + length n \<le> max_bytes l" "[] \<notin> set (au_nals (aua_current a0))"
    using I n room by (auto simp: a0_def has_vcl_def current_byte_total_def au_fits_def)
  show "aua_inv l a'"
    using a0 I(2) n aua_record_describes [OF a0(2)]
    by (auto simp: res aua_inv_def aua_record_fields au_fits_def has_vcl_def)
  show "if au_nals (aua_current a) \<noteq> [] \<and> ?b
     then u = Some (aua_current a) \<and> au_nals (aua_current a') = [n] \<and> aua_emitted a' = aua_emitted a + 1
     else u = None \<and> au_nals (aua_current a') = au_nals (aua_current a) @ [n] \<and> aua_emitted a' = aua_emitted a"
    by (auto simp: res aua_record_fields a0_def)
qed

text \<open>A stream of NAL units through the assembler: the units completed, the NAL units taken, the state left.\<close>

fun aua_run :: "access_unit_assembler \<Rightarrow> bytes list \<Rightarrow> access_unit list \<times> bytes list \<times> access_unit_assembler" where
  "aua_run a [] = ([], [], a)"
| "aua_run a (n # ns) =
     (case aua_push a n of
        (Inl _, a') \<Rightarrow> aua_run a' ns
      | (Inr u, a') \<Rightarrow>
          (case aua_run a' ns of (us, taken, a'') \<Rightarrow> ((case u of None \<Rightarrow> us | Some x \<Rightarrow> x # us), n # taken, a'')))"

lemma aua_run_segments:
  assumes "aua_inv l a" and "aua_run a ns = (us, taken, a')"
  shows "aua_inv l a'
    \<and> map au_nals us @ (if au_nals (aua_current a') = [] then [] else [au_nals (aua_current a')])
        = au_segments (au_nals (aua_current a)) taken
    \<and> aua_emitted a' = aua_emitted a + length us
    \<and> (\<forall>u\<in>set us. au_nals u \<noteq> [] \<and> au_fits l u \<and> au_describes u)"
  using assms
proof (induction ns arbitrary: a us taken)
  case (Cons n ns)
  obtain r a1 where p: "aua_push a n = (r, a1)" by fastforce
  show ?case
  proof (cases r)
    case (Inl e)
    then show ?thesis using Cons p aua_push_Inl [of a n e a1] by simp
  next
    case (Inr u)
    obtain us1 taken1 where run: "aua_run a1 ns = (us1, taken1, a')"
      and us: "us = (case u of None \<Rightarrow> us1 | Some x \<Rightarrow> x # us1)" "taken = n # taken1"
      using Cons.prems(2) p Inr by (auto split: prod.splits)
    note step = aua_push_Inr [OF Cons.prems(1) p [unfolded Inr]]
    have I: "au_fits l (aua_current a) \<and> au_describes (aua_current a)" using Cons.prems(1) by (simp add: aua_inv_def)
    from Cons.IH [OF step(1) run] step(2) I show ?thesis
      by (cases "au_nals (aua_current a) \<noteq> [] \<and> au_boundary (au_nals (aua_current a)) n") (auto simp: us)
  qed
qed simp

lemma aua_new_inv: "aua_new l = Inr a \<Longrightarrow> aua_inv l a \<and> aua_current a = access_unit_empty \<and> aua_emitted a = 0"
  by (auto simp: aua_new_def au_validate_limits_def aua_inv_def has_vcl_def rust_simps split: if_splits)

text \<open>C22:
  Whatever NAL units are pushed into a fresh assembler and whatever it refuses on the way, the units
  it emits followed by the one a final flush returns are exactly the segmentation of the NAL units
  it took, cut where the code cuts: before a delimiter, before a parameter set after slice data, and
  before a slice whose first Exp-Golomb code is 0 after slice data. These are the boundaries the
  module documents, except that a slice never splits a unit that holds no slice yet (the documented
  rule 3 has no such condition). Nothing is lost, repeated or reordered, and the emission counter
  counts the units.
\<close>

theorem aua_segmentation:
  assumes "aua_new l = Inr a" and "aua_run a ns = (us, taken, a')" and "aua_flush a' = (u, a'')"
  shows "map au_nals (us @ (case u of None \<Rightarrow> [] | Some x \<Rightarrow> [x]))
       = segments_by (\<lambda>cur n. au_documented cur n \<and> (vcl_kind (kind_of n) \<longrightarrow> has_vcl cur)) [] taken
    \<and> concat (map au_nals (us @ (case u of None \<Rightarrow> [] | Some x \<Rightarrow> [x]))) = taken
    \<and> aua_emitted a'' = length us + (case u of None \<Rightarrow> 0 | Some _ \<Rightarrow> 1)"
proof -
  note new = aua_new_inv [OF assms(1)]
  note R = aua_run_segments [OF conjunct1 [OF new] assms(2)]
  have seg: "map au_nals (us @ (case u of None \<Rightarrow> [] | Some x \<Rightarrow> [x])) = au_segments [] taken"
    using R new assms(3) by (auto simp: aua_flush_def split: if_splits)
  then have "concat (map au_nals (us @ (case u of None \<Rightarrow> [] | Some x \<Rightarrow> [x]))) = taken"
    by (simp only: concat_au_segments append_Nil)
  moreover have "aua_emitted a'' = length us + (case u of None \<Rightarrow> 0 | Some _ \<Rightarrow> 1)"
    using R new assms(3) by (auto simp: aua_flush_def split: if_splits)
  moreover have "au_boundary = (\<lambda>cur n. au_documented cur n \<and> (vcl_kind (kind_of n) \<longrightarrow> has_vcl cur))"
    by (intro ext) (rule au_boundary_documented)
  ultimately show ?thesis using seg by metis
qed

definition sample_nals :: "bytes list" where
  "sample_nals = [[9, 240], [0x67, 66, 0, 30], [0x68, 0xC0], [0x65, 0x88, 0x80], [], [0x41, 0x9A, 0x80]]"

definition sample_limits :: access_unit_limits where
  "sample_limits = \<lparr>max_nals = 4, max_bytes = 64\<rparr>"

definition sample_assembler :: access_unit_assembler where
  "sample_assembler = \<lparr>aua_limits = sample_limits, aua_current = access_unit_empty, aua_saw_vcl = False, aua_emitted = 0\<rparr>"

lemma sample_assembler_new: "aua_new sample_limits = Inr sample_assembler"
  by (simp add: aua_new_def au_validate_limits_def sample_limits_def sample_assembler_def)

lemma sample_carries:
  "carries [0x67, 66, 0, 30] [1]" "carries [0x68, 0xC0] [0, 0]" "carries [0x65, 0x88, 0x80] [0, 7]"
  "carries [0x65, 0x88, 0x80] [0]" "carries [0x41, 0x9A, 0x80] [0, 5]" "carries [0x41, 0x9A, 0x80] [0]"
proof -
  have "prefix (concat (map ue_code [1])) (rbsp_bits [0x67, 66, 0, 30])"
    "prefix (concat (map ue_code [0, 0])) (rbsp_bits [0x68, 0xC0])"
    "prefix (concat (map ue_code [0, 7])) (rbsp_bits [0x65, 0x88, 0x80])"
    "prefix (concat (map ue_code [0])) (rbsp_bits [0x65, 0x88, 0x80])"
    "prefix (concat (map ue_code [0, 5])) (rbsp_bits [0x41, 0x9A, 0x80])"
    "prefix (concat (map ue_code [0])) (rbsp_bits [0x41, 0x9A, 0x80])"
    by code_simp+
  then show "carries [0x67, 66, 0, 30] [1]" "carries [0x68, 0xC0] [0, 0]" "carries [0x65, 0x88, 0x80] [0, 7]"
    "carries [0x65, 0x88, 0x80] [0]" "carries [0x41, 0x9A, 0x80] [0, 5]" "carries [0x41, 0x9A, 0x80] [0]"
    by (simp_all add: carries_def)
qed

lemma sample_reads:
  "sps_id [0x67, 66, 0, 30] = Some 1" "pps_ids [0x68, 0xC0] = Some (0, 0)"
  "slice_header_ids [0x65, 0x88, 0x80] = Some (0, 7)"
  "first_mb_in_slice [0x65, 0x88, 0x80] = Some 0"
  "slice_header_ids [0x41, 0x9A, 0x80] = Some (0, 5)"
  "first_mb_in_slice [0x41, 0x9A, 0x80] = Some 0"
  using carries_reads(1) [OF sample_carries(1)] carries_reads(3) [OF sample_carries(2)]
    carries_reads(2) [OF sample_carries(3)] carries_reads(2) [OF sample_carries(5)] sample_carries(4,6)
  by (simp_all add: first_mb_zero)

lemma sample_nals_run:
  "case aua_run sample_assembler sample_nals of (us, taken, a) \<Rightarrow>
    us = [\<lparr>au_nals = [[9, 240], [0x67, 66, 0, 30], [0x68, 0xC0], [0x65, 0x88, 0x80]], contains_idr = True, sps_ids = [1], au_pps_ids = [0, 7]\<rparr>]
    \<and> taken = [[9, 240], [0x67, 66, 0, 30], [0x68, 0xC0], [0x65, 0x88, 0x80], [0x41, 0x9A, 0x80]]
    \<and> aua_current a = \<lparr>au_nals = [[0x41, 0x9A, 0x80]], contains_idr = False, sps_ids = [], au_pps_ids = [5]\<rparr>"
  by (simp add: sample_nals_def sample_assembler_def sample_limits_def aua_push_def au_nal_type_def au_starts_new_def
    vcl_kind_def aua_record_def sample_reads push_id_def current_byte_total_def access_unit_empty_def Let_def)

theorem aua_segmentation_witness:
  "\<exists>us taken a' u a''. aua_run sample_assembler sample_nals = (us, taken, a') \<and> aua_flush a' = (u, a'')
    \<and> map au_nals (us @ (case u of None \<Rightarrow> [] | Some x \<Rightarrow> [x]))
      = [[[9, 240], [0x67, 66, 0, 30], [0x68, 0xC0], [0x65, 0x88, 0x80]], [[0x41, 0x9A, 0x80]]]
    \<and> segments_by (\<lambda>cur n. au_documented cur n \<and> (vcl_kind (kind_of n) \<longrightarrow> has_vcl cur)) [] taken
      = [[[9, 240], [0x67, 66, 0, 30], [0x68, 0xC0], [0x65, 0x88, 0x80]], [[0x41, 0x9A, 0x80]]]
    \<and> aua_emitted a'' = 2"
proof -
  obtain us taken a' where r: "aua_run sample_assembler sample_nals = (us, taken, a')" by (metis prod_cases3)
  obtain u a'' where f: "aua_flush a' = (u, a'')" by fastforce
  have s: "map au_nals us = [[[9, 240], [0x67, 66, 0, 30], [0x68, 0xC0], [0x65, 0x88, 0x80]]]" "au_nals (aua_current a') = [[0x41, 0x9A, 0x80]]"
    using sample_nals_run r by simp_all
  then have "u = Some (aua_current a')" "length us = 1" using f by (auto simp: aua_flush_def)
  then show ?thesis
    using aua_segmentation [OF sample_assembler_new r f] r f s by (intro exI [of _ us] exI) auto
qed

text \<open>C23:
  Every unit the assembler emits, and the one in progress, respects both budgets, holds no empty NAL
  unit, and describes its NAL units: the IDR flag is set just when a unit of type 5 is present, and
  the two id lists hold, without repetition, just the numbers up to 255 that stand where the code
  looks for ids: the first Exp-Golomb code after the header byte of each unit of type 7; the second
  such code of each slice and the first of each unit of type 8 that has two; each within the first
  eight bytes after the header, emulation prevention removed. (In a sequence parameter
  set of the standard the first of these is \<open>profile_idc\<close>, and in a slice header the second code is
  the slice type; \<open>sps_id_reads_profile\<close> and \<open>slice_pps_id_reads_slice_type\<close> state these defects.) A
  refused NAL unit leaves the assembler as it was, and a refusal happens only for an empty NAL unit,
  one larger than the byte budget, or one that belongs to the current unit and would overfill it.
\<close>

theorem aua_units_exact:
  assumes "aua_new l = Inr a" and "aua_run a ns = (us, taken, a')"
  shows "(\<forall>u\<in>set us. au_nals u \<noteq> [] \<and> au_fits l u \<and> au_describes u)
    \<and> au_fits l (aua_current a') \<and> au_describes (aua_current a')
    \<and> (\<exists>e. aua_push a' n = (Inl e, a')) =
        (n = [] \<or> length n > max_bytes l
         \<or> \<not> au_boundary (au_nals (aua_current a')) n
           \<and> (length (au_nals (aua_current a')) \<ge> max_nals l
              \<or> sum_list (map length (au_nals (aua_current a'))) + length n > max_bytes l))
    \<and> (\<forall>e a''. aua_push a' n = (Inl e, a'') \<longrightarrow> a'' = a')"
proof -
  note R = aua_run_segments [OF conjunct1 [OF aua_new_inv [OF assms(1)]] assms(2)]
  then have I: "aua_limits a' = l" "aua_saw_vcl a' = has_vcl (au_nals (aua_current a'))" by (auto simp: aua_inv_def)
  have k: "au_nal_type n = (if n = [] then None else Some (kind_of n))" by (simp add: au_nal_type_def kind_of_def)
  have "(\<exists>e. aua_push a' n = (Inl e, a')) =
        (n = [] \<or> length n > max_bytes l
         \<or> \<not> au_boundary (au_nals (aua_current a')) n
           \<and> (length (au_nals (aua_current a')) \<ge> max_nals l
              \<or> sum_list (map length (au_nals (aua_current a'))) + length n > max_bytes l))"
    by (auto simp: aua_push_def k I au_starts_new_boundary current_byte_total_def Let_def)
  then show ?thesis using R aua_push_Inl by (auto simp: aua_inv_def)
qed

theorem aua_units_exact_witness:
  "\<exists>u taken a'. aua_run sample_assembler sample_nals = ([u], taken, a')
    \<and> contains_idr u \<and> carried carries_sps (au_nals u) = {1} \<and> carried carries_pps (au_nals u) = {0, 7}
    \<and> carried carries_pps (au_nals (aua_current a')) = {5}
    \<and> (\<exists>e. aua_push a' (replicate 65 6) = (Inl e, a'))"
proof -
  obtain us taken a' where r: "aua_run sample_assembler sample_nals = (us, taken, a')" by (metis prod_cases3)
  obtain u where u: "us = [u]" "contains_idr u" "set (sps_ids u) = {1}" "set (au_pps_ids u) = {0, 7}"
    "set (au_pps_ids (aua_current a')) = {5}"
    using sample_nals_run r by auto
  have "length (replicate 65 6) > max_bytes sample_limits" by (simp add: sample_limits_def)
  then show ?thesis
    using aua_units_exact [OF sample_assembler_new r, of "replicate 65 6"] u r by (auto simp: au_describes_def)
qed

end
