(* ===== verification/Cadence_Clock.thy ===== *)
theory Cadence_Clock
  imports Sequence_Tracker "HOL-Library.Signed_Division"
begin

unbundle bit_operations_syntax

text \<open>
  The fixed-cadence clock, \<open>crates/fss-packet/src/cadence.rs\<close>: pictures in decoding order carry RTP
  timestamps in presentation order, and a bitmap of admitted presentation positions decides, with a
  bounded reorder distance, whether every position is filled exactly once. The clock is proved to
  accept exactly the bounded permutations.
\<close>

section \<open>cadence.rs\<close>

definition MAX_CADENCE_REORDER :: u8 where
  "MAX_CADENCE_REORDER = 16"

record cadence_timing =
  ct_decode_time :: u64
  ct_duration :: u32
  ct_composition_offset :: int
  ct_anchored :: bool

datatype cadence_error =
    Configuration | Stream | OffCadence | ReorderBound | Duplicate | MissingPosition | OpenGroup
  | Exhausted | Incomplete

record anchor =
  an_timestamp :: u32
  an_pictures :: u64
  an_first_missing :: u64
  an_seen :: "64 word"

record reordered_rtp_clock =
  cl_duration :: u32
  cl_depth :: u8
  cl_key :: "stream_key option"
  cl_next_decode_time :: u64
  cl_anchor :: "anchor option"

definition cadence_new :: "u32 \<Rightarrow> u8 \<Rightarrow> cadence_error + reordered_rtp_clock" where
  "cadence_new duration max_reorder_pictures =
     (if \<not> (1 \<le> duration \<and> duration \<le> 90000)
         \<or> \<not> (1 \<le> max_reorder_pictures \<and> max_reorder_pictures \<le> MAX_CADENCE_REORDER)
      then Inl cadence_error.Configuration
      else Inr \<lparr>cl_duration = duration, cl_depth = max_reorder_pictures, cl_key = None,
                cl_next_decode_time = 0, cl_anchor = None\<rparr>)"

definition prefix_complete :: "reordered_rtp_clock \<Rightarrow> bool" where
  "prefix_complete c =
     (case cl_anchor c of None \<Rightarrow> False
      | Some a \<Rightarrow> an_first_missing a = an_pictures a \<and> an_seen a = 0)"

definition cadence_finish :: "reordered_rtp_clock \<Rightarrow> cadence_error + unit" where
  "cadence_finish c = (if prefix_complete c then Inr () else Inl Incomplete)"

definition checked_add_signed :: "u64 \<Rightarrow> i64 \<Rightarrow> u64 option" where
  "checked_add_signed a d = (if 0 \<le> int a + d \<and> int a + d \<le> int u64_max then Some (nat (int a + d)) else None)"

text \<open>\<open>while a.seen & 1 != 0\<close>: retire the filled positions at the front of the window.\<close>

function retire :: "64 word \<Rightarrow> u64 \<Rightarrow> cadence_error + 64 word \<times> u64" where
  "retire window first_missing =
     (if window AND 1 \<noteq> 0 then
        try_then (ok_or (checked_add first_missing 1) cadence_error.Exhausted) (\<lambda>first_missing.
          retire (drop_bit 1 window) first_missing)
      else Inr (window, first_missing))"
  by pat_completeness auto
termination
proof (relation "measure (\<lambda>(window, _). unat window)")
  fix window :: "64 word" assume "window AND 1 \<noteq> 0"
  then have "unat window \<noteq> 0" by (metis unat_eq_zero zero_and_eq)
  then show "((drop_bit 1 window, fm), (window, fm')) \<in> measure (\<lambda>(window, _). unat window)" for fm fm' :: u64
    by (simp add: drop_bit_eq_div unat_div)
qed simp

declare retire.simps [simp del]

text \<open>The body of \<open>if let Some(a) = &mut anchor\<close>, on the local copy of the anchor.\<close>

definition anchor_admit ::
  "u32 \<Rightarrow> u8 \<Rightarrow> anchor \<Rightarrow> u32 \<Rightarrow> bool \<Rightarrow> u64 \<Rightarrow> cadence_error + int \<times> anchor" where
  "anchor_admit duration depth a timestamp idr decode_time =
     (let expected = an_timestamp a + of_nat (an_pictures a) * duration;
          delta = sint (timestamp - expected) in
      if nat \<bar>delta\<bar> > unat depth * unat duration then Inl ReorderBound
      else if delta smod uint duration \<noteq> 0 then Inl OffCadence
      else
        try_then (ok_or (checked_add_signed (an_pictures a) (delta sdiv uint duration)) ReorderBound) (\<lambda>position.
        if idr \<and> (position \<noteq> an_pictures a \<or> an_first_missing a \<noteq> an_pictures a \<or> an_seen a \<noteq> 0)
        then Inl OpenGroup
        else
          try_then (ok_or (checked_sub position (an_first_missing a)) cadence_error.Duplicate) (\<lambda>bit.
          if bit \<ge> 64 then Inl ReorderBound
          else if an_seen a AND push_bit bit 1 \<noteq> 0 then Inl cadence_error.Duplicate
          else
            try_then (retire (an_seen a OR push_bit bit 1) (an_first_missing a)) (\<lambda>(window, first_missing).
            try_then (ok_or (checked_add (an_pictures a) 1) cadence_error.Exhausted) (\<lambda>pictures.
            if first_missing < pictures - unat depth then Inl MissingPosition
            else
              try_then (ok_or (checked_add_signed decode_time delta) cadence_error.Exhausted) (\<lambda>presentation.
              try_then (ok_or (checked_add presentation (unat duration)) cadence_error.Exhausted) (\<lambda>_.
              if - (2 ^ 31) \<le> delta \<and> delta < 2 ^ 31
              then Inr (delta, a\<lparr>an_pictures := pictures, an_first_missing := first_missing, an_seen := window\<rparr>)
              else Inl cadence_error.Exhausted)))))))"

definition cadence_observe ::
  "reordered_rtp_clock \<Rightarrow> stream_key \<Rightarrow> u32 \<Rightarrow> bool \<Rightarrow> (cadence_error + cadence_timing) \<times> reordered_rtp_clock" where
  "cadence_observe c key timestamp idr =
     (if ingress key = 0 \<or> generation key = 0 \<or> (case cl_key c of None \<Rightarrow> False | Some k \<Rightarrow> k \<noteq> key)
      then (Inl Stream, c)
      else
        let decode_time = cl_next_decode_time c in
        (case checked_add decode_time (unat (cl_duration c)) of
           None \<Rightarrow> (Inl cadence_error.Exhausted, c)
         | Some next_decode_time \<Rightarrow>
             let anchor = (case cl_anchor c of Some a \<Rightarrow> Some a
                 | None \<Rightarrow> if idr then Some \<lparr>an_timestamp = timestamp, an_pictures = 0, an_first_missing = 0, an_seen = 0\<rparr>
                          else None)
             in case (case anchor of
                        None \<Rightarrow> Inr (0, None)
                      | Some a \<Rightarrow> try_then (anchor_admit (cl_duration c) (cl_depth c) a timestamp idr decode_time)
                                   (\<lambda>(offset, a). Inr (offset, Some a))) of
                  Inl e \<Rightarrow> (Inl e, c)
                | Inr (offset, anchor) \<Rightarrow>
                    (Inr \<lparr>ct_decode_time = decode_time, ct_duration = cl_duration c,
                          ct_composition_offset = offset, ct_anchored = (anchor \<noteq> None)\<rparr>,
                     c\<lparr>cl_key := Some key, cl_next_decode_time := next_decode_time, cl_anchor := anchor\<rparr>)))"


section \<open>The window of admitted positions\<close>

definition slots_of :: "nat set \<Rightarrow> 64 word \<Rightarrow> nat \<Rightarrow> bool" where
  "slots_of S w fm \<longleftrightarrow>
     (\<forall>p<fm. p \<in> S) \<and> (\<forall>i<64. bit w i \<longleftrightarrow> fm + i \<in> S) \<and> (\<forall>p\<in>S. p < fm + 64)"

lemma and_1_bit: "w AND 1 \<noteq> 0 \<longleftrightarrow> bit w 0" for w :: "64 word"
  by (simp add: and_one_eq bit_0 odd_iff_mod_2_eq_one)

lemma slots_shift:
  assumes "slots_of S w fm" and "bit w 0"
  shows "slots_of S (drop_bit 1 w) (fm + 1)"
proof -
  have "fm \<in> S" using assms by (force simp: slots_of_def)
  then have "p \<in> S" if "p < fm + 1" for p using assms(1) that by (cases "p = fm") (auto simp: slots_of_def)
  moreover have "bit (drop_bit 1 w) i \<longleftrightarrow> fm + 1 + i \<in> S" if "i < 64" for i
  proof (cases "i = 63")
    case True
    have "fm + 64 \<notin> S" using assms(1) by (auto simp: slots_of_def)
    then show ?thesis using True bit_imp_le_length [of w 64] by (auto simp: bit_drop_bit_eq add.commute)
  next
    case False
    then show ?thesis using assms(1) that by (simp add: bit_drop_bit_eq slots_of_def)
  qed
  ultimately show ?thesis using assms(1) by (auto simp: slots_of_def intro: less_SucI)
qed

lemma window_card: "slots_of S w fm \<Longrightarrow> finite S \<and> fm \<le> card S"
proof -
  assume w: "slots_of S w fm"
  then have "finite S" by (intro finite_subset [of S "{..<fm + 64}"]) (auto simp: slots_of_def)
  moreover from this have "card {..<fm} \<le> card S" using w by (intro card_mono) (auto simp: slots_of_def)
  ultimately show ?thesis by simp
qed

lemma retire_window:
  "slots_of S w fm \<Longrightarrow> retire w fm = Inr (w', fm') \<Longrightarrow> slots_of S w' fm' \<and> fm' \<notin> S"
proof (induction w fm rule: retire.induct)
  case (1 w fm)
  show ?case
  proof (cases "w AND 1 \<noteq> 0")
    case True
    then have "checked_add fm 1 = Some (fm + 1)" and r: "retire (drop_bit 1 w) (fm + 1) = Inr (w', fm')"
      using 1(3) by (subst (asm) retire.simps, auto simp: rust_simps)+
    then show ?thesis using 1(1) [OF True _ _ r] slots_shift [OF 1(2)] True by (simp add: and_1_bit)
  next
    case False
    then have "retire w fm = Inr (w, fm)" by (subst retire.simps) simp
    moreover have "fm \<notin> S" using 1(2) False unfolding slots_of_def and_1_bit by fastforce
    ultimately show ?thesis using 1(2,3) by simp
  qed
qed

lemma retire_succeeds:
  "slots_of S w fm \<Longrightarrow> card S \<le> u64_max \<Longrightarrow> \<exists>w' fm'. retire w fm = Inr (w', fm')"
proof (induction w fm rule: retire.induct)
  case (1 w fm)
  show ?case
  proof (cases "w AND 1 \<noteq> 0")
    case True
    then have s: "slots_of S (drop_bit 1 w) (fm + 1)" using slots_shift 1(2) by (simp add: and_1_bit)
    then have "fm + 1 \<le> u64_max" using window_card 1(3) by fastforce
    then have "checked_add fm 1 = Some (fm + 1)" by (simp add: checked_add_def)
    then show ?thesis using 1(1) [OF True _ s] 1(3) True by (subst retire.simps) simp
  next
    case False
    then show ?thesis by (subst retire.simps) simp
  qed
qed


section \<open>One picture\<close>

text \<open>The anchor after pictures with presentation positions \<open>ps\<close>, in decoding order.\<close>

definition anchor_inv :: "nat \<Rightarrow> nat list \<Rightarrow> anchor \<Rightarrow> bool" where
  "anchor_inv depth ps a \<longleftrightarrow>
     an_pictures a = length ps \<and> distinct ps
     \<and> slots_of (set ps) (an_seen a) (an_first_missing a) \<and> an_first_missing a \<notin> set ps
     \<and> length ps \<le> an_first_missing a + depth
     \<and> (\<forall>k<length ps. \<bar>int (ps ! k) - int k\<bar> \<le> int depth)"

lemma sdiv_exact: "x smod d = 0 \<longleftrightarrow> x = (x sdiv d) * d" for x d :: int
  using sdiv_mult_smod_eq [of x d] by linarith

lemma sdiv_mult: "0 < d \<Longrightarrow> (q * d) sdiv d = q \<and> (q * d) smod d = 0" for q d :: int
  by (simp add: signed_divide_int_def signed_modulo_int_def abs_mult sgn_mult mult_sgn_abs)

lemma anchor_closed:
  assumes "anchor_inv depth ps a"
  shows "an_first_missing a = an_pictures a \<and> an_seen a = 0 \<longleftrightarrow> set ps = {0..<length ps}"
proof
  have w: "slots_of (set ps) (an_seen a) (an_first_missing a)" and d: "distinct ps" and l: "an_pictures a = length ps"
    and fm: "an_first_missing a \<notin> set ps" using assms by (auto simp: anchor_inv_def)
  {
    assume c: "an_first_missing a = an_pictures a \<and> an_seen a = 0"
    have "p < length ps" if "p \<in> set ps" for p
    proof (rule ccontr)
      assume n: "\<not> p < length ps"
      then have "p - length ps < 64" "an_first_missing a + (p - length ps) = p" using w that c l by (auto simp: slots_of_def)
      then have "bit (an_seen a) (p - length ps)" using w that unfolding slots_of_def by metis
      then show False using c by simp
    qed
    then show "set ps = {0..<length ps}" using w c l by (auto simp: slots_of_def)
  next
    assume s: "set ps = {0..<length ps}"
    have "an_first_missing a = length ps"
      using fm s w window_card [OF w] distinct_card [OF d] by (auto simp: slots_of_def)
    moreover from this have "an_seen a = 0" using w s by (intro bit_word_eqI) (auto simp: slots_of_def)
    ultimately show "an_first_missing a = an_pictures a \<and> an_seen a = 0" using l by simp
  }
qed

lemma window_insert:
  assumes "slots_of S w fm" and "fm \<le> p" and "p - fm < 64"
  shows "slots_of (insert p S) (w OR push_bit (p - fm) 1) fm"
proof -
  have "bit (w OR push_bit (p - fm) 1) i \<longleftrightarrow> fm + i \<in> insert p S" if "i < 64" for i
    using assms that by (auto simp: slots_of_def bit_or_iff bit_exp_iff)
  then show ?thesis using assms by (auto simp: slots_of_def)
qed

lemma window_bit_clear: "w AND 2 ^ n = 0 \<longleftrightarrow> \<not> bit w n" for w :: "64 word"
  using bit_iff_and_push_bit_not_eq_0 [of w n] by simp


lemma anchor_delta:
  fixes d at ts :: u32
  assumes "sint (ts - (at + of_nat n * d)) = q * uint d" and "int p = int n + q"
  shows "ts = at + of_nat p * d"
proof -
  have "ts - (at + of_nat n * d) = word_of_int (q * uint d)" by (simp flip: assms(1))
  then have "ts = at + (of_nat n + of_int q) * d" by (simp add: algebra_simps)
  also have "of_nat n + of_int q = (of_int (int p) :: u32)" using assms(2) by simp
  finally show ?thesis by simp
qed

text \<open>The guards of an admission, one after the other.\<close>

lemma anchor_admit_Inr:
  fixes a :: anchor and d ts :: u32
  defines "delta \<equiv> sint (ts - (an_timestamp a + of_nat (an_pictures a) * d))"
  shows "anchor_admit d depth a ts idr dt = Inr r \<longleftrightarrow>
    nat \<bar>delta\<bar> \<le> unat depth * unat d \<and> delta smod uint d = 0
    \<and> (\<exists>p. checked_add_signed (an_pictures a) (delta sdiv uint d) = Some p
      \<and> (idr \<longrightarrow> p = an_pictures a \<and> an_first_missing a = an_pictures a \<and> an_seen a = 0)
      \<and> an_first_missing a \<le> p \<and> p - an_first_missing a < 64 \<and> \<not> bit (an_seen a) (p - an_first_missing a)
      \<and> (\<exists>w' fm'. retire (an_seen a OR push_bit (p - an_first_missing a) 1) (an_first_missing a) = Inr (w', fm')
         \<and> an_pictures a + 1 \<le> u64_max \<and> an_pictures a + 1 - unat depth \<le> fm'
         \<and> 0 \<le> int dt + delta \<and> int dt + delta + int (unat d) \<le> int u64_max
         \<and> r = (delta, a\<lparr>an_pictures := an_pictures a + 1, an_first_missing := fm', an_seen := w'\<rparr>)))"
proof -
  have range: "- (2 ^ 31) \<le> delta" "delta < 2 ^ 31"
    using sint_range_size [of "ts - (an_timestamp a + of_nat (an_pictures a) * d)"] by (simp_all add: delta_def word_size)
  have bit: "(\<exists>b. checked_sub p fm = Some b \<and> \<not> 64 \<le> b \<and> \<not> w AND push_bit b 1 \<noteq> 0 \<and> P b) \<longleftrightarrow>
      fm \<le> p \<and> p - fm < 64 \<and> \<not> bit w (p - fm) \<and> P (p - fm)" for p fm and w :: "64 word" and P
    by (auto simp: rust_simps window_bit_clear)
  have time: "(\<exists>x. checked_add_signed dt delta = Some x \<and> x + unat d \<le> u64_max) \<longleftrightarrow>
      0 \<le> int dt + delta \<and> int dt + delta + int (unat d) \<le> int u64_max"
    by (auto simp: checked_add_signed_def simp del: of_nat_unat)
  show ?thesis
    unfolding anchor_admit_def Let_def delta_def [symmetric] if_Inl_Inr if_Inr_Inl try_then_Inr_iff ok_or_Inr_iff
      split_paired_Ex case_prod_conv bit checked_add_Some
    using range time by (simp only: not_less) (auto simp del: of_nat_unat)
qed

lemma anchor_admit_sound:
  assumes inv: "anchor_inv (unat depth) ps a" and d: "0 < unat d"
    and ok: "anchor_admit d depth a ts idr dt = Inr (offset, a')"
  shows "\<exists>p. anchor_inv (unat depth) (ps @ [p]) a' \<and> offset = (int p - int (length ps)) * int (unat d)
    \<and> ts = an_timestamp a + of_nat p * d \<and> an_timestamp a' = an_timestamp a
    \<and> (idr \<longrightarrow> p = length ps \<and> set ps = {0..<length ps})"
proof -
  define delta where "delta = sint (ts - (an_timestamp a + of_nat (an_pictures a) * d))"
  define q where "q = delta sdiv uint d"
  obtain p w' fm' where
    bound: "nat \<bar>delta\<bar> \<le> unat depth * unat d" "delta smod uint d = 0"
    and p: "checked_add_signed (an_pictures a) q = Some p"
    and idr: "idr \<longrightarrow> p = an_pictures a \<and> an_first_missing a = an_pictures a \<and> an_seen a = 0"
    and b: "an_first_missing a \<le> p" "p - an_first_missing a < 64" "\<not> bit (an_seen a) (p - an_first_missing a)"
    and ret: "retire (an_seen a OR push_bit (p - an_first_missing a) 1) (an_first_missing a) = Inr (w', fm')"
    and fm: "an_pictures a + 1 - unat depth \<le> fm'"
    and res: "offset = delta" "a' = a\<lparr>an_pictures := an_pictures a + 1, an_first_missing := fm', an_seen := w'\<rparr>"
    using ok [unfolded anchor_admit_Inr, folded delta_def, folded q_def] by blast
  have I: "an_pictures a = length ps" "distinct ps" "slots_of (set ps) (an_seen a) (an_first_missing a)"
    "\<forall>k<length ps. \<bar>int (ps ! k) - int k\<bar> \<le> int (unat depth)" using inv by (auto simp: anchor_inv_def)
  have q: "delta = q * uint d" using bound(2) sdiv_exact q_def by blast
  have ip: "int p = int (length ps) + q" using p I(1) by (auto simp: checked_add_signed_def split: if_splits)
  have new: "p \<notin> set ps" using I(3) b unfolding slots_of_def by (metis le_add_diff_inverse)
  have "\<bar>q\<bar> * int (unat d) \<le> int (unat depth) * int (unat d)"
    using bound(1) by (simp add: q abs_mult nat_le_iff)
  then have near: "\<bar>q\<bar> \<le> int (unat depth)" using d by (metis mult_right_le_imp_le of_nat_0_less_iff)
  note W = retire_window [OF window_insert [OF I(3) b(1,2)] ret]
  have "anchor_inv (unat depth) (ps @ [p]) a'"
    using W I new fm near ip by (auto simp: anchor_inv_def res nth_append less_Suc_eq)
  moreover have "offset = (int p - int (length ps)) * int (unat d)" using q ip res(1) by simp
  moreover have "ts = an_timestamp a + of_nat p * d" using anchor_delta [OF q [unfolded delta_def]] ip I(1) by simp
  moreover have "p = length ps \<and> set ps = {0..<length ps}" if idr using that idr anchor_closed [OF inv] I(1) by simp
  ultimately show ?thesis using res by auto
qed

lemma sint_small:
  fixes at d :: u32
  assumes "\<bar>int p - int n\<bar> \<le> 16" and "unat d \<le> 90000"
  shows "sint (at + of_nat p * d - (at + of_nat n * d)) = (int p - int n) * uint d"
proof -
  have e: "at + of_nat p * d - (at + of_nat n * d) = word_of_int ((int p - int n) * uint d)"
    by (simp add: algebra_simps)
  have "uint d = int (unat d)" by simp
  then have "\<bar>uint d\<bar> \<le> 90000" using assms(2) by linarith
  then have "\<bar>(int p - int n) * uint d\<bar> \<le> 16 * 90000"
    unfolding abs_mult by (rule mult_mono [OF assms(1)]) simp_all
  then show ?thesis unfolding e int_word_sint by simp
qed

lemma anchor_admit_complete:
  assumes inv: "anchor_inv (unat depth) ps a" and d: "0 < unat d" "unat d \<le> 90000" and depth: "unat depth \<le> 16"
    and p: "p \<notin> set ps" "\<bar>int p - int (length ps)\<bar> \<le> int (unat depth)"
    and filled: "\<forall>i < length ps + 1 - unat depth. i \<in> insert p (set ps)"
    and idr: "idr \<longrightarrow> p = length ps \<and> set ps = {0..<length ps}"
    and time: "length ps + 1 \<le> u64_max" "0 \<le> int dt + (int p - int (length ps)) * int (unat d)"
      "int dt + (int p - int (length ps)) * int (unat d) + int (unat d) \<le> int u64_max" "p \<le> u64_max"
  shows "\<exists>a'. anchor_admit d depth a (an_timestamp a + of_nat p * d) idr dt = Inr ((int p - int (length ps)) * int (unat d), a')"
proof -
  define q where "q = int p - int (length ps)"
  have I: "an_pictures a = length ps" "distinct ps" "slots_of (set ps) (an_seen a) (an_first_missing a)"
    "length ps \<le> an_first_missing a + unat depth" using inv by (auto simp: anchor_inv_def)
  have ud: "uint d = int (unat d)" "0 < uint d" using d(1) by (simp, metis of_nat_0_less_iff of_nat_unat)
  have delta: "sint (an_timestamp a + of_nat p * d - (an_timestamp a + of_nat (length ps) * d)) = q * uint d"
    unfolding q_def by (rule sint_small) (use p(2) depth d in linarith)+
  have ge: "an_first_missing a \<le> p" using p(1) I(3) by (meson leI slots_of_def)
  have lt: "p - an_first_missing a < 64" using p(2) I(4) depth by linarith
  have nb: "\<not> bit (an_seen a) (p - an_first_missing a)" using p(1) I(3) ge lt unfolding slots_of_def by (metis le_add_diff_inverse)
  note w = window_insert [OF I(3) ge lt]
  obtain w' fm' where r: "retire (an_seen a OR push_bit (p - an_first_missing a) 1) (an_first_missing a) = Inr (w', fm')"
    using retire_succeeds [OF w] p(1) I(2) time(1) by (auto simp: distinct_card)
  have fm: "length ps + 1 - unat depth \<le> fm'" using retire_window [OF w r] filled by (meson leI)
  have "nat \<bar>q * uint d\<bar> \<le> unat depth * unat d"
    using p(2) by (simp add: q_def abs_mult nat_le_iff mult_right_mono)
  moreover have "checked_add_signed (an_pictures a) ((q * uint d) sdiv uint d) = Some p"
    using d I(1) time(4) sdiv_mult [OF ud(2), of q] by (simp add: checked_add_signed_def q_def)
  moreover have "idr \<longrightarrow> p = an_pictures a \<and> an_first_missing a = an_pictures a \<and> an_seen a = 0"
    using idr anchor_closed [OF inv] I(1) by auto
  moreover have "(q * uint d) smod uint d = 0" using sdiv_mult [OF ud(2)] by blast
  ultimately show ?thesis
    unfolding anchor_admit_Inr I(1) delta using ge lt nb r fm time d I(1) q_def
    by (intro exI conjI) (assumption | simp)+
qed


section \<open>A stream of pictures\<close>

type_synonym picture = "stream_key \<times> u32 \<times> bool"

text \<open>An accepted picture: what was offered, its IDR flag included, and the timing it was given.\<close>

record timed_picture =
  tp_key :: stream_key
  tp_timestamp :: u32
  tp_idr :: bool
  tp_timing :: cadence_timing

fun cadence_run :: "reordered_rtp_clock \<Rightarrow> picture list \<Rightarrow> timed_picture list \<times> reordered_rtp_clock" where
  "cadence_run c [] = ([], c)"
| "cadence_run c ((key, ts, idr) # xs) =
     (case cadence_observe c key ts idr of
        (Inl _, c') \<Rightarrow> cadence_run c' xs
      | (Inr t, c') \<Rightarrow> (case cadence_run c' xs of (h, c'') \<Rightarrow>
           (\<lparr>tp_key = key, tp_timestamp = ts, tp_idr = idr, tp_timing = t\<rparr> # h, c'')))"

text \<open>
  The clock after the timed pictures \<open>h\<close>: \<open>n\<close> startup pictures without an anchor, none of them an
  IDR, then an IDR and the pictures after it, at the presentation positions \<open>ps\<close>. A later IDR closes
  its group: the pictures before it fill exactly the positions before its own.
\<close>

definition clock_inv :: "u32 \<Rightarrow> u8 \<Rightarrow> timed_picture list \<Rightarrow> nat \<Rightarrow> nat list \<Rightarrow> reordered_rtp_clock \<Rightarrow> bool" where
  "clock_inv d depth h n ps c \<longleftrightarrow>
     cl_duration c = d \<and> cl_depth c = depth \<and> cl_next_decode_time c = length h * unat d
     \<and> length h = n + length ps
     \<and> (\<forall>x\<in>set h. cl_key c = Some (tp_key x))
     \<and> (\<forall>i<n. \<not> tp_idr (h ! i)) \<and> (ps \<noteq> [] \<longrightarrow> tp_idr (h ! n))
     \<and> (\<forall>k<length ps. tp_idr (h ! (n + k)) \<longrightarrow> ps ! k = k \<and> set (take k ps) = {0..<k})
     \<and> (\<forall>i<length h. ct_decode_time (tp_timing (h ! i)) = i * unat d \<and> ct_duration (tp_timing (h ! i)) = d
          \<and> ct_anchored (tp_timing (h ! i)) = (n \<le> i))
     \<and> (case cl_anchor c of None \<Rightarrow> ps = []
        | Some a \<Rightarrow> ps \<noteq> [] \<and> anchor_inv (unat depth) ps a \<and> hd ps = 0
            \<and> (\<forall>k<length ps. tp_timestamp (h ! (n + k)) = an_timestamp a + of_nat (ps ! k) * d
                 \<and> ct_composition_offset (tp_timing (h ! (n + k))) = (int (ps ! k) - int k) * int (unat d)))"

lemma anchor_inv_fresh: "anchor_inv n [] \<lparr>an_timestamp = ts, an_pictures = 0, an_first_missing = 0, an_seen = 0\<rparr>"
  by (simp add: anchor_inv_def slots_of_def)

lemma cadence_observe_Inl: "cadence_observe c key ts idr = (Inl e, c') \<Longrightarrow> c' = c"
  by (auto simp: cadence_observe_def Let_def split: if_splits option.splits sum.splits)

text \<open>The accepting branch: without an anchor, and with the anchor the picture is admitted against.\<close>

definition anchor_for :: "reordered_rtp_clock \<Rightarrow> u32 \<Rightarrow> bool \<Rightarrow> anchor option" where
  "anchor_for c ts idr =
     (case cl_anchor c of Some a \<Rightarrow> Some a
      | None \<Rightarrow> if idr then Some \<lparr>an_timestamp = ts, an_pictures = 0, an_first_missing = 0, an_seen = 0\<rparr> else None)"

lemma cadence_observe_Inr:
  "cadence_observe c key ts idr = (Inr t, c') \<longleftrightarrow>
     ingress key \<noteq> 0 \<and> generation key \<noteq> 0 \<and> cl_key c \<in> {None, Some key}
     \<and> cl_next_decode_time c + unat (cl_duration c) \<le> u64_max
     \<and> (\<exists>offset an. (case anchor_for c ts idr of None \<Rightarrow> offset = 0 \<and> an = None
          | Some a \<Rightarrow> \<exists>a'. anchor_admit (cl_duration c) (cl_depth c) a ts idr (cl_next_decode_time c) = Inr (offset, a') \<and> an = Some a')
        \<and> t = \<lparr>ct_decode_time = cl_next_decode_time c, ct_duration = cl_duration c, ct_composition_offset = offset, ct_anchored = (an \<noteq> None)\<rparr>
        \<and> c' = c\<lparr>cl_key := Some key, cl_next_decode_time := cl_next_decode_time c + unat (cl_duration c), cl_anchor := an\<rparr>)"
proof -
  define A where "A = anchor_for c ts idr"
  define M where "M = (case A of None \<Rightarrow> Inr (0, None)
      | Some a \<Rightarrow> try_then (anchor_admit (cl_duration c) (cl_depth c) a ts idr (cl_next_decode_time c)) (\<lambda>(offset, a). Inr (offset, Some a)))"
  have M: "M = Inr (offset, an) \<longleftrightarrow> (case A of None \<Rightarrow> offset = 0 \<and> an = None
          | Some a \<Rightarrow> \<exists>a'. anchor_admit (cl_duration c) (cl_depth c) a ts idr (cl_next_decode_time c) = Inr (offset, a') \<and> an = Some a')" for offset an
    by (cases A) (auto simp: M_def rust_simps)
  have key: "(case cl_key c of None \<Rightarrow> False | Some k \<Rightarrow> k \<noteq> key) \<longleftrightarrow> cl_key c \<notin> {None, Some key}" by (cases "cl_key c") auto
  show ?thesis
    unfolding cadence_observe_def Let_def anchor_for_def [symmetric] A_def [symmetric] M_def [symmetric] M [symmetric] key
    by (cases M) (auto simp: checked_add_def)
qed

lemma anchor_step:
  assumes inv: "clock_inv d depth h n ps c" and d: "0 < unat d" and a: "anchor_for c ts idr = Some a"
    and ok: "anchor_admit d depth a ts idr dt = Inr (offset, a')"
  shows "\<exists>p. anchor_inv (unat depth) (ps @ [p]) a' \<and> hd (ps @ [p]) = 0
    \<and> (\<forall>k<length ps + 1. tp_timestamp ((h @ [\<lparr>tp_key = key, tp_timestamp = ts, tp_idr = idr, tp_timing = t\<rparr>]) ! (n + k)) = an_timestamp a' + of_nat ((ps @ [p]) ! k) * d)
    \<and> offset = (int p - int (length ps)) * int (unat d)
    \<and> (ps = [] \<longrightarrow> idr) \<and> (idr \<longrightarrow> p = length ps \<and> set ps = {0..<length ps})"
proof -
  have l: "length h = n + length ps" using inv by (simp add: clock_inv_def)
  have old: "ps = [] \<and> idr \<or> ps \<noteq> [] \<and> hd ps = 0 \<and> (\<forall>k<length ps. tp_timestamp (h ! (n + k)) = an_timestamp a + of_nat (ps ! k) * d)"
    and ainv: "anchor_inv (unat depth) ps a"
    using inv a anchor_inv_fresh by (auto simp: clock_inv_def anchor_for_def split: option.splits if_splits)
  obtain p where p: "anchor_inv (unat depth) (ps @ [p]) a'" "offset = (int p - int (length ps)) * int (unat d)"
    "ts = an_timestamp a + of_nat p * d" "an_timestamp a' = an_timestamp a"
    "idr \<longrightarrow> p = length ps \<and> set ps = {0..<length ps}"
    using anchor_admit_sound [OF ainv d ok] by blast
  have "hd (ps @ [p]) = 0" using old p(5) by auto
  moreover have "tp_timestamp ((h @ [\<lparr>tp_key = key, tp_timestamp = ts, tp_idr = idr, tp_timing = t\<rparr>]) ! (n + k)) = an_timestamp a' + of_nat ((ps @ [p]) ! k) * d" if "k < length ps + 1" for k
    using old p(3,4) l that by (cases "k = length ps") (auto simp: nth_append)
  moreover have "ps = [] \<longrightarrow> idr" using old by auto
  ultimately show ?thesis using p by blast
qed

lemma clock_step:
  assumes inv: "clock_inv d depth h n ps c" and d: "0 < unat d"
    and ok: "cadence_observe c key ts idr = (Inr t, c')"
  shows "\<exists>n ps. clock_inv d depth (h @ [\<lparr>tp_key = key, tp_timestamp = ts, tp_idr = idr, tp_timing = t\<rparr>]) n ps c'"
proof -
  let ?x = "\<lparr>tp_key = key, tp_timestamp = ts, tp_idr = idr, tp_timing = t\<rparr>"
  have C: "cl_duration c = d" "cl_depth c = depth" "cl_next_decode_time c = length h * unat d" "length h = n + length ps"
    "\<forall>x\<in>set h. cl_key c = Some (tp_key x)" "\<forall>i<n. \<not> tp_idr (h ! i)" "ps \<noteq> [] \<longrightarrow> tp_idr (h ! n)"
    "\<forall>k<length ps. tp_idr (h ! (n + k)) \<longrightarrow> ps ! k = k \<and> set (take k ps) = {0..<k}"
    "\<forall>i<length h. ct_decode_time (tp_timing (h ! i)) = i * unat d \<and> ct_duration (tp_timing (h ! i)) = d
          \<and> ct_anchored (tp_timing (h ! i)) = (n \<le> i)"
    using inv by (auto simp: clock_inv_def)
  obtain offset an where o: "cl_key c \<in> {None, Some key}"
    "case anchor_for c ts idr of None \<Rightarrow> offset = 0 \<and> an = None
          | Some a \<Rightarrow> \<exists>a'. anchor_admit d depth a ts idr (cl_next_decode_time c) = Inr (offset, a') \<and> an = Some a'"
    and t: "t = \<lparr>ct_decode_time = cl_next_decode_time c, ct_duration = d, ct_composition_offset = offset, ct_anchored = (an \<noteq> None)\<rparr>"
    and c': "c' = c\<lparr>cl_key := Some key, cl_next_decode_time := cl_next_decode_time c + unat d, cl_anchor := an\<rparr>"
    using ok unfolding cadence_observe_Inr C by blast
  have keys: "\<forall>y\<in>set (h @ [?x]). cl_key c' = Some (tp_key y)" using C(5) o(1) c' by auto
  show ?thesis
  proof (cases "anchor_for c ts idr")
    case None
    then have "ps = []" "an = None" "\<not> idr" using inv o(2) by (auto simp: clock_inv_def anchor_for_def split: option.splits)
    then have "clock_inv d depth (h @ [?x]) (n + 1) [] c'"
      using C keys t c' by (auto simp: clock_inv_def nth_append less_Suc_eq)
    then show ?thesis by blast
  next
    case (Some a)
    then obtain a' where a': "anchor_admit d depth a ts idr (cl_next_decode_time c) = Inr (offset, a')" "an = Some a'"
      using o(2) by auto
    obtain p where p: "anchor_inv (unat depth) (ps @ [p]) a'" "hd (ps @ [p]) = 0"
      "\<forall>k<length ps + 1. tp_timestamp ((h @ [?x]) ! (n + k)) = an_timestamp a' + of_nat ((ps @ [p]) ! k) * d"
      "offset = (int p - int (length ps)) * int (unat d)"
      "ps = [] \<longrightarrow> idr" "idr \<longrightarrow> p = length ps \<and> set ps = {0..<length ps}"
      using anchor_step [OF inv d Some a'(1)] by blast
    have "\<forall>k<length ps. ct_composition_offset (tp_timing (h ! (n + k))) = (int (ps ! k) - int k) * int (unat d)"
      using inv by (auto simp: clock_inv_def split: option.splits)
    then have "\<forall>k<length ps + 1. ct_composition_offset (tp_timing ((h @ [?x]) ! (n + k))) = (int ((ps @ [p]) ! k) - int k) * int (unat d)"
      using p(4) t C(4) by (auto simp: nth_append less_Suc_eq)
    then have "clock_inv d depth (h @ [?x]) n (ps @ [p]) c'"
      using C keys t c' p a'(2) by (auto simp: clock_inv_def nth_append less_Suc_eq)
    then show ?thesis by blast
  qed
qed

lemma cadence_run_inv:
  "clock_inv d depth h n ps c \<Longrightarrow> 0 < unat d \<Longrightarrow> cadence_run c xs = (h', c') \<Longrightarrow> \<exists>n ps. clock_inv d depth (h @ h') n ps c'"
proof (induction c xs arbitrary: h n ps h' rule: cadence_run.induct)
  case (2 c key ts idr xs)
  obtain r c1 where o: "cadence_observe c key ts idr = (r, c1)" by fastforce
  show ?case
  proof (cases r)
    case (Inl e)
    then show ?thesis using 2(1) [OF o [symmetric] Inl 2(3)[unfolded cadence_observe_Inl [OF o [unfolded Inl], symmetric]]] 2(4,5) o by simp
  next
    case (Inr t)
    obtain h1 where h1: "cadence_run c1 xs = (h1, c')" "h' = \<lparr>tp_key = key, tp_timestamp = ts, tp_idr = idr, tp_timing = t\<rparr> # h1" using 2(5) o Inr by (auto split: prod.splits)
    obtain n' ps' where "clock_inv d depth (h @ [\<lparr>tp_key = key, tp_timestamp = ts, tp_idr = idr, tp_timing = t\<rparr>]) n' ps' c1" using clock_step [OF 2(3,4)] o Inr by blast
    from 2(2) [OF o [symmetric] Inr this 2(4) h1(1)] show ?thesis using h1(2) by simp
  qed
qed auto

lemma clock_first_idr:
  assumes "clock_inv d depth h n ps c"
  shows "n = length (takeWhile (\<lambda>x. \<not> tp_idr x) h)"
proof (cases "ps = []")
  case True
  then have "\<forall>x\<in>set h. \<not> tp_idr x" using assms by (auto simp: clock_inv_def in_set_conv_nth)
  then have "length (takeWhile (\<lambda>x. \<not> tp_idr x) h) = length h" by (metis takeWhile_eq_all_conv)
  moreover have "n = length h" using True assms by (simp add: clock_inv_def)
  ultimately show ?thesis by metis
next
  case False
  then have "n < length h" "\<forall>i<n. \<not> tp_idr (h ! i)" "tp_idr (h ! n)" using assms by (auto simp: clock_inv_def)
  then have "takeWhile (\<lambda>x. \<not> tp_idr x) h = take n h" by (intro takeWhile_eq_take_P_nth) auto
  then show ?thesis using \<open>n < length h\<close> by simp
qed

lemma cadence_new_inv:
  assumes "cadence_new d depth = Inr c"
  shows "clock_inv d depth [] 0 [] c" "0 < unat d" "unat d \<le> 90000" "unat depth \<le> 16"
    "c = \<lparr>cl_duration = d, cl_depth = depth, cl_key = None, cl_next_decode_time = 0, cl_anchor = None\<rparr>"
proof -
  have b: "1 \<le> d" "d \<le> 90000" "depth \<le> 16"
    and c: "c = \<lparr>cl_duration = d, cl_depth = depth, cl_key = None, cl_next_decode_time = 0, cl_anchor = None\<rparr>"
    using assms by (auto simp: cadence_new_def MAX_CADENCE_REORDER_def split: if_splits)
  show "clock_inv d depth [] 0 [] c" using c by (simp add: clock_inv_def)
  show "0 < unat d" "unat d \<le> 90000" "unat depth \<le> 16" using b by (simp_all add: word_le_nat_alt)
qed (use assms in \<open>auto simp: cadence_new_def split: if_splits\<close>)

text \<open>C24:
  Whatever pictures a fresh clock observes, accepted or refused, the accepted ones advance the
  decoding time by exactly one duration each. Let \<open>n\<close> be how many are accepted before the first
  accepted IDR: exactly the pictures from that IDR on are anchored. They occupy pairwise distinct
  presentation positions on the declared lattice, the IDR position 0, each within the reorder distance
  of its decoding position; decoding time plus composition offset is the time of the position, and
  the RTP timestamp is that of the position modulo \<open>2 ^ 32\<close>. Every later IDR is accepted only in its
  decoding place, with the pictures before it filling exactly the positions before it. The clock calls
  its prefix complete exactly when an IDR was accepted and the positions from it on are all of the
  first ones, none missing and none repeated.
\<close>

theorem cadence_positions:
  assumes "cadence_new d depth = Inr c" and "cadence_run c xs = (h, c')"
  shows "\<exists>n ps ts0. n = length (takeWhile (\<lambda>x. \<not> tp_idr x) h) \<and> length h = n + length ps \<and> distinct ps
    \<and> (\<forall>i<length h. ct_decode_time (tp_timing (h ! i)) = i * unat d \<and> (ct_anchored (tp_timing (h ! i)) \<longleftrightarrow> n \<le> i))
    \<and> (\<forall>k<length ps. \<bar>int (ps ! k) - int k\<bar> \<le> int (unat depth)
         \<and> tp_timestamp (h ! (n + k)) = ts0 + of_nat (ps ! k) * d
         \<and> int (ct_decode_time (tp_timing (h ! (n + k)))) + ct_composition_offset (tp_timing (h ! (n + k))) = int ((n + ps ! k) * unat d)
         \<and> (tp_idr (h ! (n + k)) \<longrightarrow> ps ! k = k \<and> set (take k ps) = {0..<k}))
    \<and> (ps \<noteq> [] \<longrightarrow> hd ps = 0)
    \<and> (cadence_finish c' = Inr () \<longleftrightarrow> ps \<noteq> [] \<and> set ps = {0..<length ps})"
proof -
  note new = cadence_new_inv [OF assms(1)]
  obtain n ps where inv: "clock_inv d depth h n ps c'" using cadence_run_inv [OF new(1,2) assms(2)] by auto
  define ts0 where "ts0 = (case cl_anchor c' of None \<Rightarrow> 0 | Some a \<Rightarrow> an_timestamp a)"
  have len: "length h = n + length ps"
    and dec: "\<forall>i<length h. ct_decode_time (tp_timing (h ! i)) = i * unat d \<and> (ct_anchored (tp_timing (h ! i)) \<longleftrightarrow> n \<le> i)"
    using inv by (auto simp: clock_inv_def)
  have first: "n = length (takeWhile (\<lambda>x. \<not> tp_idr x) h)" using clock_first_idr [OF inv] .
  have "(cadence_finish c' = Inr () \<longleftrightarrow> ps \<noteq> [] \<and> set ps = {0..<length ps}) \<and> distinct ps \<and> (ps \<noteq> [] \<longrightarrow> hd ps = 0)"
    using inv anchor_closed [of "unat depth" ps]
    by (auto simp: clock_inv_def cadence_finish_def prefix_complete_def anchor_inv_def split: option.splits)
  moreover have "\<bar>int (ps ! k) - int k\<bar> \<le> int (unat depth) \<and> tp_timestamp (h ! (n + k)) = ts0 + of_nat (ps ! k) * d
      \<and> ct_composition_offset (tp_timing (h ! (n + k))) = (int (ps ! k) - int k) * int (unat d)
      \<and> (tp_idr (h ! (n + k)) \<longrightarrow> ps ! k = k \<and> set (take k ps) = {0..<k})" if "k < length ps" for k
    using inv that by (auto simp: clock_inv_def anchor_inv_def ts0_def split: option.splits)
  moreover from this have "int (ct_decode_time (tp_timing (h ! (n + k)))) + ct_composition_offset (tp_timing (h ! (n + k))) = int ((n + ps ! k) * unat d)"
    if "k < length ps" for k using that dec len by (simp add: algebra_simps)
  ultimately show ?thesis using first len dec by blast
qed

definition pictures :: "stream_key \<Rightarrow> u32 \<Rightarrow> u32 \<Rightarrow> nat list \<Rightarrow> nat \<Rightarrow> picture list" where
  "pictures key ts0 d ps k = map (\<lambda>i. (key, ts0 + of_nat (ps ! i) * d, i = 0)) [k..<length ps]"

definition bounded_permutation :: "nat \<Rightarrow> nat list \<Rightarrow> bool" where
  "bounded_permutation depth ps \<longleftrightarrow>
     set ps = {0..<length ps} \<and> (\<forall>k<length ps. \<bar>int (ps ! k) - int k\<bar> \<le> int depth) \<and> (ps \<noteq> [] \<longrightarrow> hd ps = 0)"

lemma bounded_permutation_distinct: "bounded_permutation depth ps \<Longrightarrow> distinct ps"
  by (simp add: bounded_permutation_def card_distinct)

lemma bounded_permutation_filled:
  assumes "bounded_permutation depth ps" and "k < length ps" and "i < k + 1 - depth"
  shows "i \<in> insert (ps ! k) (set (take k ps))"
proof -
  have "i \<in> set ps" using assms by (auto simp: bounded_permutation_def)
  then obtain j where j: "j < length ps" "ps ! j = i" by (meson in_set_conv_nth)
  then have "\<bar>int i - int j\<bar> \<le> int depth" using assms(1) by (auto simp: bounded_permutation_def)
  then have "j < k + 1" using assms(3) by linarith
  then have "i \<in> set (take (k + 1) ps)" using j by (metis in_set_conv_nth length_take min_less_iff_conj nth_take)
  then show ?thesis using assms(2) by (simp add: take_Suc_conv_app_nth)
qed

definition clock_at :: "stream_key \<Rightarrow> u32 \<Rightarrow> u32 \<Rightarrow> u8 \<Rightarrow> nat list \<Rightarrow> reordered_rtp_clock \<Rightarrow> bool" where
  "clock_at key ts0 d depth ps c \<longleftrightarrow>
     cl_duration c = d \<and> cl_depth c = depth \<and> cl_key c \<in> {None, Some key} \<and> cl_next_decode_time c = length ps * unat d
     \<and> (case cl_anchor c of None \<Rightarrow> ps = [] | Some a \<Rightarrow> anchor_inv (unat depth) ps a \<and> an_timestamp a = ts0 \<and> ps \<noteq> [])"

lemma picture_accepted:
  assumes c: "clock_at key ts0 d depth (take k ps) c" and key: "ingress key \<noteq> 0" "generation key \<noteq> 0"
    and d: "0 < unat d" "unat d \<le> 90000" and depth: "unat depth \<le> 16" and ps: "bounded_permutation (unat depth) ps"
    and k: "k < length ps" and time: "length ps * unat d \<le> u64_max"
  shows "\<exists>t c'. cadence_observe c key (ts0 + of_nat (ps ! k) * d) (k = 0) = (Inr t, c') \<and> clock_at key ts0 d depth (take (k + 1) ps) c'"
proof -
  let ?p = "ps ! k" and ?ts = "ts0 + of_nat (ps ! k) * d"
  have len: "length (take k ps) = k" using k by simp
  have p: "?p < length ps" "\<bar>int ?p - int k\<bar> \<le> int (unat depth)" "k = 0 \<Longrightarrow> ?p = 0"
    using ps k nth_mem [OF k] by (auto simp: bounded_permutation_def hd_conv_nth)
  have fits: "(m + 1) * unat d \<le> u64_max" if "m < length ps" for m
    using mult_le_mono1 [of "m + 1" "length ps" "unat d"] that time by simp
  have lu: "length ps \<le> u64_max" using time d(1) by (metis One_nat_def Suc_leI mult.right_neutral mult_le_mono2 order_trans)
  obtain a where a: "anchor_for c ?ts (k = 0) = Some a" "anchor_inv (unat depth) (take k ps) a" "an_timestamp a = ts0"
    using c p(3) k anchor_inv_fresh by (auto simp: clock_at_def anchor_for_def split: option.splits)
  have int_time: "int (k * unat d) + (int ?p - int (length (take k ps))) * int (unat d) = int (?p * unat d)"
    using len by (simp add: algebra_simps)
  have "\<exists>a'. anchor_admit d depth a (an_timestamp a + of_nat ?p * d) (k = 0) (k * unat d)
      = Inr ((int ?p - int (length (take k ps))) * int (unat d), a')"
  proof (rule anchor_admit_complete [OF a(2) d depth])
    show "?p \<notin> set (take k ps)"
      using bounded_permutation_distinct [OF ps] k by (auto simp: in_set_conv_nth nth_eq_iff_index_eq)
    show "\<forall>i<length (take k ps) + 1 - unat depth. i \<in> insert ?p (set (take k ps))"
      using bounded_permutation_filled [OF ps k] len by simp
    show "0 \<le> int (k * unat d) + (int ?p - int (length (take k ps))) * int (unat d)" unfolding int_time by simp
    show "int (k * unat d) + (int ?p - int (length (take k ps))) * int (unat d) + int (unat d) \<le> int u64_max"
      unfolding int_time using fits [OF p(1)] by (simp only: of_nat_add [symmetric] of_nat_le_iff) simp
  qed (use p len k lu in auto)
  then obtain a' where r: "anchor_admit d depth a ?ts (k = 0) (k * unat d) = Inr ((int ?p - int k) * int (unat d), a')"
    using a(3) len by auto
  obtain p' where p': "anchor_inv (unat depth) (take k ps @ [p']) a'" "(int ?p - int k) * int (unat d) = (int p' - int k) * int (unat d)"
    "an_timestamp a' = ts0" using anchor_admit_sound [OF a(2) d(1) r] a(3) len by auto
  then have inv: "anchor_inv (unat depth) (take (k + 1) ps) a'" using d(1) k by (simp add: take_Suc_conv_app_nth del: of_nat_unat)
  have C: "cl_duration c = d" "cl_depth c = depth" "cl_key c \<in> {None, Some key}" "cl_next_decode_time c = k * unat d"
    using c len by (auto simp: clock_at_def)
  have "\<exists>t. cadence_observe c key ?ts (k = 0) = (Inr t, c\<lparr>cl_key := Some key, cl_next_decode_time := k * unat d + unat d, cl_anchor := Some a'\<rparr>)"
    unfolding cadence_observe_Inr C a(1) using key C(3) r fits [OF k] by (intro exI conjI) (auto simp: C)
  moreover have "clock_at key ts0 d depth (take (k + 1) ps)
      (c\<lparr>cl_key := Some key, cl_next_decode_time := k * unat d + unat d, cl_anchor := Some a'\<rparr>)"
    using inv p'(3) C k by (auto simp: clock_at_def)
  ultimately show ?thesis by blast
qed

lemma pictures_accepted:
  assumes "clock_at key ts0 d depth (take k ps) c" and "k \<le> length ps" and key: "ingress key \<noteq> 0" "generation key \<noteq> 0"
    and d: "0 < unat d" "unat d \<le> 90000" and depth: "unat depth \<le> 16" and ps: "bounded_permutation (unat depth) ps"
    and time: "length ps * unat d \<le> u64_max"
  shows "\<exists>h c'. cadence_run c (pictures key ts0 d ps k) = (h, c') \<and> length h = length ps - k \<and> clock_at key ts0 d depth ps c'"
  using assms(1,2)
proof (induction "length ps - k" arbitrary: k c)
  case 0
  then show ?case by (simp add: pictures_def)
next
  case (Suc n)
  then have k: "k < length ps" by simp
  then have cons: "pictures key ts0 d ps k = (key, ts0 + of_nat (ps ! k) * d, k = 0) # pictures key ts0 d ps (k + 1)"
    by (simp add: pictures_def upt_conv_Cons)
  obtain t c1 where o: "cadence_observe c key (ts0 + of_nat (ps ! k) * d) (k = 0) = (Inr t, c1)" "clock_at key ts0 d depth (take (k + 1) ps) c1"
    using picture_accepted [OF Suc.prems(1) key d depth ps k time] by blast
  have "n = length ps - (k + 1)" using Suc.hyps(2) by simp
  from Suc.hyps(1) [OF this o(2)] k obtain h c' where "cadence_run c1 (pictures key ts0 d ps (k + 1)) = (h, c')"
    "length h = length ps - (k + 1)" "clock_at key ts0 d depth ps c'" by auto
  then show ?case using o(1) k unfolding cons by (simp add: Suc_diff_Suc)
qed

text \<open>Conversely the clock refuses nothing it should take: a stream in which every presentation position
  occurs once, the first picture is the IDR at position 0, and no picture is further than the reorder
  distance from its decoding position, is accepted picture by picture and then reported finished,
  from any origin of the 32-bit timestamps, as long as its length fits the 64-bit timeline.
\<close>

theorem cadence_accepts_permutations:
  assumes "cadence_new d depth = Inr c" and "ingress key \<noteq> 0" and "generation key \<noteq> 0"
    and "bounded_permutation (unat depth) ps" and "ps \<noteq> []" and "length ps * unat d \<le> u64_max"
  shows "\<exists>h c'. cadence_run c (pictures key ts0 d ps 0) = (h, c') \<and> length h = length ps \<and> cadence_finish c' = Inr ()"
proof -
  note new = cadence_new_inv [OF assms(1)]
  have "clock_at key ts0 d depth (take 0 ps) c" using new(5) by (simp add: clock_at_def)
  from pictures_accepted [OF this le0 assms(2,3) new(2,3,4) assms(4,6)] obtain h c' where
    r: "cadence_run c (pictures key ts0 d ps 0) = (h, c')" "length h = length ps" "clock_at key ts0 d depth ps c'" by auto
  have "set ps = {0..<length ps}" using assms(4) by (simp add: bounded_permutation_def)
  then have "cadence_finish c' = Inr ()" using r(3) assms(5) anchor_closed [of "unat depth" ps]
    by (auto simp: clock_at_def cadence_finish_def prefix_complete_def split: option.splits)
  then show ?thesis using r by blast
qed

definition sample_cadence :: reordered_rtp_clock where
  "sample_cadence = \<lparr>cl_duration = 3600, cl_depth = 2, cl_key = None, cl_next_decode_time = 0, cl_anchor = None\<rparr>"

lemma sample_cadence_new: "cadence_new 3600 2 = Inr sample_cadence"
  by (simp add: cadence_new_def MAX_CADENCE_REORDER_def sample_cadence_def)

theorem cadence_accepts_permutations_witness:
  "\<exists>h c'. cadence_run sample_cadence (pictures \<lparr>ingress = 1, generation = 1, key_ssrc = 7\<rparr> 0xfffff000 3600 [0, 3, 1, 2] 0) = (h, c')
     \<and> length h = length [0, 3, 1, 2 :: nat] \<and> cadence_finish c' = Inr ()"
proof -
  have "bounded_permutation 2 [0, 3, 1, 2]"
    by (auto simp: bounded_permutation_def less_Suc_eq numeral_eq_Suc)
  then show ?thesis
    using cadence_accepts_permutations [OF sample_cadence_new, of "\<lparr>ingress = 1, generation = 1, key_ssrc = 7\<rparr>" "[0, 3, 1, 2]" "0xfffff000"]
    by (simp add: u64_max_def)
qed

text \<open>
  Four pictures of one stream, displayed 0, 1, 2 and decoded 0, 2, 1 from the first IDR on; a picture
  before the IDR is timed but not anchored, and a repeated timestamp is refused.
\<close>

definition sample_pictures :: "picture list" where
  "sample_pictures =
     (let key = \<lparr>ingress = 1, generation = 1, key_ssrc = 7\<rparr> in
      [(key, 5, False), (key, 0xfffff000, True), (key, 0xfffff000 + 7200, False),
       (key, 0xfffff000 + 7200, False), (key, 0xfffff000 + 3600, False)])"

lemma sample_retire:
  "retire 1 0 = Inr (0, 1)" "retire 2 (Suc 0) = Inr (2, 1)" "retire 3 (Suc 0) = Inr (0, 3)"
  by (subst retire.simps, simp add: retire.simps rust_simps u64_max_def)+

lemmas sample_cadence_eval =
  sample_pictures_def sample_cadence_def cadence_observe_def anchor_admit_def sample_retire checked_add_def
  checked_sub_def ok_or_def try_then_def u64_max_def checked_add_signed_def cadence_finish_def
  prefix_complete_def signed_divide_int_def signed_modulo_int_def

lemma sample_cadence_run:
  "case cadence_run sample_cadence sample_pictures of (h, c') \<Rightarrow>
     map tp_idr h = [False, True, False, False] \<and> cadence_finish c' = Inr ()
     \<and> map (\<lambda>x. ct_composition_offset (tp_timing x)) h = [0, 0, 3600, -3600]"
  by (simp add: sample_cadence_eval Let_def)

theorem cadence_positions_witness:
  "\<exists>h c' ps. cadence_run sample_cadence sample_pictures = (h, c') \<and> length h = 4
     \<and> \<not> ct_anchored (tp_timing (h ! 0)) \<and> tp_idr (h ! 1) \<and> ct_anchored (tp_timing (h ! 1))
     \<and> length ps = 3 \<and> hd ps = 0 \<and> set ps = {0..<3 :: nat} \<and> cadence_finish c' = Inr ()"
proof -
  obtain h c' where r: "cadence_run sample_cadence sample_pictures = (h, c')" by fastforce
  then have m: "map tp_idr h = [False, True, False, False]" "cadence_finish c' = Inr ()"
    using sample_cadence_run by simp_all
  have "length (takeWhile (\<lambda>x. \<not> tp_idr x) h) = length (takeWhile Not (map tp_idr h))"
    by (simp add: takeWhile_map comp_def)
  then have n: "length (takeWhile (\<lambda>x. \<not> tp_idr x) h) = 1" "length h = 4" "tp_idr (h ! 1)"
    using m(1) by (auto simp: map_eq_Cons_conv)
  from cadence_positions [OF sample_cadence_new r] n(1) obtain ps :: "nat list" where
    "length h = 1 + length ps" "ps \<noteq> [] \<longrightarrow> hd ps = 0" "cadence_finish c' = Inr () \<longleftrightarrow> ps \<noteq> [] \<and> set ps = {0..<length ps}"
    "\<forall>i<length h. ct_anchored (tp_timing (h ! i)) \<longleftrightarrow> 1 \<le> i" by force
  then show ?thesis using r m(2) n(2,3) by (intro exI [of _ h] exI [of _ c'] exI [of _ ps]) auto
qed

end
