(* ===== verification/Sntp.thy ===== *)
theory Sntp
  imports Rtcp Complex_Main
begin

unbundle bit_operations_syntax

text \<open>
  SNTP evidence, \<open>crates/fss-packet/src/ntp.rs\<close>: one client request, and the evaluation of one
  48-byte reply into a conservative interval for the server-minus-local clock offset. The interval is
  proved to contain the true offset for every pair of nonnegative path delays, and era unfolding to
  recover the true timestamp.
\<close>

section \<open>ntp.rs\<close>

definition PACKET_BYTES :: usize where "PACKET_BYTES = 48"
definition MAX_EXCHANGE_NS :: u64 where "MAX_EXCHANGE_NS = 1000000000"
definition MAX_OFFSET_NS :: u64 where "MAX_OFFSET_NS = 10000000000"
definition MAX_UNCERTAINTY_NS :: u64 where "MAX_UNCERTAINTY_NS = 10000000000"
definition NOMINAL_FREQUENCY_TOLERANCE_PPM :: u64 where "NOMINAL_FREQUENCY_TOLERANCE_PPM = 15"
definition NS_PER_SECOND :: i128 where "NS_PER_SECOND = 1000000000"
definition FRACTION_SCALE :: i128 where "FRACTION_SCALE = 2 ^ 32"
definition ERA_SECONDS :: i128 where "ERA_SECONDS = 2 ^ 32"
definition NTP_UNIX_EPOCH_SECONDS :: i128 where "NTP_UNIX_EPOCH_SECONDS = 2208988800"

lemmas ntp_consts = PACKET_BYTES_def MAX_EXCHANGE_NS_def MAX_OFFSET_NS_def MAX_UNCERTAINTY_NS_def
  NOMINAL_FREQUENCY_TOLERANCE_PPM_def NS_PER_SECOND_def FRACTION_SCALE_def ERA_SECONDS_def NTP_UNIX_EPOCH_SECONDS_def

record unix_time_interval =
  earliest_ns :: u64
  latest_ns :: u64

record local_exchange =
  le_sent :: unix_time_interval
  le_received :: unix_time_interval

record offset_interval =
  lower_ns :: i64
  upper_ns :: i64

record duration_interval =
  dur_lower_ns :: u64
  dur_upper_ns :: u64

record sntp_limits =
  max_exchange_ns :: u64
  max_offset_ns :: u64
  max_uncertainty_ns :: u64

datatype sntp_error =
    Limits | Length | Version | Mode | Unsynchronized | KissOfDeath | Origin | ZeroTimestamp | Era
  | LocalTime | ExchangeLimit | Timing | RootDelay | Uncertainty | Offset

record sntp_request =
  rq_bytes :: bytes
  rq_transmit_unix_ns :: u64
  rq_transmit :: ntp_timestamp

record sntp_observation =
  ob_offset_interval :: offset_interval
  ob_offset_ns :: i64
  ob_uncertainty_ns :: u64
  ob_network_round_trip :: duration_interval
  ob_local_elapsed :: duration_interval
  ob_server_processing :: duration_interval
  ob_root_delay_ns :: u64
  ob_root_dispersion_ns :: u64
  ob_server_precision_ns :: u64
  ob_frequency_tolerance_ns :: u64
  ob_leap_indicator :: u8
  ob_stratum :: u8
  ob_poll_log2 :: int
  ob_precision_log2 :: int
  ob_reference_id :: bytes
  ob_reference_timestamp :: ntp_timestamp
  ob_receive_timestamp :: ntp_timestamp
  ob_transmit_timestamp :: ntp_timestamp
  ob_reference_unix_ns :: unix_time_interval
  ob_receive_unix_ns :: unix_time_interval
  ob_transmit_unix_ns :: unix_time_interval

definition ntp_nonzero :: "ntp_timestamp \<Rightarrow> sntp_error + unit" where
  "ntp_nonzero v = (if ntp_seconds v = 0 \<and> ntp_fraction v = 0 then Inl ZeroTimestamp else Inr ())"

definition sntp_request_new :: "u64 \<Rightarrow> sntp_error + sntp_request" where
  "sntp_request_new transmit_unix_ns =
     (let seconds = int transmit_unix_ns div NS_PER_SECOND + NTP_UNIX_EPOCH_SECONDS;
          fraction = (int transmit_unix_ns mod NS_PER_SECOND) * FRACTION_SCALE div NS_PER_SECOND;
          transmit = \<lparr>ntp_seconds = word_of_int (seconds mod ERA_SECONDS), ntp_fraction = word_of_int fraction\<rparr> in
      try_then (ntp_nonzero transmit) (\<lambda>_.
        let bytes = 0x23 # replicate 39 0 @ to_be32 (ntp_seconds transmit) @ to_be32 (ntp_fraction transmit)
        in Inr \<lparr>rq_bytes = bytes, rq_transmit_unix_ns = transmit_unix_ns, rq_transmit = transmit\<rparr>))"

definition sntp_validate_limits :: "sntp_limits \<Rightarrow> sntp_error + unit" where
  "sntp_validate_limits l =
     (if max_exchange_ns l = 0 \<or> max_exchange_ns l > MAX_EXCHANGE_NS
         \<or> max_offset_ns l = 0 \<or> max_offset_ns l > MAX_OFFSET_NS
         \<or> max_uncertainty_ns l = 0 \<or> max_uncertainty_ns l > MAX_UNCERTAINTY_NS
      then Inl Limits else Inr ())"

definition validate_local :: "u64 \<Rightarrow> local_exchange \<Rightarrow> sntp_limits \<Rightarrow> sntp_error + duration_interval" where
  "validate_local request_unix_ns exch limits =
     (if earliest_ns (le_sent exch) > request_unix_ns
         \<or> latest_ns (le_sent exch) < request_unix_ns
         \<or> earliest_ns (le_received exch) > latest_ns (le_received exch)
         \<or> latest_ns (le_sent exch) > earliest_ns (le_received exch)
      then Inl LocalTime
      else
        let elapsed = \<lparr>dur_lower_ns = earliest_ns (le_received exch) - latest_ns (le_sent exch),
                       dur_upper_ns = latest_ns (le_received exch) - earliest_ns (le_sent exch)\<rparr> in
        if dur_upper_ns elapsed > max_exchange_ns limits then Inl ExchangeLimit else Inr elapsed)"

definition ntp_word :: "bytes \<Rightarrow> usize \<Rightarrow> u32" where
  "ntp_word bs position = be32 [bs ! position, bs ! (position + 1), bs ! (position + 2), bs ! (position + 3)]"

definition ntp_timestamp_at :: "bytes \<Rightarrow> usize \<Rightarrow> ntp_timestamp" where
  "ntp_timestamp_at bs position = \<lparr>ntp_seconds = ntp_word bs position, ntp_fraction = ntp_word bs (position + 4)\<rparr>"

definition div_ceil :: "u64 \<Rightarrow> u64 \<Rightarrow> u64" where
  "div_ceil a b = (a + b - 1) div b"

definition short_up :: "u32 \<Rightarrow> u64" where
  "short_up v = div_ceil (unat v * 1000000000) (2 ^ 16)"

definition precision_up :: "int \<Rightarrow> sntp_error + u64" where
  "precision_up exponent =
     (if exponent \<le> - 30 then Inr 1
      else if exponent < 0 then Inr (div_ceil 1000000000 (2 ^ nat (- exponent)))
      else if exponent > 3 then Inl Uncertainty
      else Inr (1000000000 * 2 ^ nat exponent))"

record unfolded =
  uf_ticks :: i128
  uf_ns :: unix_time_interval

text \<open>One round of the \<open>for era\<close> loop, on \<open>(nearest, distance, ambiguous)\<close>.\<close>

definition unfold_round ::
  "ntp_timestamp \<Rightarrow> i128 \<Rightarrow> i128 option \<times> i128 \<times> bool \<Rightarrow> i128 \<Rightarrow> i128 option \<times> i128 \<times> bool" where
  "unfold_round value hint_scaled st era =
     (case st of (nearest, distance, ambiguous) \<Rightarrow>
        let ticks = (era * ERA_SECONDS + uint (ntp_seconds value)) * FRACTION_SCALE + uint (ntp_fraction value);
            candidate_distance = \<bar>ticks * NS_PER_SECOND - hint_scaled\<bar> in
        if candidate_distance < distance then (Some ticks, candidate_distance, False)
        else if candidate_distance = distance then (nearest, distance, True)
        else (nearest, distance, ambiguous))"

definition unfold :: "ntp_timestamp \<Rightarrow> u64 \<Rightarrow> sntp_error + unfolded" where
  "unfold value hint_unix_ns =
     try_then (ntp_nonzero value) (\<lambda>_.
     let hint_ntp_ns = int hint_unix_ns + NTP_UNIX_EPOCH_SECONDS * NS_PER_SECOND;
         hint_scaled = hint_ntp_ns * FRACTION_SCALE;
         hint_era = hint_ntp_ns div (ERA_SECONDS * NS_PER_SECOND);
         (nearest, distance, ambiguous) =
           foldl (unfold_round value hint_scaled) (None, 2 ^ 127 - 1, False) [hint_era - 1, hint_era, hint_era + 1] in
     if ambiguous then Inl Era
     else
       try_then (ok_or nearest Era) (\<lambda>nearest.
       let ticks = nearest - NTP_UNIX_EPOCH_SECONDS * FRACTION_SCALE in
       if ticks < 0 then Inl Era
       else
         let lower = ticks * NS_PER_SECOND div FRACTION_SCALE;
             upper = (ticks * NS_PER_SECOND + FRACTION_SCALE - 1) div FRACTION_SCALE in
         if upper > int u64_max then Inl Era
         else Inr \<lparr>uf_ticks = ticks, uf_ns = \<lparr>earliest_ns = nat lower, latest_ns = nat upper\<rparr>\<rparr>))"

definition duration_from_ticks :: "i128 \<Rightarrow> duration_interval" where
  "duration_from_ticks ticks =
     (let numerator = ticks * NS_PER_SECOND in
      \<lparr>dur_lower_ns = nat (numerator div FRACTION_SCALE),
       dur_upper_ns = nat ((numerator + FRACTION_SCALE - 1) div FRACTION_SCALE)\<rparr>)"

text \<open>
  The arithmetic of \<open>evaluate_reply\<close> after the header checks, on the unfolded timestamps; \<open>Inr\<close>
  carries lower, upper, midpoint and uncertainty.
\<close>

definition sntp_interval ::
  "unfolded \<Rightarrow> unfolded \<Rightarrow> local_exchange \<Rightarrow> sntp_limits \<Rightarrow> int \<Rightarrow> sntp_error + int \<times> int \<times> int \<times> int" where
  "sntp_interval receive transmit exch limits allowance =
     (let lower = int (earliest_ns (uf_ns transmit)) - int (latest_ns (le_received exch)) - allowance;
          upper = int (latest_ns (uf_ns receive)) - int (earliest_ns (le_sent exch)) + allowance in
      if lower > upper then Inl Timing
      else
        let midpoint = (lower + upper) div 2;
            uncertainty = max (max (midpoint - lower) (upper - midpoint)) 1 in
        if uncertainty > int (max_uncertainty_ns limits) then Inl Uncertainty
        else if \<bar>midpoint\<bar> > int (max_offset_ns limits) then Inl Offset
        else Inr (lower, upper, midpoint, uncertainty))"

text \<open>The observation that \<open>evaluate_reply\<close> returns, field by field.\<close>

definition sntp_report ::
  "bytes \<Rightarrow> duration_interval \<Rightarrow> u64 \<Rightarrow> u64 \<Rightarrow> unfolded \<Rightarrow> unfolded \<Rightarrow> unfolded \<Rightarrow> int \<Rightarrow> int \<Rightarrow> int \<Rightarrow> int
     \<Rightarrow> sntp_observation" where
  "sntp_report reply local_elapsed server_precision_ns frequency_tolerance_ns reference receive transmit
     lower upper midpoint uncertainty =
     (let server_processing = duration_from_ticks (uf_ticks transmit - uf_ticks receive) in
      \<lparr>ob_offset_interval = \<lparr>lower_ns = lower, upper_ns = upper\<rparr>,
       ob_offset_ns = midpoint, ob_uncertainty_ns = nat uncertainty,
       ob_network_round_trip =
         \<lparr>dur_lower_ns = dur_lower_ns local_elapsed - dur_upper_ns server_processing,
          dur_upper_ns = dur_upper_ns local_elapsed - dur_lower_ns server_processing\<rparr>,
       ob_local_elapsed = local_elapsed, ob_server_processing = server_processing,
       ob_root_delay_ns = short_up (ntp_word reply 4), ob_root_dispersion_ns = short_up (ntp_word reply 8),
       ob_server_precision_ns = server_precision_ns, ob_frequency_tolerance_ns = frequency_tolerance_ns,
       ob_leap_indicator = drop_bit 6 (reply ! 0), ob_stratum = reply ! 1,
       ob_poll_log2 = sint (reply ! 2), ob_precision_log2 = sint (reply ! 3),
       ob_reference_id = subslice reply 12 16, ob_reference_timestamp = ntp_timestamp_at reply 16,
       ob_receive_timestamp = ntp_timestamp_at reply 32, ob_transmit_timestamp = ntp_timestamp_at reply 40,
       ob_reference_unix_ns = uf_ns reference, ob_receive_unix_ns = uf_ns receive,
       ob_transmit_unix_ns = uf_ns transmit\<rparr>)"

definition evaluate_reply ::
  "sntp_request \<Rightarrow> bytes \<Rightarrow> local_exchange \<Rightarrow> sntp_limits \<Rightarrow> sntp_error + sntp_observation" where
  "evaluate_reply rq reply exch limits =
     try_then (sntp_validate_limits limits) (\<lambda>_.
     try_then (validate_local (rq_transmit_unix_ns rq) exch limits) (\<lambda>local_elapsed.
     if length reply \<noteq> PACKET_BYTES then Inl Length
     else if drop_bit 3 (reply ! 0) AND 7 \<noteq> 4 then Inl sntp_error.Version
     else if reply ! 0 AND 7 \<noteq> 4 then Inl Mode
     else if reply ! 1 = 0 then Inl KissOfDeath
     else
       let leap_indicator = drop_bit 6 (reply ! 0) in
       if leap_indicator = 3 \<or> reply ! 1 \<ge> 16 then Inl Unsynchronized
       else if ntp_timestamp_at reply 24 \<noteq> rq_transmit rq then Inl Origin
       else
         let root_delay = ntp_word reply 4 in
         if root_delay AND 0x80000000 \<noteq> 0 then Inl RootDelay
         else
           let root_delay_ns = short_up root_delay;
               root_dispersion_ns = short_up (ntp_word reply 8);
               precision_log2 = sint (reply ! 3) in
           try_then (precision_up precision_log2) (\<lambda>server_precision_ns.
           let reference_timestamp = ntp_timestamp_at reply 16;
               receive_timestamp = ntp_timestamp_at reply 32;
               transmit_timestamp = ntp_timestamp_at reply 40 in
           try_then (unfold reference_timestamp (rq_transmit_unix_ns rq)) (\<lambda>reference.
           try_then (unfold receive_timestamp (rq_transmit_unix_ns rq)) (\<lambda>receive.
           try_then (unfold transmit_timestamp (rq_transmit_unix_ns rq)) (\<lambda>transmit.
           if uf_ticks transmit < uf_ticks receive \<or> uf_ticks reference > uf_ticks transmit then Inl Timing
           else
             let processing_ticks = uf_ticks transmit - uf_ticks receive in
             if processing_ticks * NS_PER_SECOND > int (dur_upper_ns local_elapsed) * FRACTION_SCALE then Inl Timing
             else
               let frequency_tolerance_ns =
                     div_ceil (dur_upper_ns local_elapsed * NOMINAL_FREQUENCY_TOLERANCE_PPM) 1000000;
                   allowance = int (div_ceil root_delay_ns 2) + int root_dispersion_ns
                     + int server_precision_ns + int frequency_tolerance_ns in
               try_then (sntp_interval receive transmit exch limits allowance) (\<lambda>(lower, upper, midpoint, uncertainty).
               Inr (sntp_report reply local_elapsed server_precision_ns frequency_tolerance_ns
                      reference receive transmit lower upper midpoint uncertainty))))))))"


section \<open>Era unfolding\<close>

text \<open>A timestamp of \<open>n\<close> ticks since 1900 as it travels: seconds modulo the era, and the fraction.\<close>

definition ntp_of_ticks :: "int \<Rightarrow> ntp_timestamp" where
  "ntp_of_ticks n = \<lparr>ntp_seconds = word_of_int (n div 2 ^ 32), ntp_fraction = word_of_int n\<rparr>"

definition hint_ticks_ns :: "u64 \<Rightarrow> int" where
  "hint_ticks_ns hint = (int hint + 2208988800 * 10 ^ 9) * 2 ^ 32"

lemma ntp_of_ticks_value:
  "(e * 2 ^ 32 + uint (ntp_seconds (ntp_of_ticks n))) * 2 ^ 32 + uint (ntp_fraction (ntp_of_ticks n)) = n mod 2 ^ 64 + e * 2 ^ 64"
proof -
  have "n mod 2 ^ 64 = (n div 2 ^ 32 mod 2 ^ 32) * 2 ^ 32 + n mod 2 ^ 32"
    using zmod_zmult2_eq [of "2 ^ 32" n "2 ^ 32"] by simp
  then show ?thesis by (simp add: ntp_of_ticks_def uint_word_of_int algebra_simps)
qed

text \<open>Of the three candidates one era apart, the one within half an era of the hint wins alone.\<close>

lemma unfold_nearest:
  fixes n H h :: int
  assumes near: "\<bar>n * 10 ^ 9 - H\<bar> < 2 ^ 63 * 10 ^ 9"
    and h: "h * (2 ^ 64 * 10 ^ 9) \<le> H" "H < (h + 1) * (2 ^ 64 * 10 ^ 9)"
  shows "\<exists>d. foldl (unfold_round (ntp_of_ticks n) H) (None, 2 ^ 127 - 1, False) [h - 1, h, h + 1] = (Some n, d, False)"
proof -
  define c where "c = n mod 2 ^ 64 + h * 2 ^ 64"
  define e where "e = n div 2 ^ 64"
  have n: "n = e * 2 ^ 64 + n mod 2 ^ 64" by (simp add: e_def)
  have m: "0 \<le> n mod 2 ^ 64" "n mod 2 ^ 64 < 2 ^ 64" by simp_all
  have "e \<in> {h - 1, h, h + 1}"
  proof -
    define r where "r = n mod 2 ^ 64"
    have r: "n = e * 2 ^ 64 + r" "0 \<le> r" "r < 2 ^ 64" using n m by (simp_all add: r_def)
    have "e < h + 2" "h - 2 < e"
      using near h r(2,3) unfolding r(1) abs_less_iff by (simp_all add: algebra_simps)
    then show ?thesis by auto
  qed
  then have cases: "n = c - 2 ^ 64 \<or> n = c \<or> n = c + 2 ^ 64" using n c_def by auto
  let ?A = "2 ^ 64 * 10 ^ 9 :: int"
  define x where "x = c * 10 ^ 9 - H"
  have x: "\<bar>x\<bar> < ?A" using h m by (simp add: x_def c_def)
  define y where "y k = \<bar>x + k * ?A\<bar>" for k
  have round: "unfold_round (ntp_of_ticks n) H (z, d, b) (h + k) =
      (if y k < d then (Some (c + k * 2 ^ 64), y k, False) else if y k = d then (z, d, True) else (z, d, b))" for z d b k
  proof -
    have tk: "((h + k) * ERA_SECONDS + uint (ntp_seconds (ntp_of_ticks n))) * FRACTION_SCALE + uint (ntp_fraction (ntp_of_ticks n))
        = c + k * 2 ^ 64"
      unfolding ERA_SECONDS_def FRACTION_SCALE_def ntp_of_ticks_value c_def by (simp add: distrib_right)
    have "\<bar>(c + k * 2 ^ 64) * NS_PER_SECOND - H\<bar> = y k" by (simp add: y_def x_def NS_PER_SECOND_def algebra_simps)
    then show ?thesis unfolding unfold_round_def Let_def prod.case tk by simp
  qed
  have small: "y (- 1) < 2 ^ 127 - 1" using x by (simp add: y_def)
  have near': "n = c + k * 2 ^ 64 \<Longrightarrow> y k < 2 ^ 63 * 10 ^ 9" for k using near by (simp add: y_def x_def algebra_simps)
  have far: "y j > 2 ^ 63 * 10 ^ 9" if "y k < 2 ^ 63 * 10 ^ 9" "j \<noteq> k" for j k
  proof -
    have "\<bar>j - k\<bar> \<ge> 1" using that(2) by linarith
    then have "\<bar>(j - k) * ?A\<bar> \<ge> ?A" by (simp add: abs_mult)
    then show ?thesis using that(1) by (simp add: y_def algebra_simps)
  qed
  note rounds = round [of _ _ _ "- 1", simplified] round [of _ _ _ 0, simplified] round [of _ _ _ 1, simplified]
  let ?fold = "foldl (unfold_round (ntp_of_ticks n) H) (None, 2 ^ 127 - 1, False) [h - 1, h, h + 1]"
  have "?fold = (Some (c + k * 2 ^ 64), y k, False)" if "k \<in> {-1, 0, 1}" "y k < 2 ^ 63 * 10 ^ 9" for k
    using that far [OF that(2), of "- 1"] far [OF that(2), of 0] far [OF that(2), of 1] small
    by (auto simp: rounds)
  moreover from cases have "n = c + (- 1) * 2 ^ 64 \<or> n = c + 0 * 2 ^ 64 \<or> n = c + 1 * 2 ^ 64" by linarith
  ultimately show ?thesis using near' by (metis insertCI)
qed


text \<open>Nanoseconds since 1970 of a tick count since 1900, exactly.\<close>

definition unix_ns_of_ticks :: "int \<Rightarrow> real" where
  "unix_ns_of_ticks n = real_of_int (n - 2208988800 * 2 ^ 32) * 10 ^ 9 / 2 ^ 32"

lemma scale_bounds:
  fixes M :: int
  defines "lo \<equiv> M div 2 ^ 32" and "up \<equiv> (M + 2 ^ 32 - 1) div 2 ^ 32"
  shows "real_of_int lo \<le> real_of_int M / 2 ^ 32" "real_of_int M / 2 ^ 32 \<le> real_of_int up"
    "real_of_int up < real_of_int M / 2 ^ 32 + 1" "up \<le> lo + 1"
proof -
  have lo: "lo * 2 ^ 32 \<le> M" "M < lo * 2 ^ 32 + 2 ^ 32" and up: "up * 2 ^ 32 < M + 2 ^ 32" "M \<le> up * 2 ^ 32"
    by (simp_all add: lo_def up_def)
  from lo(1) have "real_of_int (lo * 2 ^ 32) \<le> real_of_int M" by (rule of_int_le_iff [THEN iffD2])
  then show "real_of_int lo \<le> real_of_int M / 2 ^ 32" by simp
  from up(2) have "real_of_int M \<le> real_of_int (up * 2 ^ 32)" by (rule of_int_le_iff [THEN iffD2])
  then show "real_of_int M / 2 ^ 32 \<le> real_of_int up" by simp
  from up(1) have "real_of_int (up * 2 ^ 32) < real_of_int (M + 2 ^ 32)" by (rule of_int_less_iff [THEN iffD2])
  then show "real_of_int up < real_of_int M / 2 ^ 32 + 1" by simp
  show "up \<le> lo + 1" using lo up by simp
qed

text \<open>Era unfolding recovers the full timestamp from its 64 bits on the wire: if the true time is less
  than half an era from the hint, not before 1970 and not past the end of 64-bit nanoseconds, and the
  wire form is not the reserved all-zero value, then the ticks are the true ones and the interval of
  nanoseconds contains the true time and is at most one nanosecond wide.
\<close>

theorem unfold_exact:
  assumes "ntp_of_ticks n \<noteq> \<lparr>ntp_seconds = 0, ntp_fraction = 0\<rparr>"
    and "\<bar>n * 10 ^ 9 - hint_ticks_ns hint\<bar> < 2 ^ 63 * 10 ^ 9"
    and "2208988800 * 2 ^ 32 \<le> n" and "unix_ns_of_ticks n \<le> real u64_max"
  shows "\<exists>u. unfold (ntp_of_ticks n) hint = Inr u \<and> uf_ticks u = n - 2208988800 * 2 ^ 32
    \<and> real (earliest_ns (uf_ns u)) \<le> unix_ns_of_ticks n \<and> unix_ns_of_ticks n \<le> real (latest_ns (uf_ns u))
    \<and> latest_ns (uf_ns u) \<le> earliest_ns (uf_ns u) + 1"
proof -
  define H where "H = hint_ticks_ns hint"
  define h where "h = (int hint + 2208988800 * 10 ^ 9) div (2 ^ 32 * 10 ^ 9)"
  have "h * (2 ^ 64 * 10 ^ 9) \<le> H \<and> H < (h + 1) * (2 ^ 64 * 10 ^ 9)"
  proof -
    let ?N = "int hint + 2208988800 * 10 ^ 9" and ?D = "2 ^ 32 * 10 ^ 9 :: int"
    have "h * ?D \<le> ?N" "?N < (h + 1) * ?D"
      unfolding h_def using div_mult_mod_eq [of ?N ?D] pos_mod_bound [of ?D ?N] pos_mod_sign [of ?D ?N]
      by (simp_all only: distrib_right) simp_all
    then show ?thesis unfolding H_def hint_ticks_ns_def by simp
  qed
  then obtain d where f: "foldl (unfold_round (ntp_of_ticks n) H) (None, 2 ^ 127 - 1, False) [h - 1, h, h + 1] = (Some n, d, False)"
    using unfold_nearest assms(2) unfolding H_def by blast
  have f': "foldl (unfold_round (ntp_of_ticks n) ((int hint + NTP_UNIX_EPOCH_SECONDS * NS_PER_SECOND) * FRACTION_SCALE)) (None, 2 ^ 127 - 1, False)
      [(int hint + NTP_UNIX_EPOCH_SECONDS * NS_PER_SECOND) div (ERA_SECONDS * NS_PER_SECOND) - 1,
       (int hint + NTP_UNIX_EPOCH_SECONDS * NS_PER_SECOND) div (ERA_SECONDS * NS_PER_SECOND),
       (int hint + NTP_UNIX_EPOCH_SECONDS * NS_PER_SECOND) div (ERA_SECONDS * NS_PER_SECOND) + 1] = (Some n, d, False)"
    using f by (simp only: H_def h_def hint_ticks_ns_def ntp_consts) simp
  have nz: "ntp_nonzero (ntp_of_ticks n) = Inr ()" using assms(1) by (auto simp: ntp_nonzero_def)
  define t where "t = n - 2208988800 * 2 ^ 32"
  have t: "0 \<le> t" "unix_ns_of_ticks n = real_of_int (t * 10 ^ 9) / 2 ^ 32" using assms(3) by (simp_all add: t_def unix_ns_of_ticks_def)
  note B = scale_bounds [of "t * 10 ^ 9", folded t(2)]
  have u: "(t * 10 ^ 9 + 2 ^ 32 - 1) div 2 ^ 32 \<le> int u64_max" using B(3) assms(4) by linarith
  have "unfold (ntp_of_ticks n) hint = Inr \<lparr>uf_ticks = t,
      uf_ns = \<lparr>earliest_ns = nat (t * 10 ^ 9 div 2 ^ 32), latest_ns = nat ((t * 10 ^ 9 + 2 ^ 32 - 1) div 2 ^ 32)\<rparr>\<rparr>"
    unfolding unfold_def Let_def nz try_then_simps f' prod.case ok_or_simps if_False
    using t(1) u by (simp only: ntp_consts t_def [symmetric]) simp
  moreover have "0 \<le> t * 10 ^ 9 div 2 ^ 32" using t(1) by simp
  ultimately show ?thesis using B(1,2,4) unfolding t_def [symmetric] by (auto simp del: times_divide_eq_left)
qed


section \<open>The offset interval\<close>

text \<open>The server's asserted error at each of its two readings, as the observation reports it.\<close>

definition sntp_allowance :: "sntp_observation \<Rightarrow> nat" where
  "sntp_allowance ob = div_ceil (ob_root_delay_ns ob) 2 + ob_root_dispersion_ns ob + ob_server_precision_ns ob
     + ob_frequency_tolerance_ns ob"

lemma sntp_interval_Inr:
  "sntp_interval receive transmit exch limits A = Inr (lower, upper, mid, unc) \<longleftrightarrow>
     lower = int (earliest_ns (uf_ns transmit)) - int (latest_ns (le_received exch)) - A
     \<and> upper = int (latest_ns (uf_ns receive)) - int (earliest_ns (le_sent exch)) + A
     \<and> lower \<le> upper \<and> mid = (lower + upper) div 2 \<and> unc = max (max (mid - lower) (upper - mid)) 1
     \<and> unc \<le> int (max_uncertainty_ns limits) \<and> \<bar>mid\<bar> \<le> int (max_offset_ns limits)"
  unfolding sntp_interval_def Let_def if_Inl_Inr sum.inject prod.inject not_less by blast

lemma evaluate_reply_Inr:
  assumes "evaluate_reply rq reply exch limits = Inr ob"
  obtains receive transmit lower upper mid unc where
    "sntp_validate_limits limits = Inr ()" "ntp_timestamp_at reply 24 = rq_transmit rq"
    "sntp_interval receive transmit exch limits (int (sntp_allowance ob)) = Inr (lower, upper, mid, unc)"
    "uf_ns receive = ob_receive_unix_ns ob" "uf_ns transmit = ob_transmit_unix_ns ob"
    "unfold (ntp_timestamp_at reply 32) (rq_transmit_unix_ns rq) = Inr receive"
    "unfold (ntp_timestamp_at reply 40) (rq_transmit_unix_ns rq) = Inr transmit"
    "ob_offset_interval ob = \<lparr>lower_ns = lower, upper_ns = upper\<rparr>" "ob_offset_ns ob = mid" "ob_uncertainty_ns ob = nat unc"
proof -
  let ?ft = "\<lambda>el. div_ceil (dur_upper_ns el * NOMINAL_FREQUENCY_TOLERANCE_PPM) 1000000"
  obtain el prec reference receive transmit lower upper mid unc where
    "\<exists>u. sntp_validate_limits limits = Inr u" and origin: "ntp_timestamp_at reply 24 = rq_transmit rq"
    and uf: "unfold (ntp_timestamp_at reply 32) (rq_transmit_unix_ns rq) = Inr receive"
      "unfold (ntp_timestamp_at reply 40) (rq_transmit_unix_ns rq) = Inr transmit"
    and iv: "sntp_interval receive transmit exch limits
       (int (div_ceil (short_up (ntp_word reply 4)) 2) + int (short_up (ntp_word reply 8)) + int prec + int (?ft el))
        = Inr (lower, upper, mid, unc)"
    and ob: "sntp_report reply el prec (?ft el) reference receive transmit lower upper mid unc = ob"
    using assms [unfolded evaluate_reply_def Let_def try_then_Inr_iff if_Inl_Inr split_paired_Ex case_prod_conv
        sum.inject not_not] by blast
  then have lim: "sntp_validate_limits limits = Inr ()" by simp
  have "int (div_ceil (short_up (ntp_word reply 4)) 2) + int (short_up (ntp_word reply 8)) + int prec + int (?ft el)
      = int (sntp_allowance ob)"
    by (simp add: sntp_allowance_def flip: ob) (simp add: sntp_report_def Let_def)
  note iv' = iv [unfolded this]
  have "uf_ns receive = ob_receive_unix_ns ob" "uf_ns transmit = ob_transmit_unix_ns ob"
    "ob_offset_interval ob = \<lparr>lower_ns = lower, upper_ns = upper\<rparr>" "ob_offset_ns ob = mid" "ob_uncertainty_ns ob = nat unc"
    unfolding ob [symmetric] by (simp_all add: sntp_report_def Let_def)
  from that [OF lim origin iv' this(1,2) uf this(3-5)] show ?thesis .
qed


text \<open>C25:
  The interval is sound. Let the request leave at local time \<open>t1\<close> and the reply arrive at local time
  \<open>t4\<close>, within the brackets the caller supplied, and let the server take in the request at local
  time \<open>a\<close> and send the reply at local time \<open>b\<close>, with nothing assumed of the two path delays except
  that they are not negative. If at both moments the server's timestamp differs from local time plus
  the true offset by no more than the asserted allowance, the true offset lies in the reported
  interval and within the reported uncertainty of the reported offset. The observation answers the
  request it was matched against, and its numbers respect the caller's limits and fit 64 bits.
\<close>

theorem sntp_offset_sound:
  fixes t1 t4 a b offset r2 r3 :: real
  assumes ok: "evaluate_reply rq reply exch limits = Inr ob"
    and brackets: "real (earliest_ns (le_sent exch)) \<le> t1" "t4 \<le> real (latest_ns (le_received exch))"
    and delays: "t1 \<le> a" "b \<le> t4"
    and stamps: "r2 \<le> real (latest_ns (ob_receive_unix_ns ob))" "real (earliest_ns (ob_transmit_unix_ns ob)) \<le> r3"
    and errors: "\<bar>r2 - (a + offset)\<bar> \<le> real (sntp_allowance ob)" "\<bar>r3 - (b + offset)\<bar> \<le> real (sntp_allowance ob)"
  shows "real_of_int (lower_ns (ob_offset_interval ob)) \<le> offset
    \<and> offset \<le> real_of_int (upper_ns (ob_offset_interval ob))
    \<and> \<bar>offset - real_of_int (ob_offset_ns ob)\<bar> \<le> real (ob_uncertainty_ns ob)
    \<and> ntp_timestamp_at reply 24 = rq_transmit rq
    \<and> ob_uncertainty_ns ob \<le> max_uncertainty_ns limits \<and> \<bar>ob_offset_ns ob\<bar> \<le> int (max_offset_ns limits)
    \<and> \<bar>lower_ns (ob_offset_interval ob)\<bar> < 2 ^ 63 \<and> \<bar>upper_ns (ob_offset_interval ob)\<bar> < 2 ^ 63"
proof -
  obtain receive transmit lower upper mid unc where
    lim: "sntp_validate_limits limits = Inr ()" and origin: "ntp_timestamp_at reply 24 = rq_transmit rq"
    and iv: "sntp_interval receive transmit exch limits (int (sntp_allowance ob)) = Inr (lower, upper, mid, unc)"
    and uf: "uf_ns receive = ob_receive_unix_ns ob" "uf_ns transmit = ob_transmit_unix_ns ob"
    and ob: "ob_offset_interval ob = \<lparr>lower_ns = lower, upper_ns = upper\<rparr>" "ob_offset_ns ob = mid" "ob_uncertainty_ns ob = nat unc"
    using evaluate_reply_Inr [OF ok] by metis
  note I = iv [unfolded sntp_interval_Inr uf]
  have lo: "real_of_int lower = real (earliest_ns (ob_transmit_unix_ns ob)) - real (latest_ns (le_received exch)) - real (sntp_allowance ob)"
    and up: "real_of_int upper = real (latest_ns (ob_receive_unix_ns ob)) - real (earliest_ns (le_sent exch)) + real (sntp_allowance ob)"
    using I by simp_all
  have in_iv: "real_of_int lower \<le> offset" "offset \<le> real_of_int upper"
    using lo up brackets delays stamps errors by (simp_all add: abs_le_iff)
  have unc: "mid - lower \<le> unc" "upper - mid \<le> unc" "1 \<le> unc"
    and le: "unc \<le> int (max_uncertainty_ns limits)" "\<bar>mid\<bar> \<le> int (max_offset_ns limits)" "lower \<le> upper" using I by auto
  have "\<bar>offset - real_of_int mid\<bar> \<le> real_of_int unc" using in_iv unc(1,2) by linarith
  moreover have "max_uncertainty_ns limits \<le> 10000000000" "max_offset_ns limits \<le> 10000000000"
    using lim by (auto simp: sntp_validate_limits_def ntp_consts split: if_splits)
  then have "\<bar>lower\<bar> < 9223372036854775808" "\<bar>upper\<bar> < 9223372036854775808" using le unc by linarith+
  moreover have "nat unc \<le> max_uncertainty_ns limits" using le by (simp add: nat_le_iff)
  ultimately show ?thesis using in_iv origin unc(3) le(2) unfolding ob by simp
qed


text \<open>One exchange: a request at ten seconds past the epoch and a reply that repeats its timestamp.\<close>

definition sample_stamp :: ntp_timestamp where
  "sample_stamp = \<lparr>ntp_seconds = 0x83aa7e8a, ntp_fraction = 0\<rparr>"

definition sample_reply :: bytes where
  "sample_reply = [0x24, 1, 0, 0xe2] @ replicate 12 0 @ concat (replicate 4 [0x83, 0xaa, 0x7e, 0x8a, 0, 0, 0, 0])"

definition sample_exchange :: local_exchange where
  "sample_exchange = \<lparr>le_sent = \<lparr>earliest_ns = 10000000000, latest_ns = 10000000000\<rparr>,
     le_received = \<lparr>earliest_ns = 10000000000, latest_ns = 10000001000\<rparr>\<rparr>"

definition sample_sntp_limits :: sntp_limits where
  "sample_sntp_limits = \<lparr>max_exchange_ns = 1000000, max_offset_ns = 1000000, max_uncertainty_ns = 1000000\<rparr>"

definition sample_request :: sntp_request where
  "sample_request = \<lparr>rq_bytes = 0x23 # replicate 39 0 @ to_be32 0x83aa7e8a @ to_be32 0,
     rq_transmit_unix_ns = 10000000000, rq_transmit = sample_stamp\<rparr>"

lemma sample_request_new: "sntp_request_new 10000000000 = Inr sample_request"
  by (simp add: sntp_request_new_def ntp_nonzero_def ntp_consts sample_request_def sample_stamp_def)

lemma sample_unfold:
  "unfold sample_stamp 10000000000 =
     Inr \<lparr>uf_ticks = 42949672960, uf_ns = \<lparr>earliest_ns = 10000000000, latest_ns = 10000000000\<rparr>\<rparr>"
  by (simp add: unfold_def unfold_round_def sample_stamp_def ntp_nonzero_def ntp_consts u64_max_def)

lemma sample_stamps:
  "ntp_timestamp_at sample_reply 16 = sample_stamp" "ntp_timestamp_at sample_reply 24 = sample_stamp"
  "ntp_timestamp_at sample_reply 32 = sample_stamp" "ntp_timestamp_at sample_reply 40 = sample_stamp"
  "ntp_word sample_reply 4 = 0" "ntp_word sample_reply 8 = 0" "length sample_reply = 48"
  "sample_reply ! 0 = 0x24" "sample_reply ! Suc 0 = 1" "sample_reply ! 3 = 0xe2"
  by code_simp+

lemma sample_evaluated: "\<exists>ob. evaluate_reply sample_request sample_reply sample_exchange sample_sntp_limits = Inr ob
    \<and> ob_receive_unix_ns ob = \<lparr>earliest_ns = 10000000000, latest_ns = 10000000000\<rparr>
    \<and> ob_transmit_unix_ns ob = \<lparr>earliest_ns = 10000000000, latest_ns = 10000000000\<rparr>"
  by (simp add: evaluate_reply_def sample_stamps sample_unfold sample_request_def sntp_validate_limits_def
      sample_sntp_limits_def validate_local_def sample_exchange_def ntp_consts Let_def short_up_def div_ceil_def
      precision_up_def sntp_interval_def sntp_report_def word_le_nat_alt)

theorem sntp_offset_sound_witness:
  "\<exists>ob. evaluate_reply sample_request sample_reply sample_exchange sample_sntp_limits = Inr ob
     \<and> real_of_int (lower_ns (ob_offset_interval ob)) \<le> 0 \<and> 0 \<le> real_of_int (upper_ns (ob_offset_interval ob))"
proof -
  obtain ob where ob: "evaluate_reply sample_request sample_reply sample_exchange sample_sntp_limits = Inr ob"
    "ob_receive_unix_ns ob = \<lparr>earliest_ns = 10000000000, latest_ns = 10000000000\<rparr>"
    "ob_transmit_unix_ns ob = \<lparr>earliest_ns = 10000000000, latest_ns = 10000000000\<rparr>"
    using sample_evaluated by blast
  then show ?thesis
    using sntp_offset_sound [OF ob(1), of 10000000000 10000000000 10000000000 10000000000 10000000000 10000000000 0]
    by (simp add: sample_exchange_def)
qed

theorem unfold_exact_witness:
  "\<exists>u. unfold (ntp_of_ticks (2208988810 * 2 ^ 32)) 5000000000 = Inr u \<and> uf_ticks u = 10 * 2 ^ 32"
  using unfold_exact [of "2208988810 * 2 ^ 32" 5000000000]
  by (simp add: ntp_of_ticks_def hint_ticks_ns_def unix_ns_of_ticks_def u64_max_def) blast

end
