(* ===== verification/Content_Digest.thy ===== *)
theory Content_Digest
  imports FSS_Prelude "HOL-Library.Char_ord"
begin

unbundle bit_operations_syntax

text \<open>
  Content digests, \<open>crates/fss-core/src/digest.rs\<close>: the dependency-free SHA-256 with its streaming
  hasher, algorithm-qualified digests and their text form. Streaming in any chunks is proved equal to
  the one-shot FIPS 180-4 computation on the padded message, and the text form to round-trip.

  \<open>contract_error\<close> lists the variants of \<open>ContractError\<close> (\<open>contract.rs\<close>) that the modelled part of
  \<open>fss-core\<close> raises.
\<close>

datatype contract_error =
    InvalidIdentifier | InvalidDigest | UnsupportedDigestAlgorithm | InvertedTimeInterval
  | ArithmeticOverflow | EvidenceRequired | NonCanonicalOrdering | InvalidEffectTransition
  | IdempotencyConflict | ObligationConflict | ReconciliationRequired | NotFound
  | LegacyReceiptRequiresJournal | InvalidAnchorSuccessor | UnknownEntryTag u8 | UnknownClockBasis u8
  | NonMonotoneUncertaintyNarrowing | GenerationConflict | CoverageUncertified

section \<open>Integers as bytes\<close>

fun be_bytes :: "nat \<Rightarrow> nat \<Rightarrow> bytes" where
  "be_bytes 0 n = []"
| "be_bytes (Suc k) n = be_bytes k (n div 256) @ [of_nat n]"

definition from_be :: "bytes \<Rightarrow> nat" where
  "from_be bs = foldl (\<lambda>a b. a * 256 + unat b) 0 bs"

lemma length_be_bytes [simp]: "length (be_bytes k n) = k"
  by (induction k arbitrary: n) simp_all

lemma from_be_snoc [simp]: "from_be (bs @ [b]) = from_be bs * 256 + unat b"
  by (simp add: from_be_def)

lemma from_be_bytes: "from_be (be_bytes k n) = n mod 256 ^ k"
proof (induction k arbitrary: n)
  case (Suc k)
  have "unat (of_nat n :: u8) = n mod 256" by (simp add: unat_of_nat take_bit_eq_mod)
  then show ?case using Suc [of "n div 256"] by (simp add: mod_mult2_eq mult.commute)
qed (simp add: from_be_def)

lemma from_be_lt: "from_be bs < 256 ^ length bs"
proof (induction bs rule: rev_induct)
  case (snoc b bs)
  have "unat b < 256" using unsigned_less [of b] by simp
  then show ?case using snoc by simp
qed (simp add: from_be_def)

lemma be_bytes_from_be: "be_bytes (length bs) (from_be bs) = bs"
proof (induction bs rule: rev_induct)
  case (snoc b bs)
  have b: "unat b < 256" using unsigned_less [of b] by simp
  then have "(from_be bs * 256 + unat b) div 256 = from_be bs" by simp
  moreover have "(of_nat (from_be bs * 256 + unat b) :: u8) = b"
  proof -
    have "(256 :: u8) = 0" by simp
    then show ?thesis by (simp add: \<open>(256 :: u8) = 0\<close>)
  qed
  ultimately show ?case using snoc by simp
qed simp

section \<open>digest.rs\<close>

text \<open>The tables are written, as in the source, in groups of four hexadecimal digits.\<close>

definition halves :: "u32 \<Rightarrow> u32 \<Rightarrow> u32" where
  "halves hi lo = push_bit 16 hi OR lo"

definition SHA256_INITIAL :: "u32 list" where
  "SHA256_INITIAL =
    [halves 0x6a09 0xe667, halves 0xbb67 0xae85, halves 0x3c6e 0xf372, halves 0xa54f 0xf53a,
     halves 0x510e 0x527f, halves 0x9b05 0x688c, halves 0x1f83 0xd9ab, halves 0x5be0 0xcd19]"

definition SHA256_ROUND :: "u32 list" where
  "SHA256_ROUND =
    [halves 0x428a 0x2f98, halves 0x7137 0x4491, halves 0xb5c0 0xfbcf, halves 0xe9b5 0xdba5,
     halves 0x3956 0xc25b, halves 0x59f1 0x11f1, halves 0x923f 0x82a4, halves 0xab1c 0x5ed5,
     halves 0xd807 0xaa98, halves 0x1283 0x5b01, halves 0x2431 0x85be, halves 0x550c 0x7dc3,
     halves 0x72be 0x5d74, halves 0x80de 0xb1fe, halves 0x9bdc 0x06a7, halves 0xc19b 0xf174,
     halves 0xe49b 0x69c1, halves 0xefbe 0x4786, halves 0x0fc1 0x9dc6, halves 0x240c 0xa1cc,
     halves 0x2de9 0x2c6f, halves 0x4a74 0x84aa, halves 0x5cb0 0xa9dc, halves 0x76f9 0x88da,
     halves 0x983e 0x5152, halves 0xa831 0xc66d, halves 0xb003 0x27c8, halves 0xbf59 0x7fc7,
     halves 0xc6e0 0x0bf3, halves 0xd5a7 0x9147, halves 0x06ca 0x6351, halves 0x1429 0x2967,
     halves 0x27b7 0x0a85, halves 0x2e1b 0x2138, halves 0x4d2c 0x6dfc, halves 0x5338 0x0d13,
     halves 0x650a 0x7354, halves 0x766a 0x0abb, halves 0x81c2 0xc92e, halves 0x9272 0x2c85,
     halves 0xa2bf 0xe8a1, halves 0xa81a 0x664b, halves 0xc24b 0x8b70, halves 0xc76c 0x51a3,
     halves 0xd192 0xe819, halves 0xd699 0x0624, halves 0xf40e 0x3585, halves 0x106a 0xa070,
     halves 0x19a4 0xc116, halves 0x1e37 0x6c08, halves 0x2748 0x774c, halves 0x34b0 0xbcb5,
     halves 0x391c 0x0cb3, halves 0x4ed8 0xaa4a, halves 0x5b9c 0xca4f, halves 0x682e 0x6ff3,
     halves 0x748f 0x82ee, halves 0x78a5 0x636f, halves 0x84c8 0x7814, halves 0x8cc7 0x0208,
     halves 0x90be 0xfffa, halves 0xa450 0x6ceb, halves 0xbef9 0xa3f7, halves 0xc671 0x78f2]"

datatype digest_algorithm = Sha256 | Blake3

definition algorithm_as_str :: "digest_algorithm \<Rightarrow> string" where
  "algorithm_as_str a = (case a of Sha256 \<Rightarrow> ''sha256'' | Blake3 \<Rightarrow> ''blake3'')"

definition algorithm_from_str :: "string \<Rightarrow> contract_error + digest_algorithm" where
  "algorithm_from_str v =
     (if v = ''sha256'' then Inr Sha256 else if v = ''blake3'' then Inr Blake3 else Inl UnsupportedDigestAlgorithm)"

record content_digest =
  cd_algorithm :: digest_algorithm
  cd_is_laboratory :: bool
  cd_bytes :: bytes

definition digest_new :: "digest_algorithm \<Rightarrow> bytes \<Rightarrow> content_digest" where
  "digest_new a bs = \<lparr>cd_algorithm = a, cd_is_laboratory = False, cd_bytes = bs\<rparr>"

definition digest_new_laboratory :: "digest_algorithm \<Rightarrow> bytes \<Rightarrow> content_digest" where
  "digest_new_laboratory a bs = \<lparr>cd_algorithm = a, cd_is_laboratory = True, cd_bytes = bs\<rparr>"

definition with_laboratory :: "content_digest \<Rightarrow> bool \<Rightarrow> content_digest" where
  "with_laboratory d b = d\<lparr>cd_is_laboratory := b\<rparr>"

text \<open>One round of the message-schedule loop and one round of the compression loop.\<close>

definition schedule_round :: "u32 list \<Rightarrow> nat \<Rightarrow> u32 list" where
  "schedule_round w index =
     (let x = w ! (index - 15); y = w ! (index - 2);
          s0 = word_rotr 7 x XOR word_rotr 18 x XOR drop_bit 3 x;
          s1 = word_rotr 17 y XOR word_rotr 19 y XOR drop_bit 10 y
      in w[index := w ! (index - 16) + s0 + w ! (index - 7) + s1])"

fun be_words :: "bytes \<Rightarrow> u32 list" where
  "be_words (a # b # c # d # bs) = of_nat (from_be [a, b, c, d]) # be_words bs"
| "be_words bs = []"

type_synonym working = "u32 \<times> u32 \<times> u32 \<times> u32 \<times> u32 \<times> u32 \<times> u32 \<times> u32"

definition compress_round :: "u32 list \<Rightarrow> working \<Rightarrow> nat \<Rightarrow> working" where
  "compress_round w st index =
     (case st of (a, b, c, d, e, f, g, h) \<Rightarrow>
        let sum1 = word_rotr 6 e XOR word_rotr 11 e XOR word_rotr 25 e;
            choice = (e AND f) XOR (NOT e AND g);
            temporary1 = h + sum1 + choice + SHA256_ROUND ! index + w ! index;
            sum0 = word_rotr 2 a XOR word_rotr 13 a XOR word_rotr 22 a;
            majority = (a AND b) XOR (a AND c) XOR (b AND c);
            temporary2 = sum0 + majority
        in (temporary1 + temporary2, a, b, c, d + temporary1, e, f, g))"

definition process_block :: "u32 list \<Rightarrow> bytes \<Rightarrow> u32 list" where
  "process_block state block =
     (let schedule = foldl schedule_round (be_words block @ replicate 48 0) [16..<64];
          (a, b, c, d, e, f, g, h) =
            foldl (compress_round schedule)
              (state ! 0, state ! 1, state ! 2, state ! 3, state ! 4, state ! 5, state ! 6, state ! 7) [0..<64]
      in [state ! 0 + a, state ! 1 + b, state ! 2 + c, state ! 3 + d,
          state ! 4 + e, state ! 5 + f, state ! 6 + g, state ! 7 + h])"

record sha256_hasher =
  hs_state :: "u32 list"
  hs_buffer :: bytes
  hs_buffer_len :: usize
  hs_total_bytes :: u64
  hs_overflowed :: bool

definition MAX_MESSAGE_BYTES :: u64 where
  "MAX_MESSAGE_BYTES = 2 ^ 61 - 1"

definition hasher_new :: sha256_hasher where
  "hasher_new = \<lparr>hs_state = SHA256_INITIAL, hs_buffer = replicate 64 0, hs_buffer_len = 0,
                 hs_total_bytes = 0, hs_overflowed = False\<rparr>"

definition with_total_bytes :: "u64 \<Rightarrow> sha256_hasher" where
  "with_total_bytes n = \<lparr>hs_state = SHA256_INITIAL, hs_buffer = replicate 64 0, hs_buffer_len = 0,
                 hs_total_bytes = n, hs_overflowed = (n > MAX_MESSAGE_BYTES)\<rparr>"

text \<open>\<open>buffer[at..at + data.len()].copy_from_slice(data)\<close>, and \<open>as_chunks::<64>()\<close>.\<close>

definition copy_at :: "bytes \<Rightarrow> usize \<Rightarrow> bytes \<Rightarrow> bytes" where
  "copy_at buf at data = take at buf @ data @ drop (at + length data) buf"

function chunks64 :: "bytes \<Rightarrow> bytes list" where
  "chunks64 bs = (if length bs < 64 then [] else take 64 bs # chunks64 (drop 64 bs))"
  by pat_completeness auto
termination by (relation "measure length") auto

declare chunks64.simps [simp del]

text \<open>The end of \<open>update\<close>: whole blocks, then the remainder into the buffer.\<close>

definition hasher_absorb :: "sha256_hasher \<Rightarrow> bytes \<Rightarrow> sha256_hasher" where
  "hasher_absorb h data =
     (let h = h\<lparr>hs_state := foldl process_block (hs_state h) (chunks64 data)\<rparr>;
          remainder = drop (length data div 64 * 64) data in
      if remainder \<noteq> []
      then h\<lparr>hs_buffer := copy_at (hs_buffer h) 0 remainder, hs_buffer_len := length remainder\<rparr>
      else h)"

definition hasher_update :: "sha256_hasher \<Rightarrow> bytes \<Rightarrow> sha256_hasher" where
  "hasher_update h data =
     (if hs_overflowed h then h
      else
        (case checked_add (hs_total_bytes h) (length data) of
           None \<Rightarrow> h\<lparr>hs_overflowed := True\<rparr>
         | Some new_total \<Rightarrow>
             if new_total \<le> MAX_MESSAGE_BYTES then
               let h = h\<lparr>hs_total_bytes := new_total\<rparr> in
               if hs_buffer_len h > 0 then
                 let to_fill = 64 - hs_buffer_len h in
                 if length data < to_fill then
                   h\<lparr>hs_buffer := copy_at (hs_buffer h) (hs_buffer_len h) data,
                     hs_buffer_len := hs_buffer_len h + length data\<rparr>
                 else
                   let h = h\<lparr>hs_buffer := copy_at (hs_buffer h) (hs_buffer_len h) (take to_fill data)\<rparr>;
                       h = h\<lparr>hs_state := process_block (hs_state h) (hs_buffer h), hs_buffer_len := 0\<rparr>
                   in hasher_absorb h (drop to_fill data)
               else hasher_absorb h data
             else h\<lparr>hs_overflowed := True\<rparr>))"

definition checked_mul :: "u64 \<Rightarrow> u64 \<Rightarrow> u64 option" where
  "checked_mul a b = (if a * b \<le> u64_max then Some (a * b) else None)"

definition hasher_finalize :: "sha256_hasher \<Rightarrow> contract_error + bytes" where
  "hasher_finalize h =
     (if hs_overflowed h \<or> hs_total_bytes h > MAX_MESSAGE_BYTES then Inl ArithmeticOverflow
      else
        (case checked_mul (hs_total_bytes h) 8 of
           None \<Rightarrow> Inl ArithmeticOverflow
         | Some bit_len \<Rightarrow>
             let encoded_bit_len = be_bytes 8 bit_len;
                 h = h\<lparr>hs_buffer := (hs_buffer h)[hs_buffer_len h := 0x80], hs_buffer_len := hs_buffer_len h + 1\<rparr>;
                 h = (if hs_buffer_len h > 56 then
                        let h = h\<lparr>hs_buffer := copy_at (hs_buffer h) (hs_buffer_len h) (replicate (64 - hs_buffer_len h) 0)\<rparr>
                        in h\<lparr>hs_state := process_block (hs_state h) (hs_buffer h), hs_buffer := replicate 64 0, hs_buffer_len := 0\<rparr>
                      else h);
                 h = h\<lparr>hs_buffer := copy_at (hs_buffer h) (hs_buffer_len h) (replicate (56 - hs_buffer_len h) 0)\<rparr>;
                 h = h\<lparr>hs_buffer := copy_at (hs_buffer h) 56 encoded_bit_len\<rparr>;
                 h = h\<lparr>hs_state := process_block (hs_state h) (hs_buffer h)\<rparr>
             in Inr (concat (map (\<lambda>word. be_bytes 4 (unat word)) (hs_state h)))))"

definition hasher_digest :: "bytes \<Rightarrow> contract_error + bytes" where
  "hasher_digest input = hasher_finalize (hasher_update hasher_new input)"

text \<open>
  \<open>sha256\<close> is \<open>unreachable!\<close> on an error: the result is specified only for inputs of at most
  \<open>MAX_MESSAGE_BYTES\<close> bytes, for which the hasher is proved not to fail.
\<close>

definition sha256 :: "bytes \<Rightarrow> bytes" where
  "sha256 input = (case hasher_digest input of Inr d \<Rightarrow> d)"

definition digest_sha256 :: "bytes \<Rightarrow> content_digest" where
  "digest_sha256 bs = digest_new Sha256 (sha256 bs)"

definition digest_try_sha256 :: "bytes \<Rightarrow> contract_error + content_digest" where
  "digest_try_sha256 bs = try_then (hasher_digest bs) (\<lambda>d. Inr (digest_new Sha256 d))"

text \<open>The text form. Characters are those of Rust's ASCII strings.\<close>

definition is_lower_hex :: "char \<Rightarrow> bool" where
  "is_lower_hex c \<longleftrightarrow> (CHR ''0'' \<le> c \<and> c \<le> CHR ''9'') \<or> (CHR ''a'' \<le> c \<and> c \<le> CHR ''f'')"

definition decode_nibble :: "char \<Rightarrow> u8 option" where
  "decode_nibble c =
     (if CHR ''0'' \<le> c \<and> c \<le> CHR ''9'' then Some (of_char c - 48)
      else if CHR ''a'' \<le> c \<and> c \<le> CHR ''f'' then Some (of_char c - 97 + 10)
      else None)"

definition HEX :: string where
  "HEX = ''0123456789abcdef''"

definition write_hex :: "bytes \<Rightarrow> string" where
  "write_hex bs = concat (map (\<lambda>byte. [HEX ! unat (drop_bit 4 byte), HEX ! unat (byte AND 0x0f)]) bs)"

definition digest_to_text :: "content_digest \<Rightarrow> string" where
  "digest_to_text d = algorithm_as_str (cd_algorithm d) @ '':'' @ write_hex (cd_bytes d)"

text \<open>\<open>str::split_once(':')\<close>, and the loop that fills the 32 bytes.\<close>

fun split_once :: "char \<Rightarrow> string \<Rightarrow> (string \<times> string) option" where
  "split_once c [] = None"
| "split_once c (x # xs) =
     (if x = c then Some ([], xs) else map_option (\<lambda>(a, b). (x # a, b)) (split_once c xs))"

definition hex_slot :: "string \<Rightarrow> nat \<Rightarrow> contract_error + u8" where
  "hex_slot hex index =
     (let offset = index * 2 in
      try_then (ok_or (decode_nibble (hex ! offset)) InvalidDigest) (\<lambda>high.
      try_then (ok_or (decode_nibble (hex ! (offset + 1))) InvalidDigest) (\<lambda>low.
        Inr (push_bit 4 high OR low))))"

fun hex_slots :: "string \<Rightarrow> nat list \<Rightarrow> contract_error + bytes" where
  "hex_slots hex [] = Inr []"
| "hex_slots hex (i # is) = try_then (hex_slot hex i) (\<lambda>b. try_then (hex_slots hex is) (\<lambda>bs. Inr (b # bs)))"

definition digest_parse :: "string \<Rightarrow> contract_error + content_digest" where
  "digest_parse value =
     (case split_once (CHR '':'') value of
        None \<Rightarrow> Inl InvalidDigest
      | Some (algorithm_text, hex) \<Rightarrow>
          try_then (algorithm_from_str algorithm_text) (\<lambda>algorithm.
          if length hex \<noteq> 64 \<or> \<not> list_all is_lower_hex hex then Inl InvalidDigest
          else try_then (hex_slots hex [0..<32]) (\<lambda>bs. Inr (digest_new algorithm bs))))"


section \<open>Streaming is one-shot hashing\<close>

text \<open>FIPS 180-4: pad to a multiple of 64 bytes with a one bit, zeros and the bit length; fold.\<close>

definition sha256_pad :: "bytes \<Rightarrow> bytes" where
  "sha256_pad m = m @ [0x80] @ replicate ((119 - length m mod 64) mod 64) 0 @ be_bytes 8 (length m * 8)"

definition sha256_reference :: "bytes \<Rightarrow> bytes" where
  "sha256_reference m =
     concat (map (\<lambda>w. be_bytes 4 (unat w)) (foldl process_block SHA256_INITIAL (chunks64 (sha256_pad m))))"

lemma chunks64_append:
  "length a = 64 * n \<Longrightarrow> chunks64 (a @ b) = chunks64 a @ chunks64 b"
proof (induction n arbitrary: a)
  case 0
  then show ?case by (simp add: chunks64.simps [of "[]"])
next
  case (Suc n)
  then have "chunks64 a = take 64 a # chunks64 (drop 64 a)" "chunks64 (a @ b) = take 64 a # chunks64 (drop 64 a @ b)"
    by (subst chunks64.simps; simp)+
  then show ?case using Suc.IH [of "drop 64 a"] Suc.prems by simp
qed

lemma chunks64_short: "length a < 64 \<Longrightarrow> chunks64 a = []"
  by (simp add: chunks64.simps)

lemma chunks64_one: "length a = 64 \<Longrightarrow> chunks64 a = [a]"
  by (subst chunks64.simps) (simp add: chunks64_short)

lemma chunks64_whole: "chunks64 (take (length a div 64 * 64) a) = chunks64 a"
proof -
  have "length (take (length a div 64 * 64) a) = 64 * (length a div 64)" by simp
  from chunks64_append [OF this, of "drop (length a div 64 * 64) a"]
  have "chunks64 a = chunks64 (take (length a div 64 * 64) a) @ chunks64 (drop (length a div 64 * 64) a)" by simp
  then show ?thesis by (simp add: chunks64_short minus_div_mult_eq_mod)
qed

text \<open>The hasher after absorbing \<open>m\<close>.\<close>

definition hasher_inv :: "bytes \<Rightarrow> sha256_hasher \<Rightarrow> bool" where
  "hasher_inv m h \<longleftrightarrow>
     hs_state h = foldl process_block SHA256_INITIAL (chunks64 m)
     \<and> hs_buffer_len h = length m mod 64 \<and> length (hs_buffer h) = 64
     \<and> take (hs_buffer_len h) (hs_buffer h) = drop (length m div 64 * 64) m
     \<and> hs_total_bytes h = length m \<and> \<not> hs_overflowed h"

lemma hasher_new_inv: "hasher_inv [] hasher_new"
  by (simp add: hasher_inv_def hasher_new_def chunks64_short)

lemma chunks64_tail: "chunks64 (m @ x) = chunks64 m @ chunks64 (drop (length m div 64 * 64) m @ x)"
proof -
  let ?q = "length m div 64 * 64"
  have "chunks64 (take ?q m @ (drop ?q m @ x)) = chunks64 (take ?q m) @ chunks64 (drop ?q m @ x)"
    by (rule chunks64_append [of _ "length m div 64"]) simp
  then show ?thesis unfolding append_assoc [symmetric] append_take_drop_id by (simp add: chunks64_whole)
qed

lemma drop_blocks: "64 dvd length m \<Longrightarrow> drop (length (m @ x) div 64 * 64) (m @ x) = drop (length x div 64 * 64) x"
  by (elim dvdE) (simp add: algebra_simps)

lemma hasher_absorb_inv:
  assumes "hs_state h = foldl process_block SHA256_INITIAL (chunks64 m)" and "64 dvd length m"
    and "length (hs_buffer h) = 64" and "hs_buffer_len h = 0"
    and "hs_total_bytes h = length (m @ x)" and "\<not> hs_overflowed h"
  shows "hasher_inv (m @ x) (hasher_absorb h x)"
proof -
  let ?r = "drop (length x div 64 * 64) x"
  have r: "length ?r = length x mod 64" by (simp add: minus_div_mult_eq_mod)
  have l: "length (m @ x) mod 64 = length x mod 64" using assms(2) by (auto elim!: dvdE)
  have c: "chunks64 (m @ x) = chunks64 m @ chunks64 x"
    using chunks64_append [of m "length m div 64" x] assms(2) by simp
  have "length x mod 64 \<le> 64" by simp
  then show ?thesis
    using assms r l c drop_blocks [OF assms(2), of x]
    by (auto simp: hasher_inv_def hasher_absorb_def Let_def copy_at_def)
qed

lemma round_up: "n + (64 - n mod 64) = 64 * (n div 64 + 1)" for n :: nat
  by presburger

lemma hasher_update_inv:
  assumes inv: "hasher_inv m h" and fits: "length (m @ x) \<le> MAX_MESSAGE_BYTES"
  shows "hasher_inv (m @ x) (hasher_update h x)"
proof -
  let ?q = "length m div 64 * 64" and ?k = "length m mod 64"
  note I = inv [unfolded hasher_inv_def]
  have add: "checked_add (hs_total_bytes h) (length x) = Some (length (m @ x))"
    using I fits by (simp add: checked_add_def MAX_MESSAGE_BYTES_def u64_max_def)
  define h1 where "h1 = h\<lparr>hs_total_bytes := length (m @ x)\<rparr>"
  have up: "hasher_update h x =
      (if ?k > 0 then
         if length x < 64 - ?k then h1\<lparr>hs_buffer := copy_at (hs_buffer h) ?k x, hs_buffer_len := ?k + length x\<rparr>
         else hasher_absorb (h1\<lparr>hs_buffer := copy_at (hs_buffer h) ?k (take (64 - ?k) x),
                hs_state := process_block (hs_state h) (copy_at (hs_buffer h) ?k (take (64 - ?k) x)), hs_buffer_len := 0\<rparr>)
              (drop (64 - ?k) x)
       else hasher_absorb h1 x)"
    using I fits add by (simp add: hasher_update_def h1_def Let_def)
  have tail: "drop ?q m = take ?k (hs_buffer h)" "length (drop ?q m) = ?k"
    using I by (metis, simp add: minus_div_mult_eq_mod)
  consider "?k = 0" | "?k > 0" "length x < 64 - ?k" | "?k > 0" "64 - ?k \<le> length x" by linarith
  then show ?thesis
  proof cases
    case 1
    then show ?thesis unfolding up using I by (simp, intro hasher_absorb_inv) (auto simp: h1_def mod_eq_0_iff_dvd)
  next
    case 2
    have "length (m @ x) div 64 = length m div 64 \<and> length (m @ x) mod 64 = ?k + length x"
    proof -
      have e: "length (m @ x) = 64 * (length m div 64) + (?k + length x)" by simp
      have dm: "(64 * n + j) div 64 = n \<and> (64 * n + j) mod 64 = j" if "j < 64" for n j :: nat using that by simp
      show ?thesis unfolding e by (rule dm) (use 2 in linarith)
    qed
    moreover have "chunks64 (m @ x) = chunks64 m" using chunks64_tail [of m x] tail(2) 2 by (simp add: chunks64_short)
    ultimately show ?thesis unfolding up using 2 I tail
      by (auto simp: hasher_inv_def h1_def copy_at_def)
  next
    case 3
    let ?b = "take (64 - ?k) x" and ?buf = "copy_at (hs_buffer h) ?k (take (64 - ?k) x)"
    have k: "?k < 64" by simp
    have b: "length ?b = 64 - ?k" using 3 by simp
    have buf: "?buf = drop ?q m @ ?b" using tail I b k by (simp add: copy_at_def)
    then have "length ?buf = 64" using tail(2) b k by simp
    then have c: "chunks64 (m @ ?b) = chunks64 m @ [?buf]" using chunks64_tail [of m ?b] buf chunks64_one [of ?buf] by simp
    have "length (m @ ?b) = length m + (64 - ?k)" using b by simp
    also have "\<dots> = 64 * (length m div 64 + 1)" by (rule round_up)
    finally have "length (m @ ?b) = 64 * (length m div 64 + 1)" .
    then have "64 dvd length (m @ ?b)" by (metis dvd_triv_left)
    then have "hasher_inv ((m @ ?b) @ drop (64 - ?k) x) (hasher_absorb (h1\<lparr>hs_buffer := ?buf,
        hs_state := process_block (hs_state h) ?buf, hs_buffer_len := 0\<rparr>) (drop (64 - ?k) x))"
      using I c \<open>length ?buf = 64\<close> by (intro hasher_absorb_inv) (simp_all add: h1_def)
    then show ?thesis unfolding up using 3 by simp
  qed
qed

lemma pad_short: "k < 56 \<Longrightarrow> (119 - k) mod 64 = 55 - k" for k :: nat
proof -
  assume "k < 56"
  then have "119 - k = (55 - k) + 64" by simp
  then show ?thesis by (simp only: mod_add_self2) simp
qed

lemma pad_long: "56 \<le> k \<Longrightarrow> k < 64 \<Longrightarrow> (119 - k) mod 64 = (63 - k) + 56" for k :: nat
  by simp

lemma copy_fill:
  "take j buf = p \<Longrightarrow> j \<le> n \<Longrightarrow> copy_at buf j (replicate (n - j) 0) = p @ replicate (n - j) 0 @ drop n buf"
  by (simp add: copy_at_def)

lemma copy_tail: "length buf = 64 \<Longrightarrow> length e = 8 \<Longrightarrow> copy_at buf 56 e = take 56 buf @ e"
  by (simp add: copy_at_def)

lemma hasher_finalize_inv:
  assumes inv: "hasher_inv m h" and fits: "length m \<le> MAX_MESSAGE_BYTES"
  shows "hasher_finalize h = Inr (sha256_reference m)"
proof -
  let ?k = "length m mod 64" and ?t = "drop (length m div 64 * 64) m" and ?len = "be_bytes 8 (length m * 8)"
  note I = inv [unfolded hasher_inv_def]
  have k: "?k < 64" "length ?t = ?k" by (simp_all add: minus_div_mult_eq_mod)
  have t: "take ?k (hs_buffer h) = ?t" "length (hs_buffer h) = 64" using I by metis+
  have mul: "checked_mul (length m) 8 = Some (length m * 8)"
    using fits by (simp add: checked_mul_def MAX_MESSAGE_BYTES_def u64_max_def)
  have one: "take (?k + 1) ((hs_buffer h)[?k := 0x80]) = ?t @ [0x80]"
    using t k by (simp add: take_Suc_conv_app_nth take_update_cancel)
  have st: "foldl process_block SHA256_INITIAL (chunks64 m) = hs_state h" using I by simp
  have pad: "chunks64 (sha256_pad m) = chunks64 m @ chunks64 (?t @ [0x80] @ replicate ((119 - ?k) mod 64) 0 @ ?len)"
    unfolding sha256_pad_def by (rule chunks64_tail)
  show ?thesis
  proof (cases "?k < 56")
    case True
    then have z: "(119 - ?k) mod 64 = 55 - ?k" by (rule pad_short)
    let ?b = "?t @ [0x80] @ replicate (55 - ?k) 0 @ ?len"
    have one_b: "chunks64 ?b = [?b]" by (rule chunks64_one) (use True k in simp)
    have "sha256_reference m = concat (map (\<lambda>w. be_bytes 4 (unat w)) (process_block (hs_state h) ?b))"
      unfolding sha256_reference_def pad z one_b foldl_append st foldl.simps ..
    moreover have "copy_at (copy_at ((hs_buffer h)[?k := 0x80]) (?k + 1) (replicate (56 - (?k + 1)) 0)) 56 ?len = ?b"
    proof -
      have "copy_at ((hs_buffer h)[?k := 0x80]) (?k + 1) (replicate (56 - (?k + 1)) 0)
          = (?t @ [0x80]) @ replicate (56 - (?k + 1)) 0 @ drop 56 ((hs_buffer h)[?k := 0x80])"
        by (rule copy_fill [OF one]) (use True in simp)
      moreover have "length (?t @ [0x80]) = ?k + 1" using k by simp
      moreover have "56 - ?k = Suc (55 - ?k)" using True by simp
      ultimately show ?thesis using t True by (subst copy_tail) simp_all
    qed
    ultimately show ?thesis using I mul fits True by (simp add: hasher_finalize_def Let_def)
  next
    case False
    then have z: "replicate ((119 - ?k) mod 64) 0 = replicate (63 - ?k) (0 :: u8) @ replicate 56 0"
      using pad_long [of ?k] k by (simp flip: replicate_add)
    let ?a = "?t @ [0x80] @ replicate (63 - ?k) 0" and ?b = "replicate 56 0 @ ?len"
    have la: "length ?a = 64" "length ?b = 64" using k False by simp_all
    have "chunks64 (?a @ ?b) = [?a, ?b]"
      using chunks64_append [of ?a 1 ?b] chunks64_one [OF la(1)] chunks64_one [OF la(2)] la(1) by simp
    then have "sha256_reference m = concat (map (\<lambda>w. be_bytes 4 (unat w)) (process_block (process_block (hs_state h) ?a) ?b))"
      unfolding sha256_reference_def pad z foldl_append st append_assoc by (simp only: foldl.simps)
    moreover have "copy_at ((hs_buffer h)[?k := 0x80]) (?k + 1) (replicate (64 - (?k + 1)) 0) = ?a"
      using copy_fill [OF one, of 64] t k by simp
    moreover have "copy_at (copy_at (replicate 64 0) 0 (replicate (56 - 0) 0)) 56 ?len = ?b" by (simp add: copy_at_def)
    ultimately show ?thesis using I mul fits False k by (simp add: hasher_finalize_def Let_def)
  qed
qed

lemma hasher_update_overflow:
  assumes "hasher_inv m h" and "\<not> length (m @ x) \<le> MAX_MESSAGE_BYTES"
  shows "hs_overflowed (hasher_update h x)"
  using assms by (auto simp: hasher_inv_def hasher_update_def checked_add_def)

lemma hasher_overflow_sticky: "hs_overflowed h \<Longrightarrow> foldl hasher_update h xs = h"
  by (induction xs) (simp_all add: hasher_update_def)

lemma hasher_run:
  "hasher_inv m h \<Longrightarrow> length m \<le> MAX_MESSAGE_BYTES \<Longrightarrow>
     if length (m @ concat xs) \<le> MAX_MESSAGE_BYTES then hasher_inv (m @ concat xs) (foldl hasher_update h xs)
     else hs_overflowed (foldl hasher_update h xs)"
proof (induction xs arbitrary: m h)
  case (Cons x xs)
  show ?case
  proof (cases "length (m @ x) \<le> MAX_MESSAGE_BYTES")
    case True
    then show ?thesis using Cons.IH [OF hasher_update_inv [OF Cons.prems(1) True] True] by (simp only: append_assoc concat.simps foldl.simps)
  next
    case False
    then have "hs_overflowed (hasher_update h x)" using hasher_update_overflow [OF Cons.prems(1)] by blast
    then show ?thesis using False hasher_overflow_sticky [of "hasher_update h x" xs] by auto
  qed
qed simp

text \<open>C26:
  However a message is cut into chunks, feeding them to the streaming hasher and finalizing yields
  the SHA-256 of the whole message, computed block by block on the padded message, when it is at most
  \<open>2 ^ 61 - 1\<close> bytes long; a longer message is refused, never hashed to something else.
\<close>

theorem sha256_streaming:
  "hasher_finalize (foldl hasher_update hasher_new xs) =
     (if length (concat xs) \<le> MAX_MESSAGE_BYTES then Inr (sha256_reference (concat xs)) else Inl ArithmeticOverflow)"
proof (cases "length (concat xs) \<le> MAX_MESSAGE_BYTES")
  case True
  then have "hasher_inv (concat xs) (foldl hasher_update hasher_new xs)" using hasher_run [OF hasher_new_inv, of xs] by simp
  from hasher_finalize_inv [OF this True] True show ?thesis by simp
next
  case False
  then have "hs_overflowed (foldl hasher_update hasher_new xs)" using hasher_run [OF hasher_new_inv, of xs] by simp
  then show ?thesis using False by (simp add: hasher_finalize_def)
qed

lemma length_process_block [simp]: "length (process_block st b) = 8"
  by (simp add: process_block_def Let_def split: prod.split)

lemma length_fold_blocks: "length (foldl process_block SHA256_INITIAL bs) = 8"
proof -
  have "length st = 8 \<Longrightarrow> length (foldl process_block st bs) = 8" for st by (induction bs arbitrary: st) simp_all
  then show ?thesis by (simp add: SHA256_INITIAL_def)
qed

lemma length_sha256_reference [simp]: "length (sha256_reference m) = 32"
proof -
  have "length (concat (map (\<lambda>w. be_bytes 4 (unat w)) ws)) = 4 * length ws" for ws :: "u32 list"
    by (induction ws) simp_all
  then show ?thesis by (simp add: sha256_reference_def length_fold_blocks)
qed

lemma sha256_eq: "length m \<le> MAX_MESSAGE_BYTES \<Longrightarrow> sha256 m = sha256_reference m"
  using hasher_finalize_inv [OF hasher_update_inv [OF hasher_new_inv, of m]]
  by (simp add: sha256_def hasher_digest_def)


section \<open>The text form\<close>

lemma decode_nibble_hex:
  "\<forall>c. is_lower_hex c \<longrightarrow> (case decode_nibble c of Some v \<Rightarrow> unat v < 16 \<and> HEX ! unat v = c | None \<Rightarrow> False)"
  by code_simp

lemma hex_decode_nibble:
  "\<forall>n\<in>set [0..<16]. is_lower_hex (HEX ! n) \<and> decode_nibble (HEX ! n) = Some (of_nat n)"
  by code_simp

lemma nibbles: "unat (drop_bit 4 b) < 16 \<and> unat (b AND 0x0f) < 16 \<and> push_bit 4 (drop_bit 4 b) OR (b AND 0x0f) = b" for b :: u8
proof (intro conjI)
  have "unat b < 256" using unsigned_less [of b] by simp
  then show "unat (drop_bit 4 b) < 16" by (simp add: drop_bit_eq_div unat_div)
  have m: "b AND 0x0f = take_bit 4 b" by (simp add: take_bit_eq_mask mask_eq_exp_minus_1)
  then show "unat (b AND 0x0f) < 16" by (simp add: take_bit_eq_mod unat_mod)
  show "push_bit 4 (drop_bit 4 b) OR (b AND 0x0f) = b"
    unfolding m by (rule bit_word_eqI) (auto simp: bit_simps)
qed

lemma join_nibbles: "unat hi < 16 \<Longrightarrow> unat lo < 16 \<Longrightarrow>
    drop_bit 4 (push_bit 4 hi OR lo) = hi \<and> (push_bit 4 hi OR lo) AND 0x0f = lo" for hi lo :: u8
proof -
  assume h: "unat hi < 16" "unat lo < 16"
  have "unat (drop_bit 4 hi) = 0" "unat (drop_bit 4 lo) = 0" using h by (simp_all add: drop_bit_eq_div unat_div)
  then have t: "take_bit 4 hi = hi" "take_bit 4 lo = lo" by (simp_all add: take_bit_eq_self_iff_drop_bit_eq_0 unat_eq_zero)
  have b: "bit hi n \<longleftrightarrow> n < 4 \<and> bit hi n" "bit lo n \<longleftrightarrow> n < 4 \<and> bit lo n" for n
    using t by (metis bit_take_bit_iff)+
  have m: "x AND 0x0f = take_bit 4 x" for x :: u8 by (simp add: take_bit_eq_mask mask_eq_exp_minus_1)
  show ?thesis unfolding m
    by (intro conjI; rule bit_word_eqI) (auto simp: bit_simps dest: b [THEN iffD1])
qed

lemma hex_slots_map: "(\<forall>i\<in>set is. hex_slot hex i = Inr (f i)) \<Longrightarrow> hex_slots hex is = Inr (map f is)"
  by (induction "is") auto

lemma length_write_hex [simp]: "length (write_hex bs) = 2 * length bs"
  by (induction bs) (simp_all add: write_hex_def)

lemma write_hex_nth:
  "i < length bs \<Longrightarrow> write_hex bs ! (2 * i) = HEX ! unat (drop_bit 4 (bs ! i)) \<and> write_hex bs ! (2 * i + 1) = HEX ! unat (bs ! i AND 0x0f)"
proof (induction bs arbitrary: i)
  case (Cons b bs)
  then show ?case by (cases i) (simp_all add: write_hex_def)
qed simp

lemma decode_HEX: "n < 16 \<Longrightarrow> decode_nibble (HEX ! n) = Some (of_nat n)" "n < 16 \<Longrightarrow> is_lower_hex (HEX ! n)"
  using hex_decode_nibble by auto

lemma hex_slots_write_hex: "hex_slots (write_hex bs) [0..<length bs] = Inr bs"
proof -
  have "hex_slot (write_hex bs) i = Inr (bs ! i)" if "i \<in> set [0..<length bs]" for i
    using that write_hex_nth [of i bs] nibbles [of "bs ! i"] by (simp add: hex_slot_def mult.commute decode_HEX)
  then show ?thesis using hex_slots_map [of "[0..<length bs]" "write_hex bs" "(!) bs"] by (simp add: map_nth)
qed

lemma write_hex_lower: "list_all is_lower_hex (write_hex bs)"
  using nibbles by (induction bs) (auto simp: write_hex_def decode_HEX)

lemma write_hex_slots:
  assumes "list_all is_lower_hex hex" and "length hex = 2 * n" and "hex_slots hex [0..<n] = Inr bs"
  shows "hex = write_hex bs \<and> length bs = n"
proof -
  define v where "v j = the (decode_nibble (hex ! j))" for j
  have v: "decode_nibble (hex ! j) = Some (v j) \<and> unat (v j) < 16 \<and> HEX ! unat (v j) = hex ! j" if "j < 2 * n" for j
    using decode_nibble_hex assms(1,2) that by (auto simp: v_def list_all_length split: option.splits)
  define f where "f i = push_bit 4 (v (2 * i)) OR v (2 * i + 1)" for i
  have "hex_slot hex i = Inr (f i)" if "i \<in> set [0..<n]" for i
    using v [of "2 * i"] v [of "2 * i + 1"] that by (simp add: hex_slot_def f_def mult.commute Let_def)
  then have bs: "bs = map f [0..<n]" using hex_slots_map [of "[0..<n]" hex f] assms(3) by simp
  have "write_hex bs ! j = hex ! j" if "j < 2 * n" for j
  proof -
    obtain i where j: "j = 2 * i \<or> j = 2 * i + 1" by (metis evenE oddE)
    then have i: "i < n" using that by auto
    then have "drop_bit 4 (bs ! i) = v (2 * i) \<and> bs ! i AND 0x0f = v (2 * i + 1)"
      using v [of "2 * i"] v [of "2 * i + 1"] join_nibbles by (simp add: bs f_def)
    then show ?thesis using j write_hex_nth [of i bs] v [of "2 * i"] v [of "2 * i + 1"] i by (auto simp: bs)
  qed
  then show ?thesis using assms(2) by (simp add: list_eq_iff_nth_eq bs)
qed

lemma split_once_Some: "split_once c v = Some (a, b) \<longleftrightarrow> v = a @ c # b \<and> c \<notin> set a"
proof (induction v arbitrary: a)
  case (Cons x v)
  show ?case
  proof (cases "x = c")
    case True
    then show ?thesis by (cases a) auto
  next
    case False
    then show ?thesis using Cons by (cases a) auto
  qed
qed simp

lemma algorithm_from_str_Inr: "algorithm_from_str s = Inr a \<longleftrightarrow> s = algorithm_as_str a"
  by (cases a) (auto simp: algorithm_from_str_def algorithm_as_str_def)

text \<open>The text form is canonical: a string parses to a digest exactly when it is the text of that digest,
  which is then a 32-byte one without the laboratory marker (the text does not carry it).
\<close>

theorem digest_text_exact:
  "digest_parse v = Inr d \<longleftrightarrow> v = digest_to_text d \<and> length (cd_bytes d) = 32 \<and> \<not> cd_is_laboratory d"
proof
  assume "digest_parse v = Inr d"
  then obtain s hex a bs where p: "split_once (CHR '':'') v = Some (s, hex)" "algorithm_from_str s = Inr a"
    "length hex = 64" "list_all is_lower_hex hex" "hex_slots hex [0..<32] = Inr bs" "d = digest_new a bs"
    by (auto simp: digest_parse_def rust_simps split: option.splits prod.splits if_splits)
  have "hex = write_hex bs \<and> length bs = 32" using write_hex_slots [of hex 32 bs] p by simp
  then show "v = digest_to_text d \<and> length (cd_bytes d) = 32 \<and> \<not> cd_is_laboratory d"
    using p by (simp add: digest_to_text_def digest_new_def split_once_Some algorithm_from_str_Inr)
next
  assume d: "v = digest_to_text d \<and> length (cd_bytes d) = 32 \<and> \<not> cd_is_laboratory d"
  have "CHR '':'' \<notin> set (algorithm_as_str (cd_algorithm d))" by (cases "cd_algorithm d") (simp_all add: algorithm_as_str_def)
  then have "split_once (CHR '':'') v = Some (algorithm_as_str (cd_algorithm d), write_hex (cd_bytes d))"
    using d by (simp add: split_once_Some digest_to_text_def)
  moreover have "algorithm_from_str (algorithm_as_str (cd_algorithm d)) = Inr (cd_algorithm d)"
    by (simp add: algorithm_from_str_Inr)
  ultimately show "digest_parse v = Inr d"
    using d hex_slots_write_hex [of "cd_bytes d"] write_hex_lower by (simp add: digest_parse_def digest_new_def)
qed

end
