(* ===== verification/Canonical.thy ===== *)
theory Canonical
  imports Content_Digest "HOL-Library.Sublist"
begin

text \<open>
  The canonical binary codec, \<open>crates/fss-core/src/canonical.rs\<close>: the length-prefixed encoder with
  its sticky error, the matching decoder, the \<open>CanonicalEncode\<close>/\<open>CanonicalDecode\<close> traits and the
  versioned envelope. The traits' contract is the locale \<open>canonical_codec\<close>: a value decodes from
  exactly its own encoding, so the format is unambiguous and has one representation per value.

  A Rust \<open>str\<close> is its UTF-8 bytes.
\<close>

section \<open>UTF-8\<close>

definition utf8_cont :: "u8 \<Rightarrow> bool" where
  "utf8_cont b \<longleftrightarrow> 0x80 \<le> b \<and> b \<le> 0xbf"

text \<open>\<open>core::str::from_utf8\<close>: the well-formed byte sequences of the Unicode standard.\<close>

fun utf8_valid :: "bytes \<Rightarrow> bool" where
  "utf8_valid [] \<longleftrightarrow> True"
| "utf8_valid (a # bs) \<longleftrightarrow>
     (if a \<le> 0x7f then utf8_valid bs
      else if 0xc2 \<le> a \<and> a \<le> 0xdf then
        (case bs of b # r \<Rightarrow> utf8_cont b \<and> utf8_valid r | _ \<Rightarrow> False)
      else if 0xe0 \<le> a \<and> a \<le> 0xef then
        (case bs of b # c # r \<Rightarrow>
           (if a = 0xe0 then 0xa0 \<le> b else True) \<and> (if a = 0xed then b \<le> 0x9f else True)
           \<and> utf8_cont b \<and> utf8_cont c \<and> utf8_valid r | _ \<Rightarrow> False)
      else if 0xf0 \<le> a \<and> a \<le> 0xf4 then
        (case bs of b # c # d # r \<Rightarrow>
           (if a = 0xf0 then 0x90 \<le> b else True) \<and> (if a = 0xf4 then b \<le> 0x8f else True)
           \<and> utf8_cont b \<and> utf8_cont c \<and> utf8_cont d \<and> utf8_valid r | _ \<Rightarrow> False)
      else False)"

text \<open>String literals of the source, which are ASCII.\<close>

definition ascii :: "string \<Rightarrow> bytes" where
  "ascii s = map of_char s"

section \<open>canonical.rs\<close>

definition MAX_CANONICAL_TEXT_BYTES :: usize where "MAX_CANONICAL_TEXT_BYTES = 65536"
definition MAX_CANONICAL_BYTES_LEN :: usize where "MAX_CANONICAL_BYTES_LEN = 16777216"
definition CANONICAL_FORMAT_MAGIC :: bytes where "CANONICAL_FORMAT_MAGIC = ascii ''FSSC''"
definition CANONICAL_VERSION_1 :: u16 where "CANONICAL_VERSION_1 = 1"

record canonical_encoder =
  ce_bytes :: bytes
  ce_error :: "contract_error option"

definition encoder_new :: canonical_encoder where
  "encoder_new = \<lparr>ce_bytes = [], ce_error = None\<rparr>"

definition enc_append :: "bytes \<Rightarrow> canonical_encoder \<Rightarrow> canonical_encoder" where
  "enc_append bs e = (if ce_error e \<noteq> None then e else e\<lparr>ce_bytes := ce_bytes e @ bs\<rparr>)"

definition enc_tag :: "u8 \<Rightarrow> canonical_encoder \<Rightarrow> canonical_encoder" where
  "enc_tag v e = enc_append [v] e"

definition enc_u8 :: "u8 \<Rightarrow> canonical_encoder \<Rightarrow> canonical_encoder" where
  "enc_u8 v e = enc_tag v e"

definition enc_u32 :: "u32 \<Rightarrow> canonical_encoder \<Rightarrow> canonical_encoder" where
  "enc_u32 v e = enc_append (be_bytes 4 (unat v)) e"

definition enc_u64 :: "u64 \<Rightarrow> canonical_encoder \<Rightarrow> canonical_encoder" where
  "enc_u64 v e = enc_append (be_bytes 8 v) e"

definition enc_i128 :: "i128 \<Rightarrow> canonical_encoder \<Rightarrow> canonical_encoder" where
  "enc_i128 v e = enc_append (be_bytes 16 (nat (v mod 2 ^ 128))) e"

definition enc_bool :: "bool \<Rightarrow> canonical_encoder \<Rightarrow> canonical_encoder" where
  "enc_bool v e = enc_tag (of_bool v) e"

definition enc_bytes :: "bytes \<Rightarrow> canonical_encoder \<Rightarrow> canonical_encoder" where
  "enc_bytes v e =
     (if ce_error e \<noteq> None then e
      else if length v > MAX_CANONICAL_BYTES_LEN then e\<lparr>ce_error := Some InvalidDigest\<rparr>
      else enc_append v (enc_u64 (length v) e))"

definition enc_text :: "bytes \<Rightarrow> canonical_encoder \<Rightarrow> canonical_encoder" where
  "enc_text v e =
     (if ce_error e \<noteq> None then e
      else if length v > MAX_CANONICAL_TEXT_BYTES then e\<lparr>ce_error := Some InvalidIdentifier\<rparr>
      else enc_bytes v e)"

definition enc_try_bytes :: "bytes \<Rightarrow> canonical_encoder \<Rightarrow> (contract_error + unit) \<times> canonical_encoder" where
  "enc_try_bytes v e =
     (if length v > MAX_CANONICAL_BYTES_LEN then (Inl InvalidDigest, e\<lparr>ce_error := Some InvalidDigest\<rparr>)
      else (Inr (), enc_bytes v e))"

definition enc_try_text :: "bytes \<Rightarrow> canonical_encoder \<Rightarrow> (contract_error + unit) \<times> canonical_encoder" where
  "enc_try_text v e =
     (if length v > MAX_CANONICAL_TEXT_BYTES then (Inl InvalidIdentifier, e\<lparr>ce_error := Some InvalidIdentifier\<rparr>)
      else (Inr (), enc_text v e))"

definition algorithm_tag :: "digest_algorithm \<Rightarrow> u8" where
  "algorithm_tag a = (case a of Sha256 \<Rightarrow> 1 | Blake3 \<Rightarrow> 2)"

definition enc_digest :: "content_digest \<Rightarrow> canonical_encoder \<Rightarrow> canonical_encoder" where
  "enc_digest v e =
     (if ce_error e \<noteq> None then e
      else enc_append (cd_bytes v) (enc_tag (algorithm_tag (cd_algorithm v)) e))"

definition enc_fail :: "contract_error \<Rightarrow> canonical_encoder \<Rightarrow> canonical_encoder" where
  "enc_fail err e = (if ce_error e = None then e\<lparr>ce_error := Some err\<rparr> else e)"

definition enc_finish :: "canonical_encoder \<Rightarrow> bytes" where
  "enc_finish e = (if ce_error e \<noteq> None then [] else ce_bytes e)"

definition enc_finish_checked :: "canonical_encoder \<Rightarrow> contract_error + bytes" where
  "enc_finish_checked e = (case ce_error e of Some err \<Rightarrow> Inl err | None \<Rightarrow> Inr (ce_bytes e))"

record canonical_decoder =
  dc_bytes :: bytes
  dc_offset :: usize
  dc_hit_eof :: bool

definition decoder_new :: "bytes \<Rightarrow> canonical_decoder" where
  "decoder_new bs = \<lparr>dc_bytes = bs, dc_offset = 0, dc_hit_eof = False\<rparr>"

definition dec_remaining :: "canonical_decoder \<Rightarrow> usize" where
  "dec_remaining d = length (dc_bytes d) - dc_offset d"

definition dec_is_empty :: "canonical_decoder \<Rightarrow> bool" where
  "dec_is_empty d = (dec_remaining d = 0)"

definition ensure_finished :: "canonical_decoder \<Rightarrow> contract_error + unit" where
  "ensure_finished d = (if dec_is_empty d then Inr () else Inl NonCanonicalOrdering)"

text \<open>The bounds check, read and advance that the fixed-size reads share.\<close>

definition dec_take :: "usize \<Rightarrow> canonical_decoder \<Rightarrow> (contract_error + bytes) \<times> canonical_decoder" where
  "dec_take n d =
     (if dec_remaining d < n then (Inl InvalidDigest, d\<lparr>dc_hit_eof := True\<rparr>)
      else (Inr (subslice (dc_bytes d) (dc_offset d) (dc_offset d + n)), d\<lparr>dc_offset := dc_offset d + n\<rparr>))"

text \<open>\<open>?\<close> on a decoder operation: an error returns with the decoder as the failed read left it.\<close>

definition dec_then ::
  "('e + 'a) \<times> canonical_decoder \<Rightarrow> ('a \<Rightarrow> canonical_decoder \<Rightarrow> ('e + 'b) \<times> canonical_decoder)
     \<Rightarrow> ('e + 'b) \<times> canonical_decoder" where
  "dec_then m f = (case m of (Inl err, d) \<Rightarrow> (Inl err, d) | (Inr x, d) \<Rightarrow> f x d)"

definition dec_tag :: "canonical_decoder \<Rightarrow> (contract_error + u8) \<times> canonical_decoder" where
  "dec_tag d = dec_then (dec_take 1 d) (\<lambda>s d. (Inr (s ! 0), d))"

definition dec_u8 :: "canonical_decoder \<Rightarrow> (contract_error + u8) \<times> canonical_decoder" where
  "dec_u8 d = dec_tag d"

definition dec_u32 :: "canonical_decoder \<Rightarrow> (contract_error + u32) \<times> canonical_decoder" where
  "dec_u32 d = dec_then (dec_take 4 d) (\<lambda>s d. (Inr (of_nat (from_be s)), d))"

definition dec_u64 :: "canonical_decoder \<Rightarrow> (contract_error + u64) \<times> canonical_decoder" where
  "dec_u64 d = dec_then (dec_take 8 d) (\<lambda>s d. (Inr (from_be s), d))"

text \<open>\<open>i128::from_be_bytes\<close>: two's complement.\<close>

definition sign_i128 :: "nat \<Rightarrow> i128" where
  "sign_i128 n = (if int n < 2 ^ 127 then int n else int n - 2 ^ 128)"

definition dec_i128 :: "canonical_decoder \<Rightarrow> (contract_error + i128) \<times> canonical_decoder" where
  "dec_i128 d = dec_then (dec_take 16 d) (\<lambda>s d. (Inr (sign_i128 (from_be s)), d))"

definition dec_bool :: "canonical_decoder \<Rightarrow> (contract_error + bool) \<times> canonical_decoder" where
  "dec_bool d = dec_then (dec_tag d) (\<lambda>t d.
     if t = 0 then (Inr False, d) else if t = 1 then (Inr True, d) else (Inl InvalidIdentifier, d))"

definition dec_bytes :: "canonical_decoder \<Rightarrow> (contract_error + bytes) \<times> canonical_decoder" where
  "dec_bytes d = dec_then (dec_u64 d) (\<lambda>len d.
     if len > MAX_CANONICAL_BYTES_LEN then (Inl InvalidDigest, d) else dec_take len d)"

definition dec_text :: "canonical_decoder \<Rightarrow> (contract_error + bytes) \<times> canonical_decoder" where
  "dec_text d = dec_then (dec_bytes d) (\<lambda>raw d.
     if length raw > MAX_CANONICAL_TEXT_BYTES then (Inl InvalidIdentifier, d)
     else if utf8_valid raw then (Inr raw, d) else (Inl InvalidIdentifier, d))"

definition dec_digest :: "canonical_decoder \<Rightarrow> (contract_error + content_digest) \<times> canonical_decoder" where
  "dec_digest d = dec_then (dec_tag d) (\<lambda>t d.
     if t = 1 then dec_then (dec_take 32 d) (\<lambda>s d. (Inr (digest_new Sha256 s), d))
     else if t = 2 then dec_then (dec_take 32 d) (\<lambda>s d. (Inr (digest_new Blake3 s), d))
     else (Inl UnsupportedDigestAlgorithm, d))"

text \<open>The provided methods of the two traits, over a type's own encoder or decoder.\<close>

definition canonical_bytes :: "('a \<Rightarrow> canonical_encoder \<Rightarrow> canonical_encoder) \<Rightarrow> 'a \<Rightarrow> bytes" where
  "canonical_bytes enc x = enc_finish (enc x encoder_new)"

definition try_canonical_bytes :: "('a \<Rightarrow> canonical_encoder \<Rightarrow> canonical_encoder) \<Rightarrow> 'a \<Rightarrow> contract_error + bytes" where
  "try_canonical_bytes enc x = enc_finish_checked (enc x encoder_new)"

definition canonical_digest :: "('a \<Rightarrow> canonical_encoder \<Rightarrow> canonical_encoder) \<Rightarrow> bytes \<Rightarrow> 'a \<Rightarrow> content_digest" where
  "canonical_digest enc domain x =
     digest_sha256 (enc_finish (enc x (enc_text domain (enc_text (ascii ''fss.canonical.v1'') encoder_new))))"

definition from_canonical_bytes ::
  "(canonical_decoder \<Rightarrow> (contract_error + 'a) \<times> canonical_decoder) \<Rightarrow> bytes \<Rightarrow> contract_error + 'a" where
  "from_canonical_bytes dec bs =
     (case dec (decoder_new bs) of
        (Inl err, _) \<Rightarrow> Inl err
      | (Inr x, d) \<Rightarrow> try_then (ensure_finished d) (\<lambda>_. Inr x))"

record 'a version_envelope =
  ve_version :: u16
  ve_payload :: 'a

definition envelope_new :: "'a \<Rightarrow> 'a version_envelope" where
  "envelope_new x = \<lparr>ve_version = CANONICAL_VERSION_1, ve_payload = x\<rparr>"

definition enc_envelope ::
  "('a \<Rightarrow> canonical_encoder \<Rightarrow> canonical_encoder) \<Rightarrow> 'a version_envelope \<Rightarrow> canonical_encoder \<Rightarrow> canonical_encoder" where
  "enc_envelope enc v e = enc (ve_payload v) (enc_u32 (ucast (ve_version v)) (enc_bytes CANONICAL_FORMAT_MAGIC e))"

definition dec_envelope_bounded ::
  "(canonical_decoder \<Rightarrow> (contract_error + 'a) \<times> canonical_decoder) \<Rightarrow> u16 \<Rightarrow> u16
     \<Rightarrow> canonical_decoder \<Rightarrow> (contract_error + 'a version_envelope) \<times> canonical_decoder" where
  "dec_envelope_bounded dec min_supported max_supported d =
     dec_then (dec_bytes d) (\<lambda>magic d.
     if magic \<noteq> CANONICAL_FORMAT_MAGIC then (Inl InvalidDigest, d)
     else
       dec_then (dec_u32 d) (\<lambda>version_u32 d.
       if unat version_u32 > 65535 then (Inl InvalidDigest, d)
       else
         let version = ucast version_u32 in
         if version < min_supported \<or> version > max_supported then (Inl InvalidAnchorSuccessor, d)
         else dec_then (dec d) (\<lambda>payload d. (Inr \<lparr>ve_version = version, ve_payload = payload\<rparr>, d))))"

text \<open>The \<open>Option\<close> layout every codec of the crate writes out: a presence flag, then the value.\<close>

definition enc_option :: "('a \<Rightarrow> canonical_encoder \<Rightarrow> canonical_encoder) \<Rightarrow> 'a option \<Rightarrow> canonical_encoder \<Rightarrow> canonical_encoder" where
  "enc_option enc v e = (case v of Some x \<Rightarrow> enc x (enc_bool True e) | None \<Rightarrow> enc_bool False e)"

definition dec_option ::
  "(canonical_decoder \<Rightarrow> (contract_error + 'a) \<times> canonical_decoder)
     \<Rightarrow> canonical_decoder \<Rightarrow> (contract_error + 'a option) \<times> canonical_decoder" where
  "dec_option dec d = dec_then (dec_bool d) (\<lambda>present d.
     if present then dec_then (dec d) (\<lambda>x d. (Inr (Some x), d)) else (Inr None, d))"

section \<open>The codec contract\<close>

definition dec_rest :: "canonical_decoder \<Rightarrow> bytes" where
  "dec_rest d = drop (dc_offset d) (dc_bytes d)"

definition dec_advance :: "nat \<Rightarrow> canonical_decoder \<Rightarrow> canonical_decoder" where
  "dec_advance n d = d\<lparr>dc_offset := dc_offset d + n\<rparr>"

definition enc_emit :: "bytes \<Rightarrow> canonical_encoder \<Rightarrow> canonical_encoder" where
  "enc_emit bs e = e\<lparr>ce_bytes := ce_bytes e @ bs\<rparr>"

named_theorems codec_simps

lemma dec_then_Inr [codec_simps]:
  "dec_then m f = (Inr y, d') \<longleftrightarrow> (\<exists>x d. m = (Inr x, d) \<and> f x d = (Inr y, d'))"
  by (cases m; cases "fst m") (auto simp: dec_then_def)

lemma if_refuse [codec_simps]:
  "(if b then (Inl e, d) else m) = (Inr x, d') \<longleftrightarrow> \<not> b \<and> m = (Inr x, d')"
  "(if b then m else (Inl e, d)) = (Inr x, d') \<longleftrightarrow> b \<and> m = (Inr x, d')"
  by auto

lemma dec_advance_advance [simp]: "dec_advance n (dec_advance m d) = dec_advance (m + n) d"
  by (simp add: dec_advance_def add.assoc)

lemma dec_advance_zero [simp]: "dec_advance 0 d = d"
  by (simp add: dec_advance_def)

lemma dec_rest_advance: "dec_rest (dec_advance n d) = drop n (dec_rest d)"
  by (simp add: dec_rest_def dec_advance_def add.commute)

lemma dec_rest_new [simp]: "dec_rest (decoder_new bs) = bs"
  by (simp add: dec_rest_def decoder_new_def)

lemma prefix_append_rest:
  "prefix (a @ b) (dec_rest d) \<longleftrightarrow> prefix a (dec_rest d) \<and> prefix b (dec_rest (dec_advance (length a) d))"
  by (auto simp: dec_rest_advance prefix_def)

lemma dec_take_Inr [codec_simps]:
  "dec_take n d = (Inr s, d') \<longleftrightarrow> length s = n \<and> prefix s (dec_rest d) \<and> d' = dec_advance n d"
proof -
  have "subslice (dc_bytes d) (dc_offset d) (dc_offset d + n) = take n (dec_rest d)"
    by (simp add: subslice_def dec_rest_def)
  moreover have "dec_remaining d = length (dec_rest d)" by (simp add: dec_remaining_def dec_rest_def)
  ultimately show ?thesis
    by (auto simp: dec_take_def dec_advance_def take_is_prefix elim: prefixE)
qed

lemma enc_emit_emit [simp]: "enc_emit b (enc_emit a e) = enc_emit (a @ b) e"
  by (simp add: enc_emit_def)

lemma ce_error_emit [simp]: "ce_error (enc_emit a e) = ce_error e"
  by (simp add: enc_emit_def)

lemma enc_append_emit [simp]: "ce_error e = None \<Longrightarrow> enc_append bs e = enc_emit bs e"
  by (simp add: enc_append_def enc_emit_def)

text \<open>
  What an implementation of the two traits promises. \<open>wire x\<close> is the byte form of \<open>x\<close>; encoding a
  valid value appends it, and decoding returns a value exactly when the rest of the input starts with
  the value's own wire form, which it consumes and nothing more.
\<close>

locale canonical_codec =
  fixes valid :: "'a \<Rightarrow> bool"
    and wire :: "'a \<Rightarrow> bytes"
    and enc :: "'a \<Rightarrow> canonical_encoder \<Rightarrow> canonical_encoder"
    and dec :: "canonical_decoder \<Rightarrow> (contract_error + 'a) \<times> canonical_decoder"
  assumes enc_wire: "valid x \<Longrightarrow> ce_error e = None \<Longrightarrow> enc x e = enc_emit (wire x) e"
    and dec_wire: "dec d = (Inr x, d') \<longleftrightarrow>
          valid x \<and> prefix (wire x) (dec_rest d) \<and> d' = dec_advance (length (wire x)) d"
begin

lemma wire_unique:
  assumes "valid x" and "valid y" and "wire x @ r = wire y @ s"
  shows "x = y \<and> r = s"
proof -
  let ?d = "decoder_new (wire x @ r)"
  have "dec ?d = (Inr x, dec_advance (length (wire x)) ?d)" using assms(1) by (simp add: dec_wire)
  moreover have "dec ?d = (Inr y, dec_advance (length (wire y)) ?d)"
    using assms(2,3) by (simp add: dec_wire)
  ultimately have "x = y" by simp
  then show ?thesis using assms(3) by simp
qed

lemma try_canonical_bytes_valid: "valid x \<Longrightarrow> try_canonical_bytes enc x = Inr (wire x)"
  by (simp add: try_canonical_bytes_def enc_wire encoder_new_def enc_finish_checked_def enc_emit_def)

lemma canonical_bytes_valid: "valid x \<Longrightarrow> canonical_bytes enc x = wire x"
  by (simp add: canonical_bytes_def enc_wire encoder_new_def enc_finish_def enc_emit_def)

lemma from_canonical_bytes_exact: "from_canonical_bytes dec bs = Inr x \<longleftrightarrow> valid x \<and> bs = wire x"
proof -
  have "from_canonical_bytes dec bs = Inr x
      \<longleftrightarrow> (\<exists>d. dec (decoder_new bs) = (Inr x, d) \<and> dec_rest d = [])"
    by (auto simp: from_canonical_bytes_def ensure_finished_def dec_is_empty_def dec_remaining_def dec_rest_def
        split: prod.splits sum.splits)
  also have "\<dots> \<longleftrightarrow> valid x \<and> bs = wire x"
    by (auto simp: dec_wire dec_rest_advance prefix_def)
  finally show ?thesis .
qed

lemma from_canonical_bytes_iff_encoding:
  "from_canonical_bytes dec bs = Inr x \<longleftrightarrow> valid x \<and> try_canonical_bytes enc x = Inr bs"
  by (auto simp: from_canonical_bytes_exact try_canonical_bytes_valid)

end

section \<open>The codecs of the primitive values\<close>

definition u64_wire :: "u64 \<Rightarrow> bytes" where "u64_wire = be_bytes 8"
definition u64_valid :: "u64 \<Rightarrow> bool" where "u64_valid v \<longleftrightarrow> v \<le> u64_max"
definition i128_valid :: "i128 \<Rightarrow> bool" where "i128_valid v \<longleftrightarrow> - (2 ^ 127) \<le> v \<and> v < 2 ^ 127"
definition i128_wire :: "i128 \<Rightarrow> bytes" where "i128_wire v = be_bytes 16 (nat (v mod 2 ^ 128))"
definition text_valid :: "bytes \<Rightarrow> bool" where
  "text_valid v \<longleftrightarrow> length v \<le> MAX_CANONICAL_TEXT_BYTES \<and> utf8_valid v"
definition bytes_wire :: "bytes \<Rightarrow> bytes" where "bytes_wire v = u64_wire (length v) @ v"
definition digest_valid :: "content_digest \<Rightarrow> bool" where
  "digest_valid v \<longleftrightarrow> \<not> cd_is_laboratory v \<and> length (cd_bytes v) = 32"
definition digest_wire :: "content_digest \<Rightarrow> bytes" where
  "digest_wire v = algorithm_tag (cd_algorithm v) # cd_bytes v"
definition option_wire :: "('a \<Rightarrow> bytes) \<Rightarrow> 'a option \<Rightarrow> bytes" where
  "option_wire wire v = (case v of Some x \<Rightarrow> 1 # wire x | None \<Rightarrow> [0])"

text \<open>A fixed-size big-endian read returns exactly the number whose bytes come next.\<close>

lemma prefix_be_bytes:
  assumes "n < 256 ^ k"
  shows "(\<exists>s. length s = k \<and> prefix s r \<and> from_be s = n) \<longleftrightarrow> prefix (be_bytes k n) r"
proof
  assume "\<exists>s. length s = k \<and> prefix s r \<and> from_be s = n"
  then obtain s where "length s = k" and "prefix s r" and "from_be s = n" by blast
  then show "prefix (be_bytes k n) r" using be_bytes_from_be [of s] by simp
next
  assume "prefix (be_bytes k n) r"
  then show "\<exists>s. length s = k \<and> prefix s r \<and> from_be s = n"
    using assms by (intro exI [of _ "be_bytes k n"]) (simp add: from_be_bytes)
qed

lemma dec_u64_wire [codec_simps]:
  "dec_u64 d = (Inr v, d') \<longleftrightarrow> u64_valid v \<and> prefix (u64_wire v) (dec_rest d) \<and> d' = dec_advance 8 d"
proof -
  have "dec_u64 d = (Inr v, d') \<longleftrightarrow>
      (\<exists>s. length s = 8 \<and> prefix s (dec_rest d) \<and> from_be s = v) \<and> d' = dec_advance 8 d"
    by (auto simp: dec_u64_def codec_simps)
  moreover have "u64_valid (from_be s)" if "length s = 8" for s
    using from_be_lt [of s] that by (simp add: u64_valid_def u64_max_def)
  moreover have "u64_valid v \<Longrightarrow> v < 256 ^ 8" by (simp add: u64_valid_def u64_max_def)
  ultimately show ?thesis using prefix_be_bytes [of v 8 "dec_rest d"] by (auto simp: u64_wire_def)
qed

lemma length_u64_wire [simp]: "length (u64_wire v) = 8"
  by (simp add: u64_wire_def)

interpretation u64c: canonical_codec u64_valid u64_wire enc_u64 dec_u64
  by unfold_locales (simp_all add: dec_u64_wire enc_u64_def u64_wire_def)

lemma dec_u32_wire:
  "dec_u32 d = (Inr v, d') \<longleftrightarrow> prefix (be_bytes 4 (unat v)) (dec_rest d) \<and> d' = dec_advance 4 d"
proof -
  have "of_nat (from_be s) = v \<longleftrightarrow> from_be s = unat v" if "length s = 4" for s
  proof -
    have "from_be s < 2 ^ 32" using from_be_lt [of s] that by simp
    then show ?thesis by (auto simp: unat_of_nat take_bit_eq_mod)
  qed
  then have "dec_u32 d = (Inr v, d') \<longleftrightarrow>
      (\<exists>s. length s = 4 \<and> prefix s (dec_rest d) \<and> from_be s = unat v) \<and> d' = dec_advance 4 d"
    by (auto simp: dec_u32_def codec_simps)
  moreover have "unat v < 256 ^ 4" using unsigned_less [of v] by simp
  ultimately show ?thesis by (simp add: prefix_be_bytes)
qed

interpretation u32c: canonical_codec "\<lambda>_. True" "\<lambda>v. be_bytes 4 (unat v)" enc_u32 dec_u32
  by unfold_locales (simp_all add: dec_u32_wire enc_u32_def)

lemma dec_tag_wire [codec_simps]:
  "dec_tag d = (Inr v, d') \<longleftrightarrow> prefix [v] (dec_rest d) \<and> d' = dec_advance 1 d"
proof -
  have "(\<exists>s. length s = Suc 0 \<and> prefix s r \<and> s ! 0 = v) \<longleftrightarrow> prefix [v] r" for r :: bytes
    by (auto simp: length_Suc_conv)
  then show ?thesis by (auto simp: dec_tag_def codec_simps)
qed

interpretation u8c: canonical_codec "\<lambda>_. True" "\<lambda>v. [v]" enc_u8 dec_u8
  by unfold_locales (simp_all add: dec_u8_def dec_tag_wire enc_u8_def enc_tag_def)

lemma dec_bool_wire [codec_simps]:
  "dec_bool d = (Inr v, d') \<longleftrightarrow> prefix [of_bool v] (dec_rest d) \<and> d' = dec_advance 1 d"
  by (cases v) (auto simp: dec_bool_def codec_simps split: if_splits intro: exI [of _ 0] exI [of _ 1])

interpretation boolc: canonical_codec "\<lambda>_. True" "\<lambda>v. [of_bool v]" enc_bool dec_bool
  by unfold_locales (simp_all add: dec_bool_wire enc_bool_def enc_tag_def)

lemma i128_twos_complement:
  assumes "n < 2 ^ 128"
  shows "sign_i128 n = x \<longleftrightarrow> i128_valid x \<and> n = nat (x mod 2 ^ 128)"
proof (cases "x < 0")
  case True
  have "x mod 2 ^ 128 = x + 2 ^ 128" if "- (2 ^ 127) \<le> x"
    using True that mod_pos_pos_trivial [of "x + 2 ^ 128" "2 ^ 128"] by simp
  then show ?thesis using True assms by (auto simp: i128_valid_def sign_i128_def)
next
  case False
  then have "x mod 2 ^ 128 = x" if "x < 2 ^ 127" using that by simp
  then show ?thesis using False assms by (auto simp: i128_valid_def sign_i128_def)
qed

lemma length_i128_wire [simp]: "length (i128_wire v) = 16"
  by (simp add: i128_wire_def)

lemma dec_i128_wire:
  "dec_i128 d = (Inr v, d') \<longleftrightarrow> i128_valid v \<and> prefix (i128_wire v) (dec_rest d) \<and> d' = dec_advance 16 d"
proof -
  have lt: "from_be s < 2 ^ 128" if "length s = 16" for s using from_be_lt [of s] that by simp
  have "dec_i128 d = (Inr v, d') \<longleftrightarrow>
      (\<exists>s. length s = 16 \<and> prefix s (dec_rest d) \<and> i128_valid v \<and> from_be s = nat (v mod 2 ^ 128))
      \<and> d' = dec_advance 16 d"
    using i128_twos_complement [OF lt] by (auto simp: dec_i128_def codec_simps)
  moreover have "nat (v mod 2 ^ 128) < 256 ^ 16" by (simp add: nat_less_iff)
  ultimately show ?thesis by (auto simp: prefix_be_bytes [symmetric] i128_wire_def)
qed

interpretation i128c: canonical_codec i128_valid i128_wire enc_i128 dec_i128
  by unfold_locales (simp_all add: dec_i128_wire enc_i128_def i128_wire_def)

lemma dec_bytes_wire:
  "dec_bytes d = (Inr v, d') \<longleftrightarrow>
     length v \<le> MAX_CANONICAL_BYTES_LEN \<and> prefix (bytes_wire v) (dec_rest d) \<and> d' = dec_advance (8 + length v) d"
proof -
  have "u64_valid (length v)" if "length v \<le> MAX_CANONICAL_BYTES_LEN"
    using that by (simp add: u64_valid_def u64_max_def MAX_CANONICAL_BYTES_LEN_def)
  moreover have "dec_bytes d = (Inr v, d') \<longleftrightarrow>
      u64_valid (length v) \<and> prefix (u64_wire (length v)) (dec_rest d) \<and> length v \<le> MAX_CANONICAL_BYTES_LEN
      \<and> prefix v (dec_rest (dec_advance 8 d)) \<and> d' = dec_advance (8 + length v) d"
    by (auto simp: dec_bytes_def codec_simps not_less)
  ultimately show ?thesis by (auto simp: bytes_wire_def prefix_append_rest)
qed

interpretation bytesc: canonical_codec "\<lambda>v. length v \<le> MAX_CANONICAL_BYTES_LEN" bytes_wire enc_bytes dec_bytes
  by unfold_locales (auto simp: dec_bytes_wire enc_bytes_def enc_u64_def u64_wire_def bytes_wire_def)

lemma text_valid_bytes: "text_valid v \<Longrightarrow> length v \<le> MAX_CANONICAL_BYTES_LEN"
  by (simp add: text_valid_def MAX_CANONICAL_TEXT_BYTES_def MAX_CANONICAL_BYTES_LEN_def)

lemma dec_text_wire:
  "dec_text d = (Inr v, d') \<longleftrightarrow>
     text_valid v \<and> prefix (bytes_wire v) (dec_rest d) \<and> d' = dec_advance (8 + length v) d"
  using text_valid_bytes [of v]
  by (auto simp: dec_text_def codec_simps dec_bytes_wire text_valid_def not_less)

interpretation textc: canonical_codec text_valid bytes_wire enc_text dec_text
  by unfold_locales
    (auto simp: dec_text_wire enc_text_def text_valid_bytes bytesc.enc_wire bytes_wire_def text_valid_def)

lemma if_two_tags:
  "(if t = (1 :: u8) then m else if t = 2 then m' else (Inl e, d)) = (Inr x, d')
     \<longleftrightarrow> t = 1 \<and> m = (Inr x, d') \<or> t = 2 \<and> m' = (Inr x, d')"
  by simp

lemma digest_valid_new: "digest_valid (digest_new a s) \<longleftrightarrow> length s = 32"
  by (simp add: digest_valid_def digest_new_def)

lemma dec_digest_wire:
  "dec_digest d = (Inr v, d') \<longleftrightarrow>
     digest_valid v \<and> prefix (digest_wire v) (dec_rest d) \<and> d' = dec_advance (length (digest_wire v)) d"
proof -
  have arm: "dec_then (dec_take 32 d) (\<lambda>s d. (Inr (digest_new a s), d)) = (Inr v, d') \<longleftrightarrow>
      digest_valid v \<and> cd_algorithm v = a \<and> prefix (cd_bytes v) (dec_rest d) \<and> d' = dec_advance 32 d" for a d
    by (cases v) (auto simp: codec_simps digest_valid_def digest_new_def)
  have "dec_digest d = (Inr v, d') \<longleftrightarrow> digest_valid v \<and> prefix [algorithm_tag (cd_algorithm v)] (dec_rest d)
      \<and> prefix (cd_bytes v) (dec_rest (dec_advance 1 d)) \<and> d' = dec_advance 33 d"
  proof -
    have "dec_digest d = (Inr v, d') \<longleftrightarrow> (\<exists>t. prefix [t] (dec_rest d) \<and>
        (t = 1 \<and> dec_then (dec_take 32 (dec_advance 1 d)) (\<lambda>s d. (Inr (digest_new Sha256 s), d)) = (Inr v, d')
         \<or> t = 2 \<and> dec_then (dec_take 32 (dec_advance 1 d)) (\<lambda>s d. (Inr (digest_new Blake3 s), d)) = (Inr v, d')))"
      unfolding dec_digest_def dec_then_Inr [of "dec_tag d"] dec_tag_wire if_two_tags by blast
    then show ?thesis unfolding arm by (cases "cd_algorithm v") (auto simp: algorithm_tag_def)
  qed
  moreover have "prefix (digest_wire v) (dec_rest d) \<longleftrightarrow> prefix [algorithm_tag (cd_algorithm v)] (dec_rest d)
      \<and> prefix (cd_bytes v) (dec_rest (dec_advance 1 d))"
    using prefix_append_rest [of "[algorithm_tag (cd_algorithm v)]" "cd_bytes v" d] by (simp add: digest_wire_def)
  moreover have "digest_valid v \<Longrightarrow> length (digest_wire v) = 33" by (simp add: digest_wire_def digest_valid_def)
  ultimately show ?thesis by metis
qed

interpretation digestc: canonical_codec digest_valid digest_wire enc_digest dec_digest
  by unfold_locales (auto simp: dec_digest_wire enc_digest_def enc_tag_def digest_wire_def)

text \<open>A present value and a versioned envelope keep their payload's contract.\<close>

context canonical_codec
begin

lemma option_codec: "canonical_codec (pred_option valid) (option_wire wire) (enc_option enc) (dec_option dec)"
proof
  show "enc_option enc v e = enc_emit (option_wire wire v) e" if "pred_option valid v" "ce_error e = None" for v e
    using that by (cases v) (simp_all add: enc_option_def option_wire_def boolc.enc_wire enc_wire)
next
  fix d v d'
  have "prefix (1 # wire x) (dec_rest d) \<longleftrightarrow> prefix [1] (dec_rest d) \<and> prefix (wire x) (dec_rest (dec_advance 1 d))" for x
    using prefix_append_rest [of "[1]" "wire x" d] by simp
  then show "dec_option dec d = (Inr v, d') \<longleftrightarrow>
      pred_option valid v \<and> prefix (option_wire wire v) (dec_rest d) \<and> d' = dec_advance (length (option_wire wire v)) d"
    by (cases v) (auto simp: dec_option_def dec_then_Inr dec_bool_wire dec_wire option_wire_def split: if_splits
        intro: exI [of _ False])
qed

end

definition envelope_wire :: "('a \<Rightarrow> bytes) \<Rightarrow> 'a version_envelope \<Rightarrow> bytes" where
  "envelope_wire wire v = bytes_wire CANONICAL_FORMAT_MAGIC @ be_bytes 4 (unat (ve_version v)) @ wire (ve_payload v)"

definition envelope_valid :: "('a \<Rightarrow> bool) \<Rightarrow> u16 \<Rightarrow> u16 \<Rightarrow> 'a version_envelope \<Rightarrow> bool" where
  "envelope_valid valid lo hi v \<longleftrightarrow> lo \<le> ve_version v \<and> ve_version v \<le> hi \<and> valid (ve_payload v)"

lemma magic_valid: "length CANONICAL_FORMAT_MAGIC \<le> MAX_CANONICAL_BYTES_LEN"
  by (simp add: CANONICAL_FORMAT_MAGIC_def ascii_def MAX_CANONICAL_BYTES_LEN_def)

lemma length_bytes_wire [simp]: "length (bytes_wire v) = 8 + length v"
  by (simp add: bytes_wire_def)

lemma unat_u16: "unat (v :: u16) \<le> 65535"
proof -
  have "unat v < 65536" using unsigned_less [of v] by simp
  then show ?thesis by simp
qed

lemma unat_ucast_u16 [simp]: "unat (ucast (v :: u16) :: u32) = unat v"
  using unat_u16 [of v] by (simp add: unsigned_ucast_eq take_bit_nat_eq_self_iff)

lemma unat_ucast_narrow [simp]: "unat (w :: u32) \<le> 65535 \<Longrightarrow> unat (ucast w :: u16) = unat w"
  by (simp add: unsigned_ucast_eq take_bit_nat_eq_self_iff)

lemma ucast_ucast_u16 [simp]: "(ucast (ucast (v :: u16) :: u32) :: u16) = v"
  by (simp add: word_unat_eq_iff unat_u16)

context canonical_codec
begin

lemma envelope_codec:
  "canonical_codec (envelope_valid valid lo hi) (envelope_wire wire) (enc_envelope enc) (dec_envelope_bounded dec lo hi)"
proof
  show "enc_envelope enc v e = enc_emit (envelope_wire wire v) e"
    if "envelope_valid valid lo hi v" "ce_error e = None" for v e
    using that magic_valid
    by (simp add: enc_envelope_def envelope_wire_def envelope_valid_def bytesc.enc_wire u32c.enc_wire enc_wire)
next
  fix d v d'
  show "dec_envelope_bounded dec lo hi d = (Inr v, d') \<longleftrightarrow> envelope_valid valid lo hi v
      \<and> prefix (envelope_wire wire v) (dec_rest d) \<and> d' = dec_advance (length (envelope_wire wire v)) d"
    using magic_valid
    by (cases v) (auto simp: dec_envelope_bounded_def codec_simps dec_bytes_wire dec_u32_wire dec_wire Let_def
        envelope_valid_def envelope_wire_def prefix_append_rest not_less unat_u16
        intro: exI [of _ "ucast (ve_version v)"])
qed

end

interpretation digesto: canonical_codec "pred_option digest_valid" "option_wire digest_wire"
    "enc_option enc_digest" "dec_option dec_digest"
  by (rule digestc.option_codec)

interpretation texto: canonical_codec "pred_option text_valid" "option_wire bytes_wire"
    "enc_option enc_text" "dec_option dec_text"
  by (rule textc.option_codec)

interpretation u64o: canonical_codec "pred_option u64_valid" "option_wire u64_wire"
    "enc_option enc_u64" "dec_option dec_u64"
  by (rule u64c.option_codec)

interpretation i128o: canonical_codec "pred_option i128_valid" "option_wire i128_wire"
    "enc_option enc_i128" "dec_option dec_i128"
  by (rule i128c.option_codec)

interpretation digestv: canonical_codec "envelope_valid digest_valid lo hi" "envelope_wire digest_wire"
    "enc_envelope enc_digest" "dec_envelope_bounded dec_digest lo hi" for lo hi
  by (rule digestc.envelope_codec)

text \<open>A versioned envelope around a digest is decoded from exactly the bytes its encoder emits: the
  decoder accepts a byte string as \<open>v\<close> if and only if \<open>v\<close> carries a plain 32-byte digest, its version
  lies in the supported range and the string is the encoding of \<open>v\<close>. So there is one encoding per
  value, no byte string has two readings, and truncated, padded or non-canonical input is refused.
\<close>

theorem envelope_exact:
  "from_canonical_bytes (dec_envelope_bounded dec_digest lo hi) bs = Inr v \<longleftrightarrow>
     envelope_valid digest_valid lo hi v \<and> try_canonical_bytes (enc_envelope enc_digest) v = Inr bs"
  by (rule digestv.from_canonical_bytes_iff_encoding)

lemmas codec_laws =
  u8c.dec_wire u32c.dec_wire u64c.dec_wire i128c.dec_wire boolc.dec_wire bytesc.dec_wire textc.dec_wire
  digestc.dec_wire digesto.dec_wire texto.dec_wire u64o.dec_wire i128o.dec_wire

lemmas encoder_laws =
  u8c.enc_wire u32c.enc_wire u64c.enc_wire i128c.enc_wire boolc.enc_wire bytesc.enc_wire textc.enc_wire
  digestc.enc_wire digesto.enc_wire texto.enc_wire u64o.enc_wire i128o.enc_wire

end
