(* ===== verification/Effect_Records.thy ===== *)
theory Effect_Records
  imports Canonical
begin

text \<open>
  The data of the effect plane, \<open>crates/fss-core/src/effect.rs\<close>, with the stable identifiers of
  \<open>ids.rs\<close>: lifecycle and obligation states, intents, prepared records, authorities, receipts,
  obligations and the journal's transition records, each with its constructor checks and its canonical
  codec. Every codec is an instance of \<open>canonical_codec\<close>; text fields are UTF-8 byte strings.
\<close>

section \<open>ids.rs\<close>

type_synonym stable_id = bytes

definition MIN_STABLE_ID_LEN :: usize where "MIN_STABLE_ID_LEN = 1"
definition MAX_STABLE_ID_LEN :: usize where "MAX_STABLE_ID_LEN = 128"

definition id_byte :: "u8 \<Rightarrow> bool" where
  "id_byte b \<longleftrightarrow> 0x30 \<le> b \<and> b \<le> 0x39 \<or> 0x41 \<le> b \<and> b \<le> 0x5a \<or> 0x61 \<le> b \<and> b \<le> 0x7a
     \<or> b = 0x2d \<or> b = 0x5f \<or> b = 0x2e \<or> b = 0x3a"

definition validate_id :: "bytes \<Rightarrow> contract_error + unit" where
  "validate_id v = refuse_if
     (length v < MIN_STABLE_ID_LEN \<or> length v > MAX_STABLE_ID_LEN \<or> \<not> list_all id_byte v) InvalidIdentifier"

definition id_parse :: "bytes \<Rightarrow> contract_error + stable_id" where
  "id_parse v = try_then (validate_id v) (\<lambda>_. Inr v)"

definition enc_id :: "stable_id \<Rightarrow> canonical_encoder \<Rightarrow> canonical_encoder" where
  "enc_id v e = enc_text v e"

definition dec_id :: "canonical_decoder \<Rightarrow> (contract_error + stable_id) \<times> canonical_decoder" where
  "dec_id d = dec_then (dec_text d) (\<lambda>t d. (id_parse t, d))"

section \<open>effect.rs: states\<close>

datatype obligation_state = Pending | Verified | Failed | Indeterminate | Cancelled

datatype effect_state =
    Prepared | Committed | AdapterAccepted | Observed | Verified | Cancelled | Failed | Indeterminate

definition effect_state_as_str :: "effect_state \<Rightarrow> string" where
  "effect_state_as_str s =
     (case s of
        Prepared \<Rightarrow> ''prepared'' | Committed \<Rightarrow> ''committed'' | AdapterAccepted \<Rightarrow> ''adapter_accepted''
      | Observed \<Rightarrow> ''observed'' | Verified \<Rightarrow> ''verified'' | Cancelled \<Rightarrow> ''cancelled'' | Failed \<Rightarrow> ''failed''
      | Indeterminate \<Rightarrow> ''indeterminate'')"

definition is_terminal :: "effect_state \<Rightarrow> bool" where
  "is_terminal s = (case s of Verified \<Rightarrow> True | Cancelled \<Rightarrow> True | Failed \<Rightarrow> True | _ \<Rightarrow> False)"

fun can_transition_to :: "effect_state \<Rightarrow> effect_state \<Rightarrow> bool" where
  "can_transition_to Prepared Committed = True"
| "can_transition_to Prepared Cancelled = True"
| "can_transition_to Prepared Failed = True"
| "can_transition_to Committed AdapterAccepted = True"
| "can_transition_to Committed Indeterminate = True"
| "can_transition_to Committed Failed = True"
| "can_transition_to AdapterAccepted Observed = True"
| "can_transition_to AdapterAccepted Indeterminate = True"
| "can_transition_to AdapterAccepted Failed = True"
| "can_transition_to Observed Verified = True"
| "can_transition_to Observed Indeterminate = True"
| "can_transition_to Indeterminate Observed = True"
| "can_transition_to Indeterminate Failed = True"
| "can_transition_to _ _ = False"

definition enc_effect_state :: "effect_state \<Rightarrow> canonical_encoder \<Rightarrow> canonical_encoder" where
  "enc_effect_state s e = enc_text (ascii (effect_state_as_str s)) e"

definition effect_state_of_text :: "bytes \<Rightarrow> contract_error + effect_state" where
  "effect_state_of_text t =
     (if t = ascii ''prepared'' then Inr Prepared
      else if t = ascii ''committed'' then Inr Committed
      else if t = ascii ''adapter_accepted'' then Inr AdapterAccepted
      else if t = ascii ''observed'' then Inr Observed
      else if t = ascii ''verified'' then Inr Verified
      else if t = ascii ''cancelled'' then Inr Cancelled
      else if t = ascii ''failed'' then Inr Failed
      else if t = ascii ''indeterminate'' then Inr Indeterminate
      else Inl InvalidIdentifier)"

definition dec_effect_state :: "canonical_decoder \<Rightarrow> (contract_error + effect_state) \<times> canonical_decoder" where
  "dec_effect_state d = dec_then (dec_text d) (\<lambda>t d. (effect_state_of_text t, d))"

section \<open>effect.rs: intents and prepared records\<close>

datatype effect_schema_error =
    SchemaMismatch string bytes
  | OverLimitLength string usize usize
  | MissingField string
  | InvalidOutcome string string
  | UnverifiedReceipt bytes
  | IndeterminateLookup bytes
  | JsonError bytes
  | Contract contract_error

definition MAX_EFFECT_CLASS_LEN :: usize where "MAX_EFFECT_CLASS_LEN = 128"
definition MAX_TERMINAL_PREDICATE_LEN :: usize where "MAX_TERMINAL_PREDICATE_LEN = 256"

record effect_intent =
  ei_operation_id :: stable_id
  ei_idempotency_key :: stable_id
  ei_effect_class :: bytes
  ei_request_digest :: content_digest
  ei_precondition_digest :: content_digest

definition EFFECT_INTENT_SCHEMA :: string where "EFFECT_INTENT_SCHEMA = ''fss.effect_intent.v1''"

definition enc_intent :: "effect_intent \<Rightarrow> canonical_encoder \<Rightarrow> canonical_encoder" where
  "enc_intent i e =
     enc_digest (ei_precondition_digest i) (enc_digest (ei_request_digest i) (enc_text (ei_effect_class i)
       (enc_id (ei_idempotency_key i) (enc_id (ei_operation_id i) e))))"

definition dec_intent :: "canonical_decoder \<Rightarrow> (contract_error + effect_intent) \<times> canonical_decoder" where
  "dec_intent d =
     dec_then (dec_id d) (\<lambda>operation_id d. dec_then (dec_id d) (\<lambda>idempotency_key d.
     dec_then (dec_text d) (\<lambda>effect_class d.
     if effect_class = [] \<or> length effect_class > MAX_EFFECT_CLASS_LEN then (Inl InvalidIdentifier, d)
     else
       dec_then (dec_digest d) (\<lambda>request_digest d. dec_then (dec_digest d) (\<lambda>precondition_digest d.
       (Inr \<lparr>ei_operation_id = operation_id, ei_idempotency_key = idempotency_key, ei_effect_class = effect_class,
             ei_request_digest = request_digest, ei_precondition_digest = precondition_digest\<rparr>, d))))))"

text \<open>The length checks that \<open>new\<close> and \<open>from_canonical_bytes\<close> make on a bounded text field.\<close>

definition bounded_field :: "string \<Rightarrow> usize \<Rightarrow> bytes \<Rightarrow> effect_schema_error + unit" where
  "bounded_field name limit v =
     (if v = [] then Inl (MissingField name)
      else if length v > limit then Inl (OverLimitLength name limit (length v)) else Inr ())"

definition intent_new ::
  "stable_id \<Rightarrow> stable_id \<Rightarrow> bytes \<Rightarrow> content_digest \<Rightarrow> content_digest \<Rightarrow> effect_schema_error + effect_intent" where
  "intent_new operation_id idempotency_key effect_class request_digest precondition_digest =
     try_then (bounded_field ''effectClass'' MAX_EFFECT_CLASS_LEN effect_class) (\<lambda>_.
       Inr \<lparr>ei_operation_id = operation_id, ei_idempotency_key = idempotency_key, ei_effect_class = effect_class,
             ei_request_digest = request_digest, ei_precondition_digest = precondition_digest\<rparr>)"

definition intent_to_canonical_bytes :: "effect_intent \<Rightarrow> bytes" where
  "intent_to_canonical_bytes i = enc_finish (enc_intent i (enc_text (ascii EFFECT_INTENT_SCHEMA) encoder_new))"

definition intent_from_canonical_bytes :: "bytes \<Rightarrow> effect_schema_error + effect_intent" where
  "intent_from_canonical_bytes bs =
     (case dec_text (decoder_new bs) of
        (Inl err, _) \<Rightarrow> Inl (Contract err)
      | (Inr tag, d) \<Rightarrow>
          if tag \<noteq> ascii EFFECT_INTENT_SCHEMA then Inl (SchemaMismatch EFFECT_INTENT_SCHEMA tag)
          else
            (case dec_intent d of
               (Inl err, _) \<Rightarrow> Inl (Contract err)
             | (Inr intent, d) \<Rightarrow>
                 try_then (map_err Contract (ensure_finished d)) (\<lambda>_.
                 try_then (bounded_field ''effectClass'' MAX_EFFECT_CLASS_LEN (ei_effect_class intent)) (\<lambda>_.
                 Inr intent))))"

definition intent_digest :: "effect_intent \<Rightarrow> content_digest" where
  "intent_digest i = digest_sha256 (intent_to_canonical_bytes i)"

definition terminal_proof :: "effect_intent \<Rightarrow> bytes \<Rightarrow> content_digest" where
  "terminal_proof i terminal_predicate =
     digest_sha256 (enc_finish (enc_text terminal_predicate (enc_digest (ei_precondition_digest i)
       (enc_digest (ei_request_digest i) (enc_text (ei_effect_class i) (enc_id (ei_idempotency_key i)
       (enc_id (ei_operation_id i) (enc_text (ascii ''fss.effect_proof.terminal.v1'') encoder_new))))))))"

definition failure_proof :: "effect_intent \<Rightarrow> bytes \<Rightarrow> content_digest" where
  "failure_proof i error_code =
     digest_sha256 (enc_finish (enc_text error_code (enc_digest (ei_precondition_digest i)
       (enc_digest (ei_request_digest i) (enc_text (ei_effect_class i) (enc_id (ei_idempotency_key i)
       (enc_id (ei_operation_id i) (enc_text (ascii ''fss.effect_proof.failure.v1'') encoder_new))))))))"

record prepared_effect =
  pe_intent :: effect_intent
  pe_obligation_id :: stable_id
  pe_terminal_predicate :: bytes
  pe_prepared_at :: i128

definition PREPARED_EFFECT_SCHEMA :: string where "PREPARED_EFFECT_SCHEMA = ''fss.prepared_effect.v1''"

definition prepared_new ::
  "effect_intent \<Rightarrow> stable_id \<Rightarrow> bytes \<Rightarrow> i128 \<Rightarrow> effect_schema_error + prepared_effect" where
  "prepared_new intent obligation_id terminal_predicate prepared_at =
     try_then (bounded_field ''terminalPredicate'' MAX_TERMINAL_PREDICATE_LEN terminal_predicate) (\<lambda>_.
       Inr \<lparr>pe_intent = intent, pe_obligation_id = obligation_id, pe_terminal_predicate = terminal_predicate,
             pe_prepared_at = prepared_at\<rparr>)"

definition enc_prepared :: "prepared_effect \<Rightarrow> canonical_encoder \<Rightarrow> canonical_encoder" where
  "enc_prepared p e =
     enc_i128 (pe_prepared_at p) (enc_text (pe_terminal_predicate p)
       (enc_id (pe_obligation_id p) (enc_intent (pe_intent p) e)))"

definition dec_prepared :: "canonical_decoder \<Rightarrow> (contract_error + prepared_effect) \<times> canonical_decoder" where
  "dec_prepared d =
     dec_then (dec_intent d) (\<lambda>intent d. dec_then (dec_id d) (\<lambda>obligation_id d.
     dec_then (dec_text d) (\<lambda>terminal_predicate d.
     if terminal_predicate = [] \<or> length terminal_predicate > MAX_TERMINAL_PREDICATE_LEN
     then (Inl InvalidIdentifier, d)
     else
       dec_then (dec_i128 d) (\<lambda>prepared_at d.
       (Inr \<lparr>pe_intent = intent, pe_obligation_id = obligation_id, pe_terminal_predicate = terminal_predicate,
             pe_prepared_at = prepared_at\<rparr>, d)))))"

definition prepared_to_canonical_bytes :: "prepared_effect \<Rightarrow> bytes" where
  "prepared_to_canonical_bytes p = enc_finish (enc_prepared p (enc_text (ascii PREPARED_EFFECT_SCHEMA) encoder_new))"

definition prepared_from_canonical_bytes :: "bytes \<Rightarrow> effect_schema_error + prepared_effect" where
  "prepared_from_canonical_bytes bs =
     (case dec_text (decoder_new bs) of
        (Inl err, _) \<Rightarrow> Inl (Contract err)
      | (Inr tag, d) \<Rightarrow>
          if tag \<noteq> ascii PREPARED_EFFECT_SCHEMA then Inl (SchemaMismatch PREPARED_EFFECT_SCHEMA tag)
          else
            (case dec_prepared d of
               (Inl err, _) \<Rightarrow> Inl (Contract err)
             | (Inr prepared, d) \<Rightarrow>
                 try_then (map_err Contract (ensure_finished d)) (\<lambda>_.
                 try_then (bounded_field ''terminalPredicate'' MAX_TERMINAL_PREDICATE_LEN
                    (pe_terminal_predicate prepared)) (\<lambda>_. Inr prepared))))"

definition prepared_record_digest :: "prepared_effect \<Rightarrow> content_digest" where
  "prepared_record_digest p =
     digest_sha256 (enc_finish (enc_prepared p (enc_text (ascii PREPARED_EFFECT_SCHEMA) encoder_new)))"

record effect_cancellation_record =
  ec_prepared_record_digest :: content_digest
  ec_cancel_request_evidence :: content_digest

definition CANCELLATION_SCHEMA :: string where "CANCELLATION_SCHEMA = ''fss.effect_proof.cancellation.v1''"

definition cancellation_new :: "content_digest \<Rightarrow> content_digest \<Rightarrow> effect_cancellation_record" where
  "cancellation_new prepared evidence =
     \<lparr>ec_prepared_record_digest = prepared, ec_cancel_request_evidence = evidence\<rparr>"

definition for_prepared :: "prepared_effect \<Rightarrow> content_digest \<Rightarrow> effect_cancellation_record" where
  "for_prepared p evidence = cancellation_new (prepared_record_digest p) evidence"

definition enc_cancellation :: "effect_cancellation_record \<Rightarrow> canonical_encoder \<Rightarrow> canonical_encoder" where
  "enc_cancellation c e =
     enc_digest (ec_cancel_request_evidence c) (enc_digest (ec_prepared_record_digest c)
       (enc_text (ascii CANCELLATION_SCHEMA) e))"

definition dec_cancellation :: "canonical_decoder \<Rightarrow> (contract_error + effect_cancellation_record) \<times> canonical_decoder" where
  "dec_cancellation d =
     dec_then (dec_text d) (\<lambda>t d.
     if t \<noteq> ascii CANCELLATION_SCHEMA then (Inl InvalidIdentifier, d)
     else
       dec_then (dec_digest d) (\<lambda>prepared d. dec_then (dec_digest d) (\<lambda>evidence d.
       (Inr (cancellation_new prepared evidence), d))))"

definition proof_digest :: "effect_cancellation_record \<Rightarrow> content_digest" where
  "proof_digest c = digest_sha256 (enc_finish (enc_cancellation c encoder_new))"

section \<open>effect.rs: authorities, receipts and obligations\<close>

record effect_authority =
  ea_principal :: bytes
  ea_capability :: bytes
  ea_lease_fence :: "u64 option"

definition authority_new :: "bytes \<Rightarrow> bytes \<Rightarrow> u64 option \<Rightarrow> effect_schema_error + effect_authority" where
  "authority_new the_principal capability lease_fence =
     (if the_principal = [] then Inl (MissingField ''principal'')
      else if capability = [] then Inl (MissingField ''capability'')
      else Inr \<lparr>ea_principal = the_principal, ea_capability = capability, ea_lease_fence = lease_fence\<rparr>)"

definition system_default :: effect_authority where
  "system_default =
     \<lparr>ea_principal = ascii ''system:operator'', ea_capability = ascii ''effect:execute'', ea_lease_fence = None\<rparr>"

definition enc_authority :: "effect_authority \<Rightarrow> canonical_encoder \<Rightarrow> canonical_encoder" where
  "enc_authority a e =
     enc_option enc_u64 (ea_lease_fence a) (enc_text (ea_capability a) (enc_text (ea_principal a) e))"

definition dec_authority :: "canonical_decoder \<Rightarrow> (contract_error + effect_authority) \<times> canonical_decoder" where
  "dec_authority d =
     dec_then (dec_text d) (\<lambda>the_principal d. dec_then (dec_text d) (\<lambda>capability d.
     dec_then (dec_option dec_u64 d) (\<lambda>lease_fence d.
     (map_err (\<lambda>_. InvalidIdentifier) (authority_new the_principal capability lease_fence), d))))"

datatype indeterminate_effect_reason = Recorded bytes | Unrecorded

datatype effect_record_version = V1 | V2 | V3

text \<open>The derived order of the versions.\<close>

definition version_rank :: "effect_record_version \<Rightarrow> nat" where
  "version_rank v = (case v of V1 \<Rightarrow> 1 | V2 \<Rightarrow> 2 | V3 \<Rightarrow> 3)"

instantiation effect_record_version :: linorder
begin

definition less_eq_effect_record_version :: "effect_record_version \<Rightarrow> effect_record_version \<Rightarrow> bool" where
  "less_eq_effect_record_version a b \<longleftrightarrow> version_rank a \<le> version_rank b"

definition less_effect_record_version :: "effect_record_version \<Rightarrow> effect_record_version \<Rightarrow> bool" where
  "less_effect_record_version a b \<longleftrightarrow> version_rank a < version_rank b"

instance
  by intro_classes
    (auto simp: less_eq_effect_record_version_def less_effect_record_version_def version_rank_def
      split: effect_record_version.splits)

end

record operation_receipt =
  rc_intent :: effect_intent
  rc_state :: effect_state
  rc_authority :: effect_authority
  rc_prepared_at :: i128
  rc_committed_at :: "i128 option"
  rc_updated_at :: i128
  rc_result_digest :: "content_digest option"
  rc_error_code :: "bytes option"
  rc_indeterminate_reason :: "indeterminate_effect_reason option"
  rc_version :: effect_record_version

definition RECEIPT_SCHEMA :: string where "RECEIPT_SCHEMA = ''fss.operation_receipt.v1''"
definition DIGEST_DOMAIN_V2 :: string where "DIGEST_DOMAIN_V2 = ''fss.operation_receipt.v2''"

definition digest_domain :: "operation_receipt \<Rightarrow> string" where
  "digest_domain r = (case rc_version r of V1 \<Rightarrow> RECEIPT_SCHEMA | V2 \<Rightarrow> DIGEST_DOMAIN_V2 | V3 \<Rightarrow> DIGEST_DOMAIN_V2)"

definition enc_reason :: "indeterminate_effect_reason option \<Rightarrow> canonical_encoder \<Rightarrow> canonical_encoder" where
  "enc_reason r e =
     (case r of None \<Rightarrow> enc_u8 0 e | Some Unrecorded \<Rightarrow> enc_u8 1 e | Some (Recorded t) \<Rightarrow> enc_text t (enc_u8 2 e))"

definition enc_receipt :: "operation_receipt \<Rightarrow> canonical_encoder \<Rightarrow> canonical_encoder" where
  "enc_receipt r e =
     (let v2_layout = rc_version r \<noteq> V1;
          e = (if v2_layout then enc_text (ascii DIGEST_DOMAIN_V2) (enc_u64 0 e) else e);
          e = enc_authority (rc_authority r) (enc_text (ascii (effect_state_as_str (rc_state r)))
                (enc_intent (rc_intent r) e));
          e = enc_i128 (rc_updated_at r) (enc_option enc_i128 (rc_committed_at r) (enc_i128 (rc_prepared_at r) e));
          e = enc_option enc_text (rc_error_code r) (enc_option enc_digest (rc_result_digest r) e)
      in if v2_layout then enc_reason (rc_indeterminate_reason r) e else e)"

definition receipt_digest :: "operation_receipt \<Rightarrow> content_digest" where
  "receipt_digest r = canonical_digest enc_receipt (ascii (digest_domain r)) r"

definition dec_reason :: "canonical_decoder \<Rightarrow> (contract_error + indeterminate_effect_reason option) \<times> canonical_decoder" where
  "dec_reason d =
     dec_then (dec_u8 d) (\<lambda>t d.
       if t = 0 then (Inr None, d)
       else if t = 1 then (Inr (Some Unrecorded), d)
       else if t = 2 then dec_then (dec_text d) (\<lambda>reason d. (Inr (Some (Recorded reason)), d))
       else (Inl InvalidIdentifier, d))"

text \<open>The fields after the version prefix, which only a version-3 receipt reaches.\<close>

definition dec_receipt_body :: "canonical_decoder \<Rightarrow> (contract_error + operation_receipt) \<times> canonical_decoder" where
  "dec_receipt_body d =
     dec_then (dec_intent d) (\<lambda>intent d. dec_then (dec_effect_state d) (\<lambda>state d.
     dec_then (dec_authority d) (\<lambda>authority d. dec_then (dec_i128 d) (\<lambda>prepared_at d.
     dec_then (dec_option dec_i128 d) (\<lambda>committed_at d. dec_then (dec_i128 d) (\<lambda>updated_at d.
     dec_then (dec_option dec_digest d) (\<lambda>result_digest d. dec_then (dec_option dec_text d) (\<lambda>error_code d.
     dec_then (dec_reason d) (\<lambda>indeterminate_reason d.
     (Inr \<lparr>rc_intent = intent, rc_state = state, rc_authority = authority, rc_prepared_at = prepared_at,
           rc_committed_at = committed_at, rc_updated_at = updated_at, rc_result_digest = result_digest,
           rc_error_code = error_code, rc_indeterminate_reason = indeterminate_reason, rc_version = V3\<rparr>, d))))))))))"

text \<open>The prefix is read on a clone of the decoder, which replaces it only when the prefix is right.\<close>

definition dec_receipt :: "canonical_decoder \<Rightarrow> (contract_error + operation_receipt) \<times> canonical_decoder" where
  "dec_receipt d =
     (case dec_u64 d of
        (Inl err, _) \<Rightarrow> (Inl err, d)
      | (Inr n, probe) \<Rightarrow>
          if n \<noteq> 0 then (Inl LegacyReceiptRequiresJournal, d)
          else
            (case dec_text probe of
               (Inl err, _) \<Rightarrow> (Inl err, d)
             | (Inr t, probe) \<Rightarrow>
                 if t \<noteq> ascii DIGEST_DOMAIN_V2 then (Inl InvalidIdentifier, d) else dec_receipt_body probe))"

record obligation =
  ob_obligation_id :: stable_id
  ob_operation_id :: stable_id
  ob_terminal_predicate :: bytes
  ob_state :: obligation_state
  ob_proof_digest :: "content_digest option"

definition obligation_state_tag :: "obligation_state \<Rightarrow> u8" where
  "obligation_state_tag s =
     (case s of obligation_state.Pending \<Rightarrow> 0 | obligation_state.Verified \<Rightarrow> 1 | obligation_state.Failed \<Rightarrow> 2
      | obligation_state.Indeterminate \<Rightarrow> 3 | obligation_state.Cancelled \<Rightarrow> 4)"

definition enc_obligation_state :: "obligation_state \<Rightarrow> canonical_encoder \<Rightarrow> canonical_encoder" where
  "enc_obligation_state s e = enc_u8 (obligation_state_tag s) e"

definition dec_obligation_state :: "canonical_decoder \<Rightarrow> (contract_error + obligation_state) \<times> canonical_decoder" where
  "dec_obligation_state d =
     dec_then (dec_u8 d) (\<lambda>t d.
       (if t = 0 then Inr obligation_state.Pending
        else if t = 1 then Inr obligation_state.Verified
        else if t = 2 then Inr obligation_state.Failed
        else if t = 3 then Inr obligation_state.Indeterminate
        else if t = 4 then Inr obligation_state.Cancelled
        else Inl (UnknownEntryTag t), d))"

definition enc_obligation :: "obligation \<Rightarrow> canonical_encoder \<Rightarrow> canonical_encoder" where
  "enc_obligation v e =
     enc_option enc_digest (ob_proof_digest v) (enc_obligation_state (ob_state v)
       (enc_text (ob_terminal_predicate v) (enc_id (ob_operation_id v) (enc_id (ob_obligation_id v) e))))"

definition dec_obligation :: "canonical_decoder \<Rightarrow> (contract_error + obligation) \<times> canonical_decoder" where
  "dec_obligation d =
     dec_then (dec_id d) (\<lambda>obligation_id d. dec_then (dec_id d) (\<lambda>operation_id d.
     dec_then (dec_text d) (\<lambda>terminal_predicate d. dec_then (dec_obligation_state d) (\<lambda>state d.
     dec_then (dec_option dec_digest d) (\<lambda>proof d.
     (Inr \<lparr>ob_obligation_id = obligation_id, ob_operation_id = operation_id,
           ob_terminal_predicate = terminal_predicate, ob_state = state, ob_proof_digest = proof\<rparr>, d))))))"

section \<open>effect.rs: transition records\<close>

datatype effect_journal_transition =
    Prepare effect_intent stable_id bytes i128
  | PrepareWithAuthority effect_intent stable_id bytes effect_authority i128
  | Transition stable_id effect_state i128 "content_digest option" "bytes option"
  | ReconcileVerified stable_id content_digest i128
  | ReconcileFailed stable_id content_digest i128 bytes
  | Cancel stable_id i128 content_digest content_digest "bytes option"

definition TRANSITION_SCHEMA :: string where "TRANSITION_SCHEMA = ''fss.effect_transition.v1''"

definition enc_transition :: "effect_journal_transition \<Rightarrow> canonical_encoder \<Rightarrow> canonical_encoder" where
  "enc_transition t e0 =
     (let e = enc_text (ascii TRANSITION_SCHEMA) e0 in
      case t of
        Prepare intent obligation_id terminal_predicate now \<Rightarrow>
          enc_i128 now (enc_text terminal_predicate (enc_id obligation_id (enc_intent intent (enc_u8 1 e))))
      | PrepareWithAuthority intent obligation_id terminal_predicate authority now \<Rightarrow>
          enc_i128 now (enc_authority authority (enc_text terminal_predicate (enc_id obligation_id
            (enc_intent intent (enc_u8 6 e)))))
      | Transition operation_id nxt now result_digest error_code \<Rightarrow>
          enc_option enc_text error_code (enc_option enc_digest result_digest (enc_i128 now
            (enc_effect_state nxt (enc_id operation_id (enc_u8 2 e)))))
      | ReconcileVerified operation_id proof now \<Rightarrow>
          enc_i128 now (enc_digest proof (enc_id operation_id (enc_u8 3 e)))
      | ReconcileFailed operation_id proof now reason \<Rightarrow>
          enc_text reason (enc_i128 now (enc_digest proof (enc_id operation_id (enc_u8 4 e))))
      | Cancel operation_id now evidence proof reason \<Rightarrow>
          enc_option enc_text reason (enc_digest proof (enc_digest evidence (enc_i128 now
            (enc_id operation_id (enc_u8 5 e))))))"

text \<open>One definition per arm of the decoder's match on the tag.\<close>

type_synonym transition_decoder =
  "canonical_decoder \<Rightarrow> (contract_error + effect_journal_transition) \<times> canonical_decoder"

definition dec_prepare_arm :: transition_decoder where
  "dec_prepare_arm d =
     dec_then (dec_intent d) (\<lambda>intent d. dec_then (dec_id d) (\<lambda>obligation_id d.
     dec_then (dec_text d) (\<lambda>terminal_predicate d. dec_then (dec_i128 d) (\<lambda>now d.
     (Inr (Prepare intent obligation_id terminal_predicate now), d)))))"

definition dec_transition_arm :: transition_decoder where
  "dec_transition_arm d =
     dec_then (dec_id d) (\<lambda>operation_id d. dec_then (dec_effect_state d) (\<lambda>nxt d.
     dec_then (dec_i128 d) (\<lambda>now d. dec_then (dec_option dec_digest d) (\<lambda>result_digest d.
     dec_then (dec_option dec_text d) (\<lambda>error_code d.
     (Inr (Transition operation_id nxt now result_digest error_code), d))))))"

definition dec_reconcile_verified_arm :: transition_decoder where
  "dec_reconcile_verified_arm d =
     dec_then (dec_id d) (\<lambda>operation_id d. dec_then (dec_digest d) (\<lambda>proof d. dec_then (dec_i128 d) (\<lambda>now d.
     (Inr (ReconcileVerified operation_id proof now), d))))"

definition dec_reconcile_failed_arm :: transition_decoder where
  "dec_reconcile_failed_arm d =
     dec_then (dec_id d) (\<lambda>operation_id d. dec_then (dec_digest d) (\<lambda>proof d. dec_then (dec_i128 d) (\<lambda>now d.
     dec_then (dec_text d) (\<lambda>reason d. (Inr (ReconcileFailed operation_id proof now reason), d)))))"

definition dec_cancel_arm :: transition_decoder where
  "dec_cancel_arm d =
     dec_then (dec_id d) (\<lambda>operation_id d. dec_then (dec_i128 d) (\<lambda>now d. dec_then (dec_digest d) (\<lambda>evidence d.
     dec_then (dec_digest d) (\<lambda>proof d. dec_then (dec_option dec_text d) (\<lambda>reason d.
     (Inr (Cancel operation_id now evidence proof reason), d))))))"

definition dec_prepare_authority_arm :: transition_decoder where
  "dec_prepare_authority_arm d =
     dec_then (dec_intent d) (\<lambda>intent d. dec_then (dec_id d) (\<lambda>obligation_id d.
     dec_then (dec_text d) (\<lambda>terminal_predicate d.
     if terminal_predicate = [] \<or> length terminal_predicate > MAX_TERMINAL_PREDICATE_LEN
     then (Inl InvalidIdentifier, d)
     else
       dec_then (dec_authority d) (\<lambda>authority d. dec_then (dec_i128 d) (\<lambda>now d.
       (Inr (PrepareWithAuthority intent obligation_id terminal_predicate authority now), d))))))"

definition dec_transition :: transition_decoder where
  "dec_transition d =
     dec_then (dec_text d) (\<lambda>magic d.
     if magic \<noteq> ascii TRANSITION_SCHEMA then (Inl InvalidIdentifier, d)
     else
       dec_then (dec_tag d) (\<lambda>t d.
         if t = 1 then dec_prepare_arm d
         else if t = 2 then dec_transition_arm d
         else if t = 3 then dec_reconcile_verified_arm d
         else if t = 4 then dec_reconcile_failed_arm d
         else if t = 5 then dec_cancel_arm d
         else if t = 6 then dec_prepare_authority_arm d
         else (Inl InvalidIdentifier, d)))"

section \<open>Wire forms and exactness\<close>

definition id_valid :: "bytes \<Rightarrow> bool" where
  "id_valid v \<longleftrightarrow> v \<noteq> [] \<and> length v \<le> MAX_STABLE_ID_LEN \<and> list_all id_byte v"

lemma id_parse_Inr: "id_parse t = Inr v \<longleftrightarrow> id_valid v \<and> t = v"
  by (cases t) (auto simp: id_parse_def validate_id_def id_valid_def rust_simps MIN_STABLE_ID_LEN_def)

lemma utf8_valid_ascii: "list_all (\<lambda>b. b \<le> 0x7f) v \<Longrightarrow> utf8_valid v"
  by (induction v rule: utf8_valid.induct) auto

lemma id_byte_ascii: "id_byte b \<Longrightarrow> b \<le> 0x7f"
  unfolding id_byte_def word_le_nat_alt word_less_nat_alt by auto

lemma id_valid_text: "id_valid v \<Longrightarrow> text_valid v"
  by (auto simp: id_valid_def text_valid_def MAX_STABLE_ID_LEN_def MAX_CANONICAL_TEXT_BYTES_def
      list_all_iff id_byte_ascii intro!: utf8_valid_ascii)

interpretation idc: canonical_codec id_valid bytes_wire enc_id dec_id
  by unfold_locales
    (auto simp: enc_id_def textc.enc_wire id_valid_text dec_id_def dec_then_Inr textc.dec_wire id_parse_Inr)

definition effect_state_wire :: "effect_state \<Rightarrow> bytes" where
  "effect_state_wire s = bytes_wire (ascii (effect_state_as_str s))"

lemma effect_state_of_text_Inr: "effect_state_of_text t = Inr s \<longleftrightarrow> t = ascii (effect_state_as_str s)"
proof
  assume "effect_state_of_text t = Inr s"
  then show "t = ascii (effect_state_as_str s)"
    by (auto simp: effect_state_of_text_def effect_state_as_str_def split: if_splits)
next
  assume "t = ascii (effect_state_as_str s)"
  then show "effect_state_of_text t = Inr s"
    by (cases s) (simp_all add: effect_state_of_text_def effect_state_as_str_def ascii_def)
qed

lemma text_valid_ascii: "list_all (\<lambda>c. (of_char c :: u8) \<le> 0x7f) s \<Longrightarrow> length s \<le> 65536 \<Longrightarrow> text_valid (ascii s)"
  by (auto simp: text_valid_def ascii_def MAX_CANONICAL_TEXT_BYTES_def list_all_iff intro!: utf8_valid_ascii)

lemma effect_state_text_valid [simp]: "text_valid (ascii (effect_state_as_str s))"
  by (cases s; rule text_valid_ascii) (simp_all add: effect_state_as_str_def)

interpretation statec: canonical_codec "\<lambda>_. True" effect_state_wire enc_effect_state dec_effect_state
  by unfold_locales
    (auto simp: enc_effect_state_def textc.enc_wire effect_state_wire_def dec_effect_state_def dec_then_Inr
      textc.dec_wire effect_state_of_text_Inr)

definition intent_valid :: "effect_intent \<Rightarrow> bool" where
  "intent_valid i \<longleftrightarrow> id_valid (ei_operation_id i) \<and> id_valid (ei_idempotency_key i)
     \<and> ei_effect_class i \<noteq> [] \<and> length (ei_effect_class i) \<le> MAX_EFFECT_CLASS_LEN \<and> text_valid (ei_effect_class i)
     \<and> digest_valid (ei_request_digest i) \<and> digest_valid (ei_precondition_digest i)"

definition intent_wire :: "effect_intent \<Rightarrow> bytes" where
  "intent_wire i = bytes_wire (ei_operation_id i) @ bytes_wire (ei_idempotency_key i)
     @ bytes_wire (ei_effect_class i) @ digest_wire (ei_request_digest i) @ digest_wire (ei_precondition_digest i)"

interpretation intentc: canonical_codec intent_valid intent_wire enc_intent dec_intent
proof
  show "enc_intent i e = enc_emit (intent_wire i) e" if "intent_valid i" "ce_error e = None" for i e
    using that by (simp add: enc_intent_def intent_wire_def intent_valid_def encoder_laws idc.enc_wire)
next
  show "dec_intent d = (Inr i, d') \<longleftrightarrow>
      intent_valid i \<and> prefix (intent_wire i) (dec_rest d) \<and> d' = dec_advance (length (intent_wire i)) d" for d i d'
    by (cases i) (auto simp: dec_intent_def dec_then_Inr if_refuse codec_laws idc.dec_wire intent_valid_def
        intent_wire_def prefix_append_rest not_less add.assoc simp del: length_bytes_wire)
qed

definition prepared_valid :: "prepared_effect \<Rightarrow> bool" where
  "prepared_valid p \<longleftrightarrow> intent_valid (pe_intent p) \<and> id_valid (pe_obligation_id p)
     \<and> pe_terminal_predicate p \<noteq> [] \<and> length (pe_terminal_predicate p) \<le> MAX_TERMINAL_PREDICATE_LEN
     \<and> text_valid (pe_terminal_predicate p) \<and> i128_valid (pe_prepared_at p)"

definition prepared_wire :: "prepared_effect \<Rightarrow> bytes" where
  "prepared_wire p = intent_wire (pe_intent p) @ bytes_wire (pe_obligation_id p)
     @ bytes_wire (pe_terminal_predicate p) @ i128_wire (pe_prepared_at p)"

interpretation preparedc: canonical_codec prepared_valid prepared_wire enc_prepared dec_prepared
proof
  show "enc_prepared p e = enc_emit (prepared_wire p) e" if "prepared_valid p" "ce_error e = None" for p e
    using that by (simp add: enc_prepared_def prepared_wire_def prepared_valid_def encoder_laws idc.enc_wire intentc.enc_wire)
next
  show "dec_prepared d = (Inr p, d') \<longleftrightarrow>
      prepared_valid p \<and> prefix (prepared_wire p) (dec_rest d) \<and> d' = dec_advance (length (prepared_wire p)) d" for d p d'
    by (cases p) (auto simp: dec_prepared_def dec_then_Inr if_refuse codec_laws idc.dec_wire intentc.dec_wire
        prepared_valid_def prepared_wire_def prefix_append_rest not_less add.assoc simp del: length_bytes_wire)
qed

definition cancellation_valid :: "effect_cancellation_record \<Rightarrow> bool" where
  "cancellation_valid c \<longleftrightarrow> digest_valid (ec_prepared_record_digest c) \<and> digest_valid (ec_cancel_request_evidence c)"

definition cancellation_wire :: "effect_cancellation_record \<Rightarrow> bytes" where
  "cancellation_wire c = bytes_wire (ascii CANCELLATION_SCHEMA)
     @ digest_wire (ec_prepared_record_digest c) @ digest_wire (ec_cancel_request_evidence c)"

lemma schema_text_valid [simp]:
  "text_valid (ascii CANCELLATION_SCHEMA)" "text_valid (ascii PREPARED_EFFECT_SCHEMA)"
  "text_valid (ascii EFFECT_INTENT_SCHEMA)" "text_valid (ascii DIGEST_DOMAIN_V2)"
  "text_valid (ascii TRANSITION_SCHEMA)"
  by (rule text_valid_ascii; simp add: CANCELLATION_SCHEMA_def PREPARED_EFFECT_SCHEMA_def EFFECT_INTENT_SCHEMA_def
      DIGEST_DOMAIN_V2_def TRANSITION_SCHEMA_def)+

interpretation cancelc: canonical_codec cancellation_valid cancellation_wire enc_cancellation dec_cancellation
proof
  show "enc_cancellation c e = enc_emit (cancellation_wire c) e" if "cancellation_valid c" "ce_error e = None" for c e
    using that by (simp add: enc_cancellation_def cancellation_wire_def cancellation_valid_def encoder_laws)
next
  show "dec_cancellation d = (Inr c, d') \<longleftrightarrow>
      cancellation_valid c \<and> prefix (cancellation_wire c) (dec_rest d) \<and> d' = dec_advance (length (cancellation_wire c)) d"
    for d c d'
    by (cases c) (auto simp: dec_cancellation_def dec_then_Inr if_refuse codec_laws cancellation_valid_def
        cancellation_wire_def cancellation_new_def prefix_append_rest add.assoc simp del: length_bytes_wire)
qed

definition authority_valid :: "effect_authority \<Rightarrow> bool" where
  "authority_valid a \<longleftrightarrow> ea_principal a \<noteq> [] \<and> text_valid (ea_principal a)
     \<and> ea_capability a \<noteq> [] \<and> text_valid (ea_capability a) \<and> pred_option u64_valid (ea_lease_fence a)"

definition authority_wire :: "effect_authority \<Rightarrow> bytes" where
  "authority_wire a = bytes_wire (ea_principal a) @ bytes_wire (ea_capability a) @ option_wire u64_wire (ea_lease_fence a)"

interpretation authorityc: canonical_codec authority_valid authority_wire enc_authority dec_authority
proof
  show "enc_authority a e = enc_emit (authority_wire a) e" if "authority_valid a" "ce_error e = None" for a e
    using that by (simp add: enc_authority_def authority_wire_def authority_valid_def encoder_laws)
next
  show "dec_authority d = (Inr a, d') \<longleftrightarrow>
      authority_valid a \<and> prefix (authority_wire a) (dec_rest d) \<and> d' = dec_advance (length (authority_wire a)) d" for d a d'
    by (cases a) (auto simp: dec_authority_def dec_then_Inr map_err_Inr_iff authority_new_def if_Inl_Inr codec_laws
        authority_valid_def authority_wire_def prefix_append_rest add.assoc simp del: length_bytes_wire)
qed

fun reason_valid :: "indeterminate_effect_reason option \<Rightarrow> bool" where
  "reason_valid (Some (Recorded t)) = text_valid t"
| "reason_valid _ = True"

fun reason_wire :: "indeterminate_effect_reason option \<Rightarrow> bytes" where
  "reason_wire None = [0]"
| "reason_wire (Some Unrecorded) = [1]"
| "reason_wire (Some (Recorded t)) = [2] @ bytes_wire t"

lemma prefix_Cons_rest:
  "b \<noteq> [] \<Longrightarrow> prefix (t # b) (dec_rest d) \<longleftrightarrow> prefix [t] (dec_rest d) \<and> prefix b (dec_rest (dec_advance 1 d))"
  using prefix_append_rest [of "[t]" b d] by simp

lemma dec_reason_Inr:
  "dec_reason d = (Inr r, d') \<longleftrightarrow>
     r = None \<and> prefix [0] (dec_rest d) \<and> d' = dec_advance 1 d
     \<or> r = Some Unrecorded \<and> prefix [1] (dec_rest d) \<and> d' = dec_advance 1 d
     \<or> (\<exists>t. r = Some (Recorded t) \<and> prefix [2] (dec_rest d)
          \<and> text_valid t \<and> prefix (bytes_wire t) (dec_rest (dec_advance 1 d)) \<and> d' = dec_advance (9 + length t) d)"
proof -
  have tags: "(if t = 0 then a else if t = 1 then b else if t = 2 then c else (Inl e, x)) = (Inr r, d')
      \<longleftrightarrow> t = 0 \<and> a = (Inr r, d') \<or> t = 1 \<and> b = (Inr r, d') \<or> t = 2 \<and> c = (Inr r, d')" for t :: u8 and a b c e x
    by simp
  show ?thesis
    unfolding dec_reason_def dec_then_Inr u8c.dec_wire tags textc.dec_wire by auto
qed

interpretation reasonc: canonical_codec reason_valid reason_wire enc_reason dec_reason
proof
  show "enc_reason r e = enc_emit (reason_wire r) e" if "reason_valid r" "ce_error e = None" for r e
    using that by (cases r rule: reason_wire.cases) (simp_all add: enc_reason_def encoder_laws)
next
  show "dec_reason d = (Inr r, d') \<longleftrightarrow>
      reason_valid r \<and> prefix (reason_wire r) (dec_rest d) \<and> d' = dec_advance (length (reason_wire r)) d" for d r d'
    by (cases r rule: reason_wire.cases)
      (auto simp: dec_reason_Inr prefix_append_rest simp del: append.simps)
qed

definition obligation_valid :: "obligation \<Rightarrow> bool" where
  "obligation_valid v \<longleftrightarrow> id_valid (ob_obligation_id v) \<and> id_valid (ob_operation_id v)
     \<and> text_valid (ob_terminal_predicate v) \<and> pred_option digest_valid (ob_proof_digest v)"

definition obligation_wire :: "obligation \<Rightarrow> bytes" where
  "obligation_wire v = bytes_wire (ob_obligation_id v) @ bytes_wire (ob_operation_id v)
     @ bytes_wire (ob_terminal_predicate v) @ [obligation_state_tag (ob_state v)]
     @ option_wire digest_wire (ob_proof_digest v)"

interpretation obstatec: canonical_codec "\<lambda>_. True" "\<lambda>s. [obligation_state_tag s]" enc_obligation_state dec_obligation_state
proof
  show "enc_obligation_state s e = enc_emit [obligation_state_tag s] e" if "ce_error e = None" for s e
    using that by (simp add: enc_obligation_state_def u8c.enc_wire)
next
  have "(if t = 0 then Inr obligation_state.Pending else if t = 1 then Inr obligation_state.Verified
      else if t = 2 then Inr obligation_state.Failed else if t = 3 then Inr obligation_state.Indeterminate
      else if t = 4 then Inr obligation_state.Cancelled else Inl (UnknownEntryTag t)) = Inr s
      \<longleftrightarrow> t = obligation_state_tag s" for t s
    by (cases s) (auto simp: obligation_state_tag_def)
  then show "dec_obligation_state d = (Inr s, d') \<longleftrightarrow> True \<and> prefix [obligation_state_tag s] (dec_rest d)
      \<and> d' = dec_advance (length [obligation_state_tag s]) d" for d s d'
    unfolding dec_obligation_state_def dec_then_Inr u8c.dec_wire prod.inject by auto
qed

interpretation obligationc: canonical_codec obligation_valid obligation_wire enc_obligation dec_obligation
proof
  show "enc_obligation v e = enc_emit (obligation_wire v) e" if "obligation_valid v" "ce_error e = None" for v e
    using that by (simp add: enc_obligation_def obligation_wire_def obligation_valid_def encoder_laws
        idc.enc_wire obstatec.enc_wire)
next
  show "dec_obligation d = (Inr v, d') \<longleftrightarrow>
      obligation_valid v \<and> prefix (obligation_wire v) (dec_rest d) \<and> d' = dec_advance (length (obligation_wire v)) d" for d v d'
    by (cases v) (auto simp: dec_obligation_def dec_then_Inr codec_laws idc.dec_wire obstatec.dec_wire
        obligation_valid_def obligation_wire_def prefix_append_rest add.assoc simp del: length_bytes_wire append.simps)
qed

definition receipt_fields_valid :: "operation_receipt \<Rightarrow> bool" where
  "receipt_fields_valid r \<longleftrightarrow> intent_valid (rc_intent r) \<and> authority_valid (rc_authority r)
     \<and> i128_valid (rc_prepared_at r) \<and> pred_option i128_valid (rc_committed_at r) \<and> i128_valid (rc_updated_at r)
     \<and> pred_option digest_valid (rc_result_digest r) \<and> pred_option text_valid (rc_error_code r)
     \<and> reason_valid (rc_indeterminate_reason r)"

definition receipt_common_wire :: "operation_receipt \<Rightarrow> bytes" where
  "receipt_common_wire r = intent_wire (rc_intent r) @ effect_state_wire (rc_state r) @ authority_wire (rc_authority r)
     @ i128_wire (rc_prepared_at r) @ option_wire i128_wire (rc_committed_at r) @ i128_wire (rc_updated_at r)
     @ option_wire digest_wire (rc_result_digest r) @ option_wire bytes_wire (rc_error_code r)"

definition receipt_wire :: "operation_receipt \<Rightarrow> bytes" where
  "receipt_wire r =
     (if rc_version r = V1 then receipt_common_wire r
      else u64_wire 0 @ bytes_wire (ascii DIGEST_DOMAIN_V2) @ receipt_common_wire r
             @ reason_wire (rc_indeterminate_reason r))"

lemma enc_receipt_wire:
  assumes "receipt_fields_valid r" and "ce_error e = None"
  shows "enc_receipt r e = enc_emit (receipt_wire r) e"
proof -
  have zero: "u64_valid 0" by (simp add: u64_valid_def)
  show ?thesis
    using assms by (simp add: enc_receipt_def Let_def receipt_wire_def receipt_common_wire_def receipt_fields_valid_def
        effect_state_wire_def zero encoder_laws intentc.enc_wire authorityc.enc_wire reasonc.enc_wire)
qed

lemma dec_receipt_body_wire:
  "dec_receipt_body d = (Inr r, d') \<longleftrightarrow> rc_version r = V3 \<and> receipt_fields_valid r
     \<and> prefix (receipt_common_wire r @ reason_wire (rc_indeterminate_reason r)) (dec_rest d)
     \<and> d' = dec_advance (length (receipt_common_wire r @ reason_wire (rc_indeterminate_reason r))) d"
  by (cases r) (auto simp: dec_receipt_body_def dec_then_Inr codec_laws intentc.dec_wire authorityc.dec_wire
      statec.dec_wire reasonc.dec_wire receipt_fields_valid_def receipt_common_wire_def prefix_append_rest add.assoc
      simp del: length_bytes_wire append.simps)

lemma dec_receipt_Inr:
  "dec_receipt d = (Inr r, d') \<longleftrightarrow>
     dec_then (dec_u64 d) (\<lambda>n d. dec_then (dec_text d) (\<lambda>t d.
       if n = 0 \<and> t = ascii DIGEST_DOMAIN_V2 then dec_receipt_body d else (Inl InvalidIdentifier, d))) = (Inr r, d')"
  by (auto simp: dec_receipt_def dec_then_def split: prod.splits sum.splits)

interpretation receiptc: canonical_codec "\<lambda>r. rc_version r = V3 \<and> receipt_fields_valid r" receipt_wire enc_receipt dec_receipt
proof
  show "enc_receipt r e = enc_emit (receipt_wire r) e"
    if "rc_version r = V3 \<and> receipt_fields_valid r" "ce_error e = None" for r e
    using that enc_receipt_wire by blast
next
  have zero: "u64_valid 0" by (simp add: u64_valid_def)
  show "dec_receipt d = (Inr r, d') \<longleftrightarrow> (rc_version r = V3 \<and> receipt_fields_valid r)
      \<and> prefix (receipt_wire r) (dec_rest d) \<and> d' = dec_advance (length (receipt_wire r)) d" for d r d'
    unfolding dec_receipt_Inr
    by (auto simp: dec_then_Inr if_refuse u64c.dec_wire textc.dec_wire dec_receipt_body_wire receipt_wire_def zero
        prefix_append_rest add.assoc simp del: length_bytes_wire append.simps)
qed

fun transition_valid :: "effect_journal_transition \<Rightarrow> bool" where
  "transition_valid (Prepare i ob p now) \<longleftrightarrow> intent_valid i \<and> id_valid ob \<and> text_valid p \<and> i128_valid now"
| "transition_valid (PrepareWithAuthority i ob p a now) \<longleftrightarrow> intent_valid i \<and> id_valid ob \<and> text_valid p
     \<and> p \<noteq> [] \<and> length p \<le> MAX_TERMINAL_PREDICATE_LEN \<and> authority_valid a \<and> i128_valid now"
| "transition_valid (Transition op s now r c) \<longleftrightarrow> id_valid op \<and> i128_valid now \<and> pred_option digest_valid r
     \<and> pred_option text_valid c"
| "transition_valid (ReconcileVerified op q now) \<longleftrightarrow> id_valid op \<and> digest_valid q \<and> i128_valid now"
| "transition_valid (ReconcileFailed op q now r) \<longleftrightarrow> id_valid op \<and> digest_valid q \<and> i128_valid now \<and> text_valid r"
| "transition_valid (Cancel op now ev q r) \<longleftrightarrow> id_valid op \<and> i128_valid now \<and> digest_valid ev \<and> digest_valid q
     \<and> pred_option text_valid r"

fun transition_tag :: "effect_journal_transition \<Rightarrow> u8" where
  "transition_tag (Prepare _ _ _ _) = 1"
| "transition_tag (Transition _ _ _ _ _) = 2"
| "transition_tag (ReconcileVerified _ _ _) = 3"
| "transition_tag (ReconcileFailed _ _ _ _) = 4"
| "transition_tag (Cancel _ _ _ _ _) = 5"
| "transition_tag (PrepareWithAuthority _ _ _ _ _) = 6"

fun transition_body_wire :: "effect_journal_transition \<Rightarrow> bytes" where
  "transition_body_wire (Prepare i ob p now) = intent_wire i @ bytes_wire ob @ bytes_wire p @ i128_wire now"
| "transition_body_wire (PrepareWithAuthority i ob p a now) =
     intent_wire i @ bytes_wire ob @ bytes_wire p @ authority_wire a @ i128_wire now"
| "transition_body_wire (Transition op s now r c) = bytes_wire op @ effect_state_wire s @ i128_wire now
     @ option_wire digest_wire r @ option_wire bytes_wire c"
| "transition_body_wire (ReconcileVerified op q now) = bytes_wire op @ digest_wire q @ i128_wire now"
| "transition_body_wire (ReconcileFailed op q now r) = bytes_wire op @ digest_wire q @ i128_wire now @ bytes_wire r"
| "transition_body_wire (Cancel op now ev q r) = bytes_wire op @ i128_wire now @ digest_wire ev @ digest_wire q
     @ option_wire bytes_wire r"

definition transition_wire :: "effect_journal_transition \<Rightarrow> bytes" where
  "transition_wire t = bytes_wire (ascii TRANSITION_SCHEMA) @ [transition_tag t] @ transition_body_wire t"

text \<open>Each arm of the decoder reads exactly the bodies with its tag.\<close>

lemma dec_arms:
  fixes d t d'
  defines "body \<equiv> transition_valid t \<and> prefix (transition_body_wire t) (dec_rest d)
    \<and> d' = dec_advance (length (transition_body_wire t)) d"
  shows "dec_prepare_arm d = (Inr t, d') \<longleftrightarrow> transition_tag t = 1 \<and> body"
    and "dec_transition_arm d = (Inr t, d') \<longleftrightarrow> transition_tag t = 2 \<and> body"
    and "dec_reconcile_verified_arm d = (Inr t, d') \<longleftrightarrow> transition_tag t = 3 \<and> body"
    and "dec_reconcile_failed_arm d = (Inr t, d') \<longleftrightarrow> transition_tag t = 4 \<and> body"
    and "dec_cancel_arm d = (Inr t, d') \<longleftrightarrow> transition_tag t = 5 \<and> body"
    and "dec_prepare_authority_arm d = (Inr t, d') \<longleftrightarrow> transition_tag t = 6 \<and> body"
  by (cases t; auto simp: body_def dec_prepare_arm_def dec_transition_arm_def dec_reconcile_verified_arm_def
      dec_reconcile_failed_arm_def dec_cancel_arm_def dec_prepare_authority_arm_def dec_then_Inr if_refuse codec_laws
      idc.dec_wire intentc.dec_wire authorityc.dec_wire statec.dec_wire prefix_append_rest add.assoc not_less
      simp del: length_bytes_wire append.simps)+

interpretation transitionc: canonical_codec transition_valid transition_wire enc_transition dec_transition
proof
  show "enc_transition t e = enc_emit (transition_wire t) e" if "transition_valid t" "ce_error e = None" for t e
    using that by (cases t) (simp_all add: enc_transition_def Let_def transition_wire_def encoder_laws idc.enc_wire
        intentc.enc_wire authorityc.enc_wire statec.enc_wire)
next
  have tags: "(if n = 1 then a1 else if n = 2 then a2 else if n = 3 then a3 else if n = 4 then a4 else if n = 5 then a5
        else if n = 6 then a6 else (Inl e, x)) = (Inr t, d')
      \<longleftrightarrow> n = 1 \<and> a1 = (Inr t, d') \<or> n = 2 \<and> a2 = (Inr t, d') \<or> n = 3 \<and> a3 = (Inr t, d')
        \<or> n = 4 \<and> a4 = (Inr t, d') \<or> n = 5 \<and> a5 = (Inr t, d') \<or> n = 6 \<and> a6 = (Inr t, d')"
    for n :: u8 and a1 a2 a3 a4 a5 a6 e x t d'
    by simp
  have range: "transition_tag t \<in> {1, 2, 3, 4, 5, 6}" for t by (cases t) simp_all
  show "dec_transition d = (Inr t, d') \<longleftrightarrow> transition_valid t \<and> prefix (transition_wire t) (dec_rest d)
      \<and> d' = dec_advance (length (transition_wire t)) d" for d t d'
    using range [of t] unfolding dec_transition_def dec_then_Inr if_refuse tags dec_arms textc.dec_wire dec_tag_wire
      transition_wire_def
    by (auto simp: prefix_append_rest add.assoc simp del: length_bytes_wire append.simps)
qed

text \<open>The schema-prefixed forms of an intent and of a prepared record.\<close>

lemma prefixed_exact:
  assumes "canonical_codec valid wire enc dec" and "text_valid schema"
    and "\<And>x. valid x \<Longrightarrow> check x = Inr ()"
  shows "(case dec_text (decoder_new bs) of
      (Inl err, _) \<Rightarrow> Inl (Contract err)
    | (Inr t, d) \<Rightarrow>
        if t \<noteq> schema then Inl (mismatch t)
        else (case dec d of
           (Inl err, _) \<Rightarrow> Inl (Contract err)
         | (Inr x, d) \<Rightarrow> try_then (map_err Contract (ensure_finished d)) (\<lambda>_. try_then (check x) (\<lambda>_. Inr x)))) = Inr x
    \<longleftrightarrow> valid x \<and> bs = bytes_wire schema @ wire x"
  (is "?decode = _ \<longleftrightarrow> _")
proof -
  have law: "dec d = (Inr x, d') \<longleftrightarrow>
      valid x \<and> prefix (wire x) (dec_rest d) \<and> d' = dec_advance (length (wire x)) d" for d x d'
    using assms(1) by (simp add: canonical_codec.dec_wire)
  have finished: "ensure_finished d = Inr () \<longleftrightarrow> dec_rest d = []" for d
    by (simp add: ensure_finished_def dec_is_empty_def dec_remaining_def dec_rest_def)
  have "?decode = Inr x \<longleftrightarrow> (\<exists>d d'. dec_text (decoder_new bs) = (Inr schema, d) \<and> dec d = (Inr x, d')
      \<and> dec_rest d' = [] \<and> check x = Inr ())"
    by (auto simp: rust_simps finished split: prod.splits sum.splits)
  also have "\<dots> \<longleftrightarrow> valid x \<and> bs = bytes_wire schema @ wire x"
    using assms(2,3) by (auto simp: textc.dec_wire law dec_rest_advance prefix_def bytes_wire_def)
  finally show ?thesis .
qed

lemma bounded_field_Inr: "bounded_field name limit v = Inr u \<longleftrightarrow> v \<noteq> [] \<and> length v \<le> limit"
  by (simp add: bounded_field_def)

lemma intent_from_canonical_bytes_exact:
  "intent_from_canonical_bytes bs = Inr i \<longleftrightarrow> intent_valid i \<and> bs = intent_to_canonical_bytes i"
proof -
  have "intent_from_canonical_bytes bs = Inr i
      \<longleftrightarrow> intent_valid i \<and> bs = bytes_wire (ascii EFFECT_INTENT_SCHEMA) @ intent_wire i"
    unfolding intent_from_canonical_bytes_def
    by (rule prefixed_exact [OF intentc.canonical_codec_axioms]) (simp_all add: bounded_field_Inr intent_valid_def)
  moreover have "intent_valid i \<Longrightarrow>
      intent_to_canonical_bytes i = bytes_wire (ascii EFFECT_INTENT_SCHEMA) @ intent_wire i"
    by (simp add: intent_to_canonical_bytes_def textc.enc_wire intentc.enc_wire encoder_new_def)
      (simp add: enc_finish_def enc_emit_def)
  ultimately show ?thesis by auto
qed

lemma prepared_preimage:
  "prepared_valid p \<Longrightarrow> prepared_to_canonical_bytes p = bytes_wire (ascii PREPARED_EFFECT_SCHEMA) @ prepared_wire p"
  by (simp add: prepared_to_canonical_bytes_def textc.enc_wire preparedc.enc_wire encoder_new_def)
    (simp add: enc_finish_def enc_emit_def)

lemma prepared_from_canonical_bytes_exact:
  "prepared_from_canonical_bytes bs = Inr p \<longleftrightarrow> prepared_valid p \<and> bs = prepared_to_canonical_bytes p"
proof -
  have "prepared_from_canonical_bytes bs = Inr p
      \<longleftrightarrow> prepared_valid p \<and> bs = bytes_wire (ascii PREPARED_EFFECT_SCHEMA) @ prepared_wire p"
    unfolding prepared_from_canonical_bytes_def
    by (rule prefixed_exact [OF preparedc.canonical_codec_axioms]) (simp_all add: bounded_field_Inr prepared_valid_def)
  then show ?thesis by (auto simp: prepared_preimage)
qed

text \<open>C11: a journal transition record is decoded from exactly its own canonical bytes. The decoder
  accepts a byte string as the record \<open>t\<close> if and only if \<open>t\<close>'s fields are well formed and the string is
  what the encoder emits for \<open>t\<close>, for each of the six record kinds; so a durable record has one
  reading, and decoding what was encoded gives it back.
\<close>

theorem transition_record_exact:
  "from_canonical_bytes dec_transition bs = Inr t \<longleftrightarrow>
     transition_valid t \<and> try_canonical_bytes enc_transition t = Inr bs"
  by (rule transitionc.from_canonical_bytes_iff_encoding)

text \<open>The public decoding of an operation receipt returns only current receipts, each from exactly
  its own bytes, and refuses the bytes of a legacy receipt with the error that says a journal is
  required: stripping the version prefix and the reason off a receipt cannot relabel it as legacy.
\<close>

theorem receipt_decoding_sealed:
  "(from_canonical_bytes dec_receipt bs = Inr r \<longleftrightarrow>
      (rc_version r = V3 \<and> receipt_fields_valid r) \<and> try_canonical_bytes enc_receipt r = Inr bs)
   \<and> (receipt_fields_valid r \<and> rc_version r = V1 \<longrightarrow>
        from_canonical_bytes dec_receipt (canonical_bytes enc_receipt r) = Inl LegacyReceiptRequiresJournal)"
proof (intro conjI impI)
  show "from_canonical_bytes dec_receipt bs = Inr r \<longleftrightarrow>
      (rc_version r = V3 \<and> receipt_fields_valid r) \<and> try_canonical_bytes enc_receipt r = Inr bs"
    by (rule receiptc.from_canonical_bytes_iff_encoding)
next
  assume r: "receipt_fields_valid r \<and> rc_version r = V1"
  let ?op = "ei_operation_id (rc_intent r)"
  have op: "?op \<noteq> []" "length ?op \<le> 128"
    using r by (auto simp: receipt_fields_valid_def intent_valid_def id_valid_def MAX_STABLE_ID_LEN_def)
  have "canonical_bytes enc_receipt r = receipt_common_wire r"
    using r by (simp add: canonical_bytes_def enc_receipt_wire encoder_new_def enc_finish_def enc_emit_def receipt_wire_def)
  then obtain tl where "canonical_bytes enc_receipt r = u64_wire (length ?op) @ tl"
    by (auto simp: receipt_common_wire_def intent_wire_def bytes_wire_def)
  moreover have "u64_valid (length ?op)" using op by (simp add: u64_valid_def u64_max_def)
  ultimately have "dec_u64 (decoder_new (canonical_bytes enc_receipt r))
      = (Inr (length ?op), dec_advance 8 (decoder_new (canonical_bytes enc_receipt r)))"
    by (simp add: u64c.dec_wire)
  then show "from_canonical_bytes dec_receipt (canonical_bytes enc_receipt r) = Inl LegacyReceiptRequiresJournal"
    using op by (simp add: from_canonical_bytes_def dec_receipt_def)
qed

definition sample_digest :: content_digest where
  "sample_digest = digest_new Sha256 (replicate 32 7)"

definition sample_intent :: effect_intent where
  "sample_intent = \<lparr>ei_operation_id = ascii ''op-1'', ei_idempotency_key = ascii ''idem-1'',
     ei_effect_class = ascii ''alert.notify'', ei_request_digest = sample_digest, ei_precondition_digest = sample_digest\<rparr>"

definition sample_receipt :: "effect_record_version \<Rightarrow> operation_receipt" where
  "sample_receipt v = \<lparr>rc_intent = sample_intent, rc_state = Prepared, rc_authority = system_default, rc_prepared_at = 5,
     rc_committed_at = None, rc_updated_at = 5, rc_result_digest = None, rc_error_code = None,
     rc_indeterminate_reason = None, rc_version = v\<rparr>"

lemma sample_intent_valid: "intent_valid sample_intent"
proof -
  have "text_valid (ascii ''alert.notify'')" by (rule text_valid_ascii) simp_all
  then show ?thesis
    by (simp add: sample_intent_def intent_valid_def sample_digest_def digest_valid_new id_valid_def ascii_def id_byte_def
        MAX_STABLE_ID_LEN_def MAX_EFFECT_CLASS_LEN_def)
qed

lemma sample_receipt_valid: "receipt_fields_valid (sample_receipt v)"
proof -
  have "text_valid (ascii ''system:operator'')" "text_valid (ascii ''effect:execute'')"
    by (rule text_valid_ascii; simp)+
  then have "authority_valid system_default" by (simp add: authority_valid_def system_default_def ascii_def)
  then show ?thesis by (simp add: receipt_fields_valid_def sample_receipt_def sample_intent_valid i128_valid_def)
qed

theorem receipt_decoding_sealed_witness:
  "from_canonical_bytes dec_receipt (canonical_bytes enc_receipt (sample_receipt V1)) = Inl LegacyReceiptRequiresJournal
   \<and> from_canonical_bytes dec_receipt (receipt_wire (sample_receipt V3)) = Inr (sample_receipt V3)"
proof
  show "from_canonical_bytes dec_receipt (canonical_bytes enc_receipt (sample_receipt V1)) = Inl LegacyReceiptRequiresJournal"
    using receipt_decoding_sealed [of "[]" "sample_receipt V1"] sample_receipt_valid by (simp add: sample_receipt_def)
  have "try_canonical_bytes enc_receipt (sample_receipt V3) = Inr (receipt_wire (sample_receipt V3))"
    by (rule receiptc.try_canonical_bytes_valid) (simp add: sample_receipt_valid, simp add: sample_receipt_def)
  then show "from_canonical_bytes dec_receipt (receipt_wire (sample_receipt V3)) = Inr (sample_receipt V3)"
    using receipt_decoding_sealed [of "receipt_wire (sample_receipt V3)" "sample_receipt V3"] sample_receipt_valid
    by (simp add: sample_receipt_def)
qed

end
