(* ===== verification/Ordered_Map.thy ===== *)
theory Ordered_Map
  imports FSS_Prelude "HOL-Library.List_Lexorder"
begin

text \<open>
  \<open>std::collections::BTreeMap\<close> as the sources use it: an association list in ascending key order, so
  that iteration in key order is the list itself. \<open>bt_get\<close> is \<open>get\<close>, \<open>bt_insert\<close> is \<open>insert\<close> (and the
  write through \<open>get_mut\<close>), \<open>bt_update_values\<close> is a loop over \<open>values_mut\<close>. Keys that are strings are
  ordered by their bytes.
\<close>

type_synonym ('k, 'v) btree = "('k \<times> 'v) list"

definition bt_get :: "('k, 'v) btree \<Rightarrow> 'k \<Rightarrow> 'v option" where
  "bt_get m k = map_of m k"

definition bt_contains :: "('k, 'v) btree \<Rightarrow> 'k \<Rightarrow> bool" where
  "bt_contains m k \<longleftrightarrow> bt_get m k \<noteq> None"

fun bt_insert :: "'k :: linorder \<Rightarrow> 'v \<Rightarrow> ('k, 'v) btree \<Rightarrow> ('k, 'v) btree" where
  "bt_insert k v [] = [(k, v)]"
| "bt_insert k v ((k', v') # m) =
     (if k < k' then (k, v) # (k', v') # m
      else if k = k' then (k, v) # m
      else (k', v') # bt_insert k v m)"

definition bt_values :: "('k, 'v) btree \<Rightarrow> 'v list" where
  "bt_values m = map snd m"

definition bt_update_values :: "('v \<Rightarrow> 'v) \<Rightarrow> ('k, 'v) btree \<Rightarrow> ('k, 'v) btree" where
  "bt_update_values f m = map (\<lambda>(k, v). (k, f v)) m"

definition bt_ok :: "('k :: linorder, 'v) btree \<Rightarrow> bool" where
  "bt_ok m \<longleftrightarrow> sorted_wrt (<) (map fst m)"

lemma bt_get_empty [simp]: "bt_get [] k = None"
  by (simp add: bt_get_def)

lemma bt_get_insert [simp]: "bt_get (bt_insert k v m) k' = (if k' = k then Some v else bt_get m k')"
  by (induction k v m rule: bt_insert.induct) (auto simp: bt_get_def)

lemma bt_ok_empty [simp]: "bt_ok []"
  by (simp add: bt_ok_def)

lemma fst_set_bt_insert: "fst ` set (bt_insert k v m) = insert k (fst ` set m)"
  by (induction m rule: bt_insert.induct) auto

lemma bt_ok_insert [simp]: "bt_ok m \<Longrightarrow> bt_ok (bt_insert k v m)"
proof (induction k v m rule: bt_insert.induct)
  case (2 k v k' v' m)
  then show ?case using fst_set_bt_insert [of k v m] by (auto simp: bt_ok_def)
qed (simp add: bt_ok_def)

lemma bt_get_update_values [simp]: "bt_get (bt_update_values f m) k = map_option f (bt_get m k)"
  by (induction m) (auto simp: bt_get_def bt_update_values_def)

lemma bt_ok_update_values [simp]: "bt_ok (bt_update_values f m) \<longleftrightarrow> bt_ok m"
proof -
  have "map fst (bt_update_values f m) = map fst m" by (simp add: bt_update_values_def case_prod_beta comp_def)
  then show ?thesis by (simp add: bt_ok_def)
qed

lemma bt_values_iff: "bt_ok m \<Longrightarrow> v \<in> set (bt_values m) \<longleftrightarrow> (\<exists>k. bt_get m k = Some v)"
proof -
  assume "bt_ok m"
  then have "distinct (map fst m)" by (simp add: bt_ok_def strict_sorted_iff)
  then show ?thesis by (force simp: bt_values_def bt_get_def)
qed

text \<open>Searching the values: an entry is found exactly when one exists, and it is an entry.\<close>

lemma find_values_Some:
  "bt_ok m \<Longrightarrow> List.find P (bt_values m) = Some v \<Longrightarrow> P v \<and> (\<exists>k. bt_get m k = Some v)"
  using bt_values_iff [of m v] by (metis find_Some_iff nth_mem)

lemma find_values_None:
  "bt_ok m \<Longrightarrow> List.find P (bt_values m) = None \<longleftrightarrow> (\<forall>k v. bt_get m k = Some v \<longrightarrow> \<not> P v)"
  by (auto simp: find_None_iff bt_values_iff)

lemma find_values_unique:
  assumes "bt_ok m" and "bt_get m k = Some v" and "P v"
    and "\<And>k' v'. bt_get m k' = Some v' \<Longrightarrow> P v' \<Longrightarrow> v' = v"
  shows "List.find P (bt_values m) = Some v"
proof (cases "List.find P (bt_values m)")
  case None
  then show ?thesis using assms(2,3) find_values_None [OF assms(1)] by blast
next
  case (Some w)
  then show ?thesis using find_values_Some [OF assms(1) Some] assms(4) by auto
qed

end
