(* ===== verification/Effect_Journal.thy ===== *)
theory Effect_Journal
  imports Effect_Records Ordered_Map
begin

text \<open>
  The effect journal, \<open>EffectJournal\<close> of \<open>crates/fss-core/src/effect.rs\<close>: idempotent preparation,
  lifecycle transitions under three generations of rules, proof-bound cancellation, reconciliation,
  the pre-validators the durable journal calls before it writes, and versioned replay.

  The reachable journals are those built by applying records whose versions never go backwards, which
  is what live operation (version 3) and durable replay do. They satisfy \<open>journal_inv\<close>: the three maps
  describe the same operations, every obligation agrees with its operation's receipt, a cancelled
  operation was never committed, and a version-3 cancellation carries the proof that binds the
  journal's own prepared record.
\<close>

section \<open>The journal\<close>

datatype transition_rules = Current "content_digest option" | UnboundCancellation | Legacy

definition rules_record_version :: "transition_rules \<Rightarrow> effect_record_version" where
  "rules_record_version r = (case r of Legacy \<Rightarrow> V1 | UnboundCancellation \<Rightarrow> V2 | Current _ \<Rightarrow> V3)"

definition valid_transition :: "effect_state \<Rightarrow> effect_state \<Rightarrow> bool" where
  "valid_transition current nxt = can_transition_to current nxt"

text \<open>The payload rules by target state, which version-1 history predates.\<close>

definition check_payload ::
  "effect_state \<Rightarrow> content_digest option \<Rightarrow> bytes option \<Rightarrow> transition_rules \<Rightarrow> contract_error + unit" where
  "check_payload nxt result_digest error_code rules =
     (case nxt of
        Prepared \<Rightarrow> Inl InvalidEffectTransition
      | Committed \<Rightarrow> refuse_if (result_digest \<noteq> None \<or> error_code \<noteq> None) InvalidEffectTransition
      | AdapterAccepted \<Rightarrow> refuse_if (error_code \<noteq> None) InvalidEffectTransition
      | Observed \<Rightarrow> refuse_if (error_code \<noteq> None) InvalidEffectTransition
      | Verified \<Rightarrow> refuse_if (error_code \<noteq> None) InvalidEffectTransition
      | Cancelled \<Rightarrow>
          if error_code = Some [] then Inl EvidenceRequired
          else
            (case rules of
               Current bound_proof \<Rightarrow>
                 try_then (ok_or bound_proof EvidenceRequired) (\<lambda>expected.
                   refuse_if (result_digest \<noteq> Some expected) InvalidDigest)
             | UnboundCancellation \<Rightarrow> Inr ()
             | Legacy \<Rightarrow> Inr ())
      | Failed \<Rightarrow> Inr ()
      | Indeterminate \<Rightarrow> refuse_if (error_code = None \<or> error_code = Some []) EvidenceRequired)"

definition check_transition ::
  "operation_receipt \<Rightarrow> effect_state \<Rightarrow> i128 \<Rightarrow> content_digest option \<Rightarrow> bytes option \<Rightarrow> transition_rules
     \<Rightarrow> contract_error + unit" where
  "check_transition receipt nxt now result_digest error_code rules =
     (if now \<le> rc_updated_at receipt then Inl InvertedTimeInterval
      else if \<not> valid_transition (rc_state receipt) nxt then
        Inl (if rc_state receipt = Indeterminate then ReconciliationRequired else InvalidEffectTransition)
      else if nxt \<in> {Observed, Verified, Cancelled} \<and> result_digest = None then Inl EvidenceRequired
      else
        try_then
          (if nxt = Verified then
             try_then (ok_or (rc_result_digest receipt) EvidenceRequired) (\<lambda>obs_digest.
               refuse_if (result_digest \<noteq> Some obs_digest) InvalidDigest)
           else Inr ()) (\<lambda>_.
        let names_a_reason = (error_code \<noteq> None \<and> error_code \<noteq> Some []) in
        if nxt = Failed \<and> (result_digest = None \<or> \<not> names_a_reason) then Inl EvidenceRequired
        else if rules = Legacy then Inr ()
        else check_payload nxt result_digest error_code rules))"

record effect_journal =
  ej_operations :: "(stable_id, operation_receipt) btree"
  ej_idempotency :: "(stable_id, stable_id) btree"
  ej_obligations :: "(stable_id, obligation) btree"
  ej_cancelled_under :: "(stable_id, effect_record_version) btree"

type_synonym journal_result = "(contract_error + operation_receipt) \<times> effect_journal"

definition journal_new :: effect_journal where
  "journal_new = \<lparr>ej_operations = [], ej_idempotency = [], ej_obligations = [], ej_cancelled_under = []\<rparr>"

definition operation :: "effect_journal \<Rightarrow> stable_id \<Rightarrow> operation_receipt option" where
  "operation j operation_id = bt_get (ej_operations j) operation_id"

definition validate_prepare ::
  "effect_journal \<Rightarrow> effect_intent \<Rightarrow> stable_id \<Rightarrow> contract_error + operation_receipt option" where
  "validate_prepare j intent obligation_id =
     (case bt_get (ej_idempotency j) (ei_idempotency_key intent) of
        Some existing_id \<Rightarrow>
          try_then (ok_or (bt_get (ej_operations j) existing_id) NotFound) (\<lambda>existing.
            if rc_intent existing = intent then Inr (Some existing) else Inl IdempotencyConflict)
      | None \<Rightarrow>
          if bt_contains (ej_operations j) (ei_operation_id intent) then Inl IdempotencyConflict
          else if bt_contains (ej_obligations j) obligation_id then Inl ObligationConflict
          else Inr None)"

definition validate_prepare_with_authority ::
  "effect_journal \<Rightarrow> effect_intent \<Rightarrow> stable_id \<Rightarrow> bytes \<Rightarrow> effect_authority
     \<Rightarrow> contract_error + operation_receipt option" where
  "validate_prepare_with_authority j intent obligation_id terminal_predicate authority =
     (if ei_effect_class intent = [] \<or> length (ei_effect_class intent) > MAX_EFFECT_CLASS_LEN
         \<or> terminal_predicate = [] \<or> length terminal_predicate > MAX_TERMINAL_PREDICATE_LEN
         \<or> ea_principal authority = [] \<or> ea_capability authority = []
      then Inl InvalidIdentifier
      else
        try_then (validate_prepare j intent obligation_id) (\<lambda>found.
        case found of
          None \<Rightarrow> Inr None
        | Some existing \<Rightarrow>
            if rc_authority existing \<noteq> authority then Inl IdempotencyConflict
            else
              try_then (ok_or (bt_get (ej_obligations j) obligation_id) ObligationConflict) (\<lambda>ob.
              if ob_operation_id ob \<noteq> ei_operation_id intent \<or> ob_terminal_predicate ob \<noteq> terminal_predicate
              then Inl ObligationConflict
              else Inr (Some existing))))"

definition prepare_versioned ::
  "effect_intent \<Rightarrow> stable_id \<Rightarrow> bytes \<Rightarrow> effect_authority \<Rightarrow> i128 \<Rightarrow> effect_record_version
     \<Rightarrow> effect_journal \<Rightarrow> journal_result" where
  "prepare_versioned intent obligation_id terminal_predicate authority now version j =
     (case bt_get (ej_idempotency j) (ei_idempotency_key intent) of
        Some existing_id \<Rightarrow>
          (case bt_get (ej_operations j) existing_id of
             None \<Rightarrow> (Inl NotFound, j)
           | Some existing \<Rightarrow>
               if rc_intent existing = intent then (Inr existing, j) else (Inl IdempotencyConflict, j))
      | None \<Rightarrow>
          if bt_contains (ej_operations j) (ei_operation_id intent) then (Inl IdempotencyConflict, j)
          else if bt_contains (ej_obligations j) obligation_id then (Inl ObligationConflict, j)
          else
            let operation_id = ei_operation_id intent;
                j' = j\<lparr>
                  ej_operations := bt_insert operation_id
                    \<lparr>rc_intent = intent, rc_state = Prepared, rc_authority = authority, rc_prepared_at = now,
                     rc_committed_at = None, rc_updated_at = now, rc_result_digest = None, rc_error_code = None,
                     rc_indeterminate_reason = None, rc_version = version\<rparr> (ej_operations j),
                  ej_idempotency := bt_insert (ei_idempotency_key intent) operation_id (ej_idempotency j),
                  ej_obligations := bt_insert obligation_id
                    \<lparr>ob_obligation_id = obligation_id, ob_operation_id = operation_id,
                     ob_terminal_predicate = terminal_predicate, ob_state = obligation_state.Pending,
                     ob_proof_digest = None\<rparr> (ej_obligations j)\<rparr>
            in (ok_or (bt_get (ej_operations j') operation_id) NotFound, j'))"

definition prepare_with_authority ::
  "effect_intent \<Rightarrow> stable_id \<Rightarrow> bytes \<Rightarrow> effect_authority \<Rightarrow> i128 \<Rightarrow> effect_journal \<Rightarrow> journal_result" where
  "prepare_with_authority intent obligation_id terminal_predicate authority now j =
     (case validate_prepare_with_authority j intent obligation_id terminal_predicate authority of
        Inl err \<Rightarrow> (Inl err, j)
      | Inr _ \<Rightarrow> prepare_versioned intent obligation_id terminal_predicate authority now V3 j)"

definition prepare :: "effect_intent \<Rightarrow> stable_id \<Rightarrow> bytes \<Rightarrow> i128 \<Rightarrow> effect_journal \<Rightarrow> journal_result" where
  "prepare intent obligation_id terminal_predicate now j =
     prepare_versioned intent obligation_id terminal_predicate system_default now V3 j"

definition prepare_effect :: "prepared_effect \<Rightarrow> effect_authority \<Rightarrow> effect_journal \<Rightarrow> journal_result" where
  "prepare_effect prepared authority j =
     prepare_with_authority (pe_intent prepared) (pe_obligation_id prepared) (pe_terminal_predicate prepared)
       authority (pe_prepared_at prepared) j"

text \<open>The receipt a checked transition leaves, and the obligation it leaves.\<close>

definition advance_receipt ::
  "effect_state \<Rightarrow> i128 \<Rightarrow> content_digest option \<Rightarrow> bytes option \<Rightarrow> operation_receipt \<Rightarrow> operation_receipt" where
  "advance_receipt nxt now result_digest error_code r =
     r\<lparr>rc_committed_at :=
         (if nxt = Committed \<and> rc_committed_at r = None then Some now else rc_committed_at r),
       rc_state := nxt,
       rc_updated_at := now,
       rc_result_digest := (if result_digest \<noteq> None then result_digest else rc_result_digest r),
       rc_indeterminate_reason :=
         (if nxt = Indeterminate
          then Some (case error_code of
                       Some reason \<Rightarrow> if reason \<noteq> [] then Recorded reason else Unrecorded
                     | None \<Rightarrow> Unrecorded)
          else rc_indeterminate_reason r),
       rc_error_code := (if error_code \<noteq> None then error_code else rc_error_code r)\<rparr>"

definition obligation_target :: "effect_state \<Rightarrow> obligation_state option" where
  "obligation_target nxt =
     (case nxt of
        Verified \<Rightarrow> Some obligation_state.Verified
      | Cancelled \<Rightarrow> Some obligation_state.Cancelled
      | Failed \<Rightarrow> Some obligation_state.Failed
      | Indeterminate \<Rightarrow> Some obligation_state.Indeterminate
      | _ \<Rightarrow> None)"

definition advance_obligation ::
  "stable_id \<Rightarrow> obligation_state \<Rightarrow> content_digest option \<Rightarrow> obligation \<Rightarrow> obligation" where
  "advance_obligation operation_id state result_digest ob =
     (if ob_operation_id ob \<noteq> operation_id then ob
      else ob\<lparr>ob_state := state,
              ob_proof_digest :=
                (if state \<in> {obligation_state.Verified, obligation_state.Failed, obligation_state.Cancelled}
                 then result_digest else ob_proof_digest ob)\<rparr>)"

definition transition_under ::
  "stable_id \<Rightarrow> effect_state \<Rightarrow> i128 \<Rightarrow> content_digest option \<Rightarrow> bytes option \<Rightarrow> transition_rules
     \<Rightarrow> effect_journal \<Rightarrow> journal_result" where
  "transition_under operation_id nxt now result_digest error_code rules j =
     (case bt_get (ej_operations j) operation_id of
        None \<Rightarrow> (Inl NotFound, j)
      | Some receipt \<Rightarrow>
          (case check_transition receipt nxt now result_digest error_code rules of
             Inl err \<Rightarrow> (Inl err, j)
           | Inr _ \<Rightarrow>
               let j1 = j\<lparr>ej_operations := bt_insert operation_id
                             (advance_receipt nxt now result_digest error_code receipt) (ej_operations j)\<rparr>;
                   j2 = (if nxt = Cancelled
                         then j1\<lparr>ej_cancelled_under :=
                                bt_insert operation_id (rules_record_version rules) (ej_cancelled_under j1)\<rparr>
                         else j1);
                   j3 = (case obligation_target nxt of
                           None \<Rightarrow> j2
                         | Some state \<Rightarrow> j2\<lparr>ej_obligations :=
                             bt_update_values (advance_obligation operation_id state result_digest) (ej_obligations j2)\<rparr>)
               in (ok_or (bt_get (ej_operations j3) operation_id) NotFound, j3)))"

definition transition ::
  "stable_id \<Rightarrow> effect_state \<Rightarrow> i128 \<Rightarrow> content_digest option \<Rightarrow> bytes option \<Rightarrow> effect_journal \<Rightarrow> journal_result" where
  "transition operation_id nxt now result_digest error_code j =
     transition_under operation_id nxt now result_digest error_code (Current None) j"

definition cancellation_record_version :: "effect_journal \<Rightarrow> stable_id \<Rightarrow> effect_record_version option" where
  "cancellation_record_version j operation_id = bt_get (ej_cancelled_under j) operation_id"

definition prepared_record :: "effect_journal \<Rightarrow> stable_id \<Rightarrow> contract_error + prepared_effect" where
  "prepared_record j operation_id =
     try_then (ok_or (bt_get (ej_operations j) operation_id) NotFound) (\<lambda>receipt.
     try_then (ok_or (List.find (\<lambda>ob. ob_operation_id ob = operation_id) (bt_values (ej_obligations j))) NotFound) (\<lambda>ob.
     Inr \<lparr>pe_intent = rc_intent receipt, pe_obligation_id = ob_obligation_id ob,
           pe_terminal_predicate = ob_terminal_predicate ob, pe_prepared_at = rc_prepared_at receipt\<rparr>))"

definition cancellation_proof :: "effect_journal \<Rightarrow> stable_id \<Rightarrow> content_digest \<Rightarrow> contract_error + content_digest" where
  "cancellation_proof j operation_id cancel_request_evidence =
     try_then (prepared_record j operation_id) (\<lambda>prepared.
       Inr (proof_digest (for_prepared prepared cancel_request_evidence)))"

definition cancel_under ::
  "stable_id \<Rightarrow> i128 \<Rightarrow> content_digest \<Rightarrow> content_digest \<Rightarrow> bytes option \<Rightarrow> effect_journal \<Rightarrow> journal_result" where
  "cancel_under operation_id now cancel_request_evidence claimed_proof reason j =
     (case cancellation_proof j operation_id cancel_request_evidence of
        Inl err \<Rightarrow> (Inl err, j)
      | Inr expected \<Rightarrow>
          transition_under operation_id Cancelled now (Some claimed_proof) reason (Current (Some expected)) j)"

definition cancel :: "stable_id \<Rightarrow> i128 \<Rightarrow> content_digest \<Rightarrow> bytes option \<Rightarrow> effect_journal \<Rightarrow> journal_result" where
  "cancel operation_id now cancel_request_evidence reason j =
     (case cancellation_proof j operation_id cancel_request_evidence of
        Inl err \<Rightarrow> (Inl err, j)
      | Inr proof \<Rightarrow> cancel_under operation_id now cancel_request_evidence proof reason j)"

definition validate_cancel ::
  "effect_journal \<Rightarrow> stable_id \<Rightarrow> i128 \<Rightarrow> content_digest \<Rightarrow> bytes option \<Rightarrow> contract_error + content_digest" where
  "validate_cancel j operation_id now cancel_request_evidence reason =
     try_then (ok_or (bt_get (ej_operations j) operation_id) NotFound) (\<lambda>receipt.
     try_then (cancellation_proof j operation_id cancel_request_evidence) (\<lambda>proof.
     try_then (check_transition receipt Cancelled now (Some proof) reason (Current (Some proof))) (\<lambda>_.
     Inr proof)))"

definition mark_indeterminate :: "stable_id \<Rightarrow> i128 \<Rightarrow> bytes \<Rightarrow> effect_journal \<Rightarrow> journal_result" where
  "mark_indeterminate operation_id now reason j =
     (if reason = [] then (Inl EvidenceRequired, j)
      else transition operation_id Indeterminate now None (Some reason) j)"

definition validate_transition ::
  "effect_journal \<Rightarrow> stable_id \<Rightarrow> effect_state \<Rightarrow> i128 \<Rightarrow> content_digest option \<Rightarrow> bytes option
     \<Rightarrow> contract_error + operation_receipt" where
  "validate_transition j operation_id nxt now result_digest error_code =
     try_then (ok_or (bt_get (ej_operations j) operation_id) NotFound) (\<lambda>receipt.
     try_then (check_transition receipt nxt now result_digest error_code (Current None)) (\<lambda>_. Inr receipt))"

definition validate_reconcile_verified ::
  "effect_journal \<Rightarrow> stable_id \<Rightarrow> content_digest \<Rightarrow> i128 \<Rightarrow> contract_error + operation_receipt option" where
  "validate_reconcile_verified j operation_id proof now =
     try_then (ok_or (bt_get (ej_operations j) operation_id) NotFound) (\<lambda>current.
     if rc_state current = Verified then
       (if rc_result_digest current = Some proof then Inr (Some current) else Inl IdempotencyConflict)
     else if now \<le> rc_updated_at current then Inl InvertedTimeInterval
     else if rc_state current \<noteq> Observed then Inl InvalidEffectTransition
     else
       try_then (ok_or (rc_result_digest current) EvidenceRequired) (\<lambda>obs_digest.
       if proof \<noteq> obs_digest then Inl InvalidDigest else Inr None))"

definition validate_reconcile_failed ::
  "effect_journal \<Rightarrow> stable_id \<Rightarrow> content_digest \<Rightarrow> i128 \<Rightarrow> bytes \<Rightarrow> contract_error + operation_receipt option" where
  "validate_reconcile_failed j operation_id proof now reason =
     try_then (ok_or (bt_get (ej_operations j) operation_id) NotFound) (\<lambda>current.
     if rc_state current = Failed then
       (if rc_result_digest current = Some proof \<and> rc_error_code current = Some reason
        then Inr (Some current) else Inl IdempotencyConflict)
     else if now \<le> rc_updated_at current then Inl InvertedTimeInterval
     else if rc_state current \<noteq> Indeterminate \<and> rc_state current \<noteq> Committed \<and> rc_state current \<noteq> AdapterAccepted
     then Inl InvalidEffectTransition
     else Inr None)"

text \<open>The write that both reconciliations make once their checks have passed.\<close>

definition settle ::
  "stable_id \<Rightarrow> (operation_receipt \<Rightarrow> operation_receipt) \<Rightarrow> obligation_state \<Rightarrow> content_digest
     \<Rightarrow> operation_receipt \<Rightarrow> effect_journal \<Rightarrow> journal_result" where
  "settle operation_id upd state proof receipt j =
     (let j' = j\<lparr>ej_operations := bt_insert operation_id (upd receipt) (ej_operations j),
                ej_obligations := bt_update_values (\<lambda>ob.
                  if ob_operation_id ob = operation_id
                  then ob\<lparr>ob_state := state, ob_proof_digest := Some proof\<rparr> else ob) (ej_obligations j)\<rparr>
      in (ok_or (bt_get (ej_operations j') operation_id) NotFound, j'))"

definition reconcile_verified :: "stable_id \<Rightarrow> content_digest \<Rightarrow> i128 \<Rightarrow> effect_journal \<Rightarrow> journal_result" where
  "reconcile_verified operation_id proof now j =
     (case bt_get (ej_operations j) operation_id of
        None \<Rightarrow> (Inl NotFound, j)
      | Some current \<Rightarrow>
          if rc_state current = Verified then
            (if rc_result_digest current = Some proof then (Inr current, j) else (Inl IdempotencyConflict, j))
          else if now \<le> rc_updated_at current then (Inl InvertedTimeInterval, j)
          else if rc_state current \<noteq> Observed then (Inl InvalidEffectTransition, j)
          else
            (case rc_result_digest current of
               None \<Rightarrow> (Inl EvidenceRequired, j)
             | Some obs_digest \<Rightarrow>
                 if proof \<noteq> obs_digest then (Inl InvalidDigest, j)
                 else settle operation_id
                        (\<lambda>r. r\<lparr>rc_state := Verified, rc_updated_at := now, rc_result_digest := Some proof\<rparr>)
                        obligation_state.Verified proof current j))"

definition reconcile_failed :: "stable_id \<Rightarrow> content_digest \<Rightarrow> i128 \<Rightarrow> bytes \<Rightarrow> effect_journal \<Rightarrow> journal_result" where
  "reconcile_failed operation_id proof now reason j =
     (if reason = [] then (Inl EvidenceRequired, j)
      else
        (case bt_get (ej_operations j) operation_id of
           None \<Rightarrow> (Inl NotFound, j)
         | Some current \<Rightarrow>
             if rc_state current = Failed then
               (if rc_result_digest current = Some proof \<and> rc_error_code current = Some reason
                then (Inr current, j) else (Inl IdempotencyConflict, j))
             else if now \<le> rc_updated_at current then (Inl InvertedTimeInterval, j)
             else if \<not> can_transition_to (rc_state current) Failed then (Inl InvalidEffectTransition, j)
             else settle operation_id
                    (\<lambda>r. r\<lparr>rc_state := Failed, rc_updated_at := now, rc_result_digest := Some proof,
                          rc_error_code := Some reason\<rparr>)
                    obligation_state.Failed proof current j))"

section \<open>Replay\<close>

definition apply_versioned ::
  "effect_record_version \<Rightarrow> effect_journal_transition \<Rightarrow> effect_journal \<Rightarrow> journal_result" where
  "apply_versioned version t j =
     (let rules = (case version of V1 \<Rightarrow> Legacy | V2 \<Rightarrow> UnboundCancellation | V3 \<Rightarrow> Current None) in
      case t of
        Prepare intent obligation_id terminal_predicate now \<Rightarrow>
          prepare_versioned intent obligation_id terminal_predicate system_default now version j
      | PrepareWithAuthority intent obligation_id terminal_predicate authority now \<Rightarrow>
          if version < V3 then (Inl InvalidEffectTransition, j)
          else prepare_with_authority intent obligation_id terminal_predicate authority now j
      | Transition operation_id nxt now result_digest error_code \<Rightarrow>
          transition_under operation_id nxt now result_digest error_code rules j
      | ReconcileVerified operation_id proof now \<Rightarrow> reconcile_verified operation_id proof now j
      | ReconcileFailed operation_id proof now reason \<Rightarrow> reconcile_failed operation_id proof now reason j
      | Cancel operation_id now cancel_request_evidence proof reason \<Rightarrow>
          if version < V3 then (Inl InvalidEffectTransition, j)
          else cancel_under operation_id now cancel_request_evidence proof reason j)"

definition apply_transition :: "effect_journal_transition \<Rightarrow> effect_journal \<Rightarrow> journal_result" where
  "apply_transition t j =
     (case t of
        Prepare intent obligation_id terminal_predicate now \<Rightarrow> prepare intent obligation_id terminal_predicate now j
      | PrepareWithAuthority intent obligation_id terminal_predicate authority now \<Rightarrow>
          prepare_with_authority intent obligation_id terminal_predicate authority now j
      | Transition operation_id nxt now result_digest error_code \<Rightarrow>
          transition operation_id nxt now result_digest error_code j
      | ReconcileVerified operation_id proof now \<Rightarrow> reconcile_verified operation_id proof now j
      | ReconcileFailed operation_id proof now reason \<Rightarrow> reconcile_failed operation_id proof now reason j
      | Cancel operation_id now cancel_request_evidence proof reason \<Rightarrow>
          cancel_under operation_id now cancel_request_evidence proof reason j)"

fun replay_loop ::
  "effect_record_version \<Rightarrow> (effect_record_version \<times> effect_journal_transition) list \<Rightarrow> effect_journal
     \<Rightarrow> contract_error + effect_journal" where
  "replay_loop newest [] j = Inr j"
| "replay_loop newest ((version, t) # records) j =
     (if version < newest then Inl InvalidEffectTransition
      else
        (case apply_versioned version t j of
           (Inl err, _) \<Rightarrow> Inl err
         | (Inr _, j') \<Rightarrow> replay_loop version records j'))"

definition replay_versioned ::
  "(effect_record_version \<times> effect_journal_transition) list \<Rightarrow> contract_error + effect_journal" where
  "replay_versioned records = replay_loop V1 records journal_new"

definition replay_durable ::
  "(effect_record_version \<times> effect_journal_transition) list \<Rightarrow> contract_error + effect_journal" where
  "replay_durable records = replay_versioned records"

definition replay :: "effect_journal_transition list \<Rightarrow> contract_error + effect_journal" where
  "replay ts = replay_versioned (map (\<lambda>t. (V3, t)) ts)"

text \<open>The journal root: every receipt and obligation in identity order under one digest.\<close>

definition root_obligation :: "obligation \<Rightarrow> canonical_encoder \<Rightarrow> canonical_encoder" where
  "root_obligation ob e =
     enc_option enc_digest (ob_proof_digest ob)
       (enc_u8 (case ob_state ob of obligation_state.Pending \<Rightarrow> 1 | obligation_state.Verified \<Rightarrow> 2
                | obligation_state.Failed \<Rightarrow> 3 | obligation_state.Indeterminate \<Rightarrow> 4 | obligation_state.Cancelled \<Rightarrow> 5)
       (enc_text (ob_terminal_predicate ob) (enc_id (ob_operation_id ob) (enc_id (ob_obligation_id ob) e))))"

definition journal_root :: "effect_journal \<Rightarrow> content_digest" where
  "journal_root j =
     (let e = enc_text (ascii ''fss.effect_journal.v1'') encoder_new;
          e = enc_u64 (length (ej_operations j)) e;
          e = fold enc_receipt (bt_values (ej_operations j)) e;
          e = enc_u64 (length (ej_obligations j)) e;
          e = fold root_obligation (bt_values (ej_obligations j)) e
      in digest_sha256 (enc_finish e))"

section \<open>What the journal maintains\<close>

definition receipt_ok :: "operation_receipt \<Rightarrow> bool" where
  "receipt_ok r \<longleftrightarrow>
     rc_prepared_at r \<le> rc_updated_at r
     \<and> (\<forall>c. rc_committed_at r = Some c \<longrightarrow> rc_prepared_at r < c \<and> c \<le> rc_updated_at r)
     \<and> (rc_state r \<in> {Prepared, Cancelled} \<longrightarrow> rc_committed_at r = None)
     \<and> (rc_state r \<in> {Committed, AdapterAccepted, Observed, Verified, Indeterminate} \<longrightarrow> rc_committed_at r \<noteq> None)
     \<and> (rc_state r \<in> {Observed, Verified, Cancelled, Failed} \<longrightarrow> rc_result_digest r \<noteq> None)
     \<and> (rc_state r = Failed \<longrightarrow> rc_error_code r \<noteq> None \<and> rc_error_code r \<noteq> Some [])
     \<and> (rc_state r \<in> {Prepared, Committed, AdapterAccepted, Cancelled} \<longrightarrow> rc_indeterminate_reason r = None)
     \<and> (rc_state r = Indeterminate \<longrightarrow> rc_indeterminate_reason r \<noteq> None)
     \<and> (rc_indeterminate_reason r = Some Unrecorded \<longrightarrow> rc_version r = V1)"

definition obligation_agrees :: "operation_receipt \<Rightarrow> obligation \<Rightarrow> bool" where
  "obligation_agrees r ob \<longleftrightarrow>
     ob_state ob =
       (case rc_state r of
          Verified \<Rightarrow> obligation_state.Verified
        | Cancelled \<Rightarrow> obligation_state.Cancelled
        | Failed \<Rightarrow> obligation_state.Failed
        | _ \<Rightarrow> if rc_indeterminate_reason r \<noteq> None then obligation_state.Indeterminate else obligation_state.Pending)
     \<and> ob_proof_digest ob = (if is_terminal (rc_state r) then rc_result_digest r else None)"

definition journal_inv :: "effect_record_version \<Rightarrow> effect_journal \<Rightarrow> bool" where
  "journal_inv v j \<longleftrightarrow>
     bt_ok (ej_operations j) \<and> bt_ok (ej_idempotency j) \<and> bt_ok (ej_obligations j) \<and> bt_ok (ej_cancelled_under j)
     \<and> (\<forall>op r. bt_get (ej_operations j) op = Some r \<longrightarrow>
          ei_operation_id (rc_intent r) = op \<and> receipt_ok r \<and> rc_version r \<le> v)
     \<and> (\<forall>k op. bt_get (ej_idempotency j) k = Some op \<longleftrightarrow>
          (\<exists>r. bt_get (ej_operations j) op = Some r \<and> ei_idempotency_key (rc_intent r) = k))
     \<and> (\<forall>i ob. bt_get (ej_obligations j) i = Some ob \<longrightarrow> ob_obligation_id ob = i
          \<and> (\<exists>r. bt_get (ej_operations j) (ob_operation_id ob) = Some r \<and> obligation_agrees r ob))
     \<and> (\<forall>op r. bt_get (ej_operations j) op = Some r \<longrightarrow>
          (\<exists>!i. \<exists>ob. bt_get (ej_obligations j) i = Some ob \<and> ob_operation_id ob = op))
     \<and> (\<forall>op. bt_get (ej_cancelled_under j) op \<noteq> None \<longleftrightarrow>
          (\<exists>r. bt_get (ej_operations j) op = Some r \<and> rc_state r = Cancelled))
     \<and> (\<forall>op w. bt_get (ej_cancelled_under j) op = Some w \<longrightarrow> w \<le> v)
     \<and> (\<forall>op r. bt_get (ej_operations j) op = Some r \<and> bt_get (ej_cancelled_under j) op = Some V3 \<longrightarrow>
          (\<exists>evidence proof. cancellation_proof j op evidence = Inr proof \<and> rc_result_digest r = Some proof))"

text \<open>What a passed check says about the transition, under any rules.\<close>

lemma check_transition_passed:
  assumes "check_transition r nxt now d c rules = Inr u"
  shows "rc_updated_at r < now" and "can_transition_to (rc_state r) nxt"
    and "nxt \<in> {Observed, Verified, Cancelled, Failed} \<Longrightarrow> d \<noteq> None"
    and "nxt = Verified \<Longrightarrow> d = rc_result_digest r"
    and "nxt = Failed \<Longrightarrow> c \<noteq> None \<and> c \<noteq> Some []"
    and "nxt = Indeterminate \<Longrightarrow> rules \<noteq> Legacy \<Longrightarrow> c \<noteq> None \<and> c \<noteq> Some []"
    and "nxt = Cancelled \<Longrightarrow> rules = Current b \<Longrightarrow> b \<noteq> None \<and> d = b"
  using assms
  by (auto simp: check_transition_def check_payload_def valid_transition_def if_Inl_Inr rust_simps Let_def not_le
      split: if_splits)

lemma can_transition_from_terminal: "is_terminal s \<Longrightarrow> \<not> can_transition_to s t"
  by (cases s; cases t) (simp_all add: is_terminal_def)

lemma advance_receipt_identity [simp]:
  "rc_intent (advance_receipt nxt now d c r) = rc_intent r"
  "rc_authority (advance_receipt nxt now d c r) = rc_authority r"
  "rc_prepared_at (advance_receipt nxt now d c r) = rc_prepared_at r"
  "rc_version (advance_receipt nxt now d c r) = rc_version r"
  "rc_state (advance_receipt nxt now d c r) = nxt"
  "rc_updated_at (advance_receipt nxt now d c r) = now"
  by (simp_all add: advance_receipt_def)

lemma advance_receipt_ok:
  assumes "receipt_ok r" and "check_transition r nxt now d c rules = Inr u"
    and "rules = Legacy \<Longrightarrow> rc_version r = V1"
  shows "receipt_ok (advance_receipt nxt now d c r)"
proof -
  note check = check_transition_passed [OF assms(2)]
  have "can_transition_to (rc_state r) nxt" by (rule check)
  then show ?thesis
    using assms(1,3) check(1,3-6)
    by (cases nxt; cases "rc_state r") (force simp: receipt_ok_def advance_receipt_def split: option.splits)+
qed

lemma journal_inv_ok:
  "journal_inv v j \<Longrightarrow> bt_ok (ej_operations j) \<and> bt_ok (ej_idempotency j) \<and> bt_ok (ej_obligations j)
     \<and> bt_ok (ej_cancelled_under j)"
  by (simp add: journal_inv_def)

lemma journal_inv_receipt:
  "journal_inv v j \<Longrightarrow> bt_get (ej_operations j) op = Some r \<Longrightarrow>
     ei_operation_id (rc_intent r) = op \<and> receipt_ok r \<and> rc_version r \<le> v"
  by (simp add: journal_inv_def)

lemma journal_inv_idempotency:
  "journal_inv v j \<Longrightarrow> bt_get (ej_idempotency j) k = Some op \<longleftrightarrow>
     (\<exists>r. bt_get (ej_operations j) op = Some r \<and> ei_idempotency_key (rc_intent r) = k)"
  by (simp add: journal_inv_def)

lemma journal_inv_obligation:
  "journal_inv v j \<Longrightarrow> bt_get (ej_obligations j) i = Some ob \<Longrightarrow> ob_obligation_id ob = i
     \<and> (\<exists>r. bt_get (ej_operations j) (ob_operation_id ob) = Some r \<and> obligation_agrees r ob)"
  by (simp add: journal_inv_def)

lemma journal_inv_one_obligation:
  "journal_inv v j \<Longrightarrow> bt_get (ej_operations j) op = Some r \<Longrightarrow>
     \<exists>!i. \<exists>ob. bt_get (ej_obligations j) i = Some ob \<and> ob_operation_id ob = op"
  by (simp add: journal_inv_def)

lemma journal_inv_cancelled:
  assumes "journal_inv v j"
  shows "bt_get (ej_cancelled_under j) op \<noteq> None \<longleftrightarrow>
      (\<exists>r. bt_get (ej_operations j) op = Some r \<and> rc_state r = Cancelled)"
    and "bt_get (ej_cancelled_under j) op = Some w \<Longrightarrow> w \<le> v"
    and "bt_get (ej_operations j) op = Some r \<Longrightarrow> bt_get (ej_cancelled_under j) op = Some V3 \<Longrightarrow>
      \<exists>evidence proof. cancellation_proof j op evidence = Inr proof \<and> rc_result_digest r = Some proof"
  using assms by (simp_all add: journal_inv_def)

lemma journal_inv_mono: "journal_inv v j \<Longrightarrow> v \<le> v' \<Longrightarrow> journal_inv v' j"
  unfolding journal_inv_def by (elim conjE, intro conjI) (assumption | metis order_trans)+

lemma bt_values_update: "bt_values (bt_update_values f m) = map f (bt_values m)"
  by (induction m) (auto simp: bt_values_def bt_update_values_def)

lemma bt_update_values_ident [simp]: "bt_update_values (\<lambda>v. v) m = m"
  by (simp add: bt_update_values_def)

lemma find_values_update:
  assumes "\<And>v. P (f v) \<longleftrightarrow> P v"
  shows "List.find P (bt_values (bt_update_values f m)) = map_option f (List.find P (bt_values m))"
proof -
  have "List.find P (map f xs) = map_option f (List.find P xs)" for xs
    using assms by (induction xs) auto
  then show ?thesis by (simp add: bt_values_update)
qed

lemma find_values_insert_other:
  "bt_get m k = None \<Longrightarrow> \<not> P v \<Longrightarrow> List.find P (bt_values (bt_insert k v m)) = List.find P (bt_values m)"
  by (induction k v m rule: bt_insert.induct) (auto simp: bt_get_def bt_values_def split: if_splits)

text \<open>
  The one-receipt update that every transition and reconciliation makes: the receipt of \<open>op\<close> moves on
  with its identity fixed, and the obligations of \<open>op\<close> follow.
\<close>

definition same_identity :: "operation_receipt \<Rightarrow> operation_receipt \<Rightarrow> bool" where
  "same_identity r r' \<longleftrightarrow> rc_intent r' = rc_intent r \<and> rc_authority r' = rc_authority r
     \<and> rc_prepared_at r' = rc_prepared_at r \<and> rc_version r' = rc_version r"

definition follows :: "stable_id \<Rightarrow> operation_receipt \<Rightarrow> operation_receipt \<Rightarrow> (obligation \<Rightarrow> obligation) \<Rightarrow> bool" where
  "follows op r r' f \<longleftrightarrow>
     (\<forall>ob. ob_obligation_id (f ob) = ob_obligation_id ob \<and> ob_operation_id (f ob) = ob_operation_id ob
       \<and> ob_terminal_predicate (f ob) = ob_terminal_predicate ob
       \<and> (ob_operation_id ob \<noteq> op \<longrightarrow> f ob = ob)
       \<and> (ob_operation_id ob = op \<and> obligation_agrees r ob \<longrightarrow> obligation_agrees r' (f ob)))"

lemma prepared_record_update:
  assumes "bt_get (ej_operations j) op = Some r" and "same_identity r r'" and "follows op r r' f"
    and "ej_operations j' = bt_insert op r' (ej_operations j)"
    and "ej_obligations j' = bt_update_values f (ej_obligations j)"
  shows "prepared_record j' i = prepared_record j i"
proof -
  have f: "ob_obligation_id (f ob) = ob_obligation_id ob" "ob_operation_id (f ob) = ob_operation_id ob"
    "ob_terminal_predicate (f ob) = ob_terminal_predicate ob" for ob
    using assms(3) by (auto simp: follows_def)
  show ?thesis
    using assms(1,2) by (cases "List.find (\<lambda>ob. ob_operation_id ob = i) (bt_values (ej_obligations j))")
      (auto simp: prepared_record_def assms(4,5) find_values_update f same_identity_def)
qed

lemma inv_update:
  assumes inv: "journal_inv v j" and "v \<le> v'" and r: "bt_get (ej_operations j) op = Some r" "rc_state r \<noteq> Cancelled"
    and r': "same_identity r r'" "receipt_ok r'" and f: "follows op r r' f"
    and j': "ej_operations j' = bt_insert op r' (ej_operations j)" "ej_idempotency j' = ej_idempotency j"
      "ej_obligations j' = bt_update_values f (ej_obligations j)"
      "ej_cancelled_under j' =
        (if rc_state r' = Cancelled then bt_insert op w (ej_cancelled_under j) else ej_cancelled_under j)"
    and w: "w \<le> v'"
      "w = V3 \<Longrightarrow> rc_state r' = Cancelled \<Longrightarrow>
        \<exists>evidence proof. cancellation_proof j op evidence = Inr proof \<and> rc_result_digest r' = Some proof"
  shows "journal_inv v' j'"
proof -
  have proof_same: "cancellation_proof j' i = cancellation_proof j i" for i
    using prepared_record_update [OF r(1) r'(1) f j'(1,3)] by (simp add: cancellation_proof_def fun_eq_iff)
  have g: "bt_get (ej_operations j') i = (if i = op then Some r' else bt_get (ej_operations j) i)"
    "bt_get (ej_obligations j') i = map_option f (bt_get (ej_obligations j) i)" for i
    by (simp_all add: j')
  have fid: "ob_obligation_id (f ob) = ob_obligation_id ob" "ob_operation_id (f ob) = ob_operation_id ob" for ob
    using f by (auto simp: follows_def)
  have ids: "(\<exists>ob. bt_get (ej_obligations j') i = Some ob \<and> ob_operation_id ob = k) \<longleftrightarrow>
      (\<exists>ob. bt_get (ej_obligations j) i = Some ob \<and> ob_operation_id ob = k)" for i k
    by (auto simp: g fid)
  show ?thesis
    unfolding journal_inv_def ids
  proof (intro conjI)
    show "bt_ok (ej_operations j')" "bt_ok (ej_idempotency j')" "bt_ok (ej_obligations j')" "bt_ok (ej_cancelled_under j')"
      using journal_inv_ok [OF inv] by (simp_all add: j')
    show "\<forall>i r. bt_get (ej_operations j') i = Some r \<longrightarrow>
        ei_operation_id (rc_intent r) = i \<and> receipt_ok r \<and> rc_version r \<le> v'"
    proof (intro allI impI)
      fix i q
      assume "bt_get (ej_operations j') i = Some q"
      then show "ei_operation_id (rc_intent q) = i \<and> receipt_ok q \<and> rc_version q \<le> v'"
        using journal_inv_receipt [OF inv, of i] journal_inv_receipt [OF inv r(1)] r' assms(2)
        by (auto simp: g same_identity_def split: if_splits)
    qed
    show "\<forall>k i. bt_get (ej_idempotency j') k = Some i \<longleftrightarrow>
        (\<exists>r. bt_get (ej_operations j') i = Some r \<and> ei_idempotency_key (rc_intent r) = k)"
      using journal_inv_idempotency [OF inv] r r'(1) by (auto simp: g j'(2) same_identity_def)
    show "\<forall>i ob. bt_get (ej_obligations j') i = Some ob \<longrightarrow> ob_obligation_id ob = i
        \<and> (\<exists>r. bt_get (ej_operations j') (ob_operation_id ob) = Some r \<and> obligation_agrees r ob)"
    proof (intro allI impI)
      fix i ob'
      assume "bt_get (ej_obligations j') i = Some ob'"
      then obtain ob where ob: "bt_get (ej_obligations j) i = Some ob" "ob' = f ob" by (auto simp: g)
      then show "ob_obligation_id ob' = i
          \<and> (\<exists>r. bt_get (ej_operations j') (ob_operation_id ob') = Some r \<and> obligation_agrees r ob')"
        using journal_inv_obligation [OF inv ob(1)] r(1) f by (auto simp: g fid follows_def)
    qed
    show "\<forall>i r. bt_get (ej_operations j') i = Some r \<longrightarrow>
        (\<exists>!k. \<exists>ob. bt_get (ej_obligations j) k = Some ob \<and> ob_operation_id ob = i)"
    proof (intro allI impI)
      fix i q
      assume "bt_get (ej_operations j') i = Some q"
      then obtain q0 where "bt_get (ej_operations j) i = Some q0" using r(1) by (cases "i = op") (auto simp: g)
      then show "\<exists>!k. \<exists>ob. bt_get (ej_obligations j) k = Some ob \<and> ob_operation_id ob = i"
        using journal_inv_one_obligation [OF inv] by blast
    qed
    show "\<forall>i. bt_get (ej_cancelled_under j') i \<noteq> None \<longleftrightarrow>
        (\<exists>r. bt_get (ej_operations j') i = Some r \<and> rc_state r = Cancelled)"
      using journal_inv_cancelled(1) [OF inv] r by (simp add: g j'(4))
    show "\<forall>i x. bt_get (ej_cancelled_under j') i = Some x \<longrightarrow> x \<le> v'"
      using journal_inv_cancelled(2) [OF inv] assms(2) w(1) by (auto simp: j'(4) split: if_splits intro: order_trans)
    show "\<forall>i q. bt_get (ej_operations j') i = Some q \<and> bt_get (ej_cancelled_under j') i = Some V3 \<longrightarrow>
        (\<exists>evidence proof. cancellation_proof j' i evidence = Inr proof \<and> rc_result_digest q = Some proof)"
      using journal_inv_cancelled [OF inv, of op] journal_inv_cancelled(3) [OF inv] w(2) r
      by (auto simp: g j'(4) proof_same split: if_splits)
  qed
qed

lemma follows_transition:
  assumes "check_transition r nxt now d c rules = Inr u" and "receipt_ok r"
  shows "follows op r (advance_receipt nxt now d c r)
    (case obligation_target nxt of None \<Rightarrow> \<lambda>ob. ob | Some state \<Rightarrow> advance_obligation op state d)"
proof -
  note check = check_transition_passed [OF assms(1)]
  have "can_transition_to (rc_state r) nxt" by (rule check)
  then have "obligation_agrees (advance_receipt nxt now d c r)
      ((case obligation_target nxt of None \<Rightarrow> \<lambda>ob. ob | Some state \<Rightarrow> advance_obligation op state d) ob)"
    if "ob_operation_id ob = op" "obligation_agrees r ob" for ob
    using that check(3) assms(2)
    by (cases nxt; cases "rc_state r") (simp_all add: obligation_agrees_def obligation_target_def advance_obligation_def
        advance_receipt_def is_terminal_def receipt_ok_def)
  then show ?thesis
    by (auto simp: follows_def advance_obligation_def split: option.splits)
qed

lemma transition_under_ok:
  assumes "bt_get (ej_operations j) op = Some r" and "check_transition r nxt now d c rules = Inr u"
  shows "transition_under op nxt now d c rules j =
    (Inr (advance_receipt nxt now d c r),
     j\<lparr>ej_operations := bt_insert op (advance_receipt nxt now d c r) (ej_operations j),
       ej_obligations := bt_update_values
         (case obligation_target nxt of None \<Rightarrow> \<lambda>ob. ob | Some state \<Rightarrow> advance_obligation op state d) (ej_obligations j),
       ej_cancelled_under :=
         (if nxt = Cancelled then bt_insert op (rules_record_version rules) (ej_cancelled_under j)
          else ej_cancelled_under j)\<rparr>)"
  using assms by (cases j) (auto simp: transition_under_def Let_def split: option.splits)

lemma transition_under_inv:
  assumes inv: "journal_inv v j" and "v \<le> v'" and "rules_record_version rules = v'"
    and run: "transition_under op nxt now d c rules j = (Inr r', j')"
    and bound: "\<And>b. nxt = Cancelled \<Longrightarrow> rules = Current (Some b) \<Longrightarrow> \<exists>evidence. cancellation_proof j op evidence = Inr b"
  shows "journal_inv v' j'"
proof -
  obtain r u where r: "bt_get (ej_operations j) op = Some r" and check: "check_transition r nxt now d c rules = Inr u"
    using run by (auto simp: transition_under_def split: option.splits sum.splits)
  note passed = check_transition_passed [OF check]
  have ok: "receipt_ok r" using journal_inv_receipt [OF inv r] by simp
  have "rules = Legacy \<Longrightarrow> rc_version r = V1"
    using journal_inv_receipt [OF inv r] assms(2,3)
    by (cases "rc_version r"; cases v) (auto simp: rules_record_version_def less_eq_effect_record_version_def version_rank_def)
  then have r': "receipt_ok (advance_receipt nxt now d c r)" using advance_receipt_ok [OF ok check] by simp
  have live: "rc_state r \<noteq> Cancelled" using passed(2) by (cases nxt) auto
  have has_proof: "\<exists>evidence proof. cancellation_proof j op evidence = Inr proof
      \<and> rc_result_digest (advance_receipt nxt now d c r) = Some proof"
    if c: "v' = V3" "nxt = Cancelled"
  proof -
    obtain b where "rules = Current b" using c(1) assms(3)
      by (cases rules) (auto simp: rules_record_version_def)
    moreover from this obtain q where "b = Some q" "d = Some q" using passed(7) [OF c(2)] by auto
    ultimately show ?thesis using bound c(2) by (auto simp: advance_receipt_def)
  qed
  have "journal_inv v' j'"
    if "j' = snd (transition_under op nxt now d c rules j)"
    unfolding that transition_under_ok [OF r check] using assms(3) has_proof
    by (intro inv_update [OF inv assms(2) r live _ r' follows_transition [OF check ok], where w = v'])
      (auto simp: same_identity_def)
  then show ?thesis using run by simp
qed

text \<open>The part of \<open>receipt_ok\<close> that does not depend on the state.\<close>

lemma receipt_ok_base:
  assumes "receipt_ok r"
  shows "rc_prepared_at r \<le> rc_updated_at r" and "rc_committed_at r = Some c \<Longrightarrow> rc_prepared_at r < c \<and> c \<le> rc_updated_at r"
    and "rc_indeterminate_reason r = Some Unrecorded \<Longrightarrow> rc_version r = V1"
  using assms by (simp_all add: receipt_ok_def)

lemma settle_inv:
  assumes inv: "journal_inv v j" and "v \<le> v'" and r: "bt_get (ej_operations j) op = Some r" "\<not> is_terminal (rc_state r)"
    and u: "same_identity r (upd r)" "receipt_ok (upd r)" "rc_state (upd r) \<in> {Verified, Failed}"
      "rc_result_digest (upd r) = Some pr"
    and run: "settle op upd (if rc_state (upd r) = Verified then obligation_state.Verified else obligation_state.Failed)
      pr r j = (res, j')"
  shows "journal_inv v' j'"
proof -
  let ?state = "if rc_state (upd r) = Verified then obligation_state.Verified else obligation_state.Failed"
  let ?f = "\<lambda>ob. if ob_operation_id ob = op then ob\<lparr>ob_state := ?state, ob_proof_digest := Some pr\<rparr> else ob"
  have "follows op r (upd r) ?f"
    using u(3,4) by (auto simp: follows_def obligation_agrees_def is_terminal_def)
  moreover have "rc_state r \<noteq> Cancelled" using r(2) by (auto simp: is_terminal_def)
  ultimately show ?thesis
    using inv_update [OF inv assms(2) r(1) _ u(1,2), of ?f j' V1] u(3) run
    by (auto simp: settle_def Let_def less_eq_effect_record_version_def version_rank_def split: effect_record_version.splits)
qed

lemma prepare_versioned_new:
  assumes "bt_get (ej_idempotency j) (ei_idempotency_key intent) = None"
    and "bt_get (ej_operations j) (ei_operation_id intent) = None" and "bt_get (ej_obligations j) ob = None"
  shows "prepare_versioned intent ob pred auth now version j =
    (Inr \<lparr>rc_intent = intent, rc_state = Prepared, rc_authority = auth, rc_prepared_at = now,
          rc_committed_at = None, rc_updated_at = now, rc_result_digest = None, rc_error_code = None,
          rc_indeterminate_reason = None, rc_version = version\<rparr>,
     j\<lparr>ej_operations := bt_insert (ei_operation_id intent)
         \<lparr>rc_intent = intent, rc_state = Prepared, rc_authority = auth, rc_prepared_at = now,
          rc_committed_at = None, rc_updated_at = now, rc_result_digest = None, rc_error_code = None,
          rc_indeterminate_reason = None, rc_version = version\<rparr> (ej_operations j),
       ej_idempotency := bt_insert (ei_idempotency_key intent) (ei_operation_id intent) (ej_idempotency j),
       ej_obligations := bt_insert ob
         \<lparr>ob_obligation_id = ob, ob_operation_id = ei_operation_id intent, ob_terminal_predicate = pred,
          ob_state = obligation_state.Pending, ob_proof_digest = None\<rparr> (ej_obligations j)\<rparr>)"
  using assms by (simp add: prepare_versioned_def bt_contains_def Let_def)

lemma prepare_versioned_other:
  assumes "bt_get (ej_idempotency j) (ei_idempotency_key intent) \<noteq> None
    \<or> bt_get (ej_operations j) (ei_operation_id intent) \<noteq> None \<or> bt_get (ej_obligations j) ob \<noteq> None"
  shows "snd (prepare_versioned intent ob pred auth now version j) = j"
  using assms by (auto simp: prepare_versioned_def bt_contains_def split: option.splits)

lemma prepared_record_prepare:
  assumes "bt_get (ej_operations j) i \<noteq> None" "bt_get (ej_operations j) (ei_operation_id intent) = None"
    and "bt_get (ej_obligations j) ob = None" and "bt_get (ej_idempotency j) (ei_idempotency_key intent) = None"
  shows "prepared_record (snd (prepare_versioned intent ob pred auth now version j)) i = prepared_record j i"
proof -
  have "i \<noteq> ei_operation_id intent" using assms(1,2) by auto
  then show ?thesis using assms
    by (auto simp: prepare_versioned_new prepared_record_def find_values_insert_other)
qed

lemma prepare_versioned_inv:
  assumes inv: "journal_inv v j" and "v \<le> v'"
  shows "journal_inv v' (snd (prepare_versioned intent ob pred auth now v' j))" (is "journal_inv v' ?j'")
proof (cases "bt_get (ej_idempotency j) (ei_idempotency_key intent) = None
    \<and> bt_get (ej_operations j) (ei_operation_id intent) = None \<and> bt_get (ej_obligations j) ob = None")
  case False
  then have "?j' = j" by (intro prepare_versioned_other) auto
  moreover have "journal_inv v' j" by (rule journal_inv_mono [OF inv assms(2)])
  ultimately show ?thesis by simp
next
  case True
  let ?op = "ei_operation_id intent" and ?key = "ei_idempotency_key intent"
  obtain r b where ops: "ej_operations ?j' = bt_insert ?op r (ej_operations j)"
    and idem: "ej_idempotency ?j' = bt_insert ?key ?op (ej_idempotency j)"
    and obs: "ej_obligations ?j' = bt_insert ob b (ej_obligations j)"
    and can: "ej_cancelled_under ?j' = ej_cancelled_under j"
    and r: "rc_intent r = intent" "receipt_ok r" "rc_version r = v'" "rc_state r = Prepared"
    and b: "ob_obligation_id b = ob" "ob_operation_id b = ?op" "obligation_agrees r b"
    using True by (simp add: prepare_versioned_new receipt_ok_def obligation_agrees_def is_terminal_def)
  have fresh: "bt_get (ej_operations j) ?op = None" "bt_get (ej_idempotency j) ?key = None"
    "bt_get (ej_obligations j) ob = None" "bt_get (ej_cancelled_under j) ?op = None"
    using True journal_inv_cancelled(1) [OF inv, of ?op] by auto
  have proof_same: "cancellation_proof ?j' i = cancellation_proof j i" if "bt_get (ej_operations j) i \<noteq> None" for i
    using prepared_record_prepare [OF that fresh(1,3,2)] by (simp add: cancellation_proof_def fun_eq_iff)
  have noob: "ob_operation_id x \<noteq> ?op" if "bt_get (ej_obligations j) i = Some x" for i x
    using journal_inv_obligation [OF inv that] fresh(1) by auto
  have nokey: "ei_idempotency_key (rc_intent q) \<noteq> ?key" if "bt_get (ej_operations j) i = Some q" for i q
    using journal_inv_idempotency [OF inv, of ?key i] that fresh(2) by auto
  show ?thesis
    unfolding journal_inv_def
  proof (intro conjI)
    show "bt_ok (ej_operations ?j')" "bt_ok (ej_idempotency ?j')" "bt_ok (ej_obligations ?j')"
      "bt_ok (ej_cancelled_under ?j')"
      using journal_inv_ok [OF inv] by (simp_all add: ops idem obs can)
    show "\<forall>i q. bt_get (ej_operations ?j') i = Some q \<longrightarrow>
        ei_operation_id (rc_intent q) = i \<and> receipt_ok q \<and> rc_version q \<le> v'"
      using journal_inv_receipt [OF inv] r assms(2) by (auto simp: ops intro: order_trans)
    show "\<forall>k i. bt_get (ej_idempotency ?j') k = Some i \<longleftrightarrow>
        (\<exists>q. bt_get (ej_operations ?j') i = Some q \<and> ei_idempotency_key (rc_intent q) = k)"
      using journal_inv_idempotency [OF inv] r(1) fresh(1,2) nokey by (auto simp: ops idem)
    show "\<forall>i x. bt_get (ej_obligations ?j') i = Some x \<longrightarrow> ob_obligation_id x = i
        \<and> (\<exists>q. bt_get (ej_operations ?j') (ob_operation_id x) = Some q \<and> obligation_agrees q x)"
      using journal_inv_obligation [OF inv] b noob by (auto simp: ops obs)
    show "\<forall>i q. bt_get (ej_operations ?j') i = Some q \<longrightarrow>
        (\<exists>!k. \<exists>x. bt_get (ej_obligations ?j') k = Some x \<and> ob_operation_id x = i)"
    proof (intro allI impI)
      fix i q
      assume q: "bt_get (ej_operations ?j') i = Some q"
      show "\<exists>!k. \<exists>x. bt_get (ej_obligations ?j') k = Some x \<and> ob_operation_id x = i"
      proof (cases "i = ?op")
        case True
        then show ?thesis using b noob by (auto simp: obs)
      next
        case False
        then have "bt_get (ej_operations j) i = Some q" using q by (simp add: ops)
        from journal_inv_one_obligation [OF inv this] show ?thesis
          using False b(2) fresh(3) by (simp add: obs) (metis option.distinct(1))
      qed
    qed
    show "\<forall>i. bt_get (ej_cancelled_under ?j') i \<noteq> None \<longleftrightarrow>
        (\<exists>q. bt_get (ej_operations ?j') i = Some q \<and> rc_state q = Cancelled)"
      using journal_inv_cancelled(1) [OF inv] fresh r(4) by (simp add: ops can)
    show "\<forall>i w. bt_get (ej_cancelled_under ?j') i = Some w \<longrightarrow> w \<le> v'"
      using journal_inv_cancelled(2) [OF inv] assms(2) by (auto simp: can intro: order_trans)
    show "\<forall>i q. bt_get (ej_operations ?j') i = Some q \<and> bt_get (ej_cancelled_under ?j') i = Some V3 \<longrightarrow>
        (\<exists>evidence proof. cancellation_proof ?j' i evidence = Inr proof \<and> rc_result_digest q = Some proof)"
      using journal_inv_cancelled(3) [OF inv] fresh(4) by (auto simp: ops can proof_same)
  qed
qed

lemma reconcile_verified_settles:
  assumes "reconcile_verified op proof now j = (Inr q, j')" and "j' \<noteq> j"
  obtains r where "bt_get (ej_operations j) op = Some r" "rc_state r = Observed" "rc_updated_at r < now"
    "rc_result_digest r = Some proof"
    "settle op (\<lambda>r. r\<lparr>rc_state := Verified, rc_updated_at := now, rc_result_digest := Some proof\<rparr>)
       obligation_state.Verified proof r j = (Inr q, j')"
  using assms by (auto simp: reconcile_verified_def not_le split: option.splits if_splits)

lemma reconcile_failed_settles:
  assumes "reconcile_failed op proof now reason j = (Inr q, j')" and "j' \<noteq> j"
  obtains r where "bt_get (ej_operations j) op = Some r" "can_transition_to (rc_state r) Failed" "rc_updated_at r < now"
    "reason \<noteq> []"
    "settle op (\<lambda>r. r\<lparr>rc_state := Failed, rc_updated_at := now, rc_result_digest := Some proof, rc_error_code := Some reason\<rparr>)
       obligation_state.Failed proof r j = (Inr q, j')"
  using assms by (auto simp: reconcile_failed_def not_le split: option.splits if_splits)

text \<open>A refusal leaves the journal as it was.\<close>

lemma refusal_atomic: "apply_versioned v t j = (Inl err, j') \<Longrightarrow> j' = j"
  by (auto simp: apply_versioned_def Let_def prepare_versioned_def prepare_with_authority_def transition_under_def
      cancel_under_def reconcile_verified_def reconcile_failed_def settle_def
      split: effect_journal_transition.splits effect_record_version.splits option.splits sum.splits if_splits)

lemma reconcile_verified_inv:
  assumes inv: "journal_inv v j" and "v \<le> v'" and run: "reconcile_verified op proof now j = (Inr q, j')"
  shows "journal_inv v' j'"
proof (cases "j' = j")
  case True
  then show ?thesis using journal_inv_mono [OF inv assms(2)] by simp
next
  case False
  from reconcile_verified_settles [OF run False] obtain r where r: "bt_get (ej_operations j) op = Some r"
    "rc_state r = Observed" "rc_updated_at r < now" "rc_result_digest r = Some proof"
    and s: "settle op (\<lambda>r. r\<lparr>rc_state := Verified, rc_updated_at := now, rc_result_digest := Some proof\<rparr>)
       obligation_state.Verified proof r j = (Inr q, j')" .
  have "receipt_ok (r\<lparr>rc_state := Verified, rc_updated_at := now, rc_result_digest := Some proof\<rparr>)"
    using journal_inv_receipt [OF inv r(1)] r(2,3) by (auto simp: receipt_ok_def)
  then show ?thesis
    using r(2) s by (intro settle_inv [OF inv assms(2) r(1), where pr = "proof" and res = "Inr q"
      and upd = "\<lambda>r. r\<lparr>rc_state := Verified, rc_updated_at := now, rc_result_digest := Some proof\<rparr>"])
      (simp_all add: same_identity_def is_terminal_def)
qed

lemma reconcile_failed_inv:
  assumes inv: "journal_inv v j" and "v \<le> v'" and run: "reconcile_failed op proof now reason j = (Inr q, j')"
  shows "journal_inv v' j'"
proof (cases "j' = j")
  case True
  then show ?thesis using journal_inv_mono [OF inv assms(2)] by simp
next
  case False
  from reconcile_failed_settles [OF run False] obtain r where r: "bt_get (ej_operations j) op = Some r"
    "can_transition_to (rc_state r) Failed" "rc_updated_at r < now" "reason \<noteq> []"
    and s: "settle op (\<lambda>r. r\<lparr>rc_state := Failed, rc_updated_at := now, rc_result_digest := Some proof, rc_error_code := Some reason\<rparr>)
       obligation_state.Failed proof r j = (Inr q, j')" .
  have ok: "receipt_ok r" using journal_inv_receipt [OF inv r(1)] by simp
  have "\<not> is_terminal (rc_state r)" using can_transition_from_terminal r(2) by blast
  moreover have "receipt_ok (r\<lparr>rc_state := Failed, rc_updated_at := now, rc_result_digest := Some proof, rc_error_code := Some reason\<rparr>)"
    using receipt_ok_base [OF ok] r(3,4) by (force simp: receipt_ok_def)
  ultimately show ?thesis
    using s by (intro settle_inv [OF inv assms(2) r(1), where pr = "proof" and res = "Inr q"
      and upd = "\<lambda>r. r\<lparr>rc_state := Failed, rc_updated_at := now, rc_result_digest := Some proof, rc_error_code := Some reason\<rparr>"])
      (simp_all add: same_identity_def)
qed

lemma rules_of_version:
  "rules_record_version (case v of V1 \<Rightarrow> Legacy | V2 \<Rightarrow> UnboundCancellation | V3 \<Rightarrow> Current None) = v"
  by (cases v) (simp_all add: rules_record_version_def)

lemma not_before_V3: "\<not> v < V3 \<longleftrightarrow> v = V3"
  by (cases v) (simp_all add: less_effect_record_version_def version_rank_def)

lemma V1_least [simp]: "V1 \<le> v"
  by (cases v) (simp_all add: less_eq_effect_record_version_def version_rank_def)

lemma apply_versioned_inv:
  assumes inv: "journal_inv v j" and le: "v \<le> v'" and run: "apply_versioned v' t j = (res, j')"
  shows "journal_inv v' j'"
proof (cases res)
  case (Inl err)
  then show ?thesis using refusal_atomic run journal_inv_mono [OF inv le] by blast
next
  case (Inr q)
  note run = run [unfolded Inr apply_versioned_def Let_def]
  show ?thesis
  proof (cases t)
    case (Prepare i ob p now)
    then show ?thesis using run prepare_versioned_inv [OF inv le, of i ob p system_default now] by simp
  next
    case (PrepareWithAuthority i ob p a now)
    then have "v' = V3" "prepare_with_authority i ob p a now j = (Inr q, j')"
      using run by (auto simp: not_before_V3 split: if_splits)
    then show ?thesis using prepare_versioned_inv [OF inv le, of i ob p a now]
      by (auto simp: prepare_with_authority_def split: sum.splits)
  next
    case (Transition op nxt now d c)
    then show ?thesis using run transition_under_inv [OF inv le rules_of_version]
      by (cases v') auto
  next
    case (ReconcileVerified op pr now)
    then show ?thesis using run reconcile_verified_inv [OF inv le] by simp
  next
    case (ReconcileFailed op pr now reason)
    then show ?thesis using run reconcile_failed_inv [OF inv le] by simp
  next
    case (Cancel op now ev pr reason)
    then have v': "v' = V3" and "cancel_under op now ev pr reason j = (Inr q, j')"
      using run by (auto simp: not_before_V3 split: if_splits)
    then obtain b where b: "cancellation_proof j op ev = Inr b"
      and u: "transition_under op Cancelled now (Some pr) reason (Current (Some b)) j = (Inr q, j')"
      by (auto simp: cancel_under_def split: sum.splits)
    show ?thesis
      using b by (intro transition_under_inv [OF inv le _ u]) (auto simp: v' rules_record_version_def)
  qed
qed

text \<open>
  Applying records whose versions never go backwards, as live operation and durable replay do; the
  reachable journals are those this builds from the empty one.
\<close>

inductive journal_evolves ::
  "effect_record_version \<Rightarrow> effect_journal \<Rightarrow> effect_record_version \<Rightarrow> effect_journal \<Rightarrow> bool" where
  same: "journal_evolves v j v j"
| applied: "journal_evolves v j w k \<Longrightarrow> w \<le> w' \<Longrightarrow> apply_versioned w' t k = (res, k') \<Longrightarrow> journal_evolves v j w' k'"

definition journal_reachable :: "effect_record_version \<Rightarrow> effect_journal \<Rightarrow> bool" where
  "journal_reachable v j \<longleftrightarrow> journal_evolves V1 journal_new v j"

lemma journal_evolves_trans:
  "journal_evolves w k x l \<Longrightarrow> journal_evolves v j w k \<Longrightarrow> journal_evolves v j x l"
  by (induction rule: journal_evolves.induct) (blast intro: journal_evolves.applied)+

lemma evolves_inv: "journal_evolves v j w k \<Longrightarrow> journal_inv v j \<Longrightarrow> journal_inv w k"
  by (induction rule: journal_evolves.induct) (blast intro: apply_versioned_inv)+

lemma journal_inv_new: "journal_inv V1 journal_new"
  by (simp add: journal_inv_def journal_new_def)

text \<open>How one applied record can change one receipt.\<close>

definition receipt_moves :: "operation_receipt \<Rightarrow> operation_receipt \<Rightarrow> bool" where
  "receipt_moves r r' \<longleftrightarrow> r' = r \<or>
     same_identity r r' \<and> can_transition_to (rc_state r) (rc_state r') \<and> rc_updated_at r < rc_updated_at r'"

definition journal_moves :: "effect_journal \<Rightarrow> effect_journal \<Rightarrow> bool" where
  "journal_moves j j' \<longleftrightarrow> (\<forall>op r. bt_get (ej_operations j) op = Some r \<longrightarrow>
     (\<exists>r'. bt_get (ej_operations j') op = Some r' \<and> receipt_moves r r'))"

lemma journal_moves_refl [simp]: "journal_moves j j"
  by (simp add: journal_moves_def receipt_moves_def)

lemma journal_moves_update:
  assumes "bt_get (ej_operations j) op = Some r" and "receipt_moves r r'"
    and "ej_operations j' = bt_insert op r' (ej_operations j)"
  shows "journal_moves j j'"
  using assms by (simp add: journal_moves_def receipt_moves_def)

lemma prepare_versioned_moves: "journal_moves j (snd (prepare_versioned i ob p a now v j))"
proof (cases "bt_get (ej_idempotency j) (ei_idempotency_key i) = None
    \<and> bt_get (ej_operations j) (ei_operation_id i) = None \<and> bt_get (ej_obligations j) ob = None")
  case True
  then show ?thesis by (auto simp: prepare_versioned_new journal_moves_def receipt_moves_def)
next
  case False
  then have "snd (prepare_versioned i ob p a now v j) = j" by (intro prepare_versioned_other) auto
  then show ?thesis by simp
qed

lemma transition_under_moves:
  assumes "transition_under op nxt now d c rules j = (Inr q, j')"
  shows "journal_moves j j'"
proof -
  obtain r u where r: "bt_get (ej_operations j) op = Some r" and check: "check_transition r nxt now d c rules = Inr u"
    using assms by (auto simp: transition_under_def split: option.splits sum.splits)
  have "receipt_moves r (advance_receipt nxt now d c r)"
    using check_transition_passed(1,2) [OF check] by (simp add: receipt_moves_def same_identity_def)
  then show ?thesis
    using assms by (intro journal_moves_update [OF r]) (auto simp: transition_under_ok [OF r check])
qed

lemma reconcile_verified_moves:
  assumes run: "reconcile_verified op proof now j = (Inr q, j')"
  shows "journal_moves j j'"
proof (cases "j' = j")
  case False
  from reconcile_verified_settles [OF run this] obtain r where r: "bt_get (ej_operations j) op = Some r"
    "rc_state r = Observed" "rc_updated_at r < now"
    and s: "settle op (\<lambda>r. r\<lparr>rc_state := Verified, rc_updated_at := now, rc_result_digest := Some proof\<rparr>)
       obligation_state.Verified proof r j = (Inr q, j')" .
  show ?thesis using s r(2,3)
    by (intro journal_moves_update [OF r(1), of "r\<lparr>rc_state := Verified, rc_updated_at := now, rc_result_digest := Some proof\<rparr>"])
      (auto simp: receipt_moves_def same_identity_def settle_def Let_def)
qed simp

lemma reconcile_failed_moves:
  assumes run: "reconcile_failed op proof now reason j = (Inr q, j')"
  shows "journal_moves j j'"
proof (cases "j' = j")
  case False
  let ?upd = "\<lambda>r. r\<lparr>rc_state := Failed, rc_updated_at := now, rc_result_digest := Some proof, rc_error_code := Some reason\<rparr>"
  from reconcile_failed_settles [OF run False] obtain r where r: "bt_get (ej_operations j) op = Some r"
    "can_transition_to (rc_state r) Failed" "rc_updated_at r < now"
    and s: "settle op ?upd obligation_state.Failed proof r j = (Inr q, j')" .
  show ?thesis using s r(2,3)
    by (intro journal_moves_update [OF r(1), of "?upd r"])
      (auto simp: receipt_moves_def same_identity_def settle_def Let_def)
qed simp

lemma apply_versioned_moves:
  assumes "apply_versioned v t j = (res, j')"
  shows "journal_moves j j'"
proof (cases res)
  case (Inl err)
  then show ?thesis using refusal_atomic assms by fastforce
next
  case (Inr q)
  have "journal_moves j j'" if "prepare_versioned i ob p a now v j = (Inr q, j')" for i ob p a now v
    using prepare_versioned_moves [of j i ob p a now v] that by simp
  then show ?thesis
    using assms Inr transition_under_moves reconcile_verified_moves reconcile_failed_moves
    by (auto simp: apply_versioned_def Let_def prepare_with_authority_def cancel_under_def
        split: effect_journal_transition.splits sum.splits if_splits)
qed

lemma reachable_inv: "journal_reachable v j \<Longrightarrow> journal_inv v j"
  unfolding journal_reachable_def using evolves_inv journal_inv_new by blast

lemma replay_loop_evolves: "replay_loop v rs j = Inr k \<Longrightarrow> \<exists>w. journal_evolves v j w k"
proof (induction v rs j rule: replay_loop.induct)
  case (1 v j)
  then show ?case using journal_evolves.same by auto
next
  case (2 v w t rs j)
  then obtain q j' where step: "\<not> w < v" "apply_versioned w t j = (Inr q, j')" "replay_loop w rs j' = Inr k"
    by (auto split: if_splits prod.splits sum.splits)
  have "\<exists>x. journal_evolves w j' x k" by (rule "2.IH" [OF step(1) step(2) [symmetric] refl step(3)])
  moreover have "journal_evolves v j w j'"
    using journal_evolves.applied [OF journal_evolves.same _ step(2)] step(1) by simp
  ultimately show ?case using journal_evolves_trans by blast
qed

text \<open>Along any evolution, a receipt keeps its identity and moves forward through the lifecycle only.\<close>

definition receipt_history :: "operation_receipt \<Rightarrow> operation_receipt \<Rightarrow> bool" where
  "receipt_history r r' \<longleftrightarrow> r' = r \<or>
     same_identity r r' \<and> can_transition_to\<^sup>+\<^sup>+ (rc_state r) (rc_state r') \<and> rc_updated_at r < rc_updated_at r'"

lemma receipt_history_step: "receipt_history q r \<Longrightarrow> receipt_moves r r' \<Longrightarrow> receipt_history q r'"
  by (auto simp: receipt_history_def receipt_moves_def same_identity_def intro: tranclp.intros)

lemma evolves_history:
  "journal_evolves v j w k \<Longrightarrow> bt_get (ej_operations j) op = Some r \<Longrightarrow>
     \<exists>r'. bt_get (ej_operations k) op = Some r' \<and> receipt_history r r'"
proof (induction rule: journal_evolves.induct)
  case (same v j)
  then show ?case by (simp add: receipt_history_def)
next
  case (applied v j w k w' t res k')
  then obtain q where "bt_get (ej_operations k) op = Some q" "receipt_history r q" by blast
  then show ?case
    using apply_versioned_moves [OF applied.hyps(3)] receipt_history_step by (fastforce simp: journal_moves_def)
qed

lemma no_transition_from_terminal: "can_transition_to\<^sup>+\<^sup>+ s t \<Longrightarrow> \<not> is_terminal s"
  by (induction rule: tranclp_induct) (use can_transition_from_terminal in blast)+

lemma cancelled_only_from_prepared:
  "can_transition_to\<^sup>+\<^sup>+ s t \<Longrightarrow> (t = Cancelled \<longrightarrow> s = Prepared) \<and> t \<noteq> Prepared"
proof (induction rule: tranclp_induct)
  case (base t)
  then show ?case by (cases s; cases t) simp_all
next
  case (step t u)
  then show ?case by (cases t; cases u) simp_all
qed

section \<open>Properties\<close>

definition sample_prepared :: effect_journal where
  "sample_prepared = snd (prepare sample_intent (ascii ''ob-1'') (ascii ''delivered'') 5 journal_new)"

definition sample_prepared_receipt :: operation_receipt where
  "sample_prepared_receipt = sample_receipt V3"

lemma sample_prepare:
  "prepare sample_intent (ascii ''ob-1'') (ascii ''delivered'') 5 journal_new = (Inr sample_prepared_receipt, sample_prepared)"
  by (simp add: sample_prepared_def sample_prepared_receipt_def sample_receipt_def prepare_def
      prepare_versioned_new journal_new_def)

lemma sample_prepared_reachable: "journal_reachable V3 sample_prepared"
proof -
  have "apply_versioned V3 (Prepare sample_intent (ascii ''ob-1'') (ascii ''delivered'') 5) journal_new
      = (Inr sample_prepared_receipt, sample_prepared)"
    using sample_prepare by (simp add: apply_versioned_def prepare_def)
  from journal_evolves.applied [OF journal_evolves.same _ this] show ?thesis
    by (simp add: journal_reachable_def)
qed

lemma sample_operation: "bt_get (ej_operations sample_prepared) (ascii ''op-1'') = Some sample_prepared_receipt"
  by (simp add: sample_prepared_def sample_prepared_receipt_def sample_receipt_def prepare_def
      prepare_versioned_new journal_new_def sample_intent_def bt_get_def)

text \<open>C2: every journal that live operation or versioned replay can build keeps its three maps
  consistent: operations, idempotency keys and obligations describe the same effects one to one; every
  obligation's state and proof agree with its operation's receipt; timestamps are ordered; a cancelled
  operation was never committed; a settled one carries its evidence; an unrecorded indeterminate reason
  occurs only on a version-1 receipt; and a version-3 cancellation carries the proof computed from the
  journal's own prepared record.\<close>

theorem journal_invariant:
  assumes "journal_reachable v j"
  shows "journal_inv v j"
  using assms by (rule reachable_inv)

theorem journal_invariant_witness: "journal_inv V3 sample_prepared"
  by (rule journal_invariant [OF sample_prepared_reachable])

text \<open>C7: whatever records are applied to a journal, accepted or refused, an operation's receipt
  survives with its intent, authority, preparation time and version unchanged; it changes only forward
  along the lifecycle with a strictly later timestamp, a terminal receipt never changes again, and an
  operation is cancelled only out of the prepared state.\<close>

theorem receipts_only_move_forward:
  assumes "journal_evolves v j w k" and "operation j op = Some r"
  shows "\<exists>r'. operation k op = Some r' \<and> same_identity r r'
    \<and> (r' \<noteq> r \<longrightarrow> can_transition_to\<^sup>+\<^sup>+ (rc_state r) (rc_state r') \<and> rc_updated_at r < rc_updated_at r')
    \<and> (is_terminal (rc_state r) \<longrightarrow> r' = r)
    \<and> (rc_state r' = Cancelled \<and> rc_state r \<noteq> Cancelled \<longrightarrow> rc_state r = Prepared)"
proof -
  obtain r' where r': "bt_get (ej_operations k) op = Some r'" "receipt_history r r'"
    using evolves_history [OF assms(1)] assms(2) by (auto simp: operation_def)
  then show ?thesis
    using no_transition_from_terminal [of "rc_state r" "rc_state r'"] cancelled_only_from_prepared [of "rc_state r" "rc_state r'"]
    by (auto simp: operation_def receipt_history_def same_identity_def)
qed

theorem receipts_only_move_forward_witness:
  "\<exists>r'. operation sample_prepared (ascii ''op-1'') = Some r' \<and> same_identity sample_prepared_receipt r'"
  using receipts_only_move_forward [OF journal_evolves.same, of sample_prepared "ascii ''op-1''" sample_prepared_receipt]
    sample_operation by (auto simp: operation_def)

text \<open>A successful preparation is on record; another intent under a recorded key or operation id conflicts.\<close>

lemma prepare_on_record:
  assumes inv: "journal_inv v j1" and run: "prepare intent ob p now j = (Inr r, j1)"
  shows "bt_get (ej_operations j1) (ei_operation_id intent) = Some r \<and> rc_intent r = intent"
proof (cases "bt_get (ej_idempotency j) (ei_idempotency_key intent)")
  case None
  then show ?thesis using run
    by (auto simp: prepare_def prepare_versioned_def bt_contains_def Let_def split: if_splits)
next
  case (Some i)
  then have "bt_get (ej_operations j) i = Some r" "rc_intent r = intent" "j1 = j"
    using run by (auto simp: prepare_def prepare_versioned_def split: option.splits if_splits)
  then show ?thesis using journal_inv_receipt [OF inv] by auto
qed

lemma prepare_conflicts:
  assumes inv: "journal_inv w k" and r: "bt_get (ej_operations k) (ei_operation_id intent) = Some r" "rc_intent r = intent"
    and i': "i' \<noteq> intent" "ei_idempotency_key i' = ei_idempotency_key intent \<or> ei_operation_id i' = ei_operation_id intent"
  shows "prepare i' ob p now k = (Inl IdempotencyConflict, k)"
proof -
  have key: "bt_get (ej_idempotency k) (ei_idempotency_key intent) = Some (ei_operation_id intent)"
    using journal_inv_idempotency [OF inv] r by blast
  show ?thesis
  proof (cases "bt_get (ej_idempotency k) (ei_idempotency_key i')")
    case None
    then show ?thesis using i' key r by (auto simp: prepare_def prepare_versioned_def bt_contains_def)
  next
    case (Some i)
    then obtain q where q: "bt_get (ej_operations k) i = Some q" using journal_inv_idempotency [OF inv] by blast
    have "rc_intent q \<noteq> i'"
    proof
      assume "rc_intent q = i'"
      moreover from this have "i = ei_operation_id intent"
        using i'(2) journal_inv_receipt [OF inv q] key Some by (elim disjE) simp_all
      ultimately show False using q r i'(1) by simp
    qed
    then show ?thesis using Some q by (simp add: prepare_def prepare_versioned_def)
  qed
qed

text \<open>C8: preparation is exactly once. After an intent has been prepared, and whatever has happened
  to the journal since, preparing the same intent again returns the operation's current receipt and
  changes nothing, and preparing a different intent under the same idempotency key or operation id is
  refused as an idempotency conflict and changes nothing.\<close>

theorem prepare_exactly_once:
  assumes "journal_reachable v j" and "prepare intent ob p now j = (Inr r, j1)" and "journal_evolves V3 j1 w k"
  shows "\<exists>r'. operation k (ei_operation_id intent) = Some r' \<and> rc_intent r' = intent
    \<and> (\<forall>ob' p' now'. prepare intent ob' p' now' k = (Inr r', k))
    \<and> (\<forall>i' ob' p' now'. i' \<noteq> intent
          \<and> (ei_idempotency_key i' = ei_idempotency_key intent \<or> ei_operation_id i' = ei_operation_id intent)
        \<longrightarrow> prepare i' ob' p' now' k = (Inl IdempotencyConflict, k))"
proof -
  have le: "v \<le> V3" by (cases v) (simp_all add: less_eq_effect_record_version_def version_rank_def)
  have inv1: "journal_inv V3 j1"
    using prepare_versioned_inv [OF reachable_inv [OF assms(1)] le, of intent ob p system_default now] assms(2)
    by (simp add: prepare_def)
  have invk: "journal_inv w k" by (rule evolves_inv [OF assms(3) inv1])
  obtain r' where r': "bt_get (ej_operations k) (ei_operation_id intent) = Some r'" "rc_intent r' = intent"
    using prepare_on_record [OF inv1 assms(2)] evolves_history [OF assms(3)]
    by (auto simp: receipt_history_def same_identity_def)
  then have key: "bt_get (ej_idempotency k) (ei_idempotency_key intent) = Some (ei_operation_id intent)"
    using journal_inv_idempotency [OF invk] by blast
  note prepare_conflicts [OF invk r']
  then show ?thesis using key r' by (auto simp: operation_def prepare_def prepare_versioned_def)
qed

theorem prepare_exactly_once_witness:
  "\<exists>r'. operation sample_prepared (ei_operation_id sample_intent) = Some r'
     \<and> prepare sample_intent (ascii ''ob-2'') (ascii ''other'') 9 sample_prepared = (Inr r', sample_prepared)"
proof -
  have "journal_reachable V1 journal_new" by (simp add: journal_reachable_def journal_evolves.same)
  from prepare_exactly_once [OF this sample_prepare journal_evolves.same] show ?thesis by blast
qed

text \<open>The live entry point applies a record under the current rules.\<close>

lemma apply_transition_current: "apply_transition t j = apply_versioned V3 t j"
  by (simp add: apply_transition_def apply_versioned_def prepare_def transition_def not_before_V3
      split: effect_journal_transition.splits)

text \<open>The error, if any, that a fallible call reports.\<close>

definition refusal :: "'e + 'a \<Rightarrow> 'e option" where
  "refusal m = (case m of Inl e \<Rightarrow> Some e | Inr _ \<Rightarrow> None)"

lemma refusal_simps [simp]: "refusal (Inl e) = Some e" "refusal (Inr x) = None"
  by (simp_all add: refusal_def)

lemma validate_transition_agrees:
  "refusal (validate_transition j op nxt now d c) = refusal (fst (transition op nxt now d c j))"
  by (auto simp: validate_transition_def transition_def transition_under_def Let_def split: option.splits sum.splits)

lemma validate_cancel_agrees:
  "refusal (validate_cancel j op now evidence reason) = refusal (fst (cancel op now evidence reason j))"
  by (cases "bt_get (ej_operations j) op"; cases "cancellation_proof j op evidence")
    (auto simp: validate_cancel_def cancel_def cancel_under_def transition_under_def Let_def cancellation_proof_def
      prepared_record_def split: option.splits sum.splits)

lemma validate_prepare_agrees:
  "refusal (validate_prepare j intent ob) = refusal (fst (prepare intent ob p now j))"
  by (auto simp: validate_prepare_def prepare_def prepare_versioned_def Let_def split: option.splits)

lemma validate_prepare_with_authority_agrees:
  "refusal (validate_prepare_with_authority j intent ob p a) = refusal (fst (prepare_with_authority intent ob p a now j))"
proof (cases "validate_prepare_with_authority j intent ob p a")
  case (Inr found)
  then have "refusal (validate_prepare j intent ob) = None"
    by (auto simp: validate_prepare_with_authority_def rust_simps split: if_splits)
  moreover have "refusal (validate_prepare j intent ob) = refusal (fst (prepare_versioned intent ob p a now V3 j))"
    by (auto simp: validate_prepare_def prepare_versioned_def Let_def split: option.splits)
  ultimately show ?thesis using Inr by (simp add: prepare_with_authority_def)
qed (simp add: prepare_with_authority_def)

lemma validate_reconcile_verified_agrees:
  "refusal (validate_reconcile_verified j op proof now) = refusal (fst (reconcile_verified op proof now j))"
  by (auto simp: validate_reconcile_verified_def reconcile_verified_def settle_def Let_def split: option.splits)

lemma validate_reconcile_failed_agrees:
  assumes "reason \<noteq> []" and "\<And>r. operation j op = Some r \<Longrightarrow> rc_state r \<noteq> Prepared"
  shows "refusal (validate_reconcile_failed j op proof now reason) = refusal (fst (reconcile_failed op proof now reason j))"
proof (cases "bt_get (ej_operations j) op")
  case (Some r)
  then have "rc_state r \<noteq> Prepared" using assms(2) by (simp add: operation_def)
  then show ?thesis using Some assms(1)
    by (cases "rc_state r") (simp_all add: validate_reconcile_failed_def reconcile_failed_def settle_def Let_def)
qed (simp add: validate_reconcile_failed_def reconcile_failed_def assms(1))

text \<open>
  Where the failure pre-validator and the operation part ways: the validator does not look at the
  reason, and it refuses a prepared operation that the operation itself fails.
\<close>

lemma validate_reconcile_failed_ignores_reason:
  assumes "operation j op = Some r" and "rc_state r = Indeterminate" and "rc_updated_at r < now"
  shows "validate_reconcile_failed j op proof now [] = Inr None"
    and "reconcile_failed op proof now [] j = (Inl EvidenceRequired, j)"
  using assms by (simp_all add: validate_reconcile_failed_def reconcile_failed_def operation_def)

lemma validate_reconcile_failed_refuses_prepared:
  assumes "operation j op = Some r" and "rc_state r = Prepared" and "rc_updated_at r < now" and "reason \<noteq> []"
  shows "validate_reconcile_failed j op proof now reason = Inl InvalidEffectTransition"
    and "\<exists>q. fst (reconcile_failed op proof now reason j) = Inr q"
  using assms by (simp_all add: validate_reconcile_failed_def reconcile_failed_def operation_def settle_def Let_def)

text \<open>the pre-validators the durable journal calls before it writes decide exactly as the
  operations they stand for: each reports an error if and only if the operation does, and the same one.
  For the failure reconciliation this holds when the reason is not empty and the operation is not still
  prepared. A refusal leaves the journal unchanged.\<close>

theorem validators_agree:
  "refusal (validate_transition j op nxt now d c) = refusal (fst (transition op nxt now d c j))
   \<and> refusal (validate_cancel j op now evidence c) = refusal (fst (cancel op now evidence c j))
   \<and> refusal (validate_prepare j intent ob) = refusal (fst (prepare intent ob p now j))
   \<and> refusal (validate_prepare_with_authority j intent ob p a) = refusal (fst (prepare_with_authority intent ob p a now j))
   \<and> refusal (validate_reconcile_verified j op evidence now) = refusal (fst (reconcile_verified op evidence now j))
   \<and> (reason \<noteq> [] \<and> (\<forall>r. operation j op = Some r \<longrightarrow> rc_state r \<noteq> Prepared) \<longrightarrow>
        refusal (validate_reconcile_failed j op evidence now reason) = refusal (fst (reconcile_failed op evidence now reason j)))
   \<and> (refusal (fst (apply_transition t j)) \<noteq> None \<longrightarrow> snd (apply_transition t j) = j)"
proof (intro conjI validate_transition_agrees validate_cancel_agrees validate_prepare_agrees
    validate_prepare_with_authority_agrees validate_reconcile_verified_agrees)
  show "reason \<noteq> [] \<and> (\<forall>r. operation j op = Some r \<longrightarrow> rc_state r \<noteq> Prepared) \<longrightarrow>
      refusal (validate_reconcile_failed j op evidence now reason) = refusal (fst (reconcile_failed op evidence now reason j))"
    using validate_reconcile_failed_agrees by simp
  show "refusal (fst (apply_transition t j)) \<noteq> None \<longrightarrow> snd (apply_transition t j) = j"
    using refusal_atomic [of V3 t j]
    by (cases "apply_versioned V3 t j"; cases "fst (apply_versioned V3 t j)") (auto simp: apply_transition_current)
qed

theorem validators_agree_witness:
  "refusal (validate_reconcile_failed journal_new (ascii ''op-9'') sample_digest 7 (ascii ''lost''))
     = refusal (fst (reconcile_failed (ascii ''op-9'') sample_digest 7 (ascii ''lost'') journal_new))
   \<and> snd (apply_transition (ReconcileVerified (ascii ''op-9'') sample_digest 7) journal_new) = journal_new"
proof -
  have "operation journal_new (ascii ''op-9'') = None" "ascii ''lost'' \<noteq> []"
    by (simp_all add: operation_def journal_new_def ascii_def)
  moreover have "refusal (fst (apply_transition (ReconcileVerified (ascii ''op-9'') sample_digest 7) journal_new)) \<noteq> None"
    by (simp add: apply_transition_def reconcile_verified_def journal_new_def)
  ultimately show ?thesis
    using validators_agree [where j = journal_new and op = "ascii ''op-9''" and evidence = sample_digest and now = 7
        and reason = "ascii ''lost''" and t = "ReconcileVerified (ascii ''op-9'') sample_digest 7"]
    by simp
qed

end
