(* ===== verification/Durable_Journal.thy ===== *)
theory Durable_Journal
  imports Canonical
begin

text \<open>
  The append journal of \<open>crates/fss-ledger\<close>: the record framing and root chain (\<open>format.rs\<close>), the
  non-mutating recovery scan (\<open>recovery.rs\<close>) and the writable two-phase journal with its reconciliation
  of an append whose outcome is unknown (\<open>journal.rs\<close>).

  The file is its bytes. What the operating system does is an argument of each operation: for every
  call that can fail, whether it does, and for a failed write how many bytes of it reached the file.
\<close>

section \<open>error.rs\<close>

datatype corruption_kind =
    RecordMagic | FormatVersion | Sequence | PreviousRoot | PayloadLength | PayloadDigest | CommitMagic | CommitRoot

datatype append_phase =
    BodyWrite | BodySync | CommitWrite | CommitSync
  | ReconcileRead | ReconcileTruncate | ReconcileSync | ReconcileSeek

datatype external_mutation_kind = LengthDivergence | ContentDivergence

datatype journal_error =
    Io
  | Corrupt u64 corruption_kind
  | IncompleteTail u64
  | PayloadTooLarge usize usize
  | SequenceExhausted
  | LengthOverflow
  | AppendIndeterminate u64 append_phase
  | ReconciliationRequired u64
  | NoPendingAppend
  | ExternalMutation u64 u64 external_mutation_kind

section \<open>format.rs\<close>

definition RECORD_MAGIC :: bytes where "RECORD_MAGIC = ascii ''FSSJRN01''"
definition COMMIT_MAGIC :: bytes where "COMMIT_MAGIC = ascii ''FSSCMT01''"
definition FORMAT_VERSION :: nat where "FORMAT_VERSION = 1"
definition HEADER_LEN :: usize where "HEADER_LEN = 8 + 2 + 8 + 2 + 4 + 32 + 32"
definition TRAILER_LEN :: usize where "TRAILER_LEN = 8 + 32"
definition ROOT_DOMAIN :: bytes where "ROOT_DOMAIN = ascii ''FSS-JOURNAL-RECORD-ROOT-V1'' @ [0]"
definition MAX_RECORD_PAYLOAD_BYTES :: usize where "MAX_RECORD_PAYLOAD_BYTES = 16 * 1024 * 1024"

definition record_root :: "u64 \<Rightarrow> u16 \<Rightarrow> nat \<Rightarrow> bytes \<Rightarrow> bytes \<Rightarrow> bytes" where
  "record_root sequence kind payload_len previous_root payload_digest =
     sha256 (ROOT_DOMAIN @ be_bytes 8 sequence @ be_bytes 2 (unat kind) @ be_bytes 4 payload_len
             @ previous_root @ payload_digest)"

section \<open>recovery.rs\<close>

record journal_record =
  jr_sequence :: u64
  jr_kind :: u16
  jr_payload :: bytes
  jr_payload_digest :: content_digest
  jr_root :: content_digest

definition framed_len :: "journal_record \<Rightarrow> u64" where
  "framed_len r = HEADER_LEN + length (jr_payload r) + TRAILER_LEN"

record recovery_report =
  rr_records :: "journal_record list"
  rr_committed_len :: u64
  rr_incomplete_tail :: "u64 option"
  rr_last_root :: content_digest

definition report :: "journal_record list \<Rightarrow> usize \<Rightarrow> usize option \<Rightarrow> bytes \<Rightarrow> recovery_report" where
  "report records committed_len incomplete_tail last_root =
     \<lparr>rr_records = records, rr_committed_len = committed_len, rr_incomplete_tail = incomplete_tail,
      rr_last_root = digest_new Sha256 last_root\<rparr>"

text \<open>
  One round of the scan, on the bytes from \<open>start\<close> on: an error, an incomplete final record (\<open>None\<close>),
  or a committed record with the offset after it. Reads at \<open>offset\<close> are reads at \<open>offset - start\<close> of
  those bytes.
\<close>

definition recover_round ::
  "usize \<Rightarrow> bytes \<Rightarrow> u64 \<Rightarrow> bytes \<Rightarrow> journal_error + (journal_record \<times> usize) option" where
  "recover_round start rest expected_sequence previous_root =
     (let remaining = length rest; check_len = min remaining 8 in
      if take check_len rest \<noteq> take check_len RECORD_MAGIC then Inl (Corrupt start RecordMagic)
      else if remaining < HEADER_LEN then Inr None
      else if from_be (subslice rest 8 10) \<noteq> FORMAT_VERSION then Inl (Corrupt start FormatVersion)
      else
        let sequence = from_be (subslice rest 10 18) in
        if sequence \<noteq> expected_sequence then Inl (Corrupt start Sequence)
        else
          let kind = of_nat (from_be (subslice rest 18 20)); payload_len = from_be (subslice rest 20 24) in
          if payload_len > MAX_RECORD_PAYLOAD_BYTES then Inl (Corrupt start PayloadLength)
          else if subslice rest 24 56 \<noteq> previous_root then Inl (Corrupt start PreviousRoot)
          else
            let named_payload_digest = subslice rest 56 88 in
            if remaining - HEADER_LEN < payload_len + TRAILER_LEN then Inr None
            else
              let payload = subslice rest 88 (88 + payload_len) in
              if sha256 payload \<noteq> named_payload_digest then Inl (Corrupt start PayloadDigest)
              else if subslice rest (88 + payload_len) (96 + payload_len) \<noteq> COMMIT_MAGIC then Inl (Corrupt start CommitMagic)
              else
                let committed_root = subslice rest (96 + payload_len) (128 + payload_len) in
                if committed_root \<noteq> record_root sequence kind payload_len previous_root named_payload_digest
                then Inl (Corrupt start CommitRoot)
                else Inr (Some (\<lparr>jr_sequence = sequence, jr_kind = kind, jr_payload = payload,
                       jr_payload_digest = digest_new Sha256 named_payload_digest,
                       jr_root = digest_new Sha256 committed_root\<rparr>, start + 128 + payload_len)))"

lemma recover_round_advances:
  "recover_round start rest s prev = Inr (Some (r, next_offset)) \<Longrightarrow> start < next_offset"
  by (auto simp: recover_round_def Let_def split: if_splits)

function recover_loop ::
  "bytes \<Rightarrow> usize \<Rightarrow> u64 \<Rightarrow> bytes \<Rightarrow> journal_record list \<Rightarrow> journal_error + recovery_report" where
  "recover_loop bs offset expected_sequence previous_root records =
     (if offset < length bs then
        (case recover_round offset (drop offset bs) expected_sequence previous_root of
           Inl err \<Rightarrow> Inl err
         | Inr None \<Rightarrow> Inr (report records offset (Some offset) previous_root)
         | Inr (Some (r, next_offset)) \<Rightarrow>
             (case checked_add expected_sequence 1 of
                None \<Rightarrow> Inl SequenceExhausted
              | Some next_sequence \<Rightarrow>
                  recover_loop bs next_offset next_sequence (cd_bytes (jr_root r)) (records @ [r])))
      else Inr (report records offset None previous_root))"
  by pat_completeness auto

termination
  by (relation "measure (\<lambda>(bs, offset, _). length bs - offset)") (auto dest: recover_round_advances)

declare recover_loop.simps [simp del]

definition recover_bytes :: "bytes \<Rightarrow> journal_error + recovery_report" where
  "recover_bytes bs = recover_loop bs 0 1 (replicate 32 0) []"

section \<open>journal.rs\<close>

datatype incomplete_tail_policy = Reject | Truncate

datatype append_reconciliation = Committed journal_record | NotCommitted u64

record pending_append =
  pa_record :: journal_record
  pa_previous_root :: bytes
  pa_base_committed_len :: u64
  pa_expected_end :: u64
  pa_next_sequence :: u64

record journal =
  jn_file :: bytes
  jn_next_sequence :: u64
  jn_last_root :: bytes
  jn_committed_len :: u64
  jn_pending :: "pending_append option"

text \<open>
  Opening a file whose bytes could be read: the input and output errors of the open itself are left out.
\<close>

definition journal_open :: "incomplete_tail_policy \<Rightarrow> bytes \<Rightarrow> journal_error + journal" where
  "journal_open policy bs =
     try_then (recover_bytes bs) (\<lambda>recovery.
     try_then
       (case rr_records recovery of
          [] \<Rightarrow> Inr 1
        | rs \<Rightarrow> ok_or (checked_add (jr_sequence (last rs)) 1) SequenceExhausted) (\<lambda>next_sequence.
     try_then
       (case rr_incomplete_tail recovery of
          None \<Rightarrow> Inr bs
        | Some offset \<Rightarrow>
            (case policy of
               Reject \<Rightarrow> Inl (IncompleteTail offset)
             | Truncate \<Rightarrow> Inr (take (rr_committed_len recovery) bs))) (\<lambda>file.
     Inr \<lparr>jn_file = file, jn_next_sequence = next_sequence, jn_last_root = cd_bytes (rr_last_root recovery),
           jn_committed_len = rr_committed_len recovery, jn_pending = None\<rparr>)))"

text \<open>What the system calls of one append do; a failed write reports how much of it was written.\<close>

record append_io =
  io_metadata :: bool
  io_read_tail :: bool
  io_seek :: bool
  io_body :: "nat option"
  io_body_sync :: bool
  io_trailer :: "nat option"
  io_commit_sync :: bool

definition write_at :: "usize \<Rightarrow> bytes \<Rightarrow> bytes \<Rightarrow> bytes" where
  "write_at pos bs file = take pos file @ bs @ drop (pos + length bs) file"

definition check_committed_tail :: "bool \<Rightarrow> bool \<Rightarrow> bytes \<Rightarrow> u64 \<Rightarrow> bytes \<Rightarrow> journal_error + unit" where
  "check_committed_tail metadata_ok read_ok file committed_len last_root =
     (if \<not> metadata_ok then Inl Io
      else if length file \<noteq> committed_len then Inl (ExternalMutation committed_len (length file) LengthDivergence)
      else if committed_len > 0 then
        if committed_len < TRAILER_LEN then Inl (ExternalMutation committed_len (length file) ContentDivergence)
        else if \<not> read_ok then Inl Io
        else
          let trailer = subslice file (committed_len - TRAILER_LEN) committed_len in
          refuse_if (take 8 trailer \<noteq> COMMIT_MAGIC \<or> drop 8 trailer \<noteq> last_root)
            (ExternalMutation committed_len (length file) ContentDivergence)
      else Inr ())"

definition record_body :: "u64 \<Rightarrow> u16 \<Rightarrow> bytes \<Rightarrow> bytes \<Rightarrow> bytes" where
  "record_body sequence kind payload last_root =
     RECORD_MAGIC @ be_bytes 2 FORMAT_VERSION @ be_bytes 8 sequence @ be_bytes 2 (unat kind)
     @ be_bytes 4 (length payload) @ last_root @ sha256 payload @ payload"

definition record_trailer :: "bytes \<Rightarrow> bytes" where
  "record_trailer root = COMMIT_MAGIC @ root"

definition commit_pending :: "pending_append \<Rightarrow> journal \<Rightarrow> journal_record \<times> journal" where
  "commit_pending p j =
     (pa_record p,
      j\<lparr>jn_next_sequence := pa_next_sequence p, jn_last_root := cd_bytes (jr_root (pa_record p)),
        jn_committed_len := pa_expected_end p, jn_pending := None\<rparr>)"

text \<open>The write phases, once the append has been made pending.\<close>

definition write_record ::
  "append_io \<Rightarrow> pending_append \<Rightarrow> bytes \<Rightarrow> bytes \<Rightarrow> journal \<Rightarrow> (journal_error + journal_record) \<times> journal" where
  "write_record io p body trailer j =
     (let sequence = jr_sequence (pa_record p); pos = jn_committed_len j in
      case io_body io of
        Some n \<Rightarrow> (Inl (AppendIndeterminate sequence BodyWrite), j\<lparr>jn_file := write_at pos (take n body) (jn_file j)\<rparr>)
      | None \<Rightarrow>
          let j = j\<lparr>jn_file := write_at pos body (jn_file j)\<rparr> in
          if \<not> io_body_sync io then (Inl (AppendIndeterminate sequence BodySync), j)
          else
            (case io_trailer io of
               Some n \<Rightarrow>
                 (Inl (AppendIndeterminate sequence CommitWrite),
                  j\<lparr>jn_file := write_at (pos + length body) (take n trailer) (jn_file j)\<rparr>)
             | None \<Rightarrow>
                 let j = j\<lparr>jn_file := write_at (pos + length body) trailer (jn_file j)\<rparr> in
                 if \<not> io_commit_sync io then (Inl (AppendIndeterminate sequence CommitSync), j)
                 else case commit_pending p j of (r, j) \<Rightarrow> (Inr r, j)))"

definition journal_append ::
  "append_io \<Rightarrow> u16 \<Rightarrow> bytes \<Rightarrow> journal \<Rightarrow> (journal_error + journal_record) \<times> journal" where
  "journal_append io kind payload j =
     (case jn_pending j of
        Some p \<Rightarrow> (Inl (ReconciliationRequired (jr_sequence (pa_record p))), j)
      | None \<Rightarrow>
          if length payload > MAX_RECORD_PAYLOAD_BYTES
          then (Inl (PayloadTooLarge (length payload) MAX_RECORD_PAYLOAD_BYTES), j)
          else
            (case check_committed_tail (io_metadata io) (io_read_tail io) (jn_file j) (jn_committed_len j) (jn_last_root j) of
               Inl err \<Rightarrow> (Inl err, j)
             | Inr _ \<Rightarrow>
                 let sequence = jn_next_sequence j in
                 (case checked_add sequence 1 of
                    None \<Rightarrow> (Inl SequenceExhausted, j)
                  | Some next_sequence \<Rightarrow>
                      let payload_digest = sha256 payload;
                          root = record_root sequence kind (length payload) (jn_last_root j) payload_digest;
                          body = record_body sequence kind payload (jn_last_root j);
                          trailer = record_trailer root in
                      (case checked_add (jn_committed_len j) (length body + length trailer) of
                         None \<Rightarrow> (Inl LengthOverflow, j)
                       | Some expected_end \<Rightarrow>
                           let p = \<lparr>pa_record = \<lparr>jr_sequence = sequence, jr_kind = kind, jr_payload = payload,
                                                 jr_payload_digest = digest_new Sha256 payload_digest,
                                                 jr_root = digest_new Sha256 root\<rparr>,
                                    pa_previous_root = jn_last_root j, pa_base_committed_len = jn_committed_len j,
                                    pa_expected_end = expected_end, pa_next_sequence = next_sequence\<rparr> in
                           if \<not> io_seek io then (Inl Io, j)
                           else write_record io p body trailer (j\<lparr>jn_pending := Some p\<rparr>)))))"

record reconcile_io =
  io_reconcile_read :: bool
  io_truncate :: bool
  io_reconcile_sync :: bool
  io_reconcile_seek :: bool

text \<open>Truncating a proven incomplete suffix, each of its calls with its own phase.\<close>

definition truncate_tail ::
  "reconcile_io \<Rightarrow> u64 \<Rightarrow> u64 \<Rightarrow> journal \<Rightarrow> (journal_error + unit) \<times> journal" where
  "truncate_tail io sequence end_len j =
     (if \<not> io_truncate io then (Inl (AppendIndeterminate sequence ReconcileTruncate), j)
      else
        let j = j\<lparr>jn_file := take end_len (jn_file j)\<rparr> in
        if \<not> io_reconcile_sync io then (Inl (AppendIndeterminate sequence ReconcileSync), j)
        else if \<not> io_reconcile_seek io then (Inl (AppendIndeterminate sequence ReconcileSeek), j)
        else (Inr (), j))"

definition external_mutation :: "pending_append \<Rightarrow> journal \<Rightarrow> journal_error" where
  "external_mutation p j =
     ExternalMutation (pa_expected_end p) (length (jn_file j))
       (if length (jn_file j) \<noteq> pa_expected_end p then LengthDivergence else ContentDivergence)"

definition reconcile_pending ::
  "reconcile_io \<Rightarrow> incomplete_tail_policy \<Rightarrow> journal \<Rightarrow> (journal_error + append_reconciliation) \<times> journal" where
  "reconcile_pending io policy j =
     (case jn_pending j of
        None \<Rightarrow> (Inl NoPendingAppend, j)
      | Some p \<Rightarrow>
          let sequence = jr_sequence (pa_record p) in
          if \<not> io_reconcile_read io then (Inl (AppendIndeterminate sequence ReconcileRead), j)
          else
            (case recover_bytes (jn_file j) of
               Inl err \<Rightarrow> (Inl err, j)
             | Inr rep \<Rightarrow>
                 let committed_match =
                       rr_committed_len rep = pa_expected_end p \<and> rr_last_root rep = jr_root (pa_record p)
                       \<and> rr_records rep \<noteq> [] \<and> last (rr_records rep) = pa_record p;
                     previous_prefix =
                       cd_bytes (rr_last_root rep) = pa_previous_root p \<and> rr_committed_len rep = pa_base_committed_len p in
                 if committed_match \<and> rr_incomplete_tail rep \<noteq> None then
                   (case policy of
                      Reject \<Rightarrow> (Inl (IncompleteTail (the (rr_incomplete_tail rep))), j)
                    | Truncate \<Rightarrow>
                        (case truncate_tail io sequence (pa_expected_end p) j of
                           (Inl err, j) \<Rightarrow> (Inl err, j)
                         | (Inr _, j) \<Rightarrow> (case commit_pending p j of (r, j) \<Rightarrow> (Inr (Committed r), j))))
                 else if committed_match \<and> length (jn_file j) = pa_expected_end p then
                   if \<not> io_reconcile_sync io then (Inl (AppendIndeterminate sequence ReconcileSync), j)
                   else (case commit_pending p j of (r, j) \<Rightarrow> (Inr (Committed r), j))
                 else if previous_prefix \<and> rr_incomplete_tail rep \<noteq> None then
                   (case policy of
                      Reject \<Rightarrow> (Inl (IncompleteTail (the (rr_incomplete_tail rep))), j)
                    | Truncate \<Rightarrow>
                        (case truncate_tail io sequence (pa_base_committed_len p) j of
                           (Inl err, j) \<Rightarrow> (Inl err, j)
                         | (Inr _, j) \<Rightarrow> (Inr (NotCommitted sequence), j\<lparr>jn_pending := None\<rparr>)))
                 else if previous_prefix \<and> length (jn_file j) = pa_base_committed_len p then
                   (Inr (NotCommitted sequence), j\<lparr>jn_pending := None\<rparr>)
                 else (Inl (external_mutation p j), j)))"

definition verify_committed_tail :: "bool \<Rightarrow> bool \<Rightarrow> bool \<Rightarrow> journal \<Rightarrow> journal_error + unit" where
  "verify_committed_tail open_ok metadata_ok read_ok j =
     (case jn_pending j of
        Some p \<Rightarrow> Inl (ReconciliationRequired (jr_sequence (pa_record p)))
      | None \<Rightarrow>
          if \<not> open_ok then Inl Io
          else check_committed_tail metadata_ok read_ok (jn_file j) (jn_committed_len j) (jn_last_root j))"

definition journal_verify :: "bool \<Rightarrow> journal \<Rightarrow> journal_error + recovery_report" where
  "journal_verify io_ok j =
     (case jn_pending j of
        Some p \<Rightarrow> Inl (ReconciliationRequired (jr_sequence (pa_record p)))
      | None \<Rightarrow>
          if \<not> io_ok then Inl Io
          else
            try_then (recover_bytes (jn_file j)) (\<lambda>rep.
            case rr_incomplete_tail rep of
              Some offset \<Rightarrow> Inl (IncompleteTail offset)
            | None \<Rightarrow>
                if cd_bytes (rr_last_root rep) \<noteq> jn_last_root j \<or> rr_committed_len rep \<noteq> jn_committed_len j then
                  Inl (ExternalMutation (jn_committed_len j) (rr_committed_len rep)
                    (if rr_committed_len rep \<noteq> jn_committed_len j then LengthDivergence else ContentDivergence))
                else Inr rep))"

section \<open>The log a journal file holds\<close>

text \<open>
  The specification: a log is a list of entries (kind and payload); its file is the concatenation of
  their frames, each chained to the root of the one before it.
\<close>

type_synonym log_entry = "u16 \<times> bytes"

definition entry_ok :: "log_entry \<Rightarrow> bool" where
  "entry_ok e \<longleftrightarrow> length (snd e) \<le> MAX_RECORD_PAYLOAD_BYTES"

definition entry_root :: "u64 \<Rightarrow> bytes \<Rightarrow> log_entry \<Rightarrow> bytes" where
  "entry_root s prev e = record_root s (fst e) (length (snd e)) prev (sha256 (snd e))"

definition entry_frame :: "u64 \<Rightarrow> bytes \<Rightarrow> log_entry \<Rightarrow> bytes" where
  "entry_frame s prev e = record_body s (fst e) (snd e) prev @ record_trailer (entry_root s prev e)"

definition entry_record :: "u64 \<Rightarrow> bytes \<Rightarrow> log_entry \<Rightarrow> journal_record" where
  "entry_record s prev e =
     \<lparr>jr_sequence = s, jr_kind = fst e, jr_payload = snd e, jr_payload_digest = digest_new Sha256 (sha256 (snd e)),
      jr_root = digest_new Sha256 (entry_root s prev e)\<rparr>"

fun log_bytes :: "u64 \<Rightarrow> bytes \<Rightarrow> log_entry list \<Rightarrow> bytes" where
  "log_bytes s prev [] = []"
| "log_bytes s prev (e # es) = entry_frame s prev e @ log_bytes (s + 1) (entry_root s prev e) es"

fun log_records :: "u64 \<Rightarrow> bytes \<Rightarrow> log_entry list \<Rightarrow> journal_record list" where
  "log_records s prev [] = []"
| "log_records s prev (e # es) = entry_record s prev e # log_records (s + 1) (entry_root s prev e) es"

fun log_root :: "u64 \<Rightarrow> bytes \<Rightarrow> log_entry list \<Rightarrow> bytes" where
  "log_root s prev [] = prev"
| "log_root s prev (e # es) = log_root (s + 1) (entry_root s prev e) es"

lemma length_sha256:
  "length m \<le> MAX_RECORD_PAYLOAD_BYTES \<Longrightarrow> length (sha256 m) = 32"
  by (simp add: sha256_eq MAX_MESSAGE_BYTES_def MAX_RECORD_PAYLOAD_BYTES_def)

lemma length_entry_root:
  assumes "length prev = 32" and "entry_ok e"
  shows "length (entry_root s prev e) = 32"
  using assms length_sha256 [of "snd e"]
  by (simp add: entry_root_def record_root_def entry_ok_def length_sha256 ROOT_DOMAIN_def ascii_def MAX_RECORD_PAYLOAD_BYTES_def)

lemma magic_lengths [simp]: "length RECORD_MAGIC = 8" "length COMMIT_MAGIC = 8"
  by (simp_all add: RECORD_MAGIC_def COMMIT_MAGIC_def ascii_def)

lemma length_record_body:
  "length prev = 32 \<Longrightarrow> length p \<le> MAX_RECORD_PAYLOAD_BYTES \<Longrightarrow> length (record_body s k p prev) = 88 + length p"
  by (simp add: record_body_def length_sha256)

lemma length_entry_frame:
  "length prev = 32 \<Longrightarrow> entry_ok e \<Longrightarrow> length (entry_frame s prev e) = 128 + length (snd e)"
  by (simp add: entry_frame_def length_record_body record_trailer_def length_entry_root) (simp add: entry_ok_def length_record_body)

lemma kind_bytes: "of_nat (from_be (be_bytes 2 (unat k))) = (k :: u16)"
proof -
  have "unat k < 65536" using unsigned_less [of k] by simp
  then show ?thesis by (simp add: from_be_bytes)
qed

lemma header_fields:
  fixes k :: u16
  assumes "length prev = 32" and "length p \<le> MAX_RECORD_PAYLOAD_BYTES" and "s \<le> u64_max"
    and "rest = RECORD_MAGIC @ be_bytes 2 FORMAT_VERSION @ be_bytes 8 s @ be_bytes 2 (unat k)
      @ be_bytes 4 (length p) @ prev @ sha256 p @ rst"
  shows "take 8 rest = RECORD_MAGIC" and "from_be (subslice rest 8 10) = FORMAT_VERSION"
    and "from_be (subslice rest 10 18) = s" and "of_nat (from_be (subslice rest 18 20)) = k"
    and "from_be (subslice rest 20 24) = length p" and "subslice rest 24 56 = prev"
    and "subslice rest 56 88 = sha256 p" and "length rest = 88 + length rst"
    and "subslice rest 88 (88 + n) = take n rst" and "subslice rest (88 + n) m = take (m - (88 + n)) (drop n rst)"
  using assms(1-3) length_sha256 [of p] kind_bytes [of k]
  by (simp_all add: assms(4) subslice_def from_be_bytes u64_max_def FORMAT_VERSION_def MAX_RECORD_PAYLOAD_BYTES_def)

lemma recover_round_frame:
  assumes "length prev = 32" and "entry_ok e" and "s \<le> u64_max"
  shows "recover_round start (entry_frame s prev e @ rst) s prev =
    Inr (Some (entry_record s prev e, start + length (entry_frame s prev e)))"
proof -
  obtain k p where e: "e = (k, p)" by (cases e)
  have p: "length p \<le> MAX_RECORD_PAYLOAD_BYTES" using assms(2) by (simp add: e entry_ok_def)
  define rest where "rest = entry_frame s prev e @ rst"
  define t where "t = p @ COMMIT_MAGIC @ entry_root s prev e @ rst"
  have "rest = RECORD_MAGIC @ be_bytes 2 FORMAT_VERSION @ be_bytes 8 s @ be_bytes 2 (unat k)
      @ be_bytes 4 (length p) @ prev @ sha256 p @ t"
    by (simp add: entry_frame_def record_body_def record_trailer_def e rest_def t_def)
  note h = header_fields [OF assms(1) p assms(3) this]
  have root: "length (entry_root s prev e) = 32" by (rule length_entry_root [OF assms(1,2)])
  have tail: "subslice rest 88 (88 + length p) = p" "subslice rest (88 + length p) (96 + length p) = COMMIT_MAGIC"
    "subslice rest (96 + length p) (128 + length p) = entry_root s prev e"
    using h(9) [of "length p"] h(10) [of "length p"] h(10) [of "length p + 8" "128 + length p"] root
    by (simp_all add: t_def add.commute)
  have "length rest = 88 + length t" "length t = 40 + length p + length rst" using h(8) root by (simp_all add: t_def)
  then have "recover_round start rest s prev = Inr (Some (entry_record s prev e, start + (128 + length p)))"
    using h(1-7) tail p
    by (simp add: recover_round_def Let_def HEADER_LEN_def TRAILER_LEN_def entry_record_def entry_root_def e)
  then show ?thesis using length_entry_frame [OF assms(1,2), of s] by (simp add: rest_def e)
qed

text \<open>A frame cut short is an incomplete record, wherever the cut is.\<close>

lemma recover_round_torn:
  assumes "length prev = 32" and "entry_ok e" and "s \<le> u64_max"
    and "0 < n" and "n < length (entry_frame s prev e)"
  shows "recover_round start (take n (entry_frame s prev e)) s prev = Inr None"
proof -
  obtain k p where e: "e = (k, p)" by (cases e)
  have p: "length p \<le> MAX_RECORD_PAYLOAD_BYTES" using assms(2) by (simp add: e entry_ok_def)
  define frame where "frame = entry_frame s prev e"
  define t where "t = p @ COMMIT_MAGIC @ entry_root s prev e"
  define header where "header = RECORD_MAGIC @ be_bytes 2 FORMAT_VERSION @ be_bytes 8 s @ be_bytes 2 (unat k)
      @ be_bytes 4 (length p) @ prev @ sha256 p"
  have frame: "frame = header @ t"
    by (simp add: entry_frame_def record_body_def record_trailer_def e frame_def t_def header_def)
  have hl: "length header = 88" using assms(1) length_sha256 [OF p] by (simp add: header_def)
  have n: "n < 128 + length p" using assms(5) length_entry_frame [OF assms(1,2), of s] by (simp add: e)
  have rl: "length (take n frame) = n" using assms(5) by (simp add: frame_def)
  have magic: "take (min n 8) (take n frame) = take (min n 8) RECORD_MAGIC"
    by (simp add: frame header_def)
  show ?thesis
  proof (cases "n < 88")
    case True
    then show ?thesis
      using magic rl assms(5) by (simp add: recover_round_def Let_def HEADER_LEN_def frame_def min_def)
  next
    case False
    then have "take n frame = RECORD_MAGIC @ be_bytes 2 FORMAT_VERSION @ be_bytes 8 s @ be_bytes 2 (unat k)
        @ be_bytes 4 (length p) @ prev @ sha256 p @ take (n - 88) t"
      using hl unfolding frame take_append by (simp add: header_def)
    note h = header_fields [OF assms(1) p assms(3) this]
    have "min n 8 = 8" "n - 88 < length p + 40" using False n by simp_all
    then have "recover_round start (take n frame) s prev = Inr None"
      using h(1-7) p n False unfolding recover_round_def Let_def rl
      by (simp add: HEADER_LEN_def TRAILER_LEN_def)
    then show ?thesis by (simp add: frame_def)
  qed
qed

text \<open>A committed round reads exactly a frame.\<close>

lemma recover_round_committed:
  assumes "recover_round start rest s prev = Inr (Some (r, off))" and "length prev = 32"
  obtains e rst where "rest = entry_frame s prev e @ rst" "entry_ok e" "s \<le> u64_max" "r = entry_record s prev e"
    "off = start + length (entry_frame s prev e)"
proof -
  define n where "n = from_be (subslice rest 20 24)"
  define k :: u16 where "k = of_nat (from_be (subslice rest 18 20))"
  define p where "p = subslice rest 88 (88 + n)"
  have len: "88 \<le> length rest" "128 + n \<le> length rest" and n: "n \<le> MAX_RECORD_PAYLOAD_BYTES"
    and magic: "take 8 rest = RECORD_MAGIC" "from_be (subslice rest 8 10) = FORMAT_VERSION"
    and seq: "from_be (subslice rest 10 18) = s" and prev: "subslice rest 24 56 = prev"
    and dig: "sha256 p = subslice rest 56 88" and cm: "subslice rest (88 + n) (96 + n) = COMMIT_MAGIC"
    and root: "subslice rest (96 + n) (128 + n) = record_root s k n prev (sha256 p)"
    and r: "r = \<lparr>jr_sequence = s, jr_kind = k, jr_payload = p, jr_payload_digest = digest_new Sha256 (sha256 p),
               jr_root = digest_new Sha256 (record_root s k n prev (sha256 p))\<rparr>" "off = start + 128 + n"
    using assms(1) by (auto simp: recover_round_def Let_def n_def k_def p_def HEADER_LEN_def TRAILER_LEN_def
        not_less min_def split: if_splits)
  have lp: "length p = n" using len by (simp add: p_def)
  have two: "be_bytes 2 (unat k) = subslice rest 18 20"
  proof -
    have "from_be (subslice rest 18 20) < 256 ^ 2" using from_be_lt [of "subslice rest 18 20"] len by simp
    then have "unat k = from_be (subslice rest 18 20)" by (simp add: k_def unat_of_nat take_bit_eq_mod)
    then show ?thesis using be_bytes_from_be [of "subslice rest 18 20"] len by simp
  qed
  have fields: "be_bytes 2 FORMAT_VERSION = subslice rest 8 10" "be_bytes 8 s = subslice rest 10 18"
      "be_bytes 4 n = subslice rest 20 24"
    using be_bytes_from_be [of "subslice rest 8 10"] be_bytes_from_be [of "subslice rest 10 18"]
      be_bytes_from_be [of "subslice rest 20 24"] magic(2) seq len by (simp_all add: n_def)
  have cut: "drop a rest = subslice rest a b @ drop b rest" if "a \<le> b" "b \<le> length rest" for a b
    using that append_take_drop_id [of "b - a" "drop a rest"] by (simp add: subslice_def)
  have "drop 8 rest = subslice rest 8 10 @ subslice rest 10 18 @ subslice rest 18 20 @ subslice rest 20 24
      @ subslice rest 24 56 @ subslice rest 56 88 @ p @ subslice rest (88 + n) (96 + n)
      @ subslice rest (96 + n) (128 + n) @ drop (128 + n) rest"
    using len cut [of 8 10] cut [of 10 18] cut [of 18 20] cut [of 20 24] cut [of 24 56] cut [of 56 88]
      cut [of 88 "88 + n"] cut [of "88 + n" "96 + n"] cut [of "96 + n" "128 + n"]
    by (simp add: p_def)
  then have "RECORD_MAGIC @ drop 8 rest = entry_frame s prev (k, p) @ drop (128 + n) rest"
    unfolding entry_frame_def record_body_def record_trailer_def entry_root_def fst_conv snd_conv lp
    using prev dig cm root fields two by simp
  then have "rest = entry_frame s prev (k, p) @ drop (128 + n) rest"
    using magic(1) append_take_drop_id [of 8 rest] by simp
  moreover have "entry_ok (k, p)" using n lp by (simp add: entry_ok_def)
  moreover have "s \<le> u64_max" using from_be_lt [of "subslice rest 10 18"] seq len by (simp add: u64_max_def)
  ultimately show ?thesis
    using that [of "(k, p)" "drop (128 + n) rest"] r lp length_entry_frame [OF assms(2), of "(k, p)" s]
    by (simp add: entry_record_def entry_root_def)
qed

section \<open>Recovery reads back the log\<close>

definition log_ok :: "u64 \<Rightarrow> log_entry list \<Rightarrow> bool" where
  "log_ok s es \<longleftrightarrow> list_all entry_ok es \<and> s + length es \<le> u64_max"

lemma length_log_root: "length prev = 32 \<Longrightarrow> list_all entry_ok es \<Longrightarrow> length (log_root s prev es) = 32"
  by (induction es arbitrary: s prev) (simp_all add: length_entry_root)

lemma log_append:
  "log_bytes s prev (es @ fs) = log_bytes s prev es @ log_bytes (s + length es) (log_root s prev es) fs"
  "log_records s prev (es @ fs) = log_records s prev es @ log_records (s + length es) (log_root s prev es) fs"
  "log_root s prev (es @ fs) = log_root (s + length es) (log_root s prev es) fs"
  by (induction es arbitrary: s prev) simp_all

lemma recover_loop_log:
  assumes "length prev = 32" and "log_ok s es"
  shows "recover_loop (pre @ log_bytes s prev es @ t) (length pre) s prev rs =
    recover_loop (pre @ log_bytes s prev es @ t) (length pre + length (log_bytes s prev es)) (s + length es)
      (log_root s prev es) (rs @ log_records s prev es)"
  using assms
proof (induction es arbitrary: pre s prev rs)
  case (Cons e es)
  let ?frame = "entry_frame s prev e" and ?root = "entry_root s prev e"
  have ok: "entry_ok e" "log_ok (s + 1) es" "s \<le> u64_max" using Cons.prems(2) by (auto simp: log_ok_def)
  have root: "length ?root = 32" by (rule length_entry_root [OF Cons.prems(1) ok(1)])
  have "?frame \<noteq> []" using length_entry_frame [OF Cons.prems(1) ok(1), of s] by auto
  then have "recover_loop (pre @ ?frame @ log_bytes (s + 1) ?root es @ t) (length pre) s prev rs =
      recover_loop ((pre @ ?frame) @ log_bytes (s + 1) ?root es @ t) (length (pre @ ?frame)) (s + 1) ?root (rs @ [entry_record s prev e])"
    using recover_round_frame [OF Cons.prems(1) ok(1,3)] ok(2)
    by (subst recover_loop.simps) (simp add: checked_add_def log_ok_def entry_record_def digest_new_def)
  then show ?case using Cons.IH [OF root ok(2), of "pre @ ?frame" "rs @ [entry_record s prev e]"]
    by (simp add: add.assoc)
qed simp

abbreviation ROOT_0 :: bytes where
  "ROOT_0 \<equiv> replicate 32 0"

abbreviation file_of :: "log_entry list \<Rightarrow> bytes" where
  "file_of es \<equiv> log_bytes 1 ROOT_0 es"

text \<open>The report of a log of which \<open>n\<close> bytes were read: every entry, and whether a suffix is incomplete.\<close>

definition log_report :: "log_entry list \<Rightarrow> bool \<Rightarrow> recovery_report" where
  "log_report es torn =
     report (log_records 1 ROOT_0 es) (length (file_of es)) (if torn then Some (length (file_of es)) else None)
       (log_root 1 ROOT_0 es)"

lemma recover_log: "log_ok 1 es \<Longrightarrow> recover_bytes (file_of es) = Inr (log_report es False)"
  using recover_loop_log [of ROOT_0 1 es "[]" "[]" "[]"]
  by (simp add: recover_bytes_def log_report_def) (simp add: recover_loop.simps)

lemma recover_torn:
  assumes "log_ok 1 es" and "entry_ok e" and "0 < n"
    and "n < length (entry_frame (1 + length es) (log_root 1 ROOT_0 es) e)"
  shows "recover_bytes (file_of es @ take n (entry_frame (1 + length es) (log_root 1 ROOT_0 es) e)) = Inr (log_report es True)"
proof -
  let ?t = "take n (entry_frame (1 + length es) (log_root 1 ROOT_0 es) e)"
  have root: "length (log_root 1 ROOT_0 es) = 32" using assms(1) by (intro length_log_root) (simp_all add: log_ok_def)
  have "recover_round (length (file_of es)) ?t (1 + length es) (log_root 1 ROOT_0 es) = Inr None"
    using recover_round_torn [OF root assms(2) _ assms(3,4)] assms(1) by (simp add: log_ok_def)
  moreover have "?t \<noteq> []" using assms(3,4) by auto
  ultimately show ?thesis
    using recover_loop_log [of ROOT_0 1 es "[]" ?t "[]"] assms(1)
    by (simp add: recover_bytes_def log_report_def) (simp add: recover_loop.simps)
qed

lemma recover_loop_sound:
  assumes "recover_loop bs offset s prev rs = Inr rep" and "length prev = 32" and "offset \<le> length bs"
  shows "\<exists>es t. drop offset bs = log_bytes s prev es @ t \<and> (es \<noteq> [] \<longrightarrow> log_ok s es)
    \<and> rep = report (rs @ log_records s prev es) (offset + length (log_bytes s prev es))
        (if t = [] then None else Some (offset + length (log_bytes s prev es))) (log_root s prev es)"
  using assms
proof (induction bs offset s prev rs rule: recover_loop.induct)
  case (1 bs offset s prev rs)
  show ?case
  proof (cases "offset < length bs")
    case False
    then have "drop offset bs = []" "rep = report rs offset None prev" using "1.prems"(1,3) by (simp_all add: recover_loop.simps)
    then show ?thesis by (intro exI [of _ "[]"]) simp
  next
    case True
    note step = "1.prems"(1) [unfolded recover_loop.simps [of bs offset], simplified True if_True]
    obtain q where q: "recover_round offset (drop offset bs) s prev = Inr q" using step by (auto split: sum.splits)
    show ?thesis
    proof (cases q)
      case None
      then have "rep = report rs offset (Some offset) prev" using step q by simp
      then show ?thesis using True by (intro exI [of _ "[]"] exI [of _ "drop offset bs"]) simp
    next
      case (Some x)
      then obtain r off where x: "q = Some (r, off)" by (cases x) auto
      obtain e u where e: "drop offset bs = entry_frame s prev e @ u" "entry_ok e" "s \<le> u64_max" "r = entry_record s prev e"
        "off = offset + length (entry_frame s prev e)"
        by (rule recover_round_committed [OF q [unfolded x] "1.prems"(2)])
      have s1: "checked_add s 1 = Some (s + 1)" and rest: "recover_loop bs off (s + 1) (entry_root s prev e) (rs @ [r]) = Inr rep"
        using step q x e(4) by (auto simp: checked_add_def entry_record_def digest_new_def split: if_splits)
      have u: "drop off bs = u" using e(1,5) by (metis append_eq_conv_conj drop_drop add.commute)
      have r_root: "cd_bytes (jr_root r) = entry_root s prev e" by (simp add: e(4) entry_record_def digest_new_def)
      have off: "off \<le> length bs" using arg_cong [OF e(1), of length] e(5) True by simp
      obtain es t where es: "drop off bs = log_bytes (s + 1) (entry_root s prev e) es @ t" "es \<noteq> [] \<longrightarrow> log_ok (s + 1) es"
        "rep = report ((rs @ [r]) @ log_records (s + 1) (entry_root s prev e) es)
          (off + length (log_bytes (s + 1) (entry_root s prev e) es))
          (if t = [] then None else Some (off + length (log_bytes (s + 1) (entry_root s prev e) es)))
          (log_root (s + 1) (entry_root s prev e) es)"
        using "1.IH" [OF True q x refl s1, unfolded r_root, OF rest length_entry_root [OF "1.prems"(2) e(2)] off] by blast
      show ?thesis
        using e es u s1 by (intro exI [of _ "e # es"] exI [of _ t])
          (auto simp: log_ok_def checked_add_def add.assoc split: if_splits)
    qed
  qed
qed

lemma recover_sound:
  assumes "recover_bytes bs = Inr rep"
  obtains es t where "bs = file_of es @ t" "log_ok 1 es" "rep = log_report es (t \<noteq> [])"
proof -
  obtain es t where "drop 0 bs = file_of es @ t \<and> (es \<noteq> [] \<longrightarrow> log_ok 1 es)
      \<and> rep = report ([] @ log_records 1 ROOT_0 es) (0 + length (file_of es))
        (if t = [] then None else Some (0 + length (file_of es))) (log_root 1 ROOT_0 es)"
    using recover_loop_sound [OF assms [unfolded recover_bytes_def] length_replicate le0] by blast
  then have es: "bs = file_of es @ t" "es \<noteq> [] \<longrightarrow> log_ok 1 es" "rep = log_report es (t \<noteq> [])"
    by (simp_all add: log_report_def)
  have "log_ok 1 es" using es(2) by (cases es) (simp_all add: log_ok_def u64_max_def)
  then show ?thesis using that es(1,3) by simp
qed

text \<open>The next entry's frame, after a log.\<close>

abbreviation next_frame :: "log_entry list \<Rightarrow> log_entry \<Rightarrow> bytes" where
  "next_frame es e \<equiv> entry_frame (1 + length es) (log_root 1 ROOT_0 es) e"

lemma file_of_snoc: "file_of (es @ [e]) = file_of es @ next_frame es e"
  by (simp add: log_append)

text \<open>A handle in step with its file, and a handle with an append of unknown outcome.\<close>

definition journal_at :: "log_entry list \<Rightarrow> journal \<Rightarrow> bool" where
  "journal_at es j \<longleftrightarrow> log_ok 1 es \<and>
     j = \<lparr>jn_file = file_of es, jn_next_sequence = 1 + length es, jn_last_root = log_root 1 ROOT_0 es,
          jn_committed_len = length (file_of es), jn_pending = None\<rparr>"

definition pending_of :: "log_entry list \<Rightarrow> log_entry \<Rightarrow> pending_append" where
  "pending_of es e =
     \<lparr>pa_record = entry_record (1 + length es) (log_root 1 ROOT_0 es) e, pa_previous_root = log_root 1 ROOT_0 es,
      pa_base_committed_len = length (file_of es), pa_expected_end = length (file_of (es @ [e])),
      pa_next_sequence = 2 + length es\<rparr>"

definition append_pending :: "log_entry list \<Rightarrow> log_entry \<Rightarrow> nat \<Rightarrow> journal \<Rightarrow> bool" where
  "append_pending es e n j \<longleftrightarrow> log_ok 1 (es @ [e]) \<and> n \<le> length (next_frame es e) \<and>
     j = \<lparr>jn_file = file_of es @ take n (next_frame es e), jn_next_sequence = 1 + length es,
          jn_last_root = log_root 1 ROOT_0 es, jn_committed_len = length (file_of es), jn_pending = Some (pending_of es e)\<rparr>"

lemma log_ok_snoc: "log_ok 1 (es @ [e]) \<Longrightarrow> log_ok 1 es \<and> entry_ok e"
  by (auto simp: log_ok_def)

lemma length_next_frame: "log_ok 1 (es @ [e]) \<Longrightarrow> length (next_frame es e) = 128 + length (snd e)"
  using length_entry_frame length_log_root [of ROOT_0 es 1] by (simp add: log_ok_def)

lemma write_at_end [simp]: "pos = length file \<Longrightarrow> write_at pos bs file = file @ bs"
  by (simp add: write_at_def)

text \<open>Every way a write can fail leaves a prefix of the frame behind.\<close>

lemma write_record_outcome:
  fixes es e
  defines "j \<equiv> \<lparr>jn_file = file_of es, jn_next_sequence = 1 + length es, jn_last_root = log_root 1 ROOT_0 es,
    jn_committed_len = length (file_of es), jn_pending = Some (pending_of es e)\<rparr>"
  assumes ok: "log_ok 1 (es @ [e])"
    and run: "write_record io (pending_of es e) (record_body (1 + length es) (fst e) (snd e) (log_root 1 ROOT_0 es))
      (record_trailer (entry_root (1 + length es) (log_root 1 ROOT_0 es) e)) j = (res, j')"
  shows "res = Inr (pa_record (pending_of es e)) \<and> journal_at (es @ [e]) j'
    \<or> (\<exists>phase n. res = Inl (AppendIndeterminate (1 + length es) phase) \<and> append_pending es e n j')"
proof -
  let ?body = "record_body (1 + length es) (fst e) (snd e) (log_root 1 ROOT_0 es)"
  let ?trailer = "record_trailer (entry_root (1 + length es) (log_root 1 ROOT_0 es) e)"
  have frame: "next_frame es e = ?body @ ?trailer" by (simp add: entry_frame_def)
  have seq: "jr_sequence (pa_record (pending_of es e)) = 1 + length es" by (simp add: pending_of_def entry_record_def)
  have part: "append_pending es e (length w) (j\<lparr>jn_file := file_of es @ w\<rparr>)" if "prefix w (?body @ ?trailer)" for w
  proof -
    have "prefix w (next_frame es e)" using that by (simp only: frame)
    then have "length w \<le> length (next_frame es e)" "take (length w) (next_frame es e) = w"
      by (auto simp: prefix_length_le elim: prefixE)
    then show ?thesis unfolding append_pending_def j_def using ok by simp
  qed
  have committed: "journal_at (es @ [e]) (snd (commit_pending (pending_of es e) (j\<lparr>jn_file := file_of es @ ?body @ ?trailer\<rparr>)))"
    unfolding journal_at_def file_of_snoc frame j_def commit_pending_def pending_of_def
    using ok by (simp add: log_append entry_record_def digest_new_def)
  have jf: "jn_file j = file_of es" "jn_committed_len j = length (file_of es)" by (simp_all add: j_def)
  consider n where "io_body io = Some n" | "io_body io = None" "\<not> io_body_sync io"
    | n where "io_body io = None" "io_body_sync io" "io_trailer io = Some n"
    | "io_body io = None" "io_body_sync io" "io_trailer io = None" "\<not> io_commit_sync io"
    | "io_body io = None" "io_body_sync io" "io_trailer io = None" "io_commit_sync io"
    by (cases "io_body io"; cases "io_trailer io") auto
  then show ?thesis
  proof cases
    case (1 n)
    then show ?thesis using run part [of "take n ?body"] by (auto simp: write_record_def seq jf take_is_prefix intro!: exI)
  next
    case 2
    then show ?thesis using run part [of ?body] by (auto simp: write_record_def seq jf intro!: exI)
  next
    case (3 n)
    then show ?thesis using run part [of "?body @ take n ?trailer"]
      by (auto simp: write_record_def seq jf take_is_prefix intro!: exI)
  next
    case 4
    then show ?thesis using run part [of "?body @ ?trailer"] by (auto simp: write_record_def seq jf intro!: exI)
  next
    case 5
    then show ?thesis using run committed by (auto simp: write_record_def seq jf commit_pending_def)
  qed
qed

lemma journal_append_outcome:
  assumes at: "journal_at es j" and run: "journal_append io k p j = (res, j')"
  shows "res = Inr (pa_record (pending_of es (k, p))) \<and> journal_at (es @ [(k, p)]) j'
    \<or> (\<exists>err. res = Inl err \<and> j' = j)
    \<or> (\<exists>phase n. res = Inl (AppendIndeterminate (1 + length es) phase) \<and> append_pending es (k, p) n j')"
proof (cases "j' = j \<and> (\<exists>err. res = Inl err)")
  case False
  have j: "j = \<lparr>jn_file = file_of es, jn_next_sequence = 1 + length es, jn_last_root = log_root 1 ROOT_0 es,
      jn_committed_len = length (file_of es), jn_pending = None\<rparr>" and ok: "log_ok 1 es"
    using at by (simp_all add: journal_at_def)
  let ?body = "record_body (1 + length es) k p (log_root 1 ROOT_0 es)"
  let ?trailer = "record_trailer (entry_root (1 + length es) (log_root 1 ROOT_0 es) (k, p))"
  have p: "length p \<le> MAX_RECORD_PAYLOAD_BYTES" and seq: "1 + length es + 1 \<le> u64_max"
    and wr: "write_record io (pending_of es (k, p)) ?body ?trailer (j\<lparr>jn_pending := Some (pending_of es (k, p))\<rparr>) = (res, j')"
    using run False unfolding journal_append_def j
    by (auto simp: Let_def checked_add_def pending_of_def entry_record_def entry_root_def log_append entry_frame_def
        add.assoc split: sum.splits if_splits)
  have ok': "log_ok 1 (es @ [(k, p)])" using ok p seq by (simp add: log_ok_def entry_ok_def)
  show ?thesis
    using write_record_outcome [OF ok', of io res j'] wr by (simp add: j) blast
qed auto

text \<open>Reconciling an append of unknown outcome decides it by what the file holds.\<close>

lemma pending_recovery:
  assumes "append_pending es e n j"
  shows "recover_bytes (jn_file j) =
    Inr (if n = length (next_frame es e) then log_report (es @ [e]) False else log_report es (0 < n))"
proof -
  have ok: "log_ok 1 (es @ [e])" and n: "n \<le> length (next_frame es e)"
    and fl: "jn_file j = file_of es @ take n (next_frame es e)"
    using assms by (auto simp: append_pending_def)
  consider "n = length (next_frame es e)" | "n = 0" "n < length (next_frame es e)" | "0 < n" "n < length (next_frame es e)"
    using n by linarith
  then show ?thesis
  proof cases
    case 1
    then show ?thesis using recover_log [OF ok] unfolding file_of_snoc fl by simp
  next
    case 2
    then show ?thesis using recover_log log_ok_snoc [OF ok] unfolding fl by simp
  next
    case 3
    then show ?thesis using recover_torn log_ok_snoc [OF ok] unfolding fl by simp
  qed
qed

definition settled :: "log_entry list \<Rightarrow> log_entry \<Rightarrow> nat \<Rightarrow> append_reconciliation \<Rightarrow> journal \<Rightarrow> bool" where
  "settled es e n outcome j \<longleftrightarrow>
     (if n = length (next_frame es e)
      then outcome = Committed (entry_record (1 + length es) (log_root 1 ROOT_0 es) e) \<and> journal_at (es @ [e]) j
      else outcome = NotCommitted (1 + length es) \<and> journal_at es j)"

definition all_io :: reconcile_io where
  "all_io = \<lparr>io_reconcile_read = True, io_truncate = True, io_reconcile_sync = True, io_reconcile_seek = True\<rparr>"

lemma reconcile_settles:
  assumes pend: "append_pending es e n j"
  shows "\<exists>outcome j'. reconcile_pending all_io Truncate j = (Inr outcome, j') \<and> settled es e n outcome j'"
proof -
  have j: "j = \<lparr>jn_file = file_of es @ take n (next_frame es e), jn_next_sequence = 1 + length es,
      jn_last_root = log_root 1 ROOT_0 es, jn_committed_len = length (file_of es), jn_pending = Some (pending_of es e)\<rparr>"
    and ok: "log_ok 1 (es @ [e])" and n: "n \<le> length (next_frame es e)"
    using pend by (auto simp: append_pending_def)
  have pos: "0 < length (next_frame es e)" using length_next_frame [OF ok] by simp
  note rec = pending_recovery [OF pend]
  show ?thesis
  proof (cases "n = length (next_frame es e)")
    case True
    have "reconcile_pending all_io Truncate j = (Inr (Committed (pa_record (pending_of es e))), snd (commit_pending (pending_of es e) j))"
      using rec True unfolding reconcile_pending_def
      by (simp add: j all_io_def log_report_def report_def pending_of_def log_append entry_record_def commit_pending_def Let_def)
    moreover have "journal_at (es @ [e]) (snd (commit_pending (pending_of es e) j))"
      unfolding journal_at_def file_of_snoc j commit_pending_def pending_of_def
      using ok True by (simp add: log_append entry_record_def digest_new_def)
    ultimately show ?thesis using True by (auto simp: settled_def pending_of_def)
  next
    case False
    have "reconcile_pending all_io Truncate j = (Inr (NotCommitted (1 + length es)),
        j\<lparr>jn_file := file_of es, jn_pending := None\<rparr>)"
      using rec False pos n unfolding reconcile_pending_def
      by (cases "n = 0") (simp_all add: j all_io_def log_report_def report_def pending_of_def log_append entry_record_def
          truncate_tail_def Let_def digest_new_def)
    moreover have "journal_at es (j\<lparr>jn_file := file_of es, jn_pending := None\<rparr>)"
      using log_ok_snoc [OF ok] by (simp add: journal_at_def j)
    ultimately show ?thesis using False by (auto simp: settled_def)
  qed
qed

lemma journal_open_log:
  assumes "log_ok 1 es" and "recover_bytes bs = Inr (log_report es torn)" and "take (length (file_of es)) bs = file_of es"
    and "\<not> torn \<Longrightarrow> bs = file_of es"
  shows "\<exists>j. journal_open Truncate bs = Inr j \<and> journal_at es j"
proof -
  have "es \<noteq> [] \<Longrightarrow> jr_sequence (last (log_records s prev es)) + 1 = s + length es \<and> log_records s prev es \<noteq> []" for s prev
  proof (induction es arbitrary: s prev)
    case (Cons e es)
    then show ?case by (cases es) (auto simp: entry_record_def)
  qed simp
  then have "(case log_records 1 ROOT_0 es of [] \<Rightarrow> Inr 1
      | rs \<Rightarrow> ok_or (checked_add (jr_sequence (last rs)) 1) SequenceExhausted) = (Inr (1 + length es) :: journal_error + u64)"
    using assms(1) by (cases es) (auto simp: checked_add_def log_ok_def split: list.splits)
  then show ?thesis
    using assms by (cases torn)
      (auto simp: journal_open_def log_report_def report_def journal_at_def digest_new_def)
qed

text \<open>C10: recovery is exact. It reports a byte string as a complete journal if and only if the string
  is the chained framing of some log within the format's bounds, and then it returns precisely that log's
  records, roots and length; the records it returns determine the bytes.\<close>

theorem recovery_exact:
  "recover_bytes bs = Inr rep \<and> rr_incomplete_tail rep = None \<longleftrightarrow>
     (\<exists>es. log_ok 1 es \<and> bs = file_of es \<and> rep = log_report es False)"
proof
  assume r: "recover_bytes bs = Inr rep \<and> rr_incomplete_tail rep = None"
  then obtain es t where "bs = file_of es @ t" "log_ok 1 es" "rep = log_report es (t \<noteq> [])"
    using recover_sound by blast
  then show "\<exists>es. log_ok 1 es \<and> bs = file_of es \<and> rep = log_report es False"
    using r by (auto simp: log_report_def report_def split: if_splits)
next
  assume "\<exists>es. log_ok 1 es \<and> bs = file_of es \<and> rep = log_report es False"
  then obtain es where "log_ok 1 es" "bs = file_of es" "rep = log_report es False" by blast
  then show "recover_bytes bs = Inr rep \<and> rr_incomplete_tail rep = None"
    using recover_log [of es] by (simp add: log_report_def report_def)
qed

text \<open>Reopening a file cut inside, or right after, the frame that follows a log.\<close>

lemma open_cut_frame:
  assumes ok: "log_ok 1 (es @ [e])"
  shows "\<exists>j. journal_open Truncate (file_of es @ take n (next_frame es e)) = Inr j
    \<and> (if length (next_frame es e) \<le> n then journal_at (es @ [e]) j else journal_at es j)"
proof (cases "length (next_frame es e) \<le> n")
  case True
  then have "file_of es @ take n (next_frame es e) = file_of (es @ [e])" unfolding file_of_snoc by simp
  then show ?thesis using True journal_open_log [OF ok recover_log [OF ok]] by auto
next
  case False
  have parts: "log_ok 1 es" "entry_ok e" using log_ok_snoc [OF ok] by auto
  have "recover_bytes (file_of es @ take n (next_frame es e)) = Inr (log_report es (0 < n))"
    using recover_torn [OF parts, of n] recover_log [OF parts(1)] False by (cases "n = 0") auto
  then show ?thesis
    using journal_open_log [OF parts(1), of "file_of es @ take n (next_frame es e)" "0 < n"] False by auto
qed

text \<open>C4: a crash loses at most the record being written. Whatever byte the file of a log is cut at,
  opening it with the truncating policy succeeds with a handle on exactly the entries whose frames lie
  wholly before the cut, in step with its file and ready to append.\<close>

theorem crash_recovers_prefix:
  assumes "log_ok 1 es"
  shows "\<exists>m\<le>length es. \<exists>j. journal_open Truncate (take n (file_of es)) = Inr j \<and> journal_at (take m es) j
    \<and> length (file_of (take m es)) \<le> n
    \<and> (m < length es \<longrightarrow> n < length (file_of (take (Suc m) es)))"
  using assms
proof (induction es rule: rev_induct)
  case Nil
  have "\<exists>j. journal_open Truncate [] = Inr j \<and> journal_at [] j"
    using journal_open_log [of "[]" "[]" False] recover_log [of "[]"] by (simp add: log_ok_def u64_max_def)
  then show ?case by simp
next
  case (snoc e es)
  have ok: "log_ok 1 es" "entry_ok e" using log_ok_snoc [OF snoc.prems] by auto
  show ?case
  proof (cases "n < length (file_of es)")
    case True
    then have cut: "take n (file_of (es @ [e])) = take n (file_of es)" unfolding file_of_snoc by simp
    obtain m j where m: "m \<le> length es" "journal_open Truncate (take n (file_of es)) = Inr j" "journal_at (take m es) j"
      "length (file_of (take m es)) \<le> n" "m < length es \<longrightarrow> n < length (file_of (take (Suc m) es))"
      using snoc.IH [OF ok(1)] by blast
    have "m < length es" using m(1,4) True by (cases "m = length es") auto
    then show ?thesis using m unfolding cut by (intro exI [of _ m]) auto
  next
    case past: False
    let ?n = "n - length (file_of es)"
    have part: "take n (file_of (es @ [e])) = file_of es @ take ?n (next_frame es e)" using past unfolding file_of_snoc by simp
    obtain j where j: "journal_open Truncate (take n (file_of (es @ [e]))) = Inr j"
        "if length (next_frame es e) \<le> ?n then journal_at (es @ [e]) j else journal_at es j"
      using open_cut_frame [OF snoc.prems, of ?n] unfolding part by blast
    have len: "length (file_of (es @ [e])) = length (file_of es) + length (next_frame es e)" unfolding file_of_snoc by simp
    show ?thesis
    proof (cases "length (next_frame es e) \<le> ?n")
      case True
      then have "length (file_of (es @ [e])) \<le> n" using past unfolding len by linarith
      then show ?thesis using True j by (intro exI [of _ "length (es @ [e])"]) auto
    next
      case False
      then have "n < length (file_of (es @ [e]))" using past unfolding len by linarith
      then show ?thesis using False j past by (intro exI [of _ "length es"]) auto
    qed
  qed
qed

definition sample_log :: "log_entry list" where
  "sample_log = [(3, ascii ''hello''), (3, [])]"

lemma sample_log_ok: "log_ok 1 sample_log"
  by (simp add: sample_log_def log_ok_def entry_ok_def ascii_def MAX_RECORD_PAYLOAD_BYTES_def u64_max_def)

theorem crash_recovers_prefix_witness:
  "\<exists>m\<le>length sample_log. \<exists>j. journal_open Truncate (take 200 (file_of sample_log)) = Inr j \<and> journal_at (take m sample_log) j"
  using crash_recovers_prefix [OF sample_log_ok, of 200] by blast

text \<open>C5: an append never leaves its outcome undecidable. From a handle in step with its file, and
  whatever the operating system does, an append commits the record and stays in step; or is refused with
  the handle and file untouched; or leaves a prefix of the record's frame behind, and then reconciling
  with working storage decides it: committed exactly when the whole frame is present, otherwise removed
  with its sequence free again, and in either case the handle is back in step. Until then every further
  append is refused.\<close>

theorem append_outcome_decided:
  assumes "journal_at es j" and "journal_append io k p j = (res, j')"
  shows "res = Inr (entry_record (1 + length es) (log_root 1 ROOT_0 es) (k, p)) \<and> journal_at (es @ [(k, p)]) j'
    \<or> (\<exists>err. res = Inl err) \<and> j' = j
    \<or> (\<exists>n phase outcome j''. res = Inl (AppendIndeterminate (1 + length es) phase)
        \<and> jn_file j' = file_of es @ take n (next_frame es (k, p)) \<and> n \<le> length (next_frame es (k, p))
        \<and> (\<forall>io' k' p'. journal_append io' k' p' j' = (Inl (ReconciliationRequired (1 + length es)), j'))
        \<and> reconcile_pending all_io Truncate j' = (Inr outcome, j'') \<and> settled es (k, p) n outcome j'')"
proof -
  consider "res = Inr (pa_record (pending_of es (k, p)))" "journal_at (es @ [(k, p)]) j'"
    | err where "res = Inl err" "j' = j"
    | phase n where "res = Inl (AppendIndeterminate (1 + length es) phase)" "append_pending es (k, p) n j'"
    using journal_append_outcome [OF assms] by blast
  then show ?thesis
  proof cases
    case 1
    then show ?thesis by (simp add: pending_of_def)
  next
    case 2
    then show ?thesis by blast
  next
    case (3 phase n)
    moreover from 3(2) have "jn_file j' = file_of es @ take n (next_frame es (k, p))" "n \<le> length (next_frame es (k, p))"
      "\<forall>io' k' p'. journal_append io' k' p' j' = (Inl (ReconciliationRequired (1 + length es)), j')"
      by (simp_all add: append_pending_def journal_append_def pending_of_def entry_record_def)
    ultimately show ?thesis using reconcile_settles [OF 3(2)] by blast
  qed
qed

text \<open>With working storage, and while sequence numbers and file offsets last, an append commits.\<close>

lemma check_committed_tail_at:
  assumes "journal_at es j"
  shows "check_committed_tail True True (jn_file j) (jn_committed_len j) (jn_last_root j) = Inr ()"
proof (cases es rule: rev_cases)
  case Nil
  then show ?thesis using assms by (simp add: journal_at_def check_committed_tail_def)
next
  case (snoc fs e)
  define root where "root = log_root 1 ROOT_0 es"
  have ok: "log_ok 1 (fs @ [e])" using assms snoc by (simp add: journal_at_def)
  have root: "root = entry_root (1 + length fs) (log_root 1 ROOT_0 fs) e" by (simp add: root_def snoc log_append)
  define front where "front = file_of fs @ record_body (1 + length fs) (fst e) (snd e) (log_root 1 ROOT_0 fs)"
  have fl: "file_of es = front @ COMMIT_MAGIC @ root"
    unfolding snoc file_of_snoc by (simp add: front_def entry_frame_def record_trailer_def root)
  have "length root = 32" unfolding root_def using ok snoc by (intro length_log_root) (simp_all add: log_ok_def)
  then have "subslice (file_of es) (length front) (length (file_of es)) = COMMIT_MAGIC @ root"
    "length (file_of es) = length front + 40"
    unfolding fl by (simp_all add: subslice_def)
  then show ?thesis using assms
    by (simp add: journal_at_def check_committed_tail_def TRAILER_LEN_def root_def)
qed

definition good_io :: append_io where
  "good_io = \<lparr>io_metadata = True, io_read_tail = True, io_seek = True, io_body = None, io_body_sync = True,
     io_trailer = None, io_commit_sync = True\<rparr>"

lemma append_commits:
  assumes at: "journal_at es j" and ok: "log_ok 1 (es @ [(k, p)])" and len: "length (file_of (es @ [(k, p)])) \<le> u64_max"
  shows "\<exists>j'. journal_append good_io k p j = (Inr (entry_record (1 + length es) (log_root 1 ROOT_0 es) (k, p)), j')
    \<and> journal_at (es @ [(k, p)]) j'"
proof -
  have "length (file_of es) + (length (record_body (1 + length es) k p (log_root 1 ROOT_0 es))
      + length (record_trailer (record_root (1 + length es) k (length p) (log_root 1 ROOT_0 es) (sha256 p)))) \<le> u64_max"
    using len unfolding file_of_snoc by (simp add: entry_frame_def entry_root_def)
  moreover have "length p \<le> MAX_RECORD_PAYLOAD_BYTES" "1 + length es + 1 \<le> u64_max"
    using ok by (simp_all add: log_ok_def entry_ok_def)
  moreover obtain res j' where run: "journal_append good_io k p j = (res, j')" by fastforce
  ultimately have "\<not> (\<exists>err. res = Inl err)"
    using at check_committed_tail_at [OF at] unfolding journal_at_def
    by (auto simp: journal_append_def good_io_def Let_def checked_add_def write_record_def commit_pending_def)
  then show ?thesis using journal_append_outcome [OF at run] run by (auto simp: pending_of_def)
qed

lemma journal_verify_at: "journal_at es j \<Longrightarrow> journal_verify True j = Inr (log_report es False)"
  by (simp add: journal_verify_def journal_at_def recover_log log_report_def report_def digest_new_def)
    (simp add: recover_log log_report_def report_def digest_new_def flip: One_nat_def)

definition failing_io :: append_io where
  "failing_io = \<lparr>io_metadata = True, io_read_tail = True, io_seek = True, io_body = Some 5, io_body_sync = True,
     io_trailer = None, io_commit_sync = True\<rparr>"

definition sample_journal :: journal where
  "sample_journal = \<lparr>jn_file = [], jn_next_sequence = 1, jn_last_root = ROOT_0, jn_committed_len = 0, jn_pending = None\<rparr>"

lemma sample_journal_at: "journal_at [] sample_journal"
  by (simp add: journal_at_def sample_journal_def log_ok_def u64_max_def)

theorem append_outcome_decided_witness:
  "\<exists>n outcome j''. jn_file (snd (journal_append failing_io 3 [] sample_journal)) = take n (next_frame [] (3, []))
     \<and> reconcile_pending all_io Truncate (snd (journal_append failing_io 3 [] sample_journal)) = (Inr outcome, j'')
     \<and> settled [] (3, []) n outcome j''"
proof -
  obtain res j' where run: "journal_append failing_io 3 [] sample_journal = (res, j')" by fastforce
  have "length (record_body (Suc 0) 3 [] ROOT_0) = 88"
    by (simp add: length_record_body)
  moreover have "length (record_trailer (record_root (Suc 0) 3 0 ROOT_0 (sha256 []))) = 40"
    using length_entry_root [of ROOT_0 "(3, [])" 1] by (simp add: record_trailer_def entry_root_def entry_ok_def)
  ultimately have res: "res = Inl (AppendIndeterminate 1 BodyWrite) \<and> jn_pending j' \<noteq> None"
    using run by (auto simp: journal_append_def sample_journal_def failing_io_def check_committed_tail_def Let_def checked_add_def
        u64_max_def write_record_def split: if_splits)
  have "jn_pending sample_journal = None" by (simp add: sample_journal_def)
  with res show ?thesis using append_outcome_decided [OF sample_journal_at run] run by auto
qed

end
