(* ===== verification/Durable_Effect.thy ===== *)
theory Durable_Effect
  imports Effect_Journal Durable_Journal
begin

text \<open>
  The durable effect journal, \<open>crates/fss-reference/src/durable_effect.rs\<close>: every change to the
  in-memory effect journal is validated, encoded as a transition record and appended to the journal file
  before it is installed. Here the codec, the append journal and the effect journal meet: reopening the
  file gives back the memory that was built from it.
\<close>

definition EFFECT_TRANSITION_RECORD_KIND :: u16 where "EFFECT_TRANSITION_RECORD_KIND = 2"
definition EFFECT_TRANSITION_V2_RECORD_KIND :: u16 where "EFFECT_TRANSITION_V2_RECORD_KIND = 3"
definition EFFECT_TRANSITION_V3_RECORD_KIND :: u16 where "EFFECT_TRANSITION_V3_RECORD_KIND = 4"

datatype durable_effect_error =
    Journal journal_error
  | Contract contract_error
  | UnexpectedRecordKind u64 u16
  | Decode u64 contract_error

record durable_effect_journal =
  de_journal :: journal
  de_memory :: effect_journal

type_synonym durable_result = "(durable_effect_error + operation_receipt) \<times> durable_effect_journal"

section \<open>Replay and open\<close>

definition kind_version :: "u16 \<Rightarrow> effect_record_version option" where
  "kind_version kind =
     (if kind = EFFECT_TRANSITION_RECORD_KIND then Some V1
      else if kind = EFFECT_TRANSITION_V2_RECORD_KIND then Some V2
      else if kind = EFFECT_TRANSITION_V3_RECORD_KIND then Some V3
      else None)"

fun decode_records ::
  "effect_record_version \<Rightarrow> journal_record list
     \<Rightarrow> durable_effect_error + (effect_record_version \<times> effect_journal_transition) list" where
  "decode_records newest [] = Inr []"
| "decode_records newest (r # records) =
     (case kind_version (jr_kind r) of
        None \<Rightarrow> Inl (UnexpectedRecordKind (jr_sequence r) (jr_kind r))
      | Some version \<Rightarrow>
          if version < newest then Inl (UnexpectedRecordKind (jr_sequence r) (jr_kind r))
          else
            try_then (map_err (Decode (jr_sequence r)) (from_canonical_bytes dec_transition (jr_payload r))) (\<lambda>t.
            try_then (decode_records version records) (\<lambda>ts. Inr ((version, t) # ts))))"

definition replay_records :: "journal_record list \<Rightarrow> durable_effect_error + effect_journal" where
  "replay_records records =
     try_then (decode_records V1 records) (\<lambda>transitions. map_err Contract (replay_durable transitions))"

definition replay_report :: "recovery_report \<Rightarrow> durable_effect_error + effect_journal" where
  "replay_report rep = replay_records (rr_records rep)"

text \<open>The file is absent, or has some bytes; opening creates it.\<close>

definition durable_open :: "incomplete_tail_policy \<Rightarrow> bytes option \<Rightarrow> durable_effect_error + durable_effect_journal" where
  "durable_open policy file =
     try_then
       (case file of
          None \<Rightarrow> Inr None
        | Some bs \<Rightarrow>
            try_then (map_err Journal (recover_bytes bs)) (\<lambda>rep.
            try_then (replay_report rep) (\<lambda>_. Inr (Some rep)))) (\<lambda>preflight.
     try_then (map_err Journal (journal_open policy (case file of None \<Rightarrow> [] | Some bs \<Rightarrow> bs))) (\<lambda>jn.
     try_then (map_err Journal (recover_bytes (jn_file jn))) (\<lambda>rep.
     try_then
       (case preflight of
          None \<Rightarrow> Inr ()
        | Some before \<Rightarrow>
            refuse_if (rr_last_root rep \<noteq> rr_last_root before \<or> rr_committed_len rep \<noteq> rr_committed_len before)
              (Journal (ExternalMutation (rr_committed_len before) (rr_committed_len rep)
                (if rr_committed_len rep \<noteq> rr_committed_len before then LengthDivergence else ContentDivergence)))) (\<lambda>_.
     try_then (replay_report rep) (\<lambda>memory. Inr \<lparr>de_journal = jn, de_memory = memory\<rparr>)))))"

section \<open>Operations\<close>

text \<open>
  The tail that every operation shares: encode the record, append it, and only then change the memory.
  An encoding or append error leaves the memory as it was.
\<close>

definition write_then_install ::
  "append_io \<Rightarrow> effect_journal_transition \<Rightarrow> (effect_journal \<Rightarrow> journal_result) \<Rightarrow> durable_effect_journal \<Rightarrow> durable_result" where
  "write_then_install io t install d =
     (case try_canonical_bytes enc_transition t of
        Inl err \<Rightarrow> (Inl (Contract err), d)
      | Inr bs \<Rightarrow>
          (case journal_append io EFFECT_TRANSITION_V3_RECORD_KIND bs (de_journal d) of
             (Inl err, jn) \<Rightarrow> (Inl (Journal err), d\<lparr>de_journal := jn\<rparr>)
           | (Inr _, jn) \<Rightarrow>
               (case install (de_memory d) of
                  (res, memory) \<Rightarrow> (map_err Contract res, \<lparr>de_journal = jn, de_memory = memory\<rparr>))))"

definition durable_prepare ::
  "append_io \<Rightarrow> effect_intent \<Rightarrow> stable_id \<Rightarrow> bytes \<Rightarrow> i128 \<Rightarrow> durable_effect_journal \<Rightarrow> durable_result" where
  "durable_prepare io intent obligation_id terminal_predicate now d =
     (case validate_prepare (de_memory d) intent obligation_id of
        Inl err \<Rightarrow> (Inl (Contract err), d)
      | Inr (Some existing) \<Rightarrow> (Inr existing, d)
      | Inr None \<Rightarrow>
          write_then_install io (Prepare intent obligation_id terminal_predicate now)
            (prepare intent obligation_id terminal_predicate now) d)"

definition durable_prepare_with_authority ::
  "append_io \<Rightarrow> effect_intent \<Rightarrow> stable_id \<Rightarrow> bytes \<Rightarrow> effect_authority \<Rightarrow> i128 \<Rightarrow> durable_effect_journal \<Rightarrow> durable_result" where
  "durable_prepare_with_authority io intent obligation_id terminal_predicate authority now d =
     (case validate_prepare_with_authority (de_memory d) intent obligation_id terminal_predicate authority of
        Inl err \<Rightarrow> (Inl (Contract err), d)
      | Inr (Some _) \<Rightarrow> (ok_or (operation (de_memory d) (ei_operation_id intent)) (Contract NotFound), d)
      | Inr None \<Rightarrow>
          write_then_install io (PrepareWithAuthority intent obligation_id terminal_predicate authority now)
            (prepare_with_authority intent obligation_id terminal_predicate authority now) d)"

definition durable_transition ::
  "append_io \<Rightarrow> stable_id \<Rightarrow> effect_state \<Rightarrow> i128 \<Rightarrow> content_digest option \<Rightarrow> bytes option
     \<Rightarrow> durable_effect_journal \<Rightarrow> durable_result" where
  "durable_transition io operation_id nxt now result_digest error_code d =
     (case validate_transition (de_memory d) operation_id nxt now result_digest error_code of
        Inl err \<Rightarrow> (Inl (Contract err), d)
      | Inr _ \<Rightarrow>
          write_then_install io (Transition operation_id nxt now result_digest error_code)
            (transition operation_id nxt now result_digest error_code) d)"

definition durable_cancel ::
  "append_io \<Rightarrow> stable_id \<Rightarrow> i128 \<Rightarrow> content_digest \<Rightarrow> bytes option \<Rightarrow> durable_effect_journal \<Rightarrow> durable_result" where
  "durable_cancel io operation_id now cancel_request_evidence reason d =
     (case validate_cancel (de_memory d) operation_id now cancel_request_evidence reason of
        Inl err \<Rightarrow> (Inl (Contract err), d)
      | Inr proof \<Rightarrow>
          write_then_install io (Cancel operation_id now cancel_request_evidence proof reason)
            (cancel operation_id now cancel_request_evidence reason) d)"

definition durable_mark_indeterminate ::
  "append_io \<Rightarrow> stable_id \<Rightarrow> i128 \<Rightarrow> bytes \<Rightarrow> durable_effect_journal \<Rightarrow> durable_result" where
  "durable_mark_indeterminate io operation_id now reason d =
     (if reason = [] then (Inl (Contract EvidenceRequired), d)
      else durable_transition io operation_id Indeterminate now None (Some reason) d)"

definition durable_reconcile_verified ::
  "append_io \<Rightarrow> stable_id \<Rightarrow> content_digest \<Rightarrow> i128 \<Rightarrow> durable_effect_journal \<Rightarrow> durable_result" where
  "durable_reconcile_verified io operation_id proof now d =
     (case validate_reconcile_verified (de_memory d) operation_id proof now of
        Inl err \<Rightarrow> (Inl (Contract err), d)
      | Inr (Some existing) \<Rightarrow> (Inr existing, d)
      | Inr None \<Rightarrow>
          write_then_install io (ReconcileVerified operation_id proof now) (reconcile_verified operation_id proof now) d)"

definition durable_reconcile_failed ::
  "append_io \<Rightarrow> stable_id \<Rightarrow> content_digest \<Rightarrow> i128 \<Rightarrow> bytes \<Rightarrow> durable_effect_journal \<Rightarrow> durable_result" where
  "durable_reconcile_failed io operation_id proof now reason d =
     (case validate_reconcile_failed (de_memory d) operation_id proof now reason of
        Inl err \<Rightarrow> (Inl (Contract err), d)
      | Inr (Some existing) \<Rightarrow> (Inr existing, d)
      | Inr None \<Rightarrow>
          write_then_install io (ReconcileFailed operation_id proof now reason)
            (reconcile_failed operation_id proof now reason) d)"

section \<open>The memory a log replays to\<close>

definition replays :: "log_entry list \<Rightarrow> effect_journal \<Rightarrow> bool" where
  "replays es memory \<longleftrightarrow> replay_records (log_records 1 ROOT_0 es) = Inr memory"

definition durable_at :: "log_entry list \<Rightarrow> durable_effect_journal \<Rightarrow> bool" where
  "durable_at es d \<longleftrightarrow> journal_at es (de_journal d) \<and> replays es (de_memory d)"

lemma V3_greatest [simp]: "\<not> V3 < v"
  by (cases v) (simp_all add: less_effect_record_version_def version_rank_def)

lemma kind_version_V3: "kind_version EFFECT_TRANSITION_V3_RECORD_KIND = Some V3"
  by (simp add: kind_version_def EFFECT_TRANSITION_RECORD_KIND_def EFFECT_TRANSITION_V2_RECORD_KIND_def
      EFFECT_TRANSITION_V3_RECORD_KIND_def)

lemma decode_records_snoc:
  assumes "jr_kind r = EFFECT_TRANSITION_V3_RECORD_KIND" and "from_canonical_bytes dec_transition (jr_payload r) = Inr t"
    and "decode_records v rs = Inr ts"
  shows "decode_records v (rs @ [r]) = Inr (ts @ [(V3, t)])"
  using assms(3)
proof (induction rs arbitrary: v ts)
  case Nil
  then show ?case using assms(1,2) by (simp add: kind_version_V3)
next
  case (Cons q rs)
  then show ?case by (auto simp: rust_simps split: option.splits if_splits)
qed

lemma replay_loop_snoc:
  "replay_loop v rs j = Inr k \<Longrightarrow>
     replay_loop v (rs @ [(V3, t)]) j =
       (case apply_versioned V3 t k of (Inl err, _) \<Rightarrow> Inl err | (Inr _, k') \<Rightarrow> Inr k')"
proof (induction v rs j rule: replay_loop.induct)
  case (1 v j)
  then show ?case by (simp split: prod.splits sum.splits)
next
  case (2 v w u rs j)
  then show ?case by (auto split: prod.splits sum.splits if_splits)
qed

lemma log_records_snoc: "log_records 1 ROOT_0 (es @ [e]) = log_records 1 ROOT_0 es @ [entry_record (1 + length es) (log_root 1 ROOT_0 es) e]"
  by (simp add: log_append)

abbreviation v3_entry :: "effect_journal_transition \<Rightarrow> log_entry" where
  "v3_entry t \<equiv> (EFFECT_TRANSITION_V3_RECORD_KIND, transition_wire t)"

lemma replay_records_snoc:
  assumes "replays es memory" and "transition_valid t"
  shows "replay_records (log_records 1 ROOT_0 (es @ [v3_entry t])) =
    (case apply_versioned V3 t memory of (Inl err, _) \<Rightarrow> Inl (Contract err) | (Inr _, memory') \<Rightarrow> Inr memory')"
proof -
  obtain ts where ts: "decode_records V1 (log_records 1 ROOT_0 es) = Inr ts" "replay_loop V1 ts journal_new = Inr memory"
    using assms(1) by (auto simp: replays_def replay_records_def rust_simps replay_durable_def replay_versioned_def)
  have "from_canonical_bytes dec_transition (transition_wire t) = Inr t"
    using assms(2) by (simp add: transitionc.from_canonical_bytes_exact)
  then have "decode_records V1 (log_records 1 ROOT_0 (es @ [v3_entry t])) = Inr (ts @ [(V3, t)])"
    unfolding log_records_snoc by (intro decode_records_snoc ts(1)) (simp_all add: entry_record_def)
  then show ?thesis
    using replay_loop_snoc [OF ts(2), of t]
    by (simp add: replay_records_def replay_durable_def replay_versioned_def split: prod.splits sum.splits)
qed

lemma durable_open_log:
  assumes ok: "log_ok 1 es" and rec: "recover_bytes bs = Inr (log_report es torn)"
    and "take (length (file_of es)) bs = file_of es" and "\<not> torn \<Longrightarrow> bs = file_of es" and rep: "replays es memory"
  shows "\<exists>d. durable_open Truncate (Some bs) = Inr d \<and> durable_at es d \<and> de_memory d = memory"
proof -
  obtain jn where jn: "journal_open Truncate bs = Inr jn" "journal_at es jn"
    using journal_open_log [OF ok rec assms(3,4)] by blast
  have after: "recover_bytes (jn_file jn) = Inr (log_report es False)"
    using jn(2) recover_log [OF ok] by (simp add: journal_at_def)
  have replay: "replay_report (log_report es b) = Inr memory" for b
    using rep by (simp add: replay_report_def log_report_def report_def replays_def)
  have "durable_open Truncate (Some bs) = Inr \<lparr>de_journal = jn, de_memory = memory\<rparr>"
    by (simp add: durable_open_def rec jn(1) after replay) (simp add: log_report_def report_def)
  then show ?thesis using jn(2) rep by (auto simp: durable_at_def)
qed

text \<open>What the shared tail does: install after a committed append, or leave the memory alone.\<close>

lemma write_then_install_outcome:
  assumes at: "durable_at es d" and t: "transition_valid t"
    and inst: "install (de_memory d) = (Inr r, memory')" "apply_versioned V3 t (de_memory d) = (Inr r, memory')"
    and run: "write_then_install io t install d = (res, d')"
  shows "res = Inr r \<and> de_memory d' = memory' \<and> durable_at (es @ [v3_entry t]) d'
    \<or> (\<exists>err. res = Inl (Journal err)) \<and> d' = d
    \<or> (\<exists>n s phase. res = Inl (Journal (AppendIndeterminate s phase)) \<and> de_memory d' = de_memory d
         \<and> append_pending es (v3_entry t) n (de_journal d'))"
proof -
  obtain ares jn where app: "journal_append io EFFECT_TRANSITION_V3_RECORD_KIND (transition_wire t) (de_journal d) = (ares, jn)"
    by fastforce
  note bytes = transitionc.try_canonical_bytes_valid [OF t]
  have "journal_at es (de_journal d)" using at by (simp add: durable_at_def)
  from journal_append_outcome [OF this app]
  consider q where "ares = Inr q" "journal_at (es @ [v3_entry t]) jn" | err where "ares = Inl err" "jn = de_journal d"
    | s phase n where "ares = Inl (AppendIndeterminate s phase)" "append_pending es (v3_entry t) n jn" by blast
  then show ?thesis
  proof cases
    case (1 q)
    have "replays (es @ [v3_entry t]) memory'"
      using replay_records_snoc [OF _ t, of es "de_memory d"] at inst(2) by (simp add: replays_def durable_at_def)
    then show ?thesis using 1 run app bytes inst(1) by (auto simp: write_then_install_def durable_at_def)
  next
    case (2 err)
    then show ?thesis using run app bytes by (auto simp: write_then_install_def)
  next
    case (3 s phase n)
    then show ?thesis using run app bytes by (auto simp: write_then_install_def)
  qed
qed

section \<open>Calls\<close>

text \<open>
  The seven calls that change a durable journal, the operation of the in-memory journal each stands for,
  and the record each writes when it writes one.
\<close>

datatype durable_call =
    CallPrepare effect_intent stable_id bytes i128
  | CallPrepareWithAuthority effect_intent stable_id bytes effect_authority i128
  | CallTransition stable_id effect_state i128 "content_digest option" "bytes option"
  | CallCancel stable_id i128 content_digest "bytes option"
  | CallMarkIndeterminate stable_id i128 bytes
  | CallReconcileVerified stable_id content_digest i128
  | CallReconcileFailed stable_id content_digest i128 bytes

fun run_call :: "append_io \<Rightarrow> durable_call \<Rightarrow> durable_effect_journal \<Rightarrow> durable_result" where
  "run_call io (CallPrepare intent ob p now) d = durable_prepare io intent ob p now d"
| "run_call io (CallPrepareWithAuthority intent ob p a now) d = durable_prepare_with_authority io intent ob p a now d"
| "run_call io (CallTransition op nxt now dg c) d = durable_transition io op nxt now dg c d"
| "run_call io (CallCancel op now ev c) d = durable_cancel io op now ev c d"
| "run_call io (CallMarkIndeterminate op now reason) d = durable_mark_indeterminate io op now reason d"
| "run_call io (CallReconcileVerified op ev now) d = durable_reconcile_verified io op ev now d"
| "run_call io (CallReconcileFailed op ev now reason) d = durable_reconcile_failed io op ev now reason d"

fun memory_call :: "durable_call \<Rightarrow> effect_journal \<Rightarrow> journal_result" where
  "memory_call (CallPrepare intent ob p now) m = prepare intent ob p now m"
| "memory_call (CallPrepareWithAuthority intent ob p a now) m = prepare_with_authority intent ob p a now m"
| "memory_call (CallTransition op nxt now dg c) m = transition op nxt now dg c m"
| "memory_call (CallCancel op now ev c) m = cancel op now ev c m"
| "memory_call (CallMarkIndeterminate op now reason) m = mark_indeterminate op now reason m"
| "memory_call (CallReconcileVerified op ev now) m = reconcile_verified op ev now m"
| "memory_call (CallReconcileFailed op ev now reason) m = reconcile_failed op ev now reason m"

fun call_record :: "durable_call \<Rightarrow> effect_journal \<Rightarrow> effect_journal_transition option" where
  "call_record (CallPrepare intent ob p now) m = Some (Prepare intent ob p now)"
| "call_record (CallPrepareWithAuthority intent ob p a now) m = Some (PrepareWithAuthority intent ob p a now)"
| "call_record (CallTransition op nxt now dg c) m = Some (Transition op nxt now dg c)"
| "call_record (CallCancel op now ev c) m =
     (case cancellation_proof m op ev of Inl _ \<Rightarrow> None | Inr pr \<Rightarrow> Some (Cancel op now ev pr c))"
| "call_record (CallMarkIndeterminate op now reason) m = Some (Transition op Indeterminate now None (Some reason))"
| "call_record (CallReconcileVerified op ev now) m = Some (ReconcileVerified op ev now)"
| "call_record (CallReconcileFailed op ev now reason) m = Some (ReconcileFailed op ev now reason)"

text \<open>
  A record reads back when its own bytes decode to it again, or it has no bytes because the encoder
  refuses it. A preparation with an effect class that is empty or longer than 128 bytes does not, nor does
  a record with a laboratory digest (the marker is not encoded); their fields are public, and the
  in-memory journal takes them. A failure reconciliation gives a reason when it is not empty.
  A call is ok when both hold for it.
\<close>

definition reads_back :: "effect_journal_transition \<Rightarrow> bool" where
  "reads_back t \<longleftrightarrow>
     (case try_canonical_bytes enc_transition t of
        Inl _ \<Rightarrow> True
      | Inr bs \<Rightarrow> from_canonical_bytes dec_transition bs = Inr t)"

fun gives_reason :: "durable_call \<Rightarrow> bool" where
  "gives_reason (CallReconcileFailed op ev now reason) \<longleftrightarrow> reason \<noteq> []"
| "gives_reason _ \<longleftrightarrow> True"

definition call_ok :: "durable_call \<Rightarrow> effect_journal \<Rightarrow> bool" where
  "call_ok c m \<longleftrightarrow> gives_reason c \<and> pred_option reads_back (call_record c m)"

lemma reads_back_cases:
  assumes "reads_back t"
  obtains "transition_valid t" | e where "try_canonical_bytes enc_transition t = Inl e"
  using assms by (auto simp: reads_back_def transitionc.from_canonical_bytes_exact split: sum.splits)

lemma transition_valid_reads_back: "transition_valid t \<Longrightarrow> reads_back t"
  by (simp add: reads_back_def transitionc.try_canonical_bytes_valid transitionc.from_canonical_bytes_exact)

lemma memory_call_atomic: "memory_call c m = (Inl e, m') \<Longrightarrow> m' = m"
  by (cases c)
    (auto simp: Let_def prepare_def prepare_versioned_def prepare_with_authority_def transition_def transition_under_def
      mark_indeterminate_def cancel_def cancel_under_def reconcile_verified_def reconcile_failed_def settle_def
      split: option.splits sum.splits if_splits)

text \<open>What the shared tail does to the memory, whatever the record.\<close>

lemma write_then_install_memory:
  assumes "write_then_install io t (memory_call c) d = (res, d')"
  shows "case res of Inr r \<Rightarrow> memory_call c (de_memory d) = (Inr r, de_memory d') | Inl _ \<Rightarrow> de_memory d' = de_memory d"
  using assms memory_call_atomic [of c "de_memory d"]
  by (cases "fst (memory_call c (de_memory d))")
    (auto simp: write_then_install_def map_err_def split: sum.splits prod.splits)

lemma refusal_NoneE:
  assumes "refusal (fst x) = None"
  obtains r k where "x = (Inr r, k)"
  using assms by (cases x; cases "fst x") auto

lemma replays_inv: "replays es m \<Longrightarrow> \<exists>v. journal_inv v m"
  using replay_loop_evolves evolves_inv [OF _ journal_inv_new]
  by (fastforce simp: replays_def replay_records_def rust_simps replay_durable_def replay_versioned_def)

text \<open>A call answers from memory, or goes through the shared tail with a record that replays as the call.\<close>

definition answers :: "durable_call \<Rightarrow> durable_effect_journal \<Rightarrow> durable_effect_error + operation_receipt \<Rightarrow> bool" where
  "answers c d res \<longleftrightarrow> (case res of
      Inr r \<Rightarrow> memory_call c (de_memory d) = (Inr r, de_memory d)
    | Inl err \<Rightarrow> \<exists>e. err = Contract e)"

definition writes :: "append_io \<Rightarrow> durable_call \<Rightarrow> durable_effect_journal \<Rightarrow> durable_result \<Rightarrow> bool" where
  "writes io c d out \<longleftrightarrow> (\<exists>t r m. call_record c (de_memory d) = Some t
     \<and> memory_call c (de_memory d) = (Inr r, m) \<and> apply_transition t (de_memory d) = (Inr r, m)
     \<and> write_then_install io t (memory_call c) d = out)"

lemma writesI:
  assumes "call_record c (de_memory d) = Some t" and "refusal (fst (memory_call c (de_memory d))) = None"
    and "apply_transition t (de_memory d) = memory_call c (de_memory d)"
  shows "writes io c d (write_then_install io t (memory_call c) d)"
  using assms refusal_NoneE [OF assms(2)] by (metis writes_def)

lemma validate_prepare_existing:
  "validate_prepare m intent ob = Inr (Some r) \<Longrightarrow>
     prepare_versioned intent ob p a now v m = (Inr r, m) \<and> rc_intent r = intent
     \<and> (\<exists>op. bt_get (ej_operations m) op = Some r)"
  by (auto simp: validate_prepare_def prepare_versioned_def rust_simps split: option.splits if_splits)

lemma call_prepare:
  fixes intent ob p now d
  defines "c \<equiv> CallPrepare intent ob p now"
  shows "snd (run_call io c d) = d \<and> answers c d (fst (run_call io c d)) \<or> writes io c d (run_call io c d)"
proof (cases "validate_prepare (de_memory d) intent ob")
  case (Inl e)
  then show ?thesis by (simp add: c_def durable_prepare_def answers_def)
next
  case (Inr found)
  then have "writes io c d (write_then_install io (Prepare intent ob p now) (memory_call c) d)"
    using validate_prepare_agrees [of "de_memory d" intent ob p now]
    by (intro writesI) (simp_all add: c_def apply_transition_def)
  moreover have "memory_call c = prepare intent ob p now" by (simp add: c_def fun_eq_iff)
  ultimately show ?thesis using Inr validate_prepare_existing [of "de_memory d" intent ob _ p system_default now V3]
    by (cases found) (simp_all add: c_def durable_prepare_def answers_def prepare_def)
qed

lemma call_prepare_with_authority:
  fixes intent ob p a now d
  defines "c \<equiv> CallPrepareWithAuthority intent ob p a now"
  assumes inv: "journal_inv v (de_memory d)"
  shows "snd (run_call io c d) = d \<and> answers c d (fst (run_call io c d)) \<or> writes io c d (run_call io c d)"
proof (cases "validate_prepare_with_authority (de_memory d) intent ob p a")
  case (Inl e)
  then show ?thesis by (simp add: c_def durable_prepare_with_authority_def answers_def)
next
  case (Inr found)
  have w: "writes io c d (write_then_install io (PrepareWithAuthority intent ob p a now) (memory_call c) d)"
    using validate_prepare_with_authority_agrees [of "de_memory d" intent ob p a now] Inr
    by (intro writesI) (simp_all add: c_def apply_transition_def)
  show ?thesis
  proof (cases found)
    case None
    have "memory_call c = prepare_with_authority intent ob p a now" by (simp add: c_def fun_eq_iff)
    then show ?thesis using Inr None w by (simp add: c_def durable_prepare_with_authority_def)
  next
    case (Some r)
    then have "validate_prepare (de_memory d) intent ob = Inr (Some r)"
      using Inr by (auto simp: validate_prepare_with_authority_def rust_simps split: if_splits option.splits)
    from validate_prepare_existing [OF this, of p a now V3] obtain op
      where r: "prepare_versioned intent ob p a now V3 (de_memory d) = (Inr r, de_memory d)" "rc_intent r = intent"
        "bt_get (ej_operations (de_memory d)) op = Some r" by blast
    then have "bt_get (ej_operations (de_memory d)) (ei_operation_id intent) = Some r"
      using journal_inv_receipt [OF inv r(3)] by simp
    then show ?thesis using Inr Some r(1)
      by (simp add: c_def durable_prepare_with_authority_def answers_def operation_def prepare_with_authority_def)
  qed
qed

lemma call_transition:
  fixes op nxt now dg code d
  defines "c \<equiv> CallTransition op nxt now dg code"
  shows "snd (run_call io c d) = d \<and> answers c d (fst (run_call io c d)) \<or> writes io c d (run_call io c d)"
proof (cases "validate_transition (de_memory d) op nxt now dg code")
  case (Inr found)
  then have "writes io c d (write_then_install io (Transition op nxt now dg code) (memory_call c) d)"
    using validate_transition_agrees [of "de_memory d" op nxt now dg code]
    by (intro writesI) (simp_all add: c_def apply_transition_def)
  moreover have "memory_call c = transition op nxt now dg code" by (simp add: c_def fun_eq_iff)
  ultimately show ?thesis using Inr by (simp add: c_def durable_transition_def)
qed (simp add: c_def durable_transition_def answers_def)

lemma call_mark_indeterminate:
  fixes op now reason d
  defines "c \<equiv> CallMarkIndeterminate op now reason"
  shows "snd (run_call io c d) = d \<and> answers c d (fst (run_call io c d)) \<or> writes io c d (run_call io c d)"
proof (cases "reason = []")
  case False
  let ?c = "CallTransition op Indeterminate now None (Some reason)"
  have "memory_call c = memory_call ?c" "run_call io c d = run_call io ?c d"
    "call_record c (de_memory d) = call_record ?c (de_memory d)"
    using False by (simp_all add: c_def fun_eq_iff mark_indeterminate_def durable_mark_indeterminate_def)
  then show ?thesis using call_transition [of io op Indeterminate now None "Some reason" d]
    unfolding answers_def writes_def by presburger
qed (simp add: c_def durable_mark_indeterminate_def answers_def)

lemma call_cancel:
  fixes op now ev code d
  defines "c \<equiv> CallCancel op now ev code"
  shows "snd (run_call io c d) = d \<and> answers c d (fst (run_call io c d)) \<or> writes io c d (run_call io c d)"
proof (cases "validate_cancel (de_memory d) op now ev code")
  case (Inr pr)
  then have pr: "cancellation_proof (de_memory d) op ev = Inr pr"
    by (auto simp: validate_cancel_def rust_simps)
  then have "writes io c d (write_then_install io (Cancel op now ev pr code) (memory_call c) d)"
    using validate_cancel_agrees [of "de_memory d" op now ev code] Inr
    by (intro writesI) (simp_all add: c_def apply_transition_def cancel_def)
  moreover have "memory_call c = cancel op now ev code" by (simp add: c_def fun_eq_iff)
  ultimately show ?thesis using Inr by (simp add: c_def durable_cancel_def)
qed (simp add: c_def durable_cancel_def answers_def)

lemma call_reconcile_verified:
  fixes op ev now d
  defines "c \<equiv> CallReconcileVerified op ev now"
  shows "snd (run_call io c d) = d \<and> answers c d (fst (run_call io c d)) \<or> writes io c d (run_call io c d)"
proof (cases "validate_reconcile_verified (de_memory d) op ev now")
  case (Inr found)
  then have "writes io c d (write_then_install io (ReconcileVerified op ev now) (memory_call c) d)"
    using validate_reconcile_verified_agrees [of "de_memory d" op ev now]
    by (intro writesI) (simp_all add: c_def apply_transition_def)
  moreover have "memory_call c = reconcile_verified op ev now" by (simp add: c_def fun_eq_iff)
  ultimately show ?thesis using Inr
    by (cases found) (auto simp: c_def durable_reconcile_verified_def answers_def validate_reconcile_verified_def
        reconcile_verified_def rust_simps split: if_splits option.splits)
qed (simp add: c_def durable_reconcile_verified_def answers_def)

lemma call_reconcile_failed:
  fixes op ev now reason d
  defines "c \<equiv> CallReconcileFailed op ev now reason"
  assumes reason: "reason \<noteq> []"
  shows "snd (run_call io c d) = d \<and> answers c d (fst (run_call io c d)) \<or> writes io c d (run_call io c d)"
proof (cases "validate_reconcile_failed (de_memory d) op ev now reason")
  case (Inr found)
  then have "\<And>r. operation (de_memory d) op = Some r \<Longrightarrow> rc_state r \<noteq> Prepared"
    by (auto simp: validate_reconcile_failed_def operation_def split: if_splits)
  then have "writes io c d (write_then_install io (ReconcileFailed op ev now reason) (memory_call c) d)"
    using validate_reconcile_failed_agrees [OF reason, of "de_memory d" op ev now] Inr
    by (intro writesI) (simp_all add: c_def apply_transition_def)
  moreover have "memory_call c = reconcile_failed op ev now reason" by (simp add: c_def fun_eq_iff)
  ultimately show ?thesis using Inr reason
    by (cases found) (auto simp: c_def durable_reconcile_failed_def answers_def validate_reconcile_failed_def
        reconcile_failed_def rust_simps split: if_splits option.splits)
qed (simp add: c_def durable_reconcile_failed_def answers_def)

lemma call_answers_or_writes:
  assumes "durable_at es d" and "gives_reason c"
  shows "snd (run_call io c d) = d \<and> answers c d (fst (run_call io c d)) \<or> writes io c d (run_call io c d)"
proof -
  obtain v where "journal_inv v (de_memory d)" using assms(1) replays_inv by (auto simp: durable_at_def)
  then show ?thesis using assms(2) call_prepare call_prepare_with_authority call_transition call_mark_indeterminate
      call_cancel call_reconcile_verified call_reconcile_failed
    by (cases c) (blast | simp)+
qed

text \<open>Every call, whatever its arguments, keeps the memory when it fails.\<close>

lemma call_failure_keeps_memory:
  assumes "durable_at es d" and "run_call io c d = (Inl err, d')"
  shows "de_memory d' = de_memory d"
proof (cases "gives_reason c")
  case True
  then show ?thesis using call_answers_or_writes [OF assms(1) True, of io] assms(2)
    by (auto simp: writes_def dest!: write_then_install_memory)
next
  case False
  then obtain op ev now where "c = CallReconcileFailed op ev now []" by (cases c) auto
  moreover from this have "reconcile_failed op ev now [] = memory_call c" by (simp add: fun_eq_iff)
  ultimately show ?thesis using assms(2)
    by (auto simp: durable_reconcile_failed_def dest!: write_then_install_memory split: sum.splits option.splits)
qed

section \<open>Reopening\<close>

lemma durable_open_at:
  assumes "durable_at es d"
  shows "\<exists>d'. durable_open Truncate (Some (jn_file (de_journal d))) = Inr d' \<and> durable_at es d' \<and> de_memory d' = de_memory d"
proof -
  have "log_ok 1 es" "jn_file (de_journal d) = file_of es" "replays es (de_memory d)"
    using assms by (simp_all add: durable_at_def journal_at_def)
  then show ?thesis using durable_open_log [OF _ recover_log] by simp
qed

lemma durable_open_pending:
  assumes pend: "append_pending es (v3_entry t) n jn" and m: "replays es m" and t: "transition_valid t"
    and ap: "apply_versioned V3 t m = (Inr r, m')"
  shows "\<exists>d. durable_open Truncate (Some (jn_file jn)) = Inr d
    \<and> (durable_at es d \<and> de_memory d = m \<or> durable_at (es @ [v3_entry t]) d \<and> de_memory d = m')"
proof -
  let ?e = "v3_entry t" and ?full = "n = length (next_frame es (v3_entry t))"
  have ok: "log_ok 1 (es @ [?e])" and n: "n \<le> length (next_frame es ?e)"
    and fl: "jn_file jn = file_of es @ take n (next_frame es ?e)"
    using pend by (simp_all add: append_pending_def)
  note rec = pending_recovery [OF pend]
  show ?thesis
  proof (cases ?full)
    case True
    have "replays (es @ [?e]) m'" using replay_records_snoc [OF m t] ap by (simp add: replays_def)
    moreover have "jn_file jn = file_of (es @ [?e])" using fl True by (simp only: file_of_snoc take_all order_refl)
    ultimately show ?thesis using durable_open_log [OF ok, of "jn_file jn" False m'] rec True by auto
  next
    case False
    have "log_ok 1 es" using ok log_ok_snoc by blast
    then show ?thesis using durable_open_log [of es "jn_file jn" "0 < n" m] rec False fl m by auto
  qed
qed

text \<open>What a call with a reason leaves, and what reopening its file gives.\<close>

lemma ok_call_recovers:
  assumes at: "durable_at es d" and ok: "call_ok c (de_memory d)" and run: "run_call io c d = (res, d')"
  shows "(case res of
        Inr r \<Rightarrow> \<exists>es'. durable_at es' d'
      | Inl err \<Rightarrow> d' = d \<or> (\<exists>s phase. err = Journal (AppendIndeterminate s phase)))
    \<and> (\<exists>es' d''. durable_open Truncate (Some (jn_file (de_journal d'))) = Inr d'' \<and> durable_at es' d''
        \<and> (de_memory d'' = de_memory d'
           \<or> (\<exists>s phase r. res = Inl (Journal (AppendIndeterminate s phase))
                \<and> memory_call c (de_memory d) = (Inr r, de_memory d''))))"
proof -
  have same: ?thesis if "d' = d" using at durable_open_at [OF at] that by (auto split: sum.splits)
  have "gives_reason c" using ok by (simp add: call_ok_def)
  from call_answers_or_writes [OF at this, of io] same run
  consider "d' = d" | "writes io c d (res, d')" by auto
  then show ?thesis
  proof cases
    case 2
    then obtain t r m where w: "call_record c (de_memory d) = Some t" "memory_call c (de_memory d) = (Inr r, m)"
        "apply_versioned V3 t (de_memory d) = (Inr r, m)" "write_then_install io t (memory_call c) d = (res, d')"
      by (auto simp: writes_def apply_transition_current)
    have rep: "replays es (de_memory d)" using at by (simp add: durable_at_def)
    have "reads_back t" using ok w(1) by (simp add: call_ok_def)
    then show ?thesis
    proof (cases rule: reads_back_cases)
      case 1
      from write_then_install_outcome [OF at 1 w(2,3,4)]
      consider "res = Inr r" "durable_at (es @ [v3_entry t]) d'" | "d' = d"
        | n s phase where "res = Inl (Journal (AppendIndeterminate s phase))" "de_memory d' = de_memory d"
            "append_pending es (v3_entry t) n (de_journal d')" by blast
      then show ?thesis
      proof cases
        case 1
        then show ?thesis using durable_open_at [OF 1(2)] by auto
      next
        case 3
        then show ?thesis using w(2) durable_open_pending [OF 3(3) rep \<open>transition_valid t\<close> w(3)] by auto
      qed (rule same)
    next
      case (2 e)
      then show ?thesis using same w(4) by (simp add: write_then_install_def)
    qed
  qed (rule same)
qed

text \<open>C1: the durable journal refines the in-memory journal and survives a crash at any point. From a
  journal in step with its file, and whatever the operating system does: (1) a call that fails, whatever
  its arguments, leaves the memory as it was; (2) a call that succeeds does exactly what the in-memory
  operation does, unless it is a failure reconciliation with an empty reason; (3) if moreover the record
  the call writes reads back from its own bytes, then a failed call leaves the whole journal as it was
  unless the append's outcome is unknown, and in every case opening the file as it then is succeeds,
  and gives back the journal's memory; only after an append of unknown outcome may it instead give the
  memory in which the call has happened.

  The side condition of (3) is \<open>call_ok\<close>. It leaves out the failure reconciliation with an empty
  reason (\<open>empty_reason_poisons_journal\<close>), and records that the codec does not return unchanged: an
  effect class that is empty or longer than 128 bytes (\<open>empty_class_poisons_journal\<close>), or a laboratory
  digest. Opening here is opening on storage that works: an input or output error of
  the open itself is not modelled.\<close>

theorem durable_recovery:
  assumes "durable_at es d" and "run_call io c d = (res, d')"
  shows "(\<forall>err. res = Inl err \<longrightarrow> de_memory d' = de_memory d)
    \<and> (gives_reason c \<longrightarrow> (\<forall>r. res = Inr r \<longrightarrow> memory_call c (de_memory d) = (Inr r, de_memory d')))
    \<and> (call_ok c (de_memory d) \<longrightarrow>
        (case res of
           Inr r \<Rightarrow> \<exists>es'. durable_at es' d'
         | Inl err \<Rightarrow> d' = d \<or> (\<exists>s phase. err = Journal (AppendIndeterminate s phase)))
        \<and> (\<exists>es' d''. durable_open Truncate (Some (jn_file (de_journal d'))) = Inr d'' \<and> durable_at es' d''
             \<and> (de_memory d'' = de_memory d'
                \<or> (\<exists>s phase r. res = Inl (Journal (AppendIndeterminate s phase))
                     \<and> memory_call c (de_memory d) = (Inr r, de_memory d'')))))"
proof (intro conjI impI allI)
  fix err assume "res = Inl err"
  then show "de_memory d' = de_memory d" using call_failure_keeps_memory assms by blast
next
  fix r assume "gives_reason c" "res = Inr r"
  then show "memory_call c (de_memory d) = (Inr r, de_memory d')"
    using call_answers_or_writes [OF assms(1), of c io] assms(2)
    by (auto simp: answers_def writes_def dest!: write_then_install_memory)
qed (use ok_call_recovers [OF assms(1) _ assms(2)] in blast)+

definition sample_durable :: durable_effect_journal where
  "sample_durable = \<lparr>de_journal = sample_journal, de_memory = journal_new\<rparr>"

lemma sample_durable_at: "durable_at [] sample_durable"
  by (simp add: durable_at_def sample_durable_def sample_journal_at replays_def replay_records_def
      replay_durable_def replay_versioned_def)

definition sample_call :: durable_call where
  "sample_call = CallPrepare sample_intent (ascii ''ob-1'') (ascii ''delivered'') 5"

lemma sample_call_ok: "call_ok sample_call journal_new"
  by (auto simp: call_ok_def sample_call_def sample_intent_valid i128_valid_def ascii_def text_valid_def id_valid_def
      id_byte_def MAX_STABLE_ID_LEN_def MAX_CANONICAL_TEXT_BYTES_def intro!: transition_valid_reads_back)

theorem durable_recovery_witness:
  "\<exists>res d' es' d''. run_call failing_io sample_call sample_durable = (res, d')
     \<and> durable_open Truncate (Some (jn_file (de_journal d'))) = Inr d'' \<and> durable_at es' d''"
proof -
  obtain res d' where run: "run_call failing_io sample_call sample_durable = (res, d')" by fastforce
  have "call_ok sample_call (de_memory sample_durable)" using sample_call_ok by (simp add: sample_durable_def)
  then show ?thesis using durable_recovery [OF sample_durable_at run] run by blast
qed

text \<open>
  What happens to a record that does not read back, when every system call succeeds: a record whose bytes
  do not decode is committed like any other, the memory takes it, and the file cannot be opened again.
\<close>

lemma decode_records_fails:
  assumes "jr_kind r = EFFECT_TRANSITION_V3_RECORD_KIND" and "from_canonical_bytes dec_transition (jr_payload r) = Inl e"
    and "decode_records v rs = Inr ts"
  shows "decode_records v (rs @ [r]) = Inl (Decode (jr_sequence r) e)"
  using assms(3)
proof (induction rs arbitrary: v ts)
  case Nil
  then show ?case using assms(1,2) by (simp add: kind_version_V3)
next
  case (Cons q rs)
  then show ?case by (auto simp: rust_simps split: option.splits if_splits)
qed

lemma unreadable_record_poisons:
  assumes at: "durable_at es d" and bs: "try_canonical_bytes enc_transition t = Inr bs"
    and bad: "from_canonical_bytes dec_transition bs = Inl e"
    and room: "log_ok 1 (es @ [(EFFECT_TRANSITION_V3_RECORD_KIND, bs)])"
      "length (file_of (es @ [(EFFECT_TRANSITION_V3_RECORD_KIND, bs)])) \<le> u64_max"
    and inst: "install (de_memory d) = (Inr r, m)"
  shows "\<exists>d'. write_then_install good_io t install d = (Inr r, d') \<and> de_memory d' = m
    \<and> durable_open policy (Some (jn_file (de_journal d'))) = Inl (Decode (1 + length es) e)"
proof -
  let ?e = "(EFFECT_TRANSITION_V3_RECORD_KIND, bs)"
  obtain jn where jn: "journal_append good_io EFFECT_TRANSITION_V3_RECORD_KIND bs (de_journal d)
      = (Inr (entry_record (1 + length es) (log_root 1 ROOT_0 es) ?e), jn)" "journal_at (es @ [?e]) jn"
    using append_commits [OF _ room] at by (auto simp: durable_at_def)
  have fl: "jn_file jn = file_of (es @ [?e])" using jn(2) by (simp add: journal_at_def)
  obtain ts where "decode_records V1 (log_records 1 ROOT_0 es) = Inr ts"
    using at by (auto simp: durable_at_def replays_def replay_records_def rust_simps)
  then have "decode_records V1 (log_records 1 ROOT_0 (es @ [?e])) = Inl (Decode (1 + length es) e)"
    unfolding log_records_snoc using decode_records_fails [OF _ _, of "entry_record (1 + length es) (log_root 1 ROOT_0 es) ?e" e] bad
    by (simp add: entry_record_def)
  then have "replay_report (log_report (es @ [?e]) False) = Inl (Decode (1 + length es) e)"
    by (simp add: replay_report_def replay_records_def log_report_def report_def)
  then have "durable_open policy (Some (jn_file jn)) = Inl (Decode (1 + length es) e)"
    unfolding fl durable_open_def option.case recover_log [OF room(1)] by simp
  then show ?thesis using jn(1) bs inst by (simp add: write_then_install_def)
qed

text \<open>
  Such a record is the preparation of an intent whose effect class is empty or longer than 128 bytes:
  the encoder writes it, and the decoder refuses it.
\<close>

definition bad_class :: "effect_intent \<Rightarrow> bool" where
  "bad_class i \<longleftrightarrow> id_valid (ei_operation_id i) \<and> id_valid (ei_idempotency_key i)
     \<and> digest_valid (ei_request_digest i) \<and> digest_valid (ei_precondition_digest i)
     \<and> text_valid (ei_effect_class i)
     \<and> (ei_effect_class i = [] \<or> MAX_EFFECT_CLASS_LEN < length (ei_effect_class i))"

lemma bad_class_encodes:
  assumes "bad_class i" and "id_valid ob" and "text_valid p" and "i128_valid now"
  shows "try_canonical_bytes enc_transition (Prepare i ob p now) = Inr (transition_wire (Prepare i ob p now))"
proof -
  have "enc_intent i e = enc_emit (intent_wire i) e" if "ce_error e = None" for e
    using assms(1) that by (simp add: enc_intent_def intent_wire_def bad_class_def encoder_laws idc.enc_wire)
  then have "enc_transition (Prepare i ob p now) encoder_new = enc_emit (transition_wire (Prepare i ob p now)) encoder_new"
    using assms(2-) by (simp add: enc_transition_def Let_def transition_wire_def encoder_laws idc.enc_wire encoder_new_def)
  then show ?thesis
    by (simp add: try_canonical_bytes_def encoder_new_def enc_finish_checked_def enc_emit_def)
qed

lemma bad_class_unreadable:
  assumes "bad_class i"
  shows "\<exists>e. from_canonical_bytes dec_transition (transition_wire (Prepare i ob p now)) = Inl e"
proof (rule ccontr)
  assume "\<not> ?thesis"
  then obtain t where "from_canonical_bytes dec_transition (transition_wire (Prepare i ob p now)) = Inr t"
    by (metis sum.exhaust)
  then have t: "transition_valid t" "transition_wire (Prepare i ob p now) = transition_wire t"
    by (simp_all add: transitionc.from_canonical_bytes_exact)
  then have "transition_tag t = 1" by (simp add: transition_wire_def)
  then obtain k ob' p' now' where k: "t = Prepare k ob' p' now'" by (cases t) simp_all
  then have "\<exists>r s. intent_wire i @ r = intent_wire k @ s" using t(2) by (auto simp: transition_wire_def)
  then obtain r s where w: "bytes_wire (ei_operation_id i) @ bytes_wire (ei_idempotency_key i) @ bytes_wire (ei_effect_class i) @ r
      = bytes_wire (ei_operation_id k) @ bytes_wire (ei_idempotency_key k) @ bytes_wire (ei_effect_class k) @ s"
    by (auto simp: intent_wire_def)
  have v: "intent_valid k" using t(1) k by simp
  note 1 = idc.wire_unique [OF _ _ w]
  note 2 = idc.wire_unique [of "ei_idempotency_key i" "ei_idempotency_key k" "bytes_wire (ei_effect_class i) @ r"
      "bytes_wire (ei_effect_class k) @ s"]
  have "ei_effect_class i = ei_effect_class k"
    using 1 2 textc.wire_unique [of "ei_effect_class i" "ei_effect_class k" r s] assms v
    by (simp add: bad_class_def intent_valid_def)
  then show False using assms v by (auto simp: bad_class_def intent_valid_def)
qed

lemma bad_class_poisons_journal:
  fixes i ob p now
  defines "t \<equiv> Prepare i ob p now"
  assumes at: "durable_at es d" and bad: "bad_class i" and fields: "id_valid ob" "text_valid p" "i128_valid now"
    and new: "validate_prepare (de_memory d) i ob = Inr None"
    and room: "log_ok 1 (es @ [v3_entry t])" "length (file_of (es @ [v3_entry t])) \<le> u64_max"
  shows "\<exists>r d' e. durable_prepare good_io i ob p now d = (Inr r, d') \<and> rc_intent r = i
    \<and> durable_open policy (Some (jn_file (de_journal d'))) = Inl (Decode (1 + length es) e)"
proof -
  obtain e where e: "from_canonical_bytes dec_transition (transition_wire t) = Inl e"
    using bad_class_unreadable [OF bad, of ob p now] by (auto simp: t_def)
  have "refusal (fst (prepare i ob p now (de_memory d))) = None"
    using validate_prepare_agrees [of "de_memory d" i ob p now] new by simp
  then obtain r m where inst: "prepare i ob p now (de_memory d) = (Inr r, m)" by (rule refusal_NoneE)
  then have "rc_intent r = i"
    using new by (auto simp: prepare_def prepare_versioned_def validate_prepare_def Let_def split: option.splits if_splits)
  then show ?thesis
    using unreadable_record_poisons [OF at bad_class_encodes [OF bad fields, folded t_def] e room, of "prepare i ob p now" r m policy]
      inst new by (auto simp: durable_prepare_def t_def)
qed

text \<open>C27: what a failure reconciliation without a reason does to an operation of unknown outcome, when
  every system call succeeds: the pre-validator lets it through, the record is
  committed to the file, the in-memory operation then refuses it, and from then on the file cannot be
  opened, because replay refuses the same record.
\<close>

theorem empty_reason_poisons_journal:
  fixes ev op now
  defines "t \<equiv> ReconcileFailed op ev now []"
  assumes at: "durable_at es d" and op: "operation (de_memory d) op = Some r" "rc_state r = Indeterminate"
    and later: "rc_updated_at r < now" and t: "transition_valid t"
    and room: "log_ok 1 (es @ [v3_entry t])" "length (file_of (es @ [v3_entry t])) \<le> u64_max"
  shows "\<exists>d'. durable_reconcile_failed good_io op ev now [] d = (Inl (Contract EvidenceRequired), d')
    \<and> jn_file (de_journal d') = file_of (es @ [v3_entry t])
    \<and> durable_open policy (Some (jn_file (de_journal d'))) = Inl (Contract EvidenceRequired)"
proof -
  let ?m = "de_memory d" and ?es = "es @ [v3_entry t]"
  have jat: "journal_at es (de_journal d)" and rep: "replays es ?m" using at by (simp_all add: durable_at_def)
  note silent = validate_reconcile_failed_ignores_reason [OF op later, of ev]
  obtain jn where jn: "journal_append good_io EFFECT_TRANSITION_V3_RECORD_KIND (transition_wire t) (de_journal d)
      = (Inr (entry_record (1 + length es) (log_root 1 ROOT_0 es) (v3_entry t)), jn)" "journal_at ?es jn"
    using append_commits [OF jat room] by blast
  have run: "durable_reconcile_failed good_io op ev now [] d
      = (Inl (Contract EvidenceRequired), \<lparr>de_journal = jn, de_memory = ?m\<rparr>)"
    using transitionc.try_canonical_bytes_valid [OF t] jn(1)
    by (simp add: durable_reconcile_failed_def silent write_then_install_def t_def)
  have fl: "jn_file jn = file_of ?es" using jn(2) by (simp add: journal_at_def)
  have "apply_versioned V3 t ?m = (Inl EvidenceRequired, ?m)" by (simp add: apply_versioned_def t_def silent)
  then have "replay_report (log_report ?es False) = Inl (Contract EvidenceRequired)"
    using replay_records_snoc [OF rep t] by (simp add: replay_report_def log_report_def report_def)
  then have "durable_open policy (Some (jn_file jn)) = Inl (Contract EvidenceRequired)"
    unfolding fl durable_open_def option.case recover_log [OF room(1)] by simp
  then show ?thesis using run fl by simp
qed

text \<open>A log that prepares an operation, commits it and loses sight of it.\<close>

definition sample_records :: "effect_journal_transition list" where
  "sample_records =
     [Prepare sample_intent (ascii ''ob-1'') (ascii ''delivered'') 5,
      Transition (ascii ''op-1'') effect_state.Committed 6 None None,
      Transition (ascii ''op-1'') Indeterminate 7 None (Some (ascii ''lost''))]"

lemma replays_log:
  assumes "replays es m" and "list_all transition_valid ts" and "replay_loop V3 (map (Pair V3) ts) m = Inr m'"
  shows "replays (es @ map v3_entry ts) m'"
  using assms
proof (induction ts arbitrary: es m)
  case (Cons t ts)
  obtain r k where ap: "apply_versioned V3 t m = (Inr r, k)" "replay_loop V3 (map (Pair V3) ts) k = Inr m'"
    using Cons.prems(3) by (auto split: prod.splits sum.splits)
  have "replays (es @ [v3_entry t]) k"
    using replay_records_snoc [OF Cons.prems(1), of t] Cons.prems(2) ap(1) by (simp add: replays_def)
  from Cons.IH [OF this _ ap(2)] show ?case using Cons.prems(2) by simp
qed simp

definition sample_unknown :: effect_journal where
  "sample_unknown = (case replay_loop V3 (map (Pair V3) sample_records) journal_new of Inr m \<Rightarrow> m | Inl _ \<Rightarrow> journal_new)"

lemma sample_unknown_state:
  "replay_loop V3 (map (Pair V3) sample_records) journal_new = Inr sample_unknown"
  "\<exists>r. operation sample_unknown (ascii ''op-1'') = Some r \<and> rc_state r = Indeterminate \<and> rc_updated_at r = 7"
proof -
  have "case replay_loop V3 (map (Pair V3) sample_records) journal_new of
      Inr m \<Rightarrow> (case operation m (ascii ''op-1'') of Some r \<Rightarrow> rc_state r = Indeterminate \<and> rc_updated_at r = 7 | None \<Rightarrow> False)
    | Inl _ \<Rightarrow> False" by code_simp
  then show "replay_loop V3 (map (Pair V3) sample_records) journal_new = Inr sample_unknown"
    "\<exists>r. operation sample_unknown (ascii ''op-1'') = Some r \<and> rc_state r = Indeterminate \<and> rc_updated_at r = 7"
    by (auto simp: sample_unknown_def split: sum.splits option.splits)
qed


lemma length_file_of: "log_ok 1 es \<Longrightarrow> length (file_of es) = (\<Sum>e\<leftarrow>es. 128 + length (snd e))"
proof (induction es rule: rev_induct)
  case (snoc e es)
  then have "log_ok 1 es" using log_ok_snoc by blast
  then show ?case using snoc.IH length_next_frame [OF snoc.prems] unfolding file_of_snoc by simp
qed simp

definition sample_poison :: effect_journal_transition where
  "sample_poison = ReconcileFailed (ascii ''op-1'') sample_digest 9 []"

lemma sample_records_valid: "list_all transition_valid sample_records" "transition_valid sample_poison"
proof -
  have "id_valid (ascii ''op-1'')" "id_valid (ascii ''ob-1'')" "text_valid (ascii ''delivered'')" "text_valid (ascii ''lost'')"
    "text_valid []"
    by (simp_all add: ascii_def text_valid_def id_valid_def id_byte_def MAX_STABLE_ID_LEN_def MAX_CANONICAL_TEXT_BYTES_def)
  then show "list_all transition_valid sample_records" "transition_valid sample_poison"
    by (simp_all add: sample_records_def sample_poison_def sample_intent_valid i128_valid_def sample_digest_def digest_valid_new)
qed

lemma sample_room:
  defines "es \<equiv> map v3_entry (sample_records @ [sample_poison])"
  shows "log_ok 1 es" "length (file_of es) \<le> u64_max"
proof -
  have "list_all (\<lambda>t. length (transition_wire t) \<le> 1000) (sample_records @ [sample_poison])" by code_simp
  then have len: "\<forall>e\<in>set es. length (snd e) \<le> 1000" by (auto simp: es_def list_all_iff)
  then show ok: "log_ok 1 es"
    by (simp add: log_ok_def es_def list_all_iff entry_ok_def MAX_RECORD_PAYLOAD_BYTES_def u64_max_def sample_records_def)
  have "(\<Sum>e\<leftarrow>es. 128 + length (snd e)) \<le> (\<Sum>e\<leftarrow>es. 1128)" using len by (intro sum_list_mono) auto
  also have "\<dots> = 4512" by (simp add: es_def sample_records_def)
  finally show "length (file_of es) \<le> u64_max" using length_file_of [OF ok] by (simp add: u64_max_def)
qed

definition sample_unsettled :: durable_effect_journal where
  "sample_unsettled =
     (let es = map v3_entry sample_records in
      \<lparr>de_journal = \<lparr>jn_file = file_of es, jn_next_sequence = 1 + length es, jn_last_root = log_root 1 ROOT_0 es,
         jn_committed_len = length (file_of es), jn_pending = None\<rparr>, de_memory = sample_unknown\<rparr>)"

lemma sample_unsettled_at: "durable_at (map v3_entry sample_records) sample_unsettled"
proof -
  have "replays ([] @ map v3_entry sample_records) sample_unknown"
    by (rule replays_log [OF _ sample_records_valid(1) sample_unknown_state(1)])
      (simp add: replays_def replay_records_def replay_durable_def replay_versioned_def)
  moreover have "log_ok 1 (map v3_entry sample_records)"
    using sample_room(1) log_ok_snoc by simp
  ultimately show ?thesis by (simp add: durable_at_def journal_at_def sample_unsettled_def Let_def)
qed

theorem empty_reason_poisons_journal_witness:
  "\<exists>d'. durable_reconcile_failed good_io (ascii ''op-1'') sample_digest 9 [] sample_unsettled
       = (Inl (Contract EvidenceRequired), d')
     \<and> durable_open Truncate (Some (jn_file (de_journal d'))) = Inl (Contract EvidenceRequired)"
proof -
  obtain r where r: "operation (de_memory sample_unsettled) (ascii ''op-1'') = Some r" "rc_state r = Indeterminate"
      "rc_updated_at r < 9"
    using sample_unknown_state(2) by (auto simp: sample_unsettled_def Let_def)
  show ?thesis
    using empty_reason_poisons_journal [OF sample_unsettled_at r, of sample_digest] sample_records_valid(2) sample_room
    by (auto simp: sample_poison_def)
qed

text \<open>An intent without an effect class, prepared in a fresh journal.\<close>

definition classless_intent :: effect_intent where
  "classless_intent = sample_intent\<lparr>ei_effect_class := []\<rparr>"

lemma classless_intent_bad: "bad_class classless_intent"
  using sample_intent_valid by (auto simp: bad_class_def classless_intent_def intent_valid_def text_valid_def)

lemma classless_room:
  defines "es \<equiv> [v3_entry (Prepare classless_intent (ascii ''ob-1'') (ascii ''delivered'') 5)]"
  shows "log_ok 1 es" "length (file_of es) \<le> u64_max"
proof -
  have "length (transition_wire (Prepare classless_intent (ascii ''ob-1'') (ascii ''delivered'') 5)) \<le> 1000" by code_simp
  then have len: "length (snd (hd es)) \<le> 1000" by (simp add: es_def)
  then show ok: "log_ok 1 es"
    by (simp add: log_ok_def es_def entry_ok_def MAX_RECORD_PAYLOAD_BYTES_def u64_max_def)
  show "length (file_of es) \<le> u64_max" using length_file_of [OF ok] len by (simp add: u64_max_def es_def)
qed

lemma empty_class_poisons_journal:
  "\<exists>r d' e. durable_prepare good_io classless_intent (ascii ''ob-1'') (ascii ''delivered'') 5 sample_durable = (Inr r, d')
     \<and> rc_intent r = classless_intent
     \<and> durable_open policy (Some (jn_file (de_journal d'))) = Inl (Decode 1 e)"
proof -
  have v: "id_valid (ascii ''ob-1'')" "text_valid (ascii ''delivered'')" "i128_valid 5"
    by (simp_all add: ascii_def text_valid_def id_valid_def id_byte_def MAX_STABLE_ID_LEN_def MAX_CANONICAL_TEXT_BYTES_def i128_valid_def)
  have "validate_prepare (de_memory sample_durable) classless_intent (ascii ''ob-1'') = Inr None"
    by (simp add: sample_durable_def validate_prepare_def journal_new_def bt_contains_def)
  from bad_class_poisons_journal [OF sample_durable_at classless_intent_bad v this] classless_room
  show ?thesis by simp
qed

end
