(* ===== verification/Json_Parser.thy ===== *)
theory Json_Parser
  imports Effect_Records
begin

text \<open>
  The JSON layer of \<open>crates/fss-core/src/effect.rs\<close>: the string writer, the value type, the closed
  object view and the hand-written recursive-descent parser with its depth limit. The lemmas show that the
  parser ends on every input, reads back what is rendered, returns only values that fit its depth limit
  and the types of their parts, and cannot panic on ASCII input.

  A Rust \<open>str\<close> is its UTF-8 bytes. The parser's cursor is the list of bytes still to be read; its
  offset is the length of the input less the length of that list. Slicing a \<open>str\<close> inside a character
  panics, so a call returns \<open>Inl Panicked\<close>, \<open>Inl (Refused e)\<close> for an error \<open>e\<close>, or a value.
\<close>

section \<open>Text of the standard library\<close>

datatype json_fault = Panicked | Refused effect_schema_error

abbreviation json_err :: "bytes \<Rightarrow> json_fault + 'a" where
  "json_err detail \<equiv> Inl (Refused (JsonError detail))"

text \<open>\<open>ToString\<close> of the unsigned and signed integers.\<close>

fun decimal :: "nat \<Rightarrow> bytes" where
  "decimal n = (if n < 10 then [0x30 + of_nat n] else decimal (n div 10) @ [0x30 + of_nat (n mod 10)])"

declare decimal.simps [simp del]

definition display_int :: "int \<Rightarrow> bytes" where
  "display_int v = (if v < 0 then 0x2d # decimal (nat (- v)) else decimal (nat v))"

definition HEX_DIGITS :: bytes where "HEX_DIGITS = ascii ''0123456789abcdef''"

text \<open>\<open>String::push\<close> of a character of the basic plane, and the width \<open>char::len_utf8\<close> that a lead byte announces.\<close>

definition utf8_char :: "nat \<Rightarrow> bytes" where
  "utf8_char code =
     (if code < 0x80 then [of_nat code]
      else if code < 0x800 then [of_nat (0xc0 + code div 64), of_nat (0x80 + code mod 64)]
      else [of_nat (0xe0 + code div 4096), of_nat (0x80 + code div 64 mod 64), of_nat (0x80 + code mod 64)])"

definition utf8_width :: "u8 \<Rightarrow> nat" where
  "utf8_width b = (if b < 0x80 then 1 else if b < 0xe0 then 2 else if b < 0xf0 then 3 else 4)"

text \<open>\<open>str::is_char_boundary\<close>, for an index past the start.\<close>

definition is_char_boundary :: "bytes \<Rightarrow> usize \<Rightarrow> bool" where
  "is_char_boundary s i \<longleftrightarrow> i = length s \<or> i < length s \<and> \<not> utf8_cont (s ! i)"

definition is_ascii_digit :: "u8 \<Rightarrow> bool" where
  "is_ascii_digit b \<longleftrightarrow> 0x30 \<le> b \<and> b \<le> 0x39"

definition hex_digit :: "u8 \<Rightarrow> nat option" where
  "hex_digit b =
     (if 0x30 \<le> b \<and> b \<le> 0x39 then Some (unat (b - 0x30))
      else if 0x61 \<le> b \<and> b \<le> 0x66 then Some (unat (b - 0x57))
      else if 0x41 \<le> b \<and> b \<le> 0x46 then Some (unat (b - 0x37)) else None)"

fun hex_value :: "nat \<Rightarrow> bytes \<Rightarrow> nat option" where
  "hex_value n [] = Some n"
| "hex_value n (b # bs) = (case hex_digit b of None \<Rightarrow> None | Some k \<Rightarrow> hex_value (16 * n + k) bs)"

text \<open>\<open>u16::from_str_radix(s, 16)\<close> on a string of four bytes, which cannot overflow: a leading plus sign
  is accepted.\<close>

definition from_str_radix16 :: "bytes \<Rightarrow> nat option" where
  "from_str_radix16 s = (case s of [] \<Rightarrow> None | b # r \<Rightarrow>
     if b = 0x2b then (if r = [] then None else hex_value 0 r) else hex_value 0 s)"

text \<open>\<open>str::parse::<i128>\<close> on an optional minus sign and decimal digits.\<close>

definition digits_value :: "bytes \<Rightarrow> nat" where
  "digits_value s = foldl (\<lambda>n b. 10 * n + unat (b - 0x30)) 0 s"

definition parse_i128 :: "bytes \<Rightarrow> int option" where
  "parse_i128 s =
     (let v = (if hd s = 0x2d then - int (digits_value (tl s)) else int (digits_value s))
      in if i128_valid v then Some v else None)"

section \<open>effect.rs: JSON values\<close>

definition MAX_JSON_DEPTH :: usize where "MAX_JSON_DEPTH = 16"

text \<open>\<open>json_write_str\<close>. Every byte of a character outside ASCII is at least \<open>0x80\<close>, so the match on
  characters is a match on bytes.\<close>

definition json_escape :: "u8 \<Rightarrow> bytes" where
  "json_escape c =
     (if c = 0x22 then [0x5c, 0x22]
      else if c = 0x5c then [0x5c, 0x5c]
      else if c = 0x0a then [0x5c, 0x6e]
      else if c = 0x0d then [0x5c, 0x72]
      else if c = 0x09 then [0x5c, 0x74]
      else if c = 0x08 then [0x5c, 0x62]
      else if c = 0x0c then [0x5c, 0x66]
      else if c < 0x20 then
        [0x5c, 0x75, 0x30, 0x30, HEX_DIGITS ! unat (drop_bit 4 c), HEX_DIGITS ! unat (c AND 0xf)]
      else [c])"

definition json_write_str :: "bytes \<Rightarrow> bytes" where
  "json_write_str s = 0x22 # concat (map json_escape s) @ [0x22]"

datatype json_value = Null | Bool bool | Number i128 | String bytes | Object "(bytes \<times> json_value) list"

definition as_str :: "json_value \<Rightarrow> json_fault + bytes" where
  "as_str v = (case v of String s \<Rightarrow> Inr s | _ \<Rightarrow> json_err (ascii ''expected string''))"

definition as_i128 :: "json_value \<Rightarrow> json_fault + i128" where
  "as_i128 v = (case v of Number n \<Rightarrow> Inr n | _ \<Rightarrow> json_err (ascii ''expected number''))"

definition as_timestamp :: "json_value \<Rightarrow> json_fault + i128" where
  "as_timestamp v = try_then (as_i128 v) (\<lambda>n.
     if n < 0 then json_err (ascii ''negative timestamp'') else Inr n)"

type_synonym json_object = "(bytes \<times> json_value) list"

definition json_closed :: "json_value \<Rightarrow> string \<Rightarrow> string list \<Rightarrow> json_fault + json_object" where
  "json_closed val context allowed =
     (case val of
        Object members \<Rightarrow>
          (case find (\<lambda>(k, _). k \<notin> set (map ascii allowed)) members of
             Some (k, _) \<Rightarrow> json_err (ascii ''unknown field '' @ [0x27] @ k @ [0x27] @ ascii '' in '' @ ascii context)
           | None \<Rightarrow> Inr members)
      | _ \<Rightarrow> json_err (ascii ''expected object for '' @ ascii context))"

definition STATIC_FIELDS :: "string list" where
  "STATIC_FIELDS =
     [''schema'', ''operationId'', ''idempotencyKey'', ''effectClass'', ''requestDigest'', ''preconditionDigest'',
      ''intent'', ''obligationId'', ''terminalPredicate'', ''preparedAt'', ''providerNonce'', ''messageDigest'',
      ''errorCode'', ''outcome'', ''evidenceDigest'', ''reconciledAt'', ''detail'', ''preparedEffectDigest'',
      ''authority'', ''principal'', ''capability'', ''leaseFence'']"

definition string_to_static_field :: "string \<Rightarrow> string" where
  "string_to_static_field key = (if key \<in> set STATIC_FIELDS then key else ''unknown'')"

fun json_find :: "json_object \<Rightarrow> string \<Rightarrow> json_value option" where
  "json_find [] key = None"
| "json_find ((k, v) # members) key = (if k = ascii key then Some v else json_find members key)"

definition json_get :: "json_object \<Rightarrow> string \<Rightarrow> json_fault + json_value" where
  "json_get obj key = ok_or (json_find obj key) (Refused (MissingField (string_to_static_field key)))"

definition json_str :: "json_object \<Rightarrow> string \<Rightarrow> json_fault + bytes" where
  "json_str obj key = try_then (json_get obj key) as_str"

section \<open>effect.rs: the parser\<close>

definition json_blank :: "u8 \<Rightarrow> bool" where
  "json_blank b \<longleftrightarrow> b = 0x20 \<or> b = 0x09 \<or> b = 0x0a \<or> b = 0x0d"

definition skip_whitespace :: "bytes \<Rightarrow> bytes" where
  "skip_whitespace rest = dropWhile json_blank rest"

text \<open>Every call of \<open>peek\<close> follows a call of \<open>skip_whitespace\<close>, so its own skip moves nothing.\<close>

definition json_peek :: "bytes \<Rightarrow> u8 option" where
  "json_peek rest = (case skip_whitespace rest of [] \<Rightarrow> None | b # _ \<Rightarrow> Some b)"

definition json_ensure_finished :: "usize \<Rightarrow> bytes \<Rightarrow> json_fault + unit" where
  "json_ensure_finished input_len rest =
     (let rest = skip_whitespace rest in
      if rest \<noteq> [] then
        if \<not> is_char_boundary rest (min 20 (length rest)) then Inl Panicked
        else json_err (ascii ''unexpected trailing data at byte offset '' @ decimal (input_len - length rest)
               @ ascii '': '' @ [0x27] @ take 20 rest @ [0x27])
      else Inr ())"

definition starts_with :: "bytes \<Rightarrow> string \<Rightarrow> bool" where
  "starts_with s p = (take (length p) s = ascii p)"

definition parse_null :: "bytes \<Rightarrow> json_fault + json_value \<times> bytes" where
  "parse_null rest =
     (if starts_with rest ''null'' then Inr (Null, drop 4 rest)
      else json_err (ascii ''invalid literal, expected '' @ [0x27] @ ascii ''null'' @ [0x27]))"

definition parse_bool :: "bytes \<Rightarrow> json_fault + json_value \<times> bytes" where
  "parse_bool rest =
     (if starts_with rest ''true'' then Inr (Bool True, drop 4 rest)
      else if starts_with rest ''false'' then Inr (Bool False, drop 5 rest)
      else json_err (ascii ''invalid boolean literal''))"

text \<open>The one-character escapes, and the four digits after \<open>\u\<close>.\<close>

definition simple_escape :: "u8 \<Rightarrow> u8 option" where
  "simple_escape c =
     (if c = 0x22 then Some 0x22 else if c = 0x5c then Some 0x5c else if c = 0x2f then Some 0x2f
      else if c = 0x62 then Some 0x08 else if c = 0x66 then Some 0x0c else if c = 0x6e then Some 0x0a
      else if c = 0x72 then Some 0x0d else if c = 0x74 then Some 0x09 else None)"

definition unicode_escape :: "bytes \<Rightarrow> json_fault + bytes" where
  "unicode_escape rest =
     (if length rest < 4 then json_err (ascii ''truncated '' @ [0x5c] @ ascii ''u escape'')
      else if \<not> is_char_boundary rest 4 then Inl Panicked
      else
        (case from_str_radix16 (take 4 rest) of
           None \<Rightarrow> json_err (ascii ''invalid '' @ [0x5c] @ ascii ''u escape: '' @ take 4 rest)
         | Some code \<Rightarrow>
             if 0xd800 \<le> code \<and> code \<le> 0xdfff
             then json_err (ascii ''invalid unicode code point: '' @ decimal code)
             else Inr (utf8_char code)))"

text \<open>The loop of \<open>parse_string\<close>, after the opening quote. A character that starts inside another one
  cannot be sliced out.\<close>

function parse_chars :: "bytes \<Rightarrow> bytes \<Rightarrow> json_fault + bytes \<times> bytes" where
  "parse_chars result [] = json_err (ascii ''unterminated string'')"
| "parse_chars result (b # rest) =
     (if b = 0x22 then Inr (result, rest)
      else if b = 0x5c then
        (case rest of
           [] \<Rightarrow> json_err (ascii ''unterminated string escape'')
         | esc # rest \<Rightarrow>
             (case simple_escape esc of
                Some c \<Rightarrow> parse_chars (result @ [c]) rest
              | None \<Rightarrow>
                  if esc = 0x75 then
                    try_then (unicode_escape rest) (\<lambda>ch. parse_chars (result @ ch) (drop 4 rest))
                  else json_err (ascii ''invalid escape char '' @ [0x27] @ utf8_char (unat esc) @ [0x27])))
      else if b < 0x20 then
        json_err (ascii ''unescaped control character 0x''
          @ [HEX_DIGITS ! unat (drop_bit 4 b), HEX_DIGITS ! unat (b AND 0xf)] @ ascii '' in string'')
      else if utf8_cont b then Inl Panicked
      else parse_chars (result @ take (utf8_width b) (b # rest)) (drop (utf8_width b) (b # rest)))"
  by pat_completeness auto
termination
  by (relation "measure (length \<circ> snd)") (auto simp: utf8_width_def)

definition parse_string :: "bytes \<Rightarrow> json_fault + bytes \<times> bytes" where
  "parse_string rest =
     (case rest of
        [] \<Rightarrow> json_err (ascii ''expected string starting with '' @ [0x27, 0x22, 0x27])
      | b # rest \<Rightarrow>
          if b \<noteq> 0x22 then json_err (ascii ''expected string starting with '' @ [0x27, 0x22, 0x27])
          else parse_chars [] rest)"

definition parse_number :: "bytes \<Rightarrow> json_fault + json_value \<times> bytes" where
  "parse_number rest =
     (let sign = (if rest \<noteq> [] \<and> hd rest = 0x2d then 1 else 0); r = drop sign rest in
      if r = [] \<or> \<not> is_ascii_digit (hd r) then json_err (ascii ''invalid number'')
      else
        let num_str = take sign rest @ takeWhile is_ascii_digit r in
        (case parse_i128 num_str of
           None \<Rightarrow> json_err (ascii ''number out of bounds: '' @ [0x27] @ num_str @ [0x27])
         | Some v \<Rightarrow> Inr (Number v, dropWhile is_ascii_digit r)))"

text \<open>Every part of the parser leaves fewer bytes than it was given.\<close>

lemma length_skip_whitespace: "length (skip_whitespace rest) \<le> length rest"
  by (simp add: skip_whitespace_def length_dropWhile_le)

lemma skip_whitespace_idem [simp]: "skip_whitespace (skip_whitespace rest) = skip_whitespace rest"
  by (induction rest) (simp_all add: skip_whitespace_def)

lemma json_peek_Some: "json_peek rest = Some b \<longleftrightarrow> (\<exists>r. skip_whitespace rest = b # r)"
  by (auto simp: json_peek_def split: list.splits)

lemma parse_chars_step:
  assumes "parse_chars acc (b # rest) = Inr (s, r)"
  shows "r = rest \<or> (\<exists>acc' k. parse_chars acc' (drop k rest) = Inr (s, r))"
proof -
  consider "b = 0x22" | "b = 0x5c" | "b \<noteq> 0x22" "b \<noteq> 0x5c" by blast
  then show ?thesis
  proof cases
    case 2
    then obtain e rs where "rest = e # rs" using assms by (cases rest) auto
    then have "\<exists>acc'. parse_chars acc' (drop 1 rest) = Inr (s, r) \<or> parse_chars acc' (drop 5 rest) = Inr (s, r)"
      using assms 2 by (auto simp: rust_simps split: option.splits if_splits)
    then show ?thesis by blast
  next
    case 3
    then have "parse_chars (acc @ take (utf8_width b) (b # rest)) (drop (utf8_width b) (b # rest)) = Inr (s, r)"
      using assms by (auto split: if_splits)
    moreover have "drop (utf8_width b) (b # rest) = drop (utf8_width b - 1) rest"
      by (simp add: utf8_width_def)
    ultimately show ?thesis by metis
  qed (use assms in auto)
qed

lemma parse_chars_shorter: "parse_chars acc rest = Inr (s, r) \<Longrightarrow> length r < length rest"
proof (induction rest arbitrary: acc rule: length_induct)
  case (1 rest)
  then obtain b bs where b: "rest = b # bs" by (cases rest) auto
  then consider "r = bs" | acc' k where "parse_chars acc' (drop k bs) = Inr (s, r)"
    using parse_chars_step 1(2) by blast
  then show ?case
  proof cases
    case 2
    moreover have "length (drop k bs) < length rest" using b by simp
    ultimately have "length r < length (drop k bs)" using 1(1) by blast
    then show ?thesis using b by simp
  qed (use b in simp)
qed

lemma parse_string_shorter: "parse_string rest = Inr (s, r) \<Longrightarrow> length r + 2 \<le> length rest"
  by (auto simp: parse_string_def split: list.splits if_splits dest: parse_chars_shorter)

lemma length_dropWhile_drop: "length (dropWhile P (drop k xs)) \<le> length xs"
  using length_dropWhile_le [of P "drop k xs"] by simp

lemma parse_leaf_shorter:
  "parse_null rest = Inr (v, r) \<Longrightarrow> length r \<le> length rest"
  "parse_bool rest = Inr (v, r) \<Longrightarrow> length r \<le> length rest"
  "parse_number rest = Inr (v, r) \<Longrightarrow> length r \<le> length rest"
  unfolding parse_null_def parse_bool_def parse_number_def Let_def
  by (auto simp del: drop_Cons split: if_splits option.splits intro: length_dropWhile_drop length_dropWhile_le)

text \<open>The recursive calls. \<open>parse_members\<close> is the loop of \<open>parse_object\<close>, with the members read so far.
  An error abandons the parser, so the depth needs no restoring on those paths.\<close>

function parse_value :: "usize \<Rightarrow> usize \<Rightarrow> bytes \<Rightarrow> json_fault + json_value \<times> bytes"
  and parse_object :: "usize \<Rightarrow> usize \<Rightarrow> bytes \<Rightarrow> json_fault + json_value \<times> bytes"
  and parse_members :: "usize \<Rightarrow> usize \<Rightarrow> json_object \<Rightarrow> bytes \<Rightarrow> json_fault + json_value \<times> bytes" where
  "parse_value input_len depth rest =
     (let rest = skip_whitespace rest in
      case json_peek rest of
        None \<Rightarrow> json_err (ascii ''unexpected end of input'')
      | Some b \<Rightarrow>
          if b = 0x6e then parse_null rest
          else if b = 0x74 \<or> b = 0x66 then parse_bool rest
          else if b = 0x22 then try_then (parse_string rest) (\<lambda>(s, rest). Inr (String s, rest))
          else if b = 0x7b then parse_object input_len depth rest
          else if b = 0x2d \<or> is_ascii_digit b then parse_number rest
          else json_err (ascii ''unexpected character '' @ [0x27] @ utf8_char (unat b) @ [0x27]
                 @ ascii '' at offset '' @ decimal (input_len - length rest)))"
| "parse_object input_len depth rest =
     (if depth \<ge> MAX_JSON_DEPTH then json_err (ascii ''maximum JSON depth exceeded'')
      else
        let rest = skip_whitespace (tl rest) in
        if json_peek rest = Some 0x7d then Inr (Object [], tl rest)
        else parse_members input_len (depth + 1) [] rest)"
| "parse_members input_len depth members rest =
     (let rest = skip_whitespace rest in
      if json_peek rest \<noteq> Some 0x22 then json_err (ascii ''expected string key in object'')
      else
        try_then (parse_string rest) (\<lambda>(key, rest).
        let rest = skip_whitespace rest in
        if json_peek rest \<noteq> Some 0x3a
        then json_err (ascii ''expected '' @ [0x27, 0x3a, 0x27] @ ascii '' after object key'')
        else
          try_then (parse_value input_len depth (tl rest)) (\<lambda>(v, rest).
          let members = members @ [(key, v)]; rest = skip_whitespace rest in
          if json_peek rest = Some 0x2c then parse_members input_len depth members (tl rest)
          else if json_peek rest = Some 0x7d then Inr (Object members, tl rest)
          else json_err (ascii ''expected '' @ [0x27, 0x2c, 0x27] @ ascii '' or '' @ [0x27, 0x7d, 0x27]
                 @ ascii '' in object''))))"
  by pat_completeness auto

text \<open>On its domain a recursive call leaves no more bytes than it was given, which bounds the loop.\<close>

lemma parse_dom_shorter:
  "parse_value_parse_object_parse_members_dom (Inl (n, d, rest)) \<Longrightarrow>
     parse_value n d rest = Inr (v, r) \<Longrightarrow> length r \<le> length rest"
  "parse_value_parse_object_parse_members_dom (Inr (Inl (n, d, rest))) \<Longrightarrow>
     parse_object n d rest = Inr (v, r) \<Longrightarrow> length r \<le> length rest"
  "parse_value_parse_object_parse_members_dom (Inr (Inr (n, d, members, rest))) \<Longrightarrow>
     parse_members n d members rest = Inr (v, r) \<Longrightarrow> length r \<le> length rest"
proof (induction arbitrary: v r and v r and v r rule: parse_value_parse_object_parse_members.pinduct)
  case (1 n d rest)
  from 1(3) consider "parse_null (skip_whitespace rest) = Inr (v, r)" | "parse_bool (skip_whitespace rest) = Inr (v, r)"
    | s where "parse_string (skip_whitespace rest) = Inr (s, r)" | "parse_number (skip_whitespace rest) = Inr (v, r)"
    | "json_peek (skip_whitespace rest) = Some 0x7b" "parse_object n d (skip_whitespace rest) = Inr (v, r)"
    by (auto simp: parse_value.psimps [OF 1(1)] Let_def rust_simps split: option.splits if_splits)
  then have "length r \<le> length (skip_whitespace rest)"
  proof cases
    case 5
    then show ?thesis using 1(2) [OF refl 5(1) _ _ _ refl 5(2)] by simp
  qed (auto dest: parse_leaf_shorter parse_string_shorter)
  then show ?case using length_skip_whitespace [of rest] by simp
next
  case (2 n d rest)
  let ?rest = "skip_whitespace (tl rest)"
  from 2(3) have "r = tl ?rest \<or> (\<not> MAX_JSON_DEPTH \<le> d \<and> json_peek ?rest \<noteq> Some 0x7d
      \<and> parse_members n (d + 1) [] ?rest = Inr (v, r))"
    by (auto simp: parse_object.psimps [OF 2(1)] Let_def split: if_splits)
  then have "length r \<le> length ?rest" using 2(2) [OF _ refl, of v r] by auto
  then show ?case using length_skip_whitespace [of "tl rest"] by simp
next
  case (3 n d members rest)
  let ?s = "skip_whitespace rest"
  from 3(4) obtain key r1 where s: "json_peek ?s = Some 0x22" "parse_string ?s = Inr (key, r1)"
      "json_peek (skip_whitespace r1) = Some 0x3a"
    and "\<exists>v1 r2. parse_value n d (tl (skip_whitespace r1)) = Inr (v1, r2)
      \<and> (r = tl (skip_whitespace r2) \<or> (json_peek (skip_whitespace r2) = Some 0x2c
          \<and> parse_members n d (members @ [(key, v1)]) (tl (skip_whitespace r2)) = Inr (v, r)))"
    by (fastforce simp: parse_members.psimps [OF 3(1)] Let_def rust_simps split: if_splits)
  then obtain v1 r2 where v: "parse_value n d (tl (skip_whitespace r1)) = Inr (v1, r2)"
    and e: "r = tl (skip_whitespace r2) \<or> (json_peek (skip_whitespace r2) = Some 0x2c
          \<and> parse_members n d (members @ [(key, v1)]) (tl (skip_whitespace r2)) = Inr (v, r))" by blast
  have "length r2 \<le> length (tl (skip_whitespace r1))"
    using 3(2) [OF refl _ s(2) refl refl _ v] s by simp
  moreover have "length r \<le> length r2"
    using e 3(3) [OF refl _ s(2) refl refl _ v refl refl refl] s length_skip_whitespace [of r2] by fastforce
  ultimately show ?case
    using parse_string_shorter [OF s(2)] length_skip_whitespace [of r1] length_skip_whitespace [of rest] by simp
qed

termination parse_value
proof (relation "measure (\<lambda>x. case x of Inl (n, d, rest) \<Rightarrow> 3 * length rest + 2
     | Inr (Inl (n, d, rest)) \<Rightarrow> 3 * length rest + 1 | Inr (Inr (n, d, m, rest)) \<Rightarrow> 3 * length rest)", goal_cases)
  case (2 n d rest x b)
  then show ?case using length_skip_whitespace [of rest] by simp
next
  case (3 n d rest x)
  then show ?case using length_skip_whitespace [of "tl rest"] by simp
next
  case (4 n d members rest x y key r1 z)
  then show ?case
    using parse_string_shorter [of x key r1] length_skip_whitespace [of rest] length_skip_whitespace [of r1] by simp
next
  case (5 n d members rest x y key r1 z w v r2 m r)
  then show ?case
    using parse_string_shorter [of x key r1] length_skip_whitespace [of rest] length_skip_whitespace [of r1]
      parse_dom_shorter(1) [of n d "tl z" v r2] length_skip_whitespace [of r2] by simp
qed simp

declare parse_value.simps [simp del] parse_object.simps [simp del] parse_members.simps [simp del]

text \<open>The three calls every \<open>from_json\<close> opens with.\<close>

definition parse_document :: "bytes \<Rightarrow> json_fault + json_value" where
  "parse_document s =
     try_then (parse_value (length s) 0 s) (\<lambda>(root, rest).
     try_then (json_ensure_finished (length s) rest) (\<lambda>_. Inr root))"

section \<open>Rendering\<close>

text \<open>What the writers write: the value without blanks, members in order.\<close>

fun json_render :: "json_value \<Rightarrow> bytes" and json_members :: "json_object \<Rightarrow> bytes" where
  "json_render Null = ascii ''null''"
| "json_render (Bool b) = (if b then ascii ''true'' else ascii ''false'')"
| "json_render (Number n) = display_int n"
| "json_render (String s) = json_write_str s"
| "json_render (Object ms) = 0x7b # json_members ms @ [0x7d]"
| "json_members [] = []"
| "json_members ((k, v) # ms) = json_write_str k @ 0x3a # json_render v @ (if ms = [] then [] else 0x2c # json_members ms)"

text \<open>A value that fits: its strings are UTF-8, its numbers 128 bits, and its nesting at most \<open>depth\<close>.\<close>

fun json_fits :: "nat \<Rightarrow> json_value \<Rightarrow> bool" where
  "json_fits depth (Number n) = i128_valid n"
| "json_fits depth (String s) = utf8_valid s"
| "json_fits 0 (Object ms) = False"
| "json_fits (Suc depth) (Object ms) = list_all (\<lambda>(k, v). utf8_valid k \<and> json_fits depth v) ms"
| "json_fits depth _ = True"

lemma utf8_valid_wide:
  assumes "utf8_valid (a # bs)" and "\<not> a \<le> 0x7f"
  defines "w \<equiv> utf8_width a - 1"
  shows "\<not> utf8_cont a" "w \<le> length bs" "list_all utf8_cont (take w bs)" "utf8_valid (drop w bs)"
proof -
  consider "0xc2 \<le> a" "a \<le> 0xdf" | "0xe0 \<le> a" "a \<le> 0xef" | "0xf0 \<le> a" "a \<le> 0xf4"
    using assms(1,2) by (auto split: if_splits)
  then have "\<not> utf8_cont a \<and> w \<le> length bs \<and> list_all utf8_cont (take w bs) \<and> utf8_valid (drop w bs)"
  proof cases
    case 1
    then have "w = 1" "\<not> utf8_cont a" by (auto simp: w_def utf8_width_def utf8_cont_def word_le_nat_alt word_less_nat_alt)
    then show ?thesis using assms(1,2) 1 by (auto split: list.splits)
  next
    case 2
    then have "w = 2" "\<not> utf8_cont a" "\<not> a \<le> 0xdf"
      by (auto simp: w_def utf8_width_def utf8_cont_def word_le_nat_alt word_less_nat_alt)
    then show ?thesis using assms(1,2) 2 by (auto split: list.splits)
  next
    case 3
    then have "w = 3" "\<not> utf8_cont a" "\<not> a \<le> 0xdf" "\<not> a \<le> 0xef"
      by (auto simp: w_def utf8_width_def utf8_cont_def word_le_nat_alt word_less_nat_alt)
    then show ?thesis using assms(1,2) 3 by (auto split: list.splits)
  qed
  then show "\<not> utf8_cont a" "w \<le> length bs" "list_all utf8_cont (take w bs)" "utf8_valid (drop w bs)" by auto
qed

text \<open>A control character, and the escape the writer gives it.\<close>

lemma hex_pair:
  fixes c :: u8
  assumes "c < 0x20"
  shows "from_str_radix16 [0x30, 0x30, HEX_DIGITS ! unat (drop_bit 4 c), HEX_DIGITS ! unat (c AND 0xf)] = Some (unat c)"
proof -
  have all: "list_all (\<lambda>n. from_str_radix16 [0x30, 0x30, HEX_DIGITS ! unat (drop_bit 4 (of_nat n :: u8)),
      HEX_DIGITS ! unat ((of_nat n :: u8) AND 0xf)] = Some n) [0..<32]"
    by code_simp
  have "unat c \<in> set [0..<32]" using assms by (simp add: word_less_nat_alt)
  then have "from_str_radix16 [0x30, 0x30, HEX_DIGITS ! unat (drop_bit 4 (of_nat (unat c) :: u8)),
      HEX_DIGITS ! unat ((of_nat (unat c) :: u8) AND 0xf)] = Some (unat c)"
    using all unfolding list_all_iff by blast
  then show ?thesis by simp
qed

definition at_char :: "bytes \<Rightarrow> bool" where
  "at_char r \<longleftrightarrow> (case r of [] \<Rightarrow> True | b # _ \<Rightarrow> \<not> utf8_cont b)"

lemma parse_chars_escape:
  assumes "c \<le> 0x7f" and "at_char r"
  shows "parse_chars acc (json_escape c @ r) = parse_chars (acc @ [c]) r"
proof -
  consider "c \<in> {0x22, 0x5c, 0x0a, 0x0d, 0x09, 0x08, 0x0c}"
    | "c \<notin> {0x22, 0x5c, 0x0a, 0x0d, 0x09, 0x08, 0x0c}" "c < 0x20"
    | "c \<notin> {0x22, 0x5c, 0x0a, 0x0d, 0x09, 0x08, 0x0c}" "\<not> c < 0x20" by blast
  then show ?thesis
  proof cases
    case 1
    then show ?thesis by (auto simp: json_escape_def simple_escape_def)
  next
    case 2
    have u: "unicode_escape ([0x30, 0x30, HEX_DIGITS ! unat (drop_bit 4 c), HEX_DIGITS ! unat (c AND 0xf)] @ r) = Inr [c]"
      using hex_pair [OF 2(2)] 2 assms
      by (cases r) (auto simp: unicode_escape_def is_char_boundary_def at_char_def utf8_char_def word_less_nat_alt)
    then show ?thesis using 2 by (simp add: json_escape_def simple_escape_def)
  next
    case 3
    moreover have "\<not> utf8_cont c" "utf8_width c = 1"
      using assms by (auto simp: utf8_cont_def utf8_width_def word_le_nat_alt word_less_nat_alt)
    ultimately show ?thesis by (simp add: json_escape_def)
  qed
qed

lemma json_escape_wide: "\<not> c \<le> 0x7f \<Longrightarrow> json_escape c = [c]"
  by (auto simp: json_escape_def word_le_nat_alt word_less_nat_alt)

lemma escaped_wide: "list_all utf8_cont s \<Longrightarrow> concat (map json_escape s) = s"
  by (induction s) (auto simp: json_escape_wide utf8_cont_def word_le_nat_alt)

lemma at_char_escaped: "utf8_valid s \<Longrightarrow> at_char (concat (map json_escape s) @ 0x22 # r)"
proof (cases s)
  case (Cons a bs)
  assume "utf8_valid s"
  then have "\<not> utf8_cont a" using Cons utf8_valid_wide(1) [of a bs]
    by (cases "a \<le> 0x7f") (auto simp: utf8_cont_def word_le_nat_alt)
  moreover have "\<not> utf8_cont 0x5c" by (simp add: utf8_cont_def)
  ultimately show ?thesis using Cons by (auto simp: at_char_def json_escape_def)
qed (simp add: at_char_def utf8_cont_def)

lemma parse_chars_written:
  "utf8_valid s \<Longrightarrow> parse_chars acc (concat (map json_escape s) @ 0x22 # r) = Inr (acc @ s, r)"
proof (induction s arbitrary: acc rule: length_induct)
  case (1 s)
  show ?case
  proof (cases s)
    case (Cons a bs)
    show ?thesis
    proof (cases "a \<le> 0x7f")
      case True
      then have v: "utf8_valid bs" using 1(2) Cons by simp
      then show ?thesis
        using parse_chars_escape [OF True at_char_escaped [OF v]] 1(1) Cons by simp
    next
      case False
      have "utf8_width a = Suc (utf8_width a - 1)" by (simp add: utf8_width_def)
      then obtain w where w: "utf8_width a = Suc w" by blast
      note V = utf8_valid_wide [OF 1(2) [unfolded Cons] False, unfolded w diff_Suc_1]
      have "concat (map json_escape s) = a # take w bs @ concat (map json_escape (drop w bs))"
        using escaped_wide [OF V(3)] json_escape_wide [OF False] Cons
        by (metis append_take_drop_id concat.simps(2) concat_append list.simps(9) map_append append_Cons append_Nil)
      moreover have "\<not> a < 0x20" "a \<noteq> 0x22" "a \<noteq> 0x5c" using False by (auto simp: word_le_nat_alt word_less_nat_alt)
      moreover have "parse_chars (acc @ a # take w bs) (concat (map json_escape (drop w bs)) @ 0x22 # r)
          = Inr ((acc @ a # take w bs) @ drop w bs, r)"
        using 1(1) V(4) Cons by simp
      ultimately show ?thesis using V(1,2) Cons w by (simp add: min_def)
    qed
  qed simp
qed

lemma parse_string_written [simp]: "utf8_valid s \<Longrightarrow> parse_string (json_write_str s @ r) = Inr (s, r)"
  by (simp add: json_write_str_def parse_string_def parse_chars_written)

section \<open>Numbers\<close>

lemma decimal_digits: "list_all is_ascii_digit (decimal n) \<and> decimal n \<noteq> []"
proof (induction n rule: decimal.induct)
  case (1 n)
  have "is_ascii_digit (0x30 + of_nat m)" if "m < 10" for m
    using that by (simp add: is_ascii_digit_def word_le_nat_alt unat_word_ariths unat_of_nat)
  then show ?case using 1 by (subst (1 2) decimal.simps) simp
qed

lemma digits_value_snoc [simp]: "digits_value (s @ [b]) = 10 * digits_value s + unat (b - 0x30)"
  by (simp add: digits_value_def)

lemma digits_value_decimal [simp]: "digits_value (decimal n) = n"
proof (induction n rule: decimal.induct)
  case (1 n)
  have "unat ((of_nat m :: u8)) = m" if "m < 10" for m using that by (simp add: unat_of_nat)
  then show ?case using 1 by (subst decimal.simps) (simp add: digits_value_def [of "[_]"])
qed

lemma digits_hd: "is_ascii_digit (hd (decimal n))" "decimal n \<noteq> []" "hd (decimal n) \<noteq> 0x2d"
  using decimal_digits [of n] by (cases "decimal n"; auto simp: is_ascii_digit_def)+

definition no_digit :: "bytes \<Rightarrow> bool" where
  "no_digit r \<longleftrightarrow> (case r of [] \<Rightarrow> True | b # _ \<Rightarrow> \<not> is_ascii_digit b)"

lemma span_digits:
  assumes "no_digit r"
  shows "takeWhile is_ascii_digit (decimal n @ r) = decimal n" "dropWhile is_ascii_digit (decimal n @ r) = r"
proof -
  have "\<forall>b\<in>set (decimal n). is_ascii_digit b" using decimal_digits [of n] by (simp add: list_all_iff)
  then show "takeWhile is_ascii_digit (decimal n @ r) = decimal n" "dropWhile is_ascii_digit (decimal n @ r) = r"
    using assms by (cases r; auto simp: no_digit_def)+
qed

lemma parse_number_written:
  assumes "i128_valid v" and "no_digit r"
  shows "parse_number (display_int v @ r) = Inr (Number v, r)"
proof (cases "v < 0")
  case True
  then show ?thesis using assms digits_hd [of "nat (- v)"] span_digits [OF assms(2)]
    by (simp add: display_int_def parse_number_def parse_i128_def)
next
  case False
  then show ?thesis using assms digits_hd [of "nat v"] span_digits [OF assms(2)]
    by (simp add: display_int_def parse_number_def parse_i128_def)
qed

section \<open>The parser reads what is rendered\<close>

lemma skip_Cons [simp]: "\<not> json_blank b \<Longrightarrow> skip_whitespace (b # r) = b # r"
  by (simp add: skip_whitespace_def)

lemma not_blank [simp]:
  "\<not> json_blank 0x22" "\<not> json_blank 0x2c" "\<not> json_blank 0x3a" "\<not> json_blank 0x7b" "\<not> json_blank 0x7d"
  "\<not> json_blank 0x6e" "\<not> json_blank 0x74" "\<not> json_blank 0x66" "\<not> json_blank 0x2d"
  "is_ascii_digit b \<Longrightarrow> \<not> json_blank b"
  by (auto simp: json_blank_def is_ascii_digit_def)

lemma json_peek_Cons [simp]: "\<not> json_blank b \<Longrightarrow> json_peek (b # r) = Some b"
  by (simp add: json_peek_def)

lemma written_Cons: "\<exists>s'. json_write_str s @ r = 0x22 # s'"
  by (simp add: json_write_str_def)

lemma no_digit_Cons: "no_digit (0x2c # r)" "no_digit (0x7d # r)"
  by (simp_all add: no_digit_def is_ascii_digit_def)

lemma parse_string_value:
  "utf8_valid s \<Longrightarrow> parse_value n d (json_write_str s @ r) = Inr (String s, r)"
proof -
  assume u: "utf8_valid s"
  obtain s' where "json_write_str s @ r = 0x22 # s'" using written_Cons by blast
  then show ?thesis using parse_string_written [OF u, of r] by (simp add: parse_value.simps)
qed

lemma parse_number_value:
  assumes "i128_valid v" and "no_digit r"
  shows "parse_value n d (display_int v @ r) = Inr (Number v, r)"
proof -
  obtain b s where b: "display_int v @ r = b # s" "b = 0x2d \<or> is_ascii_digit b"
  proof (cases "v < 0")
    case False
    then show ?thesis using digits_hd [of "nat v"] that by (cases "decimal (nat v)") (auto simp: display_int_def)
  qed (use that in \<open>auto simp: display_int_def\<close>)
  moreover have "\<not> json_blank b" "b \<noteq> 0x6e" "b \<noteq> 0x74" "b \<noteq> 0x66" "b \<noteq> 0x22" "b \<noteq> 0x7b"
    using b(2) by (auto simp: is_ascii_digit_def)
  ultimately show ?thesis using parse_number_written [OF assms] by (simp add: parse_value.simps)
qed

lemma parse_literal_value:
  "parse_value n d (ascii ''null'' @ r) = Inr (Null, r)"
  "parse_value n d (ascii ''true'' @ r) = Inr (Bool True, r)"
  "parse_value n d (ascii ''false'' @ r) = Inr (Bool False, r)"
  by (simp_all add: parse_value.simps parse_null_def parse_bool_def starts_with_def ascii_def)

lemma parse_members_Cons:
  assumes "utf8_valid k" and "parse_value n d (s @ e # r) = Inr (v, e # r)" and "e = 0x2c \<or> e = 0x7d"
  shows "parse_members n d ms (json_write_str k @ 0x3a # s @ e # r)
    = (if e = 0x2c then parse_members n d (ms @ [(k, v)]) r else Inr (Object (ms @ [(k, v)]), r))"
proof -
  obtain s' where "json_write_str k @ 0x3a # s @ e # r = 0x22 # s'" using written_Cons by blast
  then show ?thesis
    using assms parse_string_written [OF assms(1), of "0x3a # s @ e # r"] by (auto simp: parse_members.simps)
qed

lemma parse_rendered:
  "json_fits (MAX_JSON_DEPTH - d) v \<Longrightarrow> no_digit r \<Longrightarrow> parse_value n d (json_render v @ r) = Inr (v, r)"
  "json_fits (Suc (MAX_JSON_DEPTH - d)) (Object ms) \<Longrightarrow> ms \<noteq> [] \<Longrightarrow>
     parse_members n d acc (json_members ms @ 0x7d # r) = Inr (Object (acc @ ms), r)"
proof (induction v and ms arbitrary: d r and d acc r rule: json_render_json_members.induct)
  case (5 ms)
  then have d: "MAX_JSON_DEPTH - d = Suc (MAX_JSON_DEPTH - Suc d)" "\<not> MAX_JSON_DEPTH \<le> d"
    by (cases "MAX_JSON_DEPTH - d"; simp)+
  show ?case
  proof (cases ms)
    case Nil
    then show ?thesis using d by (simp add: parse_value.simps parse_object.simps)
  next
    case (Cons m ms')
    obtain k v where m: "m = (k, v)" by fastforce
    obtain s' where "json_members ms @ 0x7d # r = 0x22 # s'" using Cons m written_Cons by simp blast
    then show ?thesis using d 5(1) [of "Suc d" "[]" r] 5(2) Cons by (simp add: parse_value.simps parse_object.simps)
  qed
next
  case (7 k v ms)
  have k: "utf8_valid k" and v: "json_fits (MAX_JSON_DEPTH - d) v" using 7(3) by auto
  show ?case
  proof (cases "ms = []")
    case True
    then show ?thesis using parse_members_Cons [OF k 7(1) [OF v no_digit_Cons(2)]] by simp
  next
    case False
    then show ?thesis
      using parse_members_Cons [OF k 7(1) [OF v no_digit_Cons(1)]] 7(2) [of d "acc @ [(k, v)]" r] 7(3) by simp
  qed
qed (auto simp: parse_string_value parse_number_value parse_literal_value)

lemma parse_document_rendered: "json_fits MAX_JSON_DEPTH v \<Longrightarrow> parse_document (json_render v) = Inr v"
  using parse_rendered(1) [of 0 v "[]"]
  by (simp add: parse_document_def no_digit_def json_ensure_finished_def skip_whitespace_def)

section \<open>What the parser returns fits\<close>

lemma utf8_valid_split:
  assumes "\<not> a \<le> 0x7f" and "utf8_width a = Suc w"
  shows "utf8_valid (a # bs) \<longleftrightarrow> w \<le> length bs \<and> utf8_valid (a # take w bs) \<and> utf8_valid (drop w bs)"
proof -
  consider "0xc2 \<le> a" "a \<le> 0xdf" | "0xe0 \<le> a" "a \<le> 0xef" | "0xf0 \<le> a" "a \<le> 0xf4"
    | "\<not> (0xc2 \<le> a \<and> a \<le> 0xdf)" "\<not> (0xe0 \<le> a \<and> a \<le> 0xef)" "\<not> (0xf0 \<le> a \<and> a \<le> 0xf4)" by blast
  then show ?thesis
  proof cases
    case 1
    then have "w = 1" using assms by (auto simp: utf8_width_def word_le_nat_alt word_less_nat_alt split: if_splits)
    then show ?thesis using assms 1 by (cases bs) auto
  next
    case 2
    then have "w = 2" "\<not> a \<le> 0xdf"
      using assms by (auto simp: utf8_width_def word_le_nat_alt word_less_nat_alt split: if_splits)
    then show ?thesis using assms 2 by (cases bs; cases "tl bs") auto
  next
    case 3
    then have "w = 3" "\<not> a \<le> 0xdf" "\<not> a \<le> 0xef"
      using assms by (auto simp: utf8_width_def word_le_nat_alt word_less_nat_alt split: if_splits)
    then show ?thesis using assms 3 by (cases bs; cases "tl bs"; cases "tl (tl bs)") auto
  next
    case 4
    then have "\<not> utf8_valid (a # xs)" for xs using assms(1) by (simp only: utf8_valid.simps(2) if_False simp_thms)
    then show ?thesis by blast
  qed
qed

lemma utf8_width_Suc: "\<exists>w. utf8_width a = Suc w"
  by (simp add: utf8_width_def)

lemma utf8_valid_append: "utf8_valid a \<Longrightarrow> utf8_valid (a @ b) \<longleftrightarrow> utf8_valid b"
proof (induction a rule: length_induct)
  case (1 a)
  show ?case
  proof (cases a)
    case (Cons x xs)
    obtain w where w: "utf8_width x = Suc w" using utf8_width_Suc by blast
    show ?thesis
    proof (cases "x \<le> 0x7f")
      case True
      then show ?thesis using 1 Cons by simp
    next
      case False
      note S = utf8_valid_split [OF False w]
      have v: "w \<le> length xs" "utf8_valid (x # take w xs)" "utf8_valid (drop w xs)" 
        using 1(2) S [of xs] unfolding Cons by blast+
      have "utf8_valid (drop w xs @ b) \<longleftrightarrow> utf8_valid b" using 1(1) v(3) Cons by simp
      then show ?thesis using S [of "xs @ b"] v Cons by (simp del: utf8_valid.simps(2))
    qed
  qed simp
qed

lemma utf8_valid_char:
  assumes "code < 65536" and "\<not> (0xd800 \<le> code \<and> code \<le> 0xdfff)"
  shows "utf8_valid (utf8_char code)"
proof -
  have u: "unat (of_nat m :: u8) = m" if "m < 256" for m using that by (simp add: unat_of_nat)
  have cont: "utf8_cont (of_nat (128 + m))" if "m < 64" for m
    using that u [of "128 + m"] by (simp add: utf8_cont_def word_le_nat_alt)
  consider "code < 0x80" | "0x80 \<le> code" "code < 0x800" | "0x800 \<le> code" by linarith
  then show ?thesis
  proof cases
    case 1
    then show ?thesis using u [of code] by (simp add: utf8_char_def word_le_nat_alt)
  next
    case 2
    define m where "m = code div 64"
    have m: "2 \<le> m" "m < 32" using 2 by (auto simp: m_def)
    show ?thesis using 2 cont [of "code mod 64"] u [of "0xc0 + m"] m
      by (simp add: utf8_char_def m_def [symmetric] word_le_nat_alt del: of_nat_add)
  next
    case 3
    define h m where "h = code div 4096" and "m = code div 64 mod 64"
    have "h = code div 64 div 64" using div_mult2_eq [of code 64 64] by (simp add: h_def)
    then have "code div 64 = 64 * h + m" by (simp add: m_def)
    then have h: "h < 16" "m < 64" "h = 0 \<longrightarrow> 32 \<le> m" "h = 13 \<longrightarrow> m < 32"
      using 3 assms by (auto simp: h_def m_def)
    show ?thesis using 3 cont [of "code mod 64"] cont [of m] u [of "0xe0 + h"] u [of "0x80 + m"] h
      by (auto simp: utf8_char_def m_def [symmetric] h_def [symmetric] word_le_nat_alt simp del: of_nat_add)
  qed
qed

lemma hex_value_bound: "hex_value n s = Some v \<Longrightarrow> v < (n + 1) * 16 ^ length s"
proof (induction s arbitrary: n)
  case (Cons b s)
  then obtain k where k: "hex_digit b = Some k" "hex_value (16 * n + k) s = Some v" by (auto split: option.splits)
  have "k < 16" using k(1)
    by (auto simp: hex_digit_def word_le_nat_alt unat_sub_if' split: if_splits)
  then have "(16 * n + k + 1) * 16 ^ length s \<le> (16 * (n + 1)) * 16 ^ length s" by (intro mult_right_mono) auto
  also have "\<dots> = (n + 1) * 16 ^ length (b # s)" by (simp add: algebra_simps)
  finally show ?case using Cons.IH [OF k(2)] by simp
qed simp

lemma hex_value_ascii: "hex_value n s = Some v \<Longrightarrow> list_all (\<lambda>b. b \<le> 0x7f) s"
  by (induction s arbitrary: n) (auto simp: hex_digit_def word_le_nat_alt split: option.splits if_splits)

lemma radix_ascii: "from_str_radix16 s = Some v \<Longrightarrow> list_all (\<lambda>b. b \<le> 0x7f) s"
  by (auto simp: from_str_radix16_def simp del: hex_value.simps dest: hex_value_ascii split: list.splits if_splits)

lemma radix_bound: "from_str_radix16 s = Some v \<Longrightarrow> length s = 4 \<Longrightarrow> v < 65536"
proof -
  assume s: "from_str_radix16 s = Some v" "length s = 4"
  then obtain b r where "s = b # r" by (cases s) auto
  then show ?thesis using s hex_value_bound [of 0 r v] hex_value_bound [of 0 s v]
    by (auto simp: from_str_radix16_def split: if_splits)
qed

lemma unicode_escape_sound:
  assumes "unicode_escape rest = Inr ch" and "utf8_valid rest"
  shows "utf8_valid ch \<and> utf8_valid (drop 4 rest)"
proof -
  obtain code where c: "from_str_radix16 (take 4 rest) = Some code" "4 \<le> length rest" "ch = utf8_char code"
      "\<not> (0xd800 \<le> code \<and> code \<le> 0xdfff)"
    using assms(1) by (auto simp: unicode_escape_def split: if_splits option.splits)
  then have "utf8_valid ch" using radix_bound [OF c(1)] utf8_valid_char by simp
  moreover have "utf8_valid (take 4 rest)" using radix_ascii [OF c(1)] utf8_valid_ascii by blast
  ultimately show ?thesis using utf8_valid_append [of "take 4 rest" "drop 4 rest"] assms(2) by simp
qed

lemma parse_chars_sound:
  "parse_chars acc rest = Inr (s, r) \<Longrightarrow> utf8_valid acc \<Longrightarrow> utf8_valid rest \<Longrightarrow> utf8_valid s \<and> utf8_valid r"
proof (induction rest arbitrary: acc rule: length_induct)
  case (1 rest)
  then obtain b bs where b: "rest = b # bs" by (cases rest) auto
  have grow: "utf8_valid s \<and> utf8_valid r"
    if "parse_chars (acc @ x) y = Inr (s, r)" "utf8_valid x" "utf8_valid y" "length y < length rest" for x y
    using 1(1,3) that utf8_valid_append [of acc x] by blast
  show ?case
  proof (cases "b \<le> 0x7f")
    case True
    then have bs: "utf8_valid bs" using 1(4) b by simp
    have "utf8_valid [b]" "utf8_width b = 1" using True by (auto simp: utf8_width_def word_le_nat_alt word_less_nat_alt)
    then have plain: ?thesis if "b \<noteq> 0x22" "b \<noteq> 0x5c"
      using that 1(2) b bs grow [of "[b]" bs] by (auto split: if_splits)
    have esc: "simple_escape e = Some c \<Longrightarrow> utf8_valid [c] \<and> e \<le> 0x7f" for e c
      by (auto simp: simple_escape_def split: if_splits)
    have ?thesis if q: "b = 0x5c"
    proof -
      obtain e rs where e: "bs = e # rs" using q 1(2) b by (cases bs) auto
      consider c where "simple_escape e = Some c" "parse_chars (acc @ [c]) rs = Inr (s, r)"
        | ch where "e = 0x75" "unicode_escape rs = Inr ch" "parse_chars (acc @ ch) (drop 4 rs) = Inr (s, r)"
        using q 1(2) b e by (auto simp: rust_simps split: option.splits if_splits)
      then show ?thesis
        using esc e bs b grow [of "[_]" rs] unicode_escape_sound [of rs] grow [of _ "drop 4 rs"]
        by cases auto
    qed
    then show ?thesis using plain 1(2,3) b bs by (cases "b = 0x22") auto
  next
    case False
    note V = utf8_valid_wide [OF 1(4) [unfolded b] False]
    obtain w where w: "utf8_width b = Suc w" using utf8_width_Suc by blast
    have "\<not> b < 0x20" "b \<noteq> 0x22" "b \<noteq> 0x5c" using False by (auto simp: word_le_nat_alt word_less_nat_alt)
    then have p: "parse_chars (acc @ b # take w bs) (drop w bs) = Inr (s, r)" using 1(2) b V(1) w by simp
    moreover have "utf8_valid (b # take w bs)" using 1(4) b utf8_valid_split [OF False w] by blast
    ultimately show ?thesis using grow [of "b # take w bs" "drop w bs"] V(4) w b by simp
  qed
qed

lemma parse_string_sound: "parse_string rest = Inr (s, r) \<Longrightarrow> utf8_valid rest \<Longrightarrow> utf8_valid s \<and> utf8_valid r"
  by (cases rest) (auto simp: parse_string_def split: if_splits dest: parse_chars_sound)

text \<open>Skipping ASCII bytes leaves the input on a character.\<close>

lemma utf8_valid_skip: "list_all (\<lambda>b. b \<le> 0x7f) a \<Longrightarrow> utf8_valid (a @ b) \<longleftrightarrow> utf8_valid b"
  by (induction a) auto

lemma utf8_valid_dropWhile:
  assumes "utf8_valid r" and "\<And>b. P b \<Longrightarrow> b \<le> 0x7f"
  shows "utf8_valid (dropWhile P r)"
  using utf8_valid_skip [of "takeWhile P r" "dropWhile P r"] assms set_takeWhileD [of _ P r]
  by (auto simp: list_all_iff)

lemma utf8_valid_drop: "utf8_valid r \<Longrightarrow> list_all (\<lambda>b. b \<le> 0x7f) (take k r) \<Longrightarrow> utf8_valid (drop k r)"
  using utf8_valid_skip [of "take k r" "drop k r"] by simp

lemma utf8_valid_skip_whitespace: "utf8_valid r \<Longrightarrow> utf8_valid (skip_whitespace r)"
  unfolding skip_whitespace_def by (rule utf8_valid_dropWhile) (auto simp: json_blank_def)

lemma utf8_valid_peek: "utf8_valid r \<Longrightarrow> json_peek r = Some b \<Longrightarrow> b \<le> 0x7f \<Longrightarrow> utf8_valid (tl (skip_whitespace r))"
  using utf8_valid_skip_whitespace [of r] by (auto simp: json_peek_Some)

lemma parse_leaf_sound:
  assumes "utf8_valid rest"
  shows "parse_null rest = Inr (v, r) \<Longrightarrow> json_fits k v \<and> utf8_valid r"
    and "parse_bool rest = Inr (v, r) \<Longrightarrow> json_fits k v \<and> utf8_valid r"
    and "parse_number rest = Inr (v, r) \<Longrightarrow> json_fits k v \<and> utf8_valid r"
proof -
  have digit: "is_ascii_digit b \<Longrightarrow> b \<le> 0x7f" for b by (auto simp: is_ascii_digit_def word_le_nat_alt)
  have lit: "starts_with rest p \<Longrightarrow> length p = k \<Longrightarrow> list_all (\<lambda>c. (of_char c :: u8) \<le> 0x7f) p \<Longrightarrow> utf8_valid (drop k rest)"
    for p k using utf8_valid_drop [OF assms, of "length p"] by (auto simp: starts_with_def ascii_def list_all_iff)
  show "parse_null rest = Inr (v, r) \<Longrightarrow> json_fits k v \<and> utf8_valid r"
    using lit [of "''null''" 4] by (auto simp: parse_null_def split: if_splits)
  show "parse_bool rest = Inr (v, r) \<Longrightarrow> json_fits k v \<and> utf8_valid r"
    using lit [of "''true''" 4] lit [of "''false''" 5] by (auto simp: parse_bool_def split: if_splits)
  assume p: "parse_number rest = Inr (v, r)"
  define sign :: nat where "sign = (if rest \<noteq> [] \<and> hd rest = 0x2d then 1 else 0)"
  have "utf8_valid (drop sign rest)" using assms by (cases rest) (auto simp: sign_def)
  then have "utf8_valid (dropWhile is_ascii_digit (drop sign rest))" by (rule utf8_valid_dropWhile) (rule digit)
  then show "json_fits k v \<and> utf8_valid r"
    using p by (auto simp: parse_number_def Let_def sign_def [symmetric] parse_i128_def split: if_splits option.splits)
qed

lemma parse_members_step:
  assumes "parse_members n d members rest = Inr (v, r)"
  obtains key r1 v1 r2 where "json_peek (skip_whitespace rest) = Some 0x22"
    and "parse_string (skip_whitespace rest) = Inr (key, r1)" and "json_peek (skip_whitespace r1) = Some 0x3a"
    and "parse_value n d (tl (skip_whitespace r1)) = Inr (v1, r2)"
    and "(json_peek (skip_whitespace r2) = Some 0x7d \<and> v = Object (members @ [(key, v1)]) \<and> r = tl (skip_whitespace r2))
      \<or> (json_peek (skip_whitespace r2) = Some 0x2c
          \<and> parse_members n d (members @ [(key, v1)]) (tl (skip_whitespace r2)) = Inr (v, r))"
proof -
  let ?s = "skip_whitespace rest"
  have p: "json_peek ?s = Some 0x22" using assms by (auto simp: parse_members.simps [of n d members rest] Let_def split: if_splits)
  then obtain key r1 where k: "parse_string ?s = Inr (key, r1)" "json_peek (skip_whitespace r1) = Some 0x3a"
    using assms by (auto simp: parse_members.simps [of n d members rest] Let_def rust_simps split: if_splits)
  then obtain v1 r2 where v: "parse_value n d (tl (skip_whitespace r1)) = Inr (v1, r2)"
    using assms p by (auto simp: parse_members.simps [of n d members rest] Let_def rust_simps)
  have "(json_peek (skip_whitespace r2) = Some 0x7d \<and> v = Object (members @ [(key, v1)]) \<and> r = tl (skip_whitespace r2))
      \<or> (json_peek (skip_whitespace r2) = Some 0x2c
          \<and> parse_members n d (members @ [(key, v1)]) (tl (skip_whitespace r2)) = Inr (v, r))"
    using assms p k v by (auto simp: parse_members.simps [of n d members rest] Let_def split: if_splits)
  then show thesis using that p k v by blast
qed

lemma parse_sound:
  "parse_value n d rest = Inr (v, r) \<Longrightarrow> utf8_valid rest \<Longrightarrow> json_fits (MAX_JSON_DEPTH - d) v \<and> utf8_valid r"
  "parse_object n d rest = Inr (v, r) \<Longrightarrow> utf8_valid (tl rest) \<Longrightarrow> json_fits (MAX_JSON_DEPTH - d) v \<and> utf8_valid r"
  "parse_members n d members rest = Inr (v, r) \<Longrightarrow> utf8_valid rest \<Longrightarrow>
     json_fits (Suc (MAX_JSON_DEPTH - d)) (Object members) \<Longrightarrow> json_fits (Suc (MAX_JSON_DEPTH - d)) v \<and> utf8_valid r"
proof (induction n d rest and n d rest and n d members rest arbitrary: v r and v r and v r
    rule: parse_value_parse_object_parse_members.induct)
  case (1 n d rest)
  let ?s = "skip_whitespace rest"
  have s: "utf8_valid ?s" using 1(3) by (rule utf8_valid_skip_whitespace)
  from 1(2) consider "parse_null ?s = Inr (v, r)" | "parse_bool ?s = Inr (v, r)"
    | t where "parse_string ?s = Inr (t, r)" "v = String t" | "parse_number ?s = Inr (v, r)"
    | "json_peek ?s = Some 0x7b" "parse_object n d ?s = Inr (v, r)"
    by (auto simp: parse_value.simps Let_def rust_simps split: option.splits if_splits)
  then show ?case
  proof cases
    case 3
    then show ?thesis using parse_string_sound [OF _ s] by auto
  next
    case 5
    have "utf8_valid (tl ?s)" using utf8_valid_peek [OF s 5(1)] by simp
    then show ?thesis using 1(1) [OF refl 5(1) _ _ _ refl 5(2)] by simp
  qed (auto dest: parse_leaf_sound [OF s])
next
  case (2 n d rest)
  let ?s = "skip_whitespace (tl rest)"
  have s: "utf8_valid ?s" using 2(3) by (rule utf8_valid_skip_whitespace)
  have d: "\<not> MAX_JSON_DEPTH \<le> d" using 2(2) by (auto simp: parse_object.simps split: if_splits)
  then have k: "MAX_JSON_DEPTH - d = Suc (MAX_JSON_DEPTH - Suc d)" by simp
  show ?case
  proof (cases "json_peek ?s = Some 0x7d")
    case True
    then show ?thesis using 2(2) d k utf8_valid_peek [OF s True] by (auto simp: parse_object.simps)
  next
    case False
    then have "parse_members n (d + 1) [] ?s = Inr (v, r)" using 2(2) d by (simp add: parse_object.simps)
    then show ?thesis using 2(1) [OF d refl False _ s] k by simp
  qed
next
  case (3 n d members rest)
  let ?s = "skip_whitespace rest"
  have s: "utf8_valid ?s" using 3(4) by (rule utf8_valid_skip_whitespace)
  obtain key r1 v1 r2 where p: "json_peek ?s = Some 0x22" "parse_string ?s = Inr (key, r1)"
      "json_peek (skip_whitespace r1) = Some 0x3a" "parse_value n d (tl (skip_whitespace r1)) = Inr (v1, r2)"
    and e: "(json_peek (skip_whitespace r2) = Some 0x7d \<and> v = Object (members @ [(key, v1)]) \<and> r = tl (skip_whitespace r2))
      \<or> (json_peek (skip_whitespace r2) = Some 0x2c
          \<and> parse_members n d (members @ [(key, v1)]) (tl (skip_whitespace r2)) = Inr (v, r))"
    by (rule parse_members_step [OF 3(3)])
  have k: "utf8_valid key" "utf8_valid r1" using parse_string_sound [OF p(2) s] by auto
  then have r1: "utf8_valid (tl (skip_whitespace r1))"
    using utf8_valid_peek [of "skip_whitespace r1", OF utf8_valid_skip_whitespace p(3)] by simp
  have v1: "json_fits (MAX_JSON_DEPTH - d) v1" "utf8_valid r2"
    using 3(1) [OF refl _ p(2) refl refl _ p(4) r1] p by auto
  then have fits: "json_fits (Suc (MAX_JSON_DEPTH - d)) (Object (members @ [(key, v1)]))" using k 3(5) by simp
  have r2: "json_peek (skip_whitespace r2) = Some b \<Longrightarrow> b \<le> 0x7f \<Longrightarrow> utf8_valid (tl (skip_whitespace r2))" for b
    using utf8_valid_peek [of "skip_whitespace r2", OF utf8_valid_skip_whitespace] v1 by simp
  show ?case
  proof (cases "json_peek (skip_whitespace r2) = Some 0x2c")
    case True
    then have m: "parse_members n d (members @ [(key, v1)]) (tl (skip_whitespace r2)) = Inr (v, r)" using e by auto
    show ?thesis
      using 3(2) [OF refl _ p(2) refl refl _ p(4) refl refl refl True m _ fits] r2 [OF True] p(1,3) by simp
  next
    case False
    then show ?thesis using e fits r2 [of "0x7d"] by auto
  qed
qed

lemma parse_document_fits: "parse_document s = Inr v \<Longrightarrow> utf8_valid s \<Longrightarrow> json_fits MAX_JSON_DEPTH v"
  using parse_sound(1) [of "length s" 0 s v] by (auto simp: parse_document_def rust_simps)

section \<open>Panics\<close>

text \<open>No input of ASCII characters makes the parser slice inside a character.\<close>

definition ascii_only :: "bytes \<Rightarrow> bool" where
  "ascii_only r \<longleftrightarrow> list_all (\<lambda>b. b \<le> 0x7f) r"

lemma ascii_only_drop: "ascii_only r \<Longrightarrow> ascii_only (drop k r)"
  by (auto simp: ascii_only_def list_all_iff dest: in_set_dropD)

lemma ascii_only_dropWhile: "ascii_only r \<Longrightarrow> ascii_only (dropWhile P r)"
  by (auto simp: ascii_only_def list_all_iff dest: set_dropWhileD)

lemma ascii_only_tl: "ascii_only r \<Longrightarrow> ascii_only (tl r)"
  by (cases r) (auto simp: ascii_only_def)

lemma ascii_only_skip: "ascii_only r \<Longrightarrow> ascii_only (skip_whitespace r)"
  by (simp add: skip_whitespace_def ascii_only_dropWhile)

lemma ascii_only_no_cont: "ascii_only r \<Longrightarrow> i < length r \<Longrightarrow> \<not> utf8_cont (r ! i)"
  by (auto simp: ascii_only_def list_all_length utf8_cont_def word_le_nat_alt)

lemma ascii_boundary: "ascii_only r \<Longrightarrow> i \<le> length r \<Longrightarrow> is_char_boundary r i"
  by (auto simp: is_char_boundary_def ascii_only_no_cont)

lemma unicode_escape_ascii: "ascii_only r \<Longrightarrow> unicode_escape r \<noteq> Inl Panicked"
  using ascii_boundary [of r 4] by (auto simp: unicode_escape_def split: option.splits)

lemma parse_chars_ascii:
  "ascii_only rest \<Longrightarrow> parse_chars acc rest \<noteq> Inl Panicked
     \<and> (\<forall>s r. parse_chars acc rest = Inr (s, r) \<longrightarrow> ascii_only r)"
proof (induction rest arbitrary: acc rule: length_induct)
  case (1 rest)
  show ?case
  proof (cases rest)
    case (Cons b bs)
    have bs: "ascii_only bs" using 1(2) Cons by (simp add: ascii_only_def)
    have b: "\<not> utf8_cont b" using ascii_only_no_cont [OF 1(2), of 0] Cons by simp
    have IH: "parse_chars acc' (drop k bs) \<noteq> Inl Panicked
        \<and> (\<forall>s r. parse_chars acc' (drop k bs) = Inr (s, r) \<longrightarrow> ascii_only r)" for acc' k
      using 1(1) ascii_only_drop [OF bs, of k] Cons by (metis length_drop diff_le_self le_imp_less_Suc length_Cons)
    obtain w where w: "utf8_width b = Suc w" using utf8_width_Suc by blast
    show ?thesis
    proof (cases "b = 0x5c \<and> bs \<noteq> []")
      case True
      then obtain e rs where e: "bs = e # rs" by (cases bs) auto
      then have "ascii_only rs" using bs by (simp add: ascii_only_def)
      moreover have "drop 5 bs = drop 4 rs" "drop 1 bs = rs" using e by simp_all
      ultimately show ?thesis
        using True Cons e IH [of _ 1] IH [of _ 5] unicode_escape_ascii [of rs]
        by (cases "unicode_escape rs") (auto split: option.splits)
    next
      case False
      then show ?thesis using Cons bs b w IH [of _ w] by auto
    qed
  qed simp
qed

lemma parse_string_ascii:
  "ascii_only rest \<Longrightarrow> parse_string rest \<noteq> Inl Panicked \<and> (\<forall>s r. parse_string rest = Inr (s, r) \<longrightarrow> ascii_only r)"
  using parse_chars_ascii [of "tl rest"] ascii_only_tl [of rest] by (cases rest) (auto simp: parse_string_def)

lemma parse_leaf_ascii:
  assumes "ascii_only rest"
  shows "parse_null rest \<noteq> Inl Panicked \<and> (\<forall>v r. parse_null rest = Inr (v, r) \<longrightarrow> ascii_only r)"
    and "parse_bool rest \<noteq> Inl Panicked \<and> (\<forall>v r. parse_bool rest = Inr (v, r) \<longrightarrow> ascii_only r)"
    and "parse_number rest \<noteq> Inl Panicked \<and> (\<forall>v r. parse_number rest = Inr (v, r) \<longrightarrow> ascii_only r)"
  using ascii_only_drop [OF assms] ascii_only_dropWhile [OF assms] ascii_only_dropWhile [OF ascii_only_drop [OF assms]]
  by (auto simp: parse_null_def parse_bool_def parse_number_def Let_def split: option.splits)

lemma parse_ascii:
  "ascii_only rest \<Longrightarrow> parse_value n d rest \<noteq> Inl Panicked
     \<and> (\<forall>v r. parse_value n d rest = Inr (v, r) \<longrightarrow> ascii_only r)"
  "ascii_only rest \<Longrightarrow> parse_object n d rest \<noteq> Inl Panicked
     \<and> (\<forall>v r. parse_object n d rest = Inr (v, r) \<longrightarrow> ascii_only r)"
  "ascii_only rest \<Longrightarrow> parse_members n d members rest \<noteq> Inl Panicked
     \<and> (\<forall>v r. parse_members n d members rest = Inr (v, r) \<longrightarrow> ascii_only r)"
proof (induction n d rest and n d rest and n d members rest rule: parse_value_parse_object_parse_members.induct)
  case (1 n d rest)
  let ?s = "skip_whitespace rest"
  have s: "ascii_only ?s" using 1(2) by (rule ascii_only_skip)
  show ?case using parse_leaf_ascii [OF s] parse_string_ascii [OF s] 1(1) [OF refl _ _ _ _ refl s]
    by (cases "parse_string ?s") (auto simp: parse_value.simps [of n d rest] Let_def split: option.splits)
next
  case (2 n d rest)
  have s: "ascii_only (skip_whitespace (tl rest))" using 2(2) by (intro ascii_only_skip ascii_only_tl)
  then show ?case using 2(1) [OF _ refl _ s] ascii_only_tl [OF s]
    by (auto simp: parse_object.simps [of n d rest] Let_def)
next
  case (3 n d members rest)
  let ?s = "skip_whitespace rest"
  have s: "ascii_only ?s" using 3(3) by (rule ascii_only_skip)
  show ?case
  proof (cases "json_peek ?s = Some 0x22 \<and> (\<exists>key r1. parse_string ?s = Inr (key, r1) \<and> json_peek (skip_whitespace r1) = Some 0x3a)")
    case True
    then obtain key r1 where p: "json_peek ?s = Some 0x22" "parse_string ?s = Inr (key, r1)"
      "json_peek (skip_whitespace r1) = Some 0x3a" by blast
    have t: "ascii_only (tl (skip_whitespace r1))"
      using p parse_string_ascii [OF s] by (intro ascii_only_tl ascii_only_skip) blast
    note V = 3(1) [OF refl _ p(2) refl refl _ t]
    show ?thesis
    proof (cases "parse_value n d (tl (skip_whitespace r1))")
      case (Inl e)
      then show ?thesis using p V by (simp add: parse_members.simps [of n d members rest])
    next
      case (Inr vr)
      obtain v1 r2 where v: "parse_value n d (tl (skip_whitespace r1)) = Inr (v1, r2)" using Inr by (cases vr) auto
      then have r2: "ascii_only (tl (skip_whitespace r2))" using V p by (intro ascii_only_tl ascii_only_skip) simp
      show ?thesis using p v r2 3(2) [OF refl _ p(2) refl refl _ v refl refl refl _ r2]
        by (auto simp: parse_members.simps [of n d members rest] Let_def)
    qed
  next
    case False
    then show ?thesis using parse_string_ascii [OF s]
      by (cases "parse_string ?s") (auto simp: parse_members.simps [of n d members rest] Let_def)
  qed
qed

lemma parse_document_ascii: "ascii_only s \<Longrightarrow> parse_document s \<noteq> Inl Panicked"
proof -
  assume s: "ascii_only s"
  have "json_ensure_finished n r \<noteq> Inl Panicked" if "ascii_only r" for n r
    using ascii_boundary [OF ascii_only_skip [OF that]] by (simp add: json_ensure_finished_def Let_def)
  then show ?thesis using parse_ascii(1) [OF s, of "length s" 0] by (auto simp: parse_document_def rust_simps)
qed

section \<open>Property\<close>

text \<open>C32: Parsing a JSON document ends on every input, and a value it returns fits: objects nest at most
  16 deep, numbers are in the range of \<open>i128\<close> and every key and string is UTF-8. Rendering that value and
  parsing it again gives the same value, so accepted documents have a compact normal form.\<close>

theorem json_values_fit:
  assumes "parse_document s = Inr v" and "utf8_valid s"
  shows "json_fits 16 v \<and> parse_document (json_render v) = Inr v"
  using parse_document_fits [OF assms] parse_document_rendered [of v] by (simp add: MAX_JSON_DEPTH_def)

theorem json_values_fit_witness:
  "json_fits 16 (Object [(ascii ''a'', Number (- 12))])
   \<and> parse_document (json_render (Object [(ascii ''a'', Number (- 12))])) = Inr (Object [(ascii ''a'', Number (- 12))])"
proof (rule json_values_fit)
  have "parse_string ([0x22, 0x5c, 0x75, 0x30, 0x30, 0x36, 0x31, 0x22] @ r) = Inr (ascii ''a'', r)" for r
    by (simp add: parse_string_def simple_escape_def unicode_escape_def is_char_boundary_def from_str_radix16_def
        hex_digit_def utf8_char_def utf8_cont_def ascii_def)
  moreover have "parse_number (ascii ''-012 }'') = Inr (Number (- 12), ascii '' }'')"
    by code_simp
  ultimately show "parse_document ([0x20, 0x7b, 0x22, 0x5c, 0x75, 0x30, 0x30, 0x36, 0x31, 0x22, 0x20, 0x3a] @ ascii ''-012 }'')
      = Inr (Object [(ascii ''a'', Number (- 12))])"
    by (simp add: parse_document_def parse_value.simps parse_object.simps parse_members.simps MAX_JSON_DEPTH_def
        json_ensure_finished_def skip_whitespace_def json_peek_def json_blank_def is_ascii_digit_def ascii_def)
  show "utf8_valid ([0x20, 0x7b, 0x22, 0x5c, 0x75, 0x30, 0x30, 0x36, 0x31, 0x22, 0x20, 0x3a] @ ascii ''-012 }'')"
    by code_simp
qed

end
