(* ===== verification/Effect_Json.thy ===== *)
theory Effect_Json
  imports Json_Parser
begin

text \<open>
  The JSON projections of \<open>crates/fss-core/src/effect.rs\<close>: \<open>to_canonical_json\<close> and \<open>from_json\<close> of intents,
  prepared effects and operation receipts. Each writer is the concatenation of the pieces the code pushes;
  that it renders the object of the record's members is a lemma, and the round trips follow from the
  parser's.
\<close>

section \<open>effect.rs: the projections\<close>

text \<open>The members a \<open>from_json\<close> reads.\<close>

abbreviation contract_fault :: "contract_error + 'a \<Rightarrow> json_fault + 'a" where
  "contract_fault m \<equiv> map_err (\<lambda>err. Refused (Contract err)) m"

definition check_schema :: "string \<Rightarrow> json_object \<Rightarrow> json_fault + unit" where
  "check_schema schema obj = try_then (json_str obj ''schema'') (\<lambda>found.
     refuse_if (found \<noteq> ascii schema) (Refused (SchemaMismatch schema found)))"

definition json_id :: "json_object \<Rightarrow> string \<Rightarrow> json_fault + stable_id" where
  "json_id obj key = try_then (json_str obj key) (\<lambda>raw. contract_fault (id_parse raw))"

definition text_digest :: "bytes \<Rightarrow> json_fault + content_digest" where
  "text_digest raw = contract_fault (digest_parse (map (\<lambda>b. char_of (unat b)) raw))"

definition json_digest :: "json_object \<Rightarrow> string \<Rightarrow> json_fault + content_digest" where
  "json_digest obj key = try_then (json_str obj key) text_digest"

definition json_optional :: "json_object \<Rightarrow> string \<Rightarrow> json_fault + bytes option" where
  "json_optional obj key =
     (case json_find obj key of
        None \<Rightarrow> Inr None
      | Some Null \<Rightarrow> Inr None
      | Some (String s) \<Rightarrow> Inr (Some s)
      | Some _ \<Rightarrow> json_err (ascii key @ ascii '' must be string or null''))"

definition json_optional_digest :: "json_object \<Rightarrow> string \<Rightarrow> json_fault + content_digest option" where
  "json_optional_digest obj key =
     try_then (json_optional obj key) (\<lambda>v.
       case v of None \<Rightarrow> Inr None | Some s \<Rightarrow> try_then (text_digest s) (\<lambda>d. Inr (Some d)))"

text \<open>A quoted key with its colon, as the writers push it, and a digest as the text they push.\<close>

definition json_key :: "string \<Rightarrow> bytes" where
  "json_key key = [0x22] @ ascii key @ [0x22, 0x3a]"

definition json_digest_text :: "content_digest \<Rightarrow> bytes" where
  "json_digest_text d = json_write_str (ascii (digest_to_text d))"

definition intent_to_json :: "effect_intent \<Rightarrow> bytes" where
  "intent_to_json i =
     [0x7b] @ json_key ''effectClass'' @ json_write_str (ei_effect_class i)
     @ [0x2c] @ json_key ''idempotencyKey'' @ json_write_str (ei_idempotency_key i)
     @ [0x2c] @ json_key ''operationId'' @ json_write_str (ei_operation_id i)
     @ [0x2c] @ json_key ''preconditionDigest'' @ json_digest_text (ei_precondition_digest i)
     @ [0x2c] @ json_key ''requestDigest'' @ json_digest_text (ei_request_digest i)
     @ [0x2c] @ json_key ''schema'' @ json_write_str (ascii EFFECT_INTENT_SCHEMA) @ [0x7d]"

definition INTENT_FIELDS :: "string list" where
  "INTENT_FIELDS = [''effectClass'', ''idempotencyKey'', ''operationId'', ''preconditionDigest'', ''requestDigest'', ''schema'']"

definition intent_from_json_obj :: "json_object \<Rightarrow> json_fault + effect_intent" where
  "intent_from_json_obj obj =
     try_then (json_id obj ''operationId'') (\<lambda>operation_id.
     try_then (json_id obj ''idempotencyKey'') (\<lambda>idempotency_key.
     try_then (json_str obj ''effectClass'') (\<lambda>effect_class.
     try_then (map_err Refused (bounded_field ''effectClass'' MAX_EFFECT_CLASS_LEN effect_class)) (\<lambda>_.
     try_then (json_digest obj ''requestDigest'') (\<lambda>request_digest.
     try_then (json_digest obj ''preconditionDigest'') (\<lambda>precondition_digest.
     Inr \<lparr>ei_operation_id = operation_id, ei_idempotency_key = idempotency_key, ei_effect_class = effect_class,
           ei_request_digest = request_digest, ei_precondition_digest = precondition_digest\<rparr>))))))"

definition intent_from_json :: "bytes \<Rightarrow> json_fault + effect_intent" where
  "intent_from_json s =
     try_then (parse_document s) (\<lambda>root.
     try_then (json_closed root ''effectIntent'' INTENT_FIELDS) (\<lambda>obj.
     try_then (check_schema EFFECT_INTENT_SCHEMA obj) (\<lambda>_.
     intent_from_json_obj obj)))"

definition prepared_to_json :: "prepared_effect \<Rightarrow> bytes" where
  "prepared_to_json p =
     [0x7b] @ json_key ''intent'' @ intent_to_json (pe_intent p)
     @ [0x2c] @ json_key ''obligationId'' @ json_write_str (pe_obligation_id p)
     @ [0x2c] @ json_key ''preparedAt'' @ display_int (pe_prepared_at p)
     @ [0x2c] @ json_key ''schema'' @ json_write_str (ascii PREPARED_EFFECT_SCHEMA)
     @ [0x2c] @ json_key ''terminalPredicate'' @ json_write_str (pe_terminal_predicate p) @ [0x7d]"

definition prepared_from_json :: "bytes \<Rightarrow> json_fault + prepared_effect" where
  "prepared_from_json s =
     try_then (parse_document s) (\<lambda>root.
     try_then (json_closed root ''preparedEffect''
       [''intent'', ''obligationId'', ''preparedAt'', ''schema'', ''terminalPredicate'']) (\<lambda>obj.
     try_then (check_schema PREPARED_EFFECT_SCHEMA obj) (\<lambda>_.
     try_then (json_get obj ''intent'') (\<lambda>intent_val.
     try_then (json_closed intent_val ''intent'' INTENT_FIELDS) (\<lambda>intent_obj.
     try_then (check_schema EFFECT_INTENT_SCHEMA intent_obj) (\<lambda>_.
     try_then (intent_from_json_obj intent_obj) (\<lambda>intent.
     try_then (json_id obj ''obligationId'') (\<lambda>obligation_id.
     try_then (json_str obj ''terminalPredicate'') (\<lambda>terminal_predicate.
     try_then (map_err Refused (bounded_field ''terminalPredicate'' MAX_TERMINAL_PREDICATE_LEN terminal_predicate)) (\<lambda>_.
     try_then (try_then (json_get obj ''preparedAt'') as_timestamp) (\<lambda>prepared_at.
     Inr \<lparr>pe_intent = intent, pe_obligation_id = obligation_id, pe_terminal_predicate = terminal_predicate,
           pe_prepared_at = prepared_at\<rparr>)))))))))))"

definition authority_to_json :: "effect_authority \<Rightarrow> bytes" where
  "authority_to_json a =
     [0x7b] @ json_key ''capability'' @ json_write_str (ea_capability a)
     @ [0x2c] @ json_key ''leaseFence''
     @ (case ea_lease_fence a of Some f \<Rightarrow> decimal f | None \<Rightarrow> ascii ''null'')
     @ [0x2c] @ json_key ''principal'' @ json_write_str (ea_principal a) @ [0x7d]"

definition timestamps_to_json :: "i128 option \<Rightarrow> i128 \<Rightarrow> bytes" where
  "timestamps_to_json committed_at prepared_at =
     [0x7b] @ json_key ''committedNs'' @ (case committed_at of Some ts \<Rightarrow> display_int ts | None \<Rightarrow> ascii ''null'')
     @ [0x2c] @ json_key ''observedNs'' @ ascii ''null''
     @ [0x2c] @ json_key ''preparedNs'' @ display_int prepared_at
     @ [0x2c] @ json_key ''requestedNs'' @ display_int prepared_at
     @ [0x2c] @ json_key ''verifiedNs'' @ ascii ''null'' @ [0x7d]"

definition receipt_to_json :: "operation_receipt \<Rightarrow> bytes" where
  "receipt_to_json r =
     [0x7b] @ json_key ''authority'' @ authority_to_json (rc_authority r)
     @ [0x2c] @ json_key ''effectClass'' @ json_write_str (ei_effect_class (rc_intent r))
     @ (case rc_error_code r of Some err \<Rightarrow> [0x2c] @ json_key ''errorId'' @ json_write_str err | None \<Rightarrow> [])
     @ [0x2c] @ json_key ''idempotencyKey'' @ json_write_str (ei_idempotency_key (rc_intent r))
     @ [0x2c] @ json_key ''operationId'' @ json_write_str (ei_operation_id (rc_intent r))
     @ [0x2c] @ json_key ''preconditionDigest'' @ json_digest_text (ei_precondition_digest (rc_intent r))
     @ [0x2c] @ json_key ''requestDigest'' @ json_digest_text (ei_request_digest (rc_intent r))
     @ [0x2c] @ json_key ''resultDigest''
     @ (case rc_result_digest r of Some d \<Rightarrow> json_digest_text d | None \<Rightarrow> ascii ''null'')
     @ [0x2c] @ json_key ''schema'' @ json_write_str (ascii RECEIPT_SCHEMA)
     @ [0x2c] @ json_key ''state'' @ json_write_str (ascii (effect_state_as_str (rc_state r)))
     @ [0x2c] @ json_key ''timestamps'' @ timestamps_to_json (rc_committed_at r) (rc_prepared_at r) @ [0x7d]"

definition json_effect_state :: "bytes \<Rightarrow> json_fault + effect_state" where
  "json_effect_state t =
     (if t = ascii ''prepared'' then Inr Prepared
      else if t = ascii ''committed'' then Inr Committed
      else if t = ascii ''adapter_accepted'' then Inr AdapterAccepted
      else if t = ascii ''observed'' then Inr Observed
      else if t = ascii ''verified'' then Inr Verified
      else if t = ascii ''cancelled'' then Inr Cancelled
      else if t = ascii ''failed'' then Inr Failed
      else if t = ascii ''indeterminate'' then Inr Indeterminate
      else json_err (ascii ''unknown effect state '' @ [0x27] @ t @ [0x27]))"

text \<open>\<open>n as u64\<close> keeps the low 64 bits.\<close>

definition json_lease_fence :: "json_value \<Rightarrow> json_fault + u64 option" where
  "json_lease_fence v =
     (case v of
        Null \<Rightarrow> Inr None
      | Number n \<Rightarrow> if n < 0 then json_err (ascii ''leaseFence must be non-negative'') else Inr (Some (nat (n mod 2 ^ 64)))
      | _ \<Rightarrow> json_err (ascii ''leaseFence must be integer or null''))"

definition json_authority :: "json_object \<Rightarrow> json_fault + effect_authority" where
  "json_authority obj =
     try_then (json_get obj ''authority'') (\<lambda>auth_val.
     try_then (json_closed auth_val ''authority'' [''capability'', ''leaseFence'', ''principal'']) (\<lambda>auth_obj.
     try_then (json_str auth_obj ''principal'') (\<lambda>the_principal.
     try_then (json_str auth_obj ''capability'') (\<lambda>capability.
     try_then (try_then (json_get auth_obj ''leaseFence'') json_lease_fence) (\<lambda>lease_fence.
     map_err Refused (authority_new the_principal capability lease_fence))))))"

definition json_timestamps :: "json_object \<Rightarrow> json_fault + i128 \<times> i128 option" where
  "json_timestamps obj =
     try_then (json_get obj ''timestamps'') (\<lambda>ts_val.
     try_then (json_closed ts_val ''timestamps''
       [''committedNs'', ''observedNs'', ''preparedNs'', ''requestedNs'', ''verifiedNs'']) (\<lambda>ts_obj.
     try_then (try_then (json_get ts_obj ''requestedNs'') as_timestamp) (\<lambda>prepared_at.
     case json_find ts_obj ''committedNs'' of
       None \<Rightarrow> Inr (prepared_at, None)
     | Some v \<Rightarrow> if v = Null then Inr (prepared_at, None)
                 else try_then (as_timestamp v) (\<lambda>ts. Inr (prepared_at, Some ts)))))"

definition receipt_from_json :: "bytes \<Rightarrow> json_fault + operation_receipt" where
  "receipt_from_json s =
     try_then (parse_document s) (\<lambda>root.
     try_then (json_closed root ''operationReceipt''
       [''authority'', ''effectClass'', ''errorId'', ''idempotencyKey'', ''operationId'', ''preconditionDigest'',
        ''requestDigest'', ''resultDigest'', ''schema'', ''state'', ''timestamps'']) (\<lambda>obj.
     try_then (check_schema RECEIPT_SCHEMA obj) (\<lambda>_.
     try_then (json_id obj ''operationId'') (\<lambda>operation_id.
     try_then (json_id obj ''idempotencyKey'') (\<lambda>idempotency_key.
     try_then (json_str obj ''effectClass'') (\<lambda>effect_class.
     try_then (try_then (json_str obj ''state'') json_effect_state) (\<lambda>state.
     try_then (json_authority obj) (\<lambda>authority.
     try_then (json_digest obj ''requestDigest'') (\<lambda>request_digest.
     try_then (json_optional_digest obj ''preconditionDigest'') (\<lambda>precondition.
     let precondition_digest = (case precondition of None \<Rightarrow> digest_sha256 [] | Some d \<Rightarrow> d) in
     try_then (map_err Refused (intent_new operation_id idempotency_key effect_class request_digest precondition_digest)) (\<lambda>intent.
     try_then (json_timestamps obj) (\<lambda>(prepared_at, committed_at).
     try_then (json_optional_digest obj ''resultDigest'') (\<lambda>result_digest.
     try_then (json_optional obj ''errorId'') (\<lambda>error_code.
     Inr \<lparr>rc_intent = intent, rc_state = state, rc_authority = authority, rc_prepared_at = prepared_at,
           rc_committed_at = committed_at, rc_updated_at = prepared_at, rc_result_digest = result_digest,
           rc_error_code = error_code, rc_indeterminate_reason = None, rc_version = V3\<rparr>))))))))))))))"

section \<open>The contract of a projection\<close>

text \<open>
  What the writer and the reader of one record type promise each other: the writer renders the object of
  the record's members, the reader opens with the parser and reads those members back.
\<close>

locale json_projection =
  fixes valid :: "'a \<Rightarrow> bool"
    and members :: "'a \<Rightarrow> json_object"
    and to_json :: "'a \<Rightarrow> bytes"
    and from_json :: "bytes \<Rightarrow> json_fault + 'a"
    and project :: "'a \<Rightarrow> 'a"
  assumes writes: "valid x \<Longrightarrow> to_json x = json_render (Object (members x))"
    and fits: "valid x \<Longrightarrow> json_fits MAX_JSON_DEPTH (Object (members x))"
    and opens: "parse_document s = Inl err \<Longrightarrow> from_json s = Inl err"
    and reads: "valid x \<Longrightarrow> parse_document s = Inr (Object (members x)) \<Longrightarrow> from_json s = Inr (project x)"
begin

lemma document: "valid x \<Longrightarrow> parse_document (to_json x) = Inr (Object (members x))"
  using parse_document_rendered [OF fits] by (simp add: writes)

lemma json_roundtrip: "valid x \<Longrightarrow> from_json (to_json x) = Inr (project x)"
  by (rule reads [OF _ document])

lemma json_panics: "parse_document s = Inl Panicked \<Longrightarrow> from_json s = Inl Panicked"
  by (rule opens)

end

text \<open>Keys are written without an escape.\<close>

definition plain_key :: "string \<Rightarrow> bool" where
  "plain_key key \<longleftrightarrow> list_all (\<lambda>c. json_escape (of_char c) = [of_char c] \<and> (of_char c :: u8) \<le> 0x7f) key"

lemma plain_keys [simp]:
  "plain_key ''effectClass''" "plain_key ''idempotencyKey''" "plain_key ''operationId''"
  "plain_key ''preconditionDigest''" "plain_key ''requestDigest''" "plain_key ''schema''" "plain_key ''intent''"
  "plain_key ''obligationId''" "plain_key ''preparedAt''" "plain_key ''terminalPredicate''" "plain_key ''authority''"
  "plain_key ''capability''" "plain_key ''leaseFence''" "plain_key ''principal''" "plain_key ''errorId''"
  "plain_key ''resultDigest''" "plain_key ''state''" "plain_key ''timestamps''" "plain_key ''committedNs''"
  "plain_key ''observedNs''" "plain_key ''preparedNs''" "plain_key ''requestedNs''" "plain_key ''verifiedNs''"
  by code_simp+

lemma plain_key_written:
  assumes "plain_key key"
  shows "json_write_str (ascii key) @ 0x3a # t = json_key key @ t"
proof -
  have "map json_escape (ascii key) = map (\<lambda>b. [b]) (ascii key)"
    using assms by (simp add: plain_key_def ascii_def list_all_iff)
  then have "concat (map json_escape (ascii key)) = ascii key" by (simp only: concat_map_singleton map_ident)
  then show ?thesis by (simp add: json_write_str_def json_key_def)
qed

lemma plain_key_utf8 [simp]: "plain_key key \<Longrightarrow> utf8_valid (ascii key)"
  by (rule utf8_valid_ascii) (auto simp: plain_key_def ascii_def list_all_iff)

lemma json_members_key:
  "plain_key key \<Longrightarrow> json_members ((ascii key, v) # ms)
     = json_key key @ json_render v @ (if ms = [] then [] else [0x2c] @ json_members ms)"
  using plain_key_written [of key] by simp

text \<open>The text of a digest.\<close>

lemma unat_of_char: "unat (of_char c :: u8) = of_char c"
proof -
  have "(of_char c :: u8) = of_nat (of_char c)" by (simp add: of_nat_of_char)
  then show ?thesis using nat_of_char_less_256 [of c] by (simp add: unat_of_nat del: of_nat_of_char)
qed

lemma byte_char [simp]: "char_of (unat (of_char c :: u8)) = c"
  by (simp add: unat_of_char)

lemma lower_hex_ascii: "is_lower_hex c \<Longrightarrow> (of_char c :: u8) \<le> 0x7f"
  by (auto simp: is_lower_hex_def less_eq_char_def word_le_nat_alt unat_of_char)

lemma text_digest_written [simp]: "digest_valid d \<Longrightarrow> text_digest (ascii (digest_to_text d)) = Inr d"
  using digest_text_exact [of "digest_to_text d" d]
  by (simp add: text_digest_def ascii_def comp_def digest_valid_def)

lemma digest_text_utf8 [simp]: "utf8_valid (ascii (digest_to_text d))"
proof (rule utf8_valid_ascii)
  have "list_all (\<lambda>c. (of_char c :: u8) \<le> 0x7f) (write_hex (cd_bytes d))"
    using write_hex_lower [of "cd_bytes d"] lower_hex_ascii by (auto simp: list_all_iff)
  then show "list_all (\<lambda>b. b \<le> 0x7f) (ascii (digest_to_text d))"
    by (cases "cd_algorithm d") (auto simp: digest_to_text_def algorithm_as_str_def ascii_def list_all_iff)
qed

section \<open>The projections meet the contract\<close>

text \<open>The members of a record, in the order they are written.\<close>

definition text_member :: "string \<Rightarrow> bytes \<Rightarrow> bytes \<times> json_value" where
  "text_member key s = (ascii key, String s)"

definition digest_member :: "string \<Rightarrow> content_digest \<Rightarrow> bytes \<times> json_value" where
  "digest_member key d = (ascii key, String (ascii (digest_to_text d)))"

definition optional_member :: "string \<Rightarrow> ('a \<Rightarrow> json_value) \<Rightarrow> 'a option \<Rightarrow> bytes \<times> json_value" where
  "optional_member key f v = (ascii key, case v of None \<Rightarrow> Null | Some x \<Rightarrow> f x)"

definition intent_members :: "effect_intent \<Rightarrow> json_object" where
  "intent_members i =
     [text_member ''effectClass'' (ei_effect_class i), text_member ''idempotencyKey'' (ei_idempotency_key i),
      text_member ''operationId'' (ei_operation_id i), digest_member ''preconditionDigest'' (ei_precondition_digest i),
      digest_member ''requestDigest'' (ei_request_digest i), text_member ''schema'' (ascii EFFECT_INTENT_SCHEMA)]"

definition prepared_members :: "prepared_effect \<Rightarrow> json_object" where
  "prepared_members p =
     [(ascii ''intent'', Object (intent_members (pe_intent p))), text_member ''obligationId'' (pe_obligation_id p),
      (ascii ''preparedAt'', Number (pe_prepared_at p)), text_member ''schema'' (ascii PREPARED_EFFECT_SCHEMA),
      text_member ''terminalPredicate'' (pe_terminal_predicate p)]"

lemmas member_defs = text_member_def digest_member_def optional_member_def

lemma ascii_eq [simp]: "ascii s = ascii t \<longleftrightarrow> s = t"
proof
  assume "ascii s = ascii t"
  then have "map (\<lambda>b. char_of (unat b)) (ascii s) = map (\<lambda>b. char_of (unat b)) (ascii t)" by simp
  then show "s = t" by (simp add: ascii_def comp_def)
qed simp

lemma schema_utf8 [simp]:
  "utf8_valid (ascii EFFECT_INTENT_SCHEMA)" "utf8_valid (ascii PREPARED_EFFECT_SCHEMA)" "utf8_valid (ascii RECEIPT_SCHEMA)"
  by code_simp+

lemma id_parse_valid [simp]: "id_valid v \<Longrightarrow> id_parse v = Inr v"
  by (simp add: id_parse_Inr)

lemma id_utf8 [simp]: "id_valid v \<Longrightarrow> utf8_valid v"
  using id_valid_text by (simp add: text_valid_def)

lemma intent_to_json_renders: "intent_to_json i = json_render (Object (intent_members i))"
  by (simp add: intent_to_json_def intent_members_def member_defs json_members_key json_digest_text_def
      del: json_members.simps(2))

lemma intent_members_fit: "intent_valid i \<Longrightarrow> 0 < k \<Longrightarrow> json_fits k (Object (intent_members i))"
  by (cases k) (simp_all add: intent_members_def member_defs intent_valid_def text_valid_def)

lemma intent_reads:
  assumes "intent_valid i"
  shows "json_closed (Object (intent_members i)) context INTENT_FIELDS = Inr (intent_members i)"
    and "check_schema EFFECT_INTENT_SCHEMA (intent_members i) = Inr ()"
    and "intent_from_json_obj (intent_members i) = Inr i"
  using assms
  by (simp_all add: json_closed_def INTENT_FIELDS_def intent_members_def member_defs check_schema_def json_str_def
      json_get_def as_str_def intent_from_json_obj_def json_id_def json_digest_def intent_valid_def
      bounded_field_def linorder_not_less)

interpretation intentj: json_projection intent_valid intent_members intent_to_json intent_from_json "\<lambda>i. i"
proof
  show "intent_valid x \<Longrightarrow> parse_document s = Inr (Object (intent_members x)) \<Longrightarrow> intent_from_json s = Inr x" for x s
    by (simp add: intent_from_json_def intent_reads)
qed (simp_all add: intent_to_json_renders intent_members_fit intent_from_json_def MAX_JSON_DEPTH_def)

lemma prepared_to_json_renders: "prepared_to_json p = json_render (Object (prepared_members p))"
  by (simp add: prepared_to_json_def prepared_members_def member_defs json_members_key intent_to_json_renders
      del: json_members.simps(2))

lemma prepared_members_fit: "prepared_valid p \<Longrightarrow> 1 < k \<Longrightarrow> json_fits k (Object (prepared_members p))"
  by (cases k) (simp_all add: prepared_members_def member_defs prepared_valid_def text_valid_def intent_members_fit)

text \<open>A negative preparation time is written and refused when read.\<close>

lemma prepared_reads:
  assumes "prepared_valid p" and "parse_document s = Inr (Object (prepared_members p))"
  shows "prepared_from_json s = (if pe_prepared_at p < 0 then json_err (ascii ''negative timestamp'') else Inr p)"
  using assms intent_reads [of "pe_intent p"]
  by (simp add: prepared_from_json_def prepared_members_def member_defs json_closed_def check_schema_def json_str_def
      json_get_def as_str_def as_timestamp_def as_i128_def json_id_def prepared_valid_def bounded_field_def
      linorder_not_less)

interpretation preparedj: json_projection "\<lambda>p. prepared_valid p \<and> 0 \<le> pe_prepared_at p"
  prepared_members prepared_to_json prepared_from_json "\<lambda>p. p"
proof
  show "prepared_valid x \<and> 0 \<le> pe_prepared_at x \<Longrightarrow> parse_document s = Inr (Object (prepared_members x))
      \<Longrightarrow> prepared_from_json s = Inr x" for x s
    using prepared_reads [of x s] by simp
qed (simp_all add: prepared_to_json_renders prepared_members_fit MAX_JSON_DEPTH_def prepared_from_json_def)

definition authority_members :: "effect_authority \<Rightarrow> json_object" where
  "authority_members a =
     [text_member ''capability'' (ea_capability a), optional_member ''leaseFence'' (\<lambda>f. Number (int f)) (ea_lease_fence a),
      text_member ''principal'' (ea_principal a)]"

definition timestamp_members :: "i128 option \<Rightarrow> i128 \<Rightarrow> json_object" where
  "timestamp_members committed_at prepared_at =
     [optional_member ''committedNs'' Number committed_at, (ascii ''observedNs'', Null),
      (ascii ''preparedNs'', Number prepared_at), (ascii ''requestedNs'', Number prepared_at), (ascii ''verifiedNs'', Null)]"

definition receipt_members :: "operation_receipt \<Rightarrow> json_object" where
  "receipt_members r =
     [(ascii ''authority'', Object (authority_members (rc_authority r))),
      text_member ''effectClass'' (ei_effect_class (rc_intent r))]
     @ (case rc_error_code r of Some err \<Rightarrow> [text_member ''errorId'' err] | None \<Rightarrow> [])
     @ [text_member ''idempotencyKey'' (ei_idempotency_key (rc_intent r)),
        text_member ''operationId'' (ei_operation_id (rc_intent r)),
        digest_member ''preconditionDigest'' (ei_precondition_digest (rc_intent r)),
        digest_member ''requestDigest'' (ei_request_digest (rc_intent r)),
        optional_member ''resultDigest'' (\<lambda>d. String (ascii (digest_to_text d))) (rc_result_digest r),
        text_member ''schema'' (ascii RECEIPT_SCHEMA), text_member ''state'' (ascii (effect_state_as_str (rc_state r))),
        (ascii ''timestamps'', Object (timestamp_members (rc_committed_at r) (rc_prepared_at r)))]"

lemma display_int_nat: "display_int (int n) = decimal n"
  by (simp add: display_int_def)

lemma receipt_to_json_renders: "receipt_to_json r = json_render (Object (receipt_members r))"
  by (simp add: receipt_to_json_def receipt_members_def authority_to_json_def authority_members_def
      timestamps_to_json_def timestamp_members_def member_defs json_members_key json_digest_text_def display_int_nat
      del: json_members.simps(2) split: option.splits)

text \<open>
  A receipt whose document can be read: its fields are well formed and its times not negative. The number
  written for the lease fence may be any that fits the parser's integers; the reader keeps its low 64 bits.
\<close>

abbreviation receipt_fence :: "operation_receipt \<Rightarrow> u64 option" where
  "receipt_fence r \<equiv> ea_lease_fence (rc_authority r)"

definition with_fence :: "u64 option \<Rightarrow> operation_receipt \<Rightarrow> operation_receipt" where
  "with_fence f r = r\<lparr>rc_authority := (rc_authority r)\<lparr>ea_lease_fence := f\<rparr>\<rparr>"

definition json_writable :: "operation_receipt \<Rightarrow> bool" where
  "json_writable r \<longleftrightarrow> receipt_fields_valid (with_fence None r) \<and> pred_option (\<lambda>f. f < 2 ^ 127) (receipt_fence r)
     \<and> 0 \<le> rc_prepared_at r \<and> pred_option (\<lambda>ts. 0 \<le> ts) (rc_committed_at r)"

definition json_view :: "operation_receipt \<Rightarrow> operation_receipt" where
  "json_view r = (with_fence (map_option (\<lambda>f. f mod 2 ^ 64) (receipt_fence r)) r)
     \<lparr>rc_updated_at := rc_prepared_at r, rc_indeterminate_reason := None, rc_version := V3\<rparr>"

lemma json_writable_parts:
  assumes "json_writable r"
  shows "intent_valid (rc_intent r)" "ea_principal (rc_authority r) \<noteq> []" "ea_capability (rc_authority r) \<noteq> []"
    "utf8_valid (ea_principal (rc_authority r))" "utf8_valid (ea_capability (rc_authority r))"
    "pred_option (\<lambda>f. f < 2 ^ 127) (receipt_fence r)" "i128_valid (rc_prepared_at r)" "0 \<le> rc_prepared_at r"
    "pred_option i128_valid (rc_committed_at r)" "pred_option (\<lambda>ts. 0 \<le> ts) (rc_committed_at r)"
    "pred_option digest_valid (rc_result_digest r)" "pred_option text_valid (rc_error_code r)"
  using assms by (simp_all add: json_writable_def with_fence_def receipt_fields_valid_def authority_valid_def text_valid_def)

lemma authority_members_fit:
  "json_writable r \<Longrightarrow> 0 < k \<Longrightarrow> json_fits k (Object (authority_members (rc_authority r)))"
  using json_writable_parts [of r]
  by (cases k; cases "receipt_fence r") (simp_all add: authority_members_def member_defs i128_valid_def)

lemma timestamp_members_fit:
  "i128_valid p \<Longrightarrow> pred_option i128_valid c \<Longrightarrow> 0 < k \<Longrightarrow> json_fits k (Object (timestamp_members c p))"
  by (cases k; cases c) (simp_all add: timestamp_members_def member_defs)

lemma receipt_members_fit:
  assumes "json_writable r" and "1 < k"
  shows "json_fits k (Object (receipt_members r))"
proof -
  obtain m where k: "k = Suc m" "0 < m" using assms(2) by (cases k) auto
  have "utf8_valid (ascii (effect_state_as_str (rc_state r)))" using effect_state_text_valid by (simp add: text_valid_def)
  moreover have "json_fits m (Object (authority_members (rc_authority r)))"
    "json_fits m (Object (timestamp_members (rc_committed_at r) (rc_prepared_at r)))"
    using assms(1) k json_writable_parts [OF assms(1)] by (simp_all add: authority_members_fit timestamp_members_fit)
  ultimately show ?thesis using json_writable_parts [OF assms(1)] k
    by (cases "rc_error_code r"; cases "rc_result_digest r")
      (simp_all add: receipt_members_def member_defs intent_valid_def text_valid_def)
qed

lemma receipt_finds:
  "json_find (receipt_members r) ''authority'' = Some (Object (authority_members (rc_authority r)))"
  "json_find (receipt_members r) ''effectClass'' = Some (String (ei_effect_class (rc_intent r)))"
  "json_find (receipt_members r) ''errorId'' = map_option String (rc_error_code r)"
  "json_find (receipt_members r) ''idempotencyKey'' = Some (String (ei_idempotency_key (rc_intent r)))"
  "json_find (receipt_members r) ''operationId'' = Some (String (ei_operation_id (rc_intent r)))"
  "json_find (receipt_members r) ''preconditionDigest'' = Some (String (ascii (digest_to_text (ei_precondition_digest (rc_intent r)))))"
  "json_find (receipt_members r) ''requestDigest'' = Some (String (ascii (digest_to_text (ei_request_digest (rc_intent r)))))"
  "json_find (receipt_members r) ''resultDigest''
     = Some (case rc_result_digest r of None \<Rightarrow> Null | Some d \<Rightarrow> String (ascii (digest_to_text d)))"
  "json_find (receipt_members r) ''schema'' = Some (String (ascii RECEIPT_SCHEMA))"
  "json_find (receipt_members r) ''state'' = Some (String (ascii (effect_state_as_str (rc_state r))))"
  "json_find (receipt_members r) ''timestamps'' = Some (Object (timestamp_members (rc_committed_at r) (rc_prepared_at r)))"
  by (cases "rc_error_code r"; simp add: receipt_members_def member_defs)+

lemma json_effect_state_written: "json_effect_state (ascii (effect_state_as_str s)) = Inr s"
  by (cases s) (simp_all add: json_effect_state_def effect_state_as_str_def)

lemma authority_reads:
  assumes "json_writable r"
  shows "json_authority (receipt_members r) = Inr (rc_authority (json_view r))"
proof -
  have "nat (int f mod 2 ^ 64) = f mod 2 ^ 64" for f by (simp add: nat_mod_distrib)
  then show ?thesis using json_writable_parts [OF assms]
    by (cases "receipt_fence r") (simp_all add: json_authority_def json_get_def receipt_finds json_closed_def
        authority_members_def member_defs json_str_def as_str_def json_lease_fence_def authority_new_def json_view_def
        with_fence_def)
qed

lemma timestamps_read:
  assumes "json_writable r"
  shows "json_timestamps (receipt_members r) = Inr (rc_prepared_at r, rc_committed_at r)"
  using json_writable_parts [OF assms]
  by (cases "rc_committed_at r") (simp_all add: json_timestamps_def json_get_def receipt_finds json_closed_def
      timestamp_members_def member_defs as_timestamp_def as_i128_def linorder_not_less)

lemma receipt_reads:
  assumes "json_writable r" and "parse_document s = Inr (Object (receipt_members r))"
  shows "receipt_from_json s = Inr (json_view r)"
proof -
  have closed: "json_closed (Object (receipt_members r)) ''operationReceipt''
       [''authority'', ''effectClass'', ''errorId'', ''idempotencyKey'', ''operationId'', ''preconditionDigest'',
        ''requestDigest'', ''resultDigest'', ''schema'', ''state'', ''timestamps''] = Inr (receipt_members r)"
    by (cases "rc_error_code r") (simp_all add: json_closed_def receipt_members_def member_defs)
  have opt: "json_optional_digest (receipt_members r) ''resultDigest'' = Inr (rc_result_digest r)"
    "json_optional_digest (receipt_members r) ''preconditionDigest'' = Inr (Some (ei_precondition_digest (rc_intent r)))"
    "json_optional (receipt_members r) ''errorId'' = Inr (rc_error_code r)"
    using json_writable_parts [OF assms(1)] by (cases "rc_result_digest r"; cases "rc_error_code r";
        simp add: json_optional_digest_def json_optional_def receipt_finds intent_valid_def)+
  show ?thesis using assms(2) closed opt authority_reads [OF assms(1)] timestamps_read [OF assms(1)]
      json_writable_parts(1) [OF assms(1)]
    by (simp add: receipt_from_json_def check_schema_def json_str_def json_get_def receipt_finds as_str_def json_id_def
        json_effect_state_written json_digest_def intent_valid_def intent_new_def bounded_field_def linorder_not_less
        json_view_def with_fence_def)
qed

interpretation receiptj: json_projection json_writable receipt_members receipt_to_json receipt_from_json json_view
proof
  show "parse_document s = Inl err \<Longrightarrow> receipt_from_json s = Inl err" for s err by (simp add: receipt_from_json_def)
qed (simp_all add: receipt_to_json_renders receipt_members_fit MAX_JSON_DEPTH_def receipt_reads)

section \<open>Accepted documents\<close>

lemma json_find_fits: "json_fits (Suc k) (Object obj) \<Longrightarrow> json_find obj key = Some v \<Longrightarrow> json_fits k v"
  by (induction obj key rule: json_find.induct) (auto split: if_splits)

lemma json_str_utf8:
  assumes "json_str obj key = Inr s" and "json_fits (Suc k) (Object obj)"
  shows "utf8_valid s"
proof -
  obtain v where v: "json_find obj key = Some v" "as_str v = Inr s"
    using assms(1) by (auto simp: json_str_def json_get_def rust_simps)
  then have "v = String s" by (cases v) (simp_all add: as_str_def)
  then show ?thesis using json_find_fits [OF assms(2) v(1)] by simp
qed

lemma text_digest_valid: "text_digest raw = Inr d \<Longrightarrow> digest_valid d"
  using digest_text_exact by (auto simp: text_digest_def rust_simps digest_valid_def)

lemma json_closed_Inr: "json_closed val context allowed = Inr obj \<Longrightarrow> val = Object obj"
  by (auto simp: json_closed_def split: json_value.splits option.splits prod.splits)

lemma intent_from_json_obj_valid:
  assumes "intent_from_json_obj obj = Inr i" and "json_fits (Suc k) (Object obj)"
  shows "intent_valid i"
proof -
  obtain cls where "json_str obj ''effectClass'' = Inr cls" "ei_effect_class i = cls" "cls \<noteq> []"
      "length cls \<le> MAX_EFFECT_CLASS_LEN" "id_valid (ei_operation_id i)" "id_valid (ei_idempotency_key i)"
      "digest_valid (ei_request_digest i)" "digest_valid (ei_precondition_digest i)"
    using assms(1) by (auto simp: intent_from_json_obj_def rust_simps json_id_def json_digest_def id_parse_Inr
        bounded_field_Inr text_digest_valid)
  then show ?thesis using json_str_utf8 [OF _ assms(2)]
    by (auto simp: intent_valid_def text_valid_def MAX_EFFECT_CLASS_LEN_def MAX_CANONICAL_TEXT_BYTES_def)
qed

lemma intent_from_json_valid: "intent_from_json s = Inr i \<Longrightarrow> utf8_valid s \<Longrightarrow> intent_valid i"
  using parse_document_fits [of s] intent_from_json_obj_valid [of _ i 15]
  by (auto simp: intent_from_json_def rust_simps MAX_JSON_DEPTH_def eval_nat_numeral dest!: json_closed_Inr)

text \<open>Reading the members of a parsed value never panics.\<close>

lemma readers_total:
  "as_str v \<noteq> Inl Panicked" "as_timestamp v \<noteq> Inl Panicked" "json_lease_fence v \<noteq> Inl Panicked"
  "json_closed v context allowed \<noteq> Inl Panicked" "json_effect_state raw \<noteq> Inl Panicked" "text_digest raw \<noteq> Inl Panicked"
  by (cases v; auto simp: as_str_def as_timestamp_def as_i128_def json_lease_fence_def json_closed_def
      json_effect_state_def text_digest_def rust_simps split: option.splits)+

lemma members_total:
  "json_get obj key \<noteq> Inl Panicked" "json_str obj key \<noteq> Inl Panicked" "json_id obj key \<noteq> Inl Panicked"
  "json_digest obj key \<noteq> Inl Panicked" "json_optional obj key \<noteq> Inl Panicked"
  "json_optional_digest obj key \<noteq> Inl Panicked" "check_schema schema obj \<noteq> Inl Panicked"
  by (auto simp: json_get_def json_str_def json_id_def json_digest_def json_optional_def json_optional_digest_def
      check_schema_def rust_simps readers_total split: option.splits json_value.splits)

lemma intent_obj_total: "intent_from_json_obj obj \<noteq> Inl Panicked"
  by (auto simp: intent_from_json_obj_def rust_simps members_total)

lemma receipt_parts_total: "json_authority obj \<noteq> Inl Panicked" "json_timestamps obj \<noteq> Inl Panicked"
  by (auto simp: json_authority_def json_timestamps_def rust_simps members_total readers_total split: option.splits if_splits)

lemma projections_total:
  assumes "parse_document s \<noteq> Inl Panicked"
  shows "intent_from_json s \<noteq> Inl Panicked" "prepared_from_json s \<noteq> Inl Panicked" "receipt_from_json s \<noteq> Inl Panicked"
  using assms by (auto simp: intent_from_json_def prepared_from_json_def receipt_from_json_def rust_simps Let_def
      members_total readers_total intent_obj_total receipt_parts_total)

section \<open>Properties\<close>

text \<open>C33: The JSON projections read back what they write. An intent with well-formed fields is returned
  unchanged; a prepared effect too, unless its preparation time is negative, which is written but
  refused when read; of an operation receipt the document keeps all but the last transition time, the
  indeterminate reason and the record version, which come back as the preparation time, none and the
  current version. And every intent accepted from any UTF-8 document has well-formed fields.\<close>

theorem effect_json_roundtrip:
  "(intent_valid i \<longrightarrow> intent_from_json (intent_to_json i) = Inr i)
   \<and> (prepared_valid p \<longrightarrow> prepared_from_json (prepared_to_json p)
        = (if pe_prepared_at p < 0 then json_err (ascii ''negative timestamp'') else Inr p))
   \<and> (json_writable r \<longrightarrow> receipt_from_json (receipt_to_json r) = Inr (json_view r))
   \<and> (intent_from_json s = Inr j \<and> utf8_valid s \<longrightarrow> intent_valid j)"
proof (intro conjI impI)
  assume p: "prepared_valid p"
  have "parse_document (prepared_to_json p) = Inr (Object (prepared_members p))"
    unfolding prepared_to_json_renders by (intro parse_document_rendered prepared_members_fit p) (simp add: MAX_JSON_DEPTH_def)
  then show "prepared_from_json (prepared_to_json p)
      = (if pe_prepared_at p < 0 then json_err (ascii ''negative timestamp'') else Inr p)"
    by (rule prepared_reads [OF p])
qed (use intentj.json_roundtrip receiptj.json_roundtrip intent_from_json_valid in auto)

lemma sample_json_writable: "json_writable (sample_receipt V3)"
  using sample_receipt_valid [of V3]
  by (simp add: json_writable_def with_fence_def sample_receipt_def system_default_def)

definition sample_early_effect :: prepared_effect where
  "sample_early_effect = \<lparr>pe_intent = sample_intent, pe_obligation_id = ascii ''ob-1'',
     pe_terminal_predicate = ascii ''delivered'', pe_prepared_at = - 1\<rparr>"

lemma sample_early_effect_valid: "prepared_valid sample_early_effect"
proof -
  have "text_valid (ascii ''delivered'')" by (rule text_valid_ascii) simp_all
  then show ?thesis using sample_intent_valid
    by (simp add: sample_early_effect_def prepared_valid_def id_valid_def ascii_def id_byte_def MAX_STABLE_ID_LEN_def
        MAX_TERMINAL_PREDICATE_LEN_def i128_valid_def)
qed

theorem effect_json_roundtrip_witness:
  "intent_from_json (intent_to_json sample_intent) = Inr sample_intent
   \<and> prepared_from_json (prepared_to_json sample_early_effect) = json_err (ascii ''negative timestamp'')
   \<and> receipt_from_json (receipt_to_json (sample_receipt V3)) = Inr (json_view (sample_receipt V3))"
proof -
  have "pe_prepared_at sample_early_effect < 0" by (simp add: sample_early_effect_def)
  then show ?thesis
    using effect_json_roundtrip [of sample_intent sample_early_effect "sample_receipt V3" "[]" sample_intent]
      sample_intent_valid sample_early_effect_valid sample_json_writable by simp
qed

text \<open>C34: No ASCII document makes the readers panic, but documents with longer characters do: a \<open>\u\<close> escape
  whose fourth following byte lies inside a character, and trailing data with a character across its
  twentieth byte, are sliced there to build the error.\<close>

theorem json_multibyte_panics:
  "(ascii_only s \<longrightarrow> intent_from_json s \<noteq> Inl Panicked \<and> prepared_from_json s \<noteq> Inl Panicked
      \<and> receipt_from_json s \<noteq> Inl Panicked)
   \<and> (utf8_cont c \<longrightarrow> intent_from_json ([0x22, 0x5c, 0x75, x, y, z, b, c] @ t) = Inl Panicked)
   \<and> (20 < length u \<and> \<not> json_blank (hd u) \<and> utf8_cont (u ! 20) \<longrightarrow> intent_from_json (ascii ''{}'' @ u) = Inl Panicked)"
proof (intro conjI impI)
  assume "ascii_only s"
  note projections_total [OF parse_document_ascii [OF this]]
  then show "intent_from_json s \<noteq> Inl Panicked" "prepared_from_json s \<noteq> Inl Panicked" "receipt_from_json s \<noteq> Inl Panicked"
    by auto
next
  assume c: "utf8_cont c"
  have "parse_string ([0x22, 0x5c, 0x75, x, y, z, b, c] @ t) = Inl Panicked"
    using c by (simp add: parse_string_def simple_escape_def unicode_escape_def is_char_boundary_def)
  then have "parse_document ([0x22, 0x5c, 0x75, x, y, z, b, c] @ t) = Inl Panicked"
    by (simp add: parse_document_def parse_value.simps)
  then show "intent_from_json ([0x22, 0x5c, 0x75, x, y, z, b, c] @ t) = Inl Panicked" by (rule intentj.json_panics)
next
  assume u: "20 < length u \<and> \<not> json_blank (hd u) \<and> utf8_cont (u ! 20)"
  then have "skip_whitespace u = u" by (cases u) simp_all
  then have "json_ensure_finished n u = Inl Panicked" for n
    using u by (auto simp: json_ensure_finished_def is_char_boundary_def)
  then have "parse_document (ascii ''{}'' @ u) = Inl Panicked"
    by (simp add: parse_document_def parse_value.simps parse_object.simps ascii_def MAX_JSON_DEPTH_def)
  then show "intent_from_json (ascii ''{}'' @ u) = Inl Panicked" by (rule intentj.json_panics)
qed

theorem json_multibyte_panics_witness:
  "intent_from_json ([0x22, 0x5c, 0x75, 0x30, 0x30, 0x30, 0xc3, 0xa9] @ [0x22]) = Inl Panicked
   \<and> utf8_valid ([0x22, 0x5c, 0x75, 0x30, 0x30, 0x30, 0xc3, 0xa9] @ [0x22])
   \<and> intent_from_json (ascii ''{}'' @ replicate 19 0x78 @ [0xc3, 0xa9]) = Inl Panicked"
proof (intro conjI)
  show "intent_from_json ([0x22, 0x5c, 0x75, 0x30, 0x30, 0x30, 0xc3, 0xa9] @ [0x22]) = Inl Panicked"
    using json_multibyte_panics [of "[]" "0xa9" "0x30" "0x30" "0x30" "0xc3" "[0x22]" "[]"] by (simp add: utf8_cont_def)
  show "utf8_valid ([0x22, 0x5c, 0x75, 0x30, 0x30, 0x30, 0xc3, 0xa9] @ [0x22])" by (simp add: utf8_cont_def)
  show "intent_from_json (ascii ''{}'' @ replicate 19 0x78 @ [0xc3, 0xa9]) = Inl Panicked"
    using json_multibyte_panics [of "[]" 0 0 0 0 0 "[]" "replicate 19 0x78 @ [0xc3, 0xa9]"]
    by (simp add: utf8_cont_def json_blank_def nth_append)
qed

text \<open>C35: A lease fence too large for 64 bits is not refused: the reader keeps its low 64 bits, so the
  documents that name the fences \<open>f\<close> and \<open>f + 2\<^sup>6\<^sup>4\<close> are read as the same receipt.\<close>

theorem json_fence_wraps:
  assumes "json_writable r" and "receipt_fence r = Some f" and "f \<le> u64_max"
  shows "receipt_to_json (with_fence (Some (f + 2 ^ 64)) r) \<noteq> receipt_to_json r
    \<and> receipt_from_json (receipt_to_json (with_fence (Some (f + 2 ^ 64)) r)) = receipt_from_json (receipt_to_json r)"
proof -
  let ?r = "with_fence (Some (f + 2 ^ 64)) r"
  have w: "json_writable ?r" using assms by (simp add: json_writable_def with_fence_def u64_max_def)
  have "json_view ?r = json_view r" using assms(2) by (simp add: json_view_def with_fence_def)
  then have "receipt_from_json (receipt_to_json ?r) = receipt_from_json (receipt_to_json r)"
    using receiptj.json_roundtrip assms(1) w by simp
  moreover have "parse_document (receipt_to_json ?r) = Inr (Object (receipt_members ?r))"
    "parse_document (receipt_to_json r) = Inr (Object (receipt_members r))"
    using receiptj.document w assms(1) by simp_all
  moreover have "receipt_members ?r \<noteq> receipt_members r"
    using assms(2) by (simp add: receipt_members_def authority_members_def with_fence_def member_defs)
  ultimately show ?thesis by fastforce
qed

theorem json_fence_wraps_witness:
  "receipt_from_json (receipt_to_json (with_fence (Some (7 + 2 ^ 64)) (with_fence (Some 7) (sample_receipt V3))))
   = receipt_from_json (receipt_to_json (with_fence (Some 7) (sample_receipt V3)))"
proof -
  have "json_writable (with_fence (Some 7) (sample_receipt V3))"
    using sample_json_writable by (simp add: json_writable_def with_fence_def)
  then show ?thesis using json_fence_wraps [of "with_fence (Some 7) (sample_receipt V3)" 7]
    by (simp add: with_fence_def u64_max_def)
qed

end
