(* ===== verification/Effect_Provider.thy ===== *)
theory Effect_Provider
  imports Effect_Json
begin

text \<open>
  Provider evidence, \<open>crates/fss-core/src/effect.rs\<close>: observation and failure receipts with their lookup
  verification, and the reconciliation record with its four outcomes; constructors, canonical bytes and
  JSON projections. The codecs are instances of \<open>canonical_codec\<close> and the projections of
  \<open>json_projection\<close>, so their exactness is inherited.
\<close>

section \<open>effect.rs: provider receipts\<close>

definition MAX_ERROR_CODE_LEN :: usize where "MAX_ERROR_CODE_LEN = 128"
definition MAX_DETAIL_LEN :: usize where "MAX_DETAIL_LEN = 512"

datatype receipt_lookup_status = Found | NotFound | Indeterminate

record provider_observation_receipt =
  po_provider_nonce :: content_digest
  po_message_digest :: content_digest
  po_prepared_effect_digest :: content_digest
  po_idempotency_key :: stable_id

definition OBSERVATION_SCHEMA :: string where "OBSERVATION_SCHEMA = ''fss.provider_observation_receipt.v1''"

definition observation_new ::
  "content_digest \<Rightarrow> content_digest \<Rightarrow> content_digest \<Rightarrow> stable_id \<Rightarrow> provider_observation_receipt" where
  "observation_new provider_nonce message_digest prepared_effect_digest idempotency_key =
     \<lparr>po_provider_nonce = provider_nonce, po_message_digest = message_digest,
      po_prepared_effect_digest = prepared_effect_digest, po_idempotency_key = idempotency_key\<rparr>"

definition enc_observation :: "provider_observation_receipt \<Rightarrow> canonical_encoder \<Rightarrow> canonical_encoder" where
  "enc_observation v e =
     enc_id (po_idempotency_key v) (enc_digest (po_prepared_effect_digest v)
       (enc_digest (po_message_digest v) (enc_digest (po_provider_nonce v) e)))"

definition dec_observation ::
  "canonical_decoder \<Rightarrow> (contract_error + provider_observation_receipt) \<times> canonical_decoder" where
  "dec_observation d =
     dec_then (dec_digest d) (\<lambda>provider_nonce d. dec_then (dec_digest d) (\<lambda>message_digest d.
     dec_then (dec_digest d) (\<lambda>prepared_effect_digest d. dec_then (dec_id d) (\<lambda>idempotency_key d.
     (Inr \<lparr>po_provider_nonce = provider_nonce, po_message_digest = message_digest,
           po_prepared_effect_digest = prepared_effect_digest, po_idempotency_key = idempotency_key\<rparr>, d)))))"

text \<open>The canonical bytes under a schema text, and the decoding that the three record types share.\<close>

definition schema_bytes ::
  "string \<Rightarrow> ('a \<Rightarrow> canonical_encoder \<Rightarrow> canonical_encoder) \<Rightarrow> 'a \<Rightarrow> bytes" where
  "schema_bytes schema enc v = enc_finish (enc v (enc_text (ascii schema) encoder_new))"

definition from_schema_bytes ::
  "string \<Rightarrow> (canonical_decoder \<Rightarrow> (contract_error + 'a) \<times> canonical_decoder) \<Rightarrow> bytes \<Rightarrow> effect_schema_error + 'a" where
  "from_schema_bytes schema dec bs =
     (case dec_text (decoder_new bs) of
        (Inl err, _) \<Rightarrow> Inl (Contract err)
      | (Inr t, d) \<Rightarrow>
          if t \<noteq> ascii schema then Inl (SchemaMismatch schema t)
          else
            (case dec d of
               (Inl err, _) \<Rightarrow> Inl (Contract err)
             | (Inr v, d) \<Rightarrow> try_then (map_err Contract (ensure_finished d)) (\<lambda>_. Inr v)))"

definition observation_bytes :: "provider_observation_receipt \<Rightarrow> bytes" where
  "observation_bytes v = schema_bytes OBSERVATION_SCHEMA enc_observation v"

definition observation_from_bytes :: "bytes \<Rightarrow> effect_schema_error + provider_observation_receipt" where
  "observation_from_bytes bs = from_schema_bytes OBSERVATION_SCHEMA dec_observation bs"

definition observation_digest :: "provider_observation_receipt \<Rightarrow> content_digest" where
  "observation_digest v = digest_sha256 (observation_bytes v)"

definition observation_to_json :: "provider_observation_receipt \<Rightarrow> bytes" where
  "observation_to_json v =
     [0x7b] @ json_key ''idempotencyKey'' @ json_write_str (po_idempotency_key v)
     @ [0x2c] @ json_key ''messageDigest'' @ json_digest_text (po_message_digest v)
     @ [0x2c] @ json_key ''preparedEffectDigest'' @ json_digest_text (po_prepared_effect_digest v)
     @ [0x2c] @ json_key ''providerNonce'' @ json_digest_text (po_provider_nonce v)
     @ [0x2c] @ json_key ''schema'' @ json_write_str (ascii OBSERVATION_SCHEMA) @ [0x7d]"

definition observation_from_json :: "bytes \<Rightarrow> json_fault + provider_observation_receipt" where
  "observation_from_json s =
     try_then (parse_document s) (\<lambda>root.
     try_then (json_closed root ''providerObservationReceipt''
       [''idempotencyKey'', ''messageDigest'', ''preparedEffectDigest'', ''providerNonce'', ''schema'']) (\<lambda>obj.
     try_then (check_schema OBSERVATION_SCHEMA obj) (\<lambda>_.
     try_then (json_id obj ''idempotencyKey'') (\<lambda>idempotency_key.
     try_then (json_digest obj ''messageDigest'') (\<lambda>message_digest.
     try_then (json_digest obj ''preparedEffectDigest'') (\<lambda>prepared_effect_digest.
     try_then (json_digest obj ''providerNonce'') (\<lambda>provider_nonce.
     Inr \<lparr>po_provider_nonce = provider_nonce, po_message_digest = message_digest,
           po_prepared_effect_digest = prepared_effect_digest, po_idempotency_key = idempotency_key\<rparr>)))))))"

text \<open>\<open>verify_lookup\<close>, over the provider's lookup, which the caller supplies.\<close>

definition lookup_detail :: "string \<Rightarrow> content_digest \<Rightarrow> content_digest \<Rightarrow> bytes" where
  "lookup_detail msg nonce message_digest =
     ascii msg @ ascii (digest_to_text nonce) @ ascii '' for message '' @ ascii (digest_to_text message_digest)"

definition observation_verify_lookup ::
  "(content_digest \<Rightarrow> content_digest \<Rightarrow> receipt_lookup_status) \<Rightarrow> provider_observation_receipt \<Rightarrow> effect_schema_error + unit" where
  "observation_verify_lookup contains_observation v =
     (case contains_observation (po_provider_nonce v) (po_message_digest v) of
        Found \<Rightarrow> Inr ()
      | NotFound \<Rightarrow> Inl (UnverifiedReceipt (lookup_detail ''provider has no record of observation receipt with nonce ''
          (po_provider_nonce v) (po_message_digest v)))
      | Indeterminate \<Rightarrow> Inl (IndeterminateLookup (lookup_detail
          ''provider lookup was indeterminate for observation receipt with nonce '' (po_provider_nonce v) (po_message_digest v))))"

text \<open>The lookup the crate provides for a set of issued pairs, and for a set of issued triples.\<close>

definition set_contains_observation ::
  "(content_digest \<times> content_digest) list \<Rightarrow> content_digest \<Rightarrow> content_digest \<Rightarrow> receipt_lookup_status" where
  "set_contains_observation issued nonce message_digest =
     (if (nonce, message_digest) \<in> set issued then Found else NotFound)"

definition set_contains_failure ::
  "(content_digest \<times> content_digest \<times> bytes) list \<Rightarrow> content_digest \<Rightarrow> content_digest \<Rightarrow> bytes \<Rightarrow> receipt_lookup_status" where
  "set_contains_failure issued nonce message_digest error_code =
     (if (nonce, message_digest, error_code) \<in> set issued then Found else NotFound)"

record provider_failure_receipt =
  pf_provider_nonce :: content_digest
  pf_message_digest :: content_digest
  pf_prepared_effect_digest :: content_digest
  pf_idempotency_key :: stable_id
  pf_error_code :: bytes

definition FAILURE_SCHEMA :: string where "FAILURE_SCHEMA = ''fss.provider_failure_receipt.v1''"

definition failure_new ::
  "content_digest \<Rightarrow> content_digest \<Rightarrow> content_digest \<Rightarrow> stable_id \<Rightarrow> bytes \<Rightarrow> effect_schema_error + provider_failure_receipt" where
  "failure_new provider_nonce message_digest prepared_effect_digest idempotency_key error_code =
     try_then (bounded_field ''errorCode'' MAX_ERROR_CODE_LEN error_code) (\<lambda>_.
       Inr \<lparr>pf_provider_nonce = provider_nonce, pf_message_digest = message_digest,
             pf_prepared_effect_digest = prepared_effect_digest, pf_idempotency_key = idempotency_key,
             pf_error_code = error_code\<rparr>)"

definition enc_failure :: "provider_failure_receipt \<Rightarrow> canonical_encoder \<Rightarrow> canonical_encoder" where
  "enc_failure v e =
     enc_text (pf_error_code v) (enc_id (pf_idempotency_key v) (enc_digest (pf_prepared_effect_digest v)
       (enc_digest (pf_message_digest v) (enc_digest (pf_provider_nonce v) e))))"

definition dec_failure ::
  "canonical_decoder \<Rightarrow> (contract_error + provider_failure_receipt) \<times> canonical_decoder" where
  "dec_failure d =
     dec_then (dec_digest d) (\<lambda>provider_nonce d. dec_then (dec_digest d) (\<lambda>message_digest d.
     dec_then (dec_digest d) (\<lambda>prepared_effect_digest d. dec_then (dec_id d) (\<lambda>idempotency_key d.
     dec_then (dec_text d) (\<lambda>error_code d.
     if error_code = [] \<or> length error_code > MAX_ERROR_CODE_LEN then (Inl InvalidIdentifier, d)
     else (Inr \<lparr>pf_provider_nonce = provider_nonce, pf_message_digest = message_digest,
                pf_prepared_effect_digest = prepared_effect_digest, pf_idempotency_key = idempotency_key,
                pf_error_code = error_code\<rparr>, d))))))"

definition failure_bytes :: "provider_failure_receipt \<Rightarrow> bytes" where
  "failure_bytes v = schema_bytes FAILURE_SCHEMA enc_failure v"

definition failure_from_bytes :: "bytes \<Rightarrow> effect_schema_error + provider_failure_receipt" where
  "failure_from_bytes bs = from_schema_bytes FAILURE_SCHEMA dec_failure bs"

definition failure_digest :: "provider_failure_receipt \<Rightarrow> content_digest" where
  "failure_digest v = digest_sha256 (failure_bytes v)"

definition failure_to_json :: "provider_failure_receipt \<Rightarrow> bytes" where
  "failure_to_json v =
     [0x7b] @ json_key ''errorCode'' @ json_write_str (pf_error_code v)
     @ [0x2c] @ json_key ''idempotencyKey'' @ json_write_str (pf_idempotency_key v)
     @ [0x2c] @ json_key ''messageDigest'' @ json_digest_text (pf_message_digest v)
     @ [0x2c] @ json_key ''preparedEffectDigest'' @ json_digest_text (pf_prepared_effect_digest v)
     @ [0x2c] @ json_key ''providerNonce'' @ json_digest_text (pf_provider_nonce v)
     @ [0x2c] @ json_key ''schema'' @ json_write_str (ascii FAILURE_SCHEMA) @ [0x7d]"

definition failure_from_json :: "bytes \<Rightarrow> json_fault + provider_failure_receipt" where
  "failure_from_json s =
     try_then (parse_document s) (\<lambda>root.
     try_then (json_closed root ''providerFailureReceipt''
       [''errorCode'', ''idempotencyKey'', ''messageDigest'', ''preparedEffectDigest'', ''providerNonce'', ''schema'']) (\<lambda>obj.
     try_then (check_schema FAILURE_SCHEMA obj) (\<lambda>_.
     try_then (json_str obj ''errorCode'') (\<lambda>error_code.
     try_then (json_id obj ''idempotencyKey'') (\<lambda>idempotency_key.
     try_then (json_digest obj ''messageDigest'') (\<lambda>message_digest.
     try_then (json_digest obj ''preparedEffectDigest'') (\<lambda>prepared_effect_digest.
     try_then (json_digest obj ''providerNonce'') (\<lambda>provider_nonce.
     map_err Refused (failure_new provider_nonce message_digest prepared_effect_digest idempotency_key error_code)))))))))"

definition failure_verify_lookup ::
  "(content_digest \<Rightarrow> content_digest \<Rightarrow> bytes \<Rightarrow> receipt_lookup_status) \<Rightarrow> provider_failure_receipt \<Rightarrow> effect_schema_error + unit" where
  "failure_verify_lookup contains_failure v =
     (case contains_failure (pf_provider_nonce v) (pf_message_digest v) (pf_error_code v) of
        Found \<Rightarrow> Inr ()
      | NotFound \<Rightarrow> Inl (UnverifiedReceipt (lookup_detail ''provider has no record of failure receipt with nonce ''
          (pf_provider_nonce v) (pf_message_digest v)))
      | Indeterminate \<Rightarrow> Inl (IndeterminateLookup (lookup_detail
          ''provider lookup was indeterminate for failure receipt with nonce '' (pf_provider_nonce v) (pf_message_digest v))))"

section \<open>effect.rs: reconciliation\<close>

datatype reconciliation_outcome = Delivered | Failed | Indeterminate | Verified

definition outcome_as_str :: "reconciliation_outcome \<Rightarrow> string" where
  "outcome_as_str v =
     (case v of Delivered \<Rightarrow> ''delivered'' | Failed \<Rightarrow> ''failed'' | Indeterminate \<Rightarrow> ''indeterminate'' | Verified \<Rightarrow> ''verified'')"

definition outcome_parse :: "bytes \<Rightarrow> effect_schema_error + reconciliation_outcome" where
  "outcome_parse s =
     (if s = ascii ''delivered'' then Inr Delivered
      else if s = ascii ''failed'' then Inr Failed
      else if s = ascii ''indeterminate'' then Inr Indeterminate
      else if s = ascii ''verified'' then Inr Verified
      else Inl (JsonError (ascii ''unknown reconciliation outcome '' @ [0x27] @ s @ [0x27])))"

definition enc_outcome :: "reconciliation_outcome \<Rightarrow> canonical_encoder \<Rightarrow> canonical_encoder" where
  "enc_outcome v e = enc_text (ascii (outcome_as_str v)) e"

definition dec_outcome :: "canonical_decoder \<Rightarrow> (contract_error + reconciliation_outcome) \<times> canonical_decoder" where
  "dec_outcome d =
     dec_then (dec_text d) (\<lambda>t d.
       (if t = ascii ''delivered'' then Inr Delivered
        else if t = ascii ''failed'' then Inr Failed
        else if t = ascii ''indeterminate'' then Inr Indeterminate
        else if t = ascii ''verified'' then Inr Verified
        else Inl InvalidIdentifier, d))"

record effect_reconciliation_record =
  er_operation_id :: stable_id
  er_idempotency_key :: stable_id
  er_prepared_effect_digest :: content_digest
  er_outcome :: reconciliation_outcome
  er_evidence_digest :: "content_digest option"
  er_reconciled_at :: i128
  er_detail :: "bytes option"

definition RECONCILIATION_SCHEMA :: string where "RECONCILIATION_SCHEMA = ''fss.effect_reconciliation.v1''"

definition names_detail :: "bytes option \<Rightarrow> bool" where
  "names_detail detail = (case detail of Some d \<Rightarrow> d \<noteq> [] | None \<Rightarrow> False)"

text \<open>The checks of \<open>EffectReconciliationRecord::new\<close>, in order.\<close>

definition check_outcome ::
  "reconciliation_outcome \<Rightarrow> content_digest option \<Rightarrow> bytes option \<Rightarrow> effect_schema_error + unit" where
  "check_outcome outcome evidence_digest detail =
     (if outcome = Verified \<and> evidence_digest = None then
        Inl (InvalidOutcome ''verified'' ''evidence_digest is required for verified outcome'')
      else if outcome = Delivered \<and> evidence_digest = None then
        Inl (InvalidOutcome ''delivered''
          ''evidence_digest is required for delivered outcome; transport acceptance is not terminal success'')
      else if outcome = Failed \<and> \<not> names_detail detail then
        Inl (InvalidOutcome ''failed'' ''detail reason is required for failed outcome'')
      else if outcome = Indeterminate \<and> evidence_digest \<noteq> None then
        Inl (InvalidOutcome ''indeterminate'' ''indeterminate outcome cannot carry verified evidence digest'')
      else if outcome = Indeterminate \<and> \<not> names_detail detail then
        Inl (InvalidOutcome ''indeterminate'' ''detail explanation is required for indeterminate outcome'')
      else
        (case detail of
           None \<Rightarrow> Inr ()
         | Some d \<Rightarrow>
             if d = [] then Inl (InvalidOutcome (outcome_as_str outcome) ''detail must not be empty string (minLength 1)'')
             else if length d > MAX_DETAIL_LEN then Inl (OverLimitLength ''detail'' MAX_DETAIL_LEN (length d))
             else Inr ()))"

definition reconciliation_new ::
  "stable_id \<Rightarrow> stable_id \<Rightarrow> content_digest \<Rightarrow> reconciliation_outcome \<Rightarrow> content_digest option \<Rightarrow> i128 \<Rightarrow> bytes option
     \<Rightarrow> effect_schema_error + effect_reconciliation_record" where
  "reconciliation_new operation_id idempotency_key prepared_effect_digest outcome evidence_digest reconciled_at detail =
     try_then (check_outcome outcome evidence_digest detail) (\<lambda>_.
       Inr \<lparr>er_operation_id = operation_id, er_idempotency_key = idempotency_key,
             er_prepared_effect_digest = prepared_effect_digest, er_outcome = outcome,
             er_evidence_digest = evidence_digest, er_reconciled_at = reconciled_at, er_detail = detail\<rparr>)"

definition enc_reconciliation :: "effect_reconciliation_record \<Rightarrow> canonical_encoder \<Rightarrow> canonical_encoder" where
  "enc_reconciliation v e =
     enc_option enc_text (er_detail v) (enc_i128 (er_reconciled_at v) (enc_option enc_digest (er_evidence_digest v)
       (enc_outcome (er_outcome v) (enc_digest (er_prepared_effect_digest v)
       (enc_id (er_idempotency_key v) (enc_id (er_operation_id v) e))))))"

definition dec_reconciliation ::
  "canonical_decoder \<Rightarrow> (contract_error + effect_reconciliation_record) \<times> canonical_decoder" where
  "dec_reconciliation d =
     dec_then (dec_id d) (\<lambda>operation_id d. dec_then (dec_id d) (\<lambda>idempotency_key d.
     dec_then (dec_digest d) (\<lambda>prepared_effect_digest d. dec_then (dec_outcome d) (\<lambda>outcome d.
     dec_then (dec_option dec_digest d) (\<lambda>evidence_digest d. dec_then (dec_i128 d) (\<lambda>reconciled_at d.
     dec_then (dec_option dec_text d) (\<lambda>detail d.
     (map_err (\<lambda>_. InvalidIdentifier) (reconciliation_new operation_id idempotency_key prepared_effect_digest
        outcome evidence_digest reconciled_at detail), d))))))))"

definition reconciliation_bytes :: "effect_reconciliation_record \<Rightarrow> bytes" where
  "reconciliation_bytes v = schema_bytes RECONCILIATION_SCHEMA enc_reconciliation v"

definition reconciliation_from_bytes :: "bytes \<Rightarrow> effect_schema_error + effect_reconciliation_record" where
  "reconciliation_from_bytes bs = from_schema_bytes RECONCILIATION_SCHEMA dec_reconciliation bs"

definition record_digest :: "effect_reconciliation_record \<Rightarrow> content_digest" where
  "record_digest v = digest_sha256 (reconciliation_bytes v)"

definition reconciliation_to_json :: "effect_reconciliation_record \<Rightarrow> bytes" where
  "reconciliation_to_json v =
     [0x7b] @ json_key ''detail'' @ (case er_detail v of Some d \<Rightarrow> json_write_str d | None \<Rightarrow> ascii ''null'')
     @ [0x2c] @ json_key ''evidenceDigest''
     @ (case er_evidence_digest v of Some d \<Rightarrow> json_digest_text d | None \<Rightarrow> ascii ''null'')
     @ [0x2c] @ json_key ''idempotencyKey'' @ json_write_str (er_idempotency_key v)
     @ [0x2c] @ json_key ''operationId'' @ json_write_str (er_operation_id v)
     @ [0x2c] @ json_key ''outcome'' @ json_write_str (ascii (outcome_as_str (er_outcome v)))
     @ [0x2c] @ json_key ''preparedEffectDigest'' @ json_digest_text (er_prepared_effect_digest v)
     @ [0x2c] @ json_key ''reconciledAt'' @ display_int (er_reconciled_at v)
     @ [0x2c] @ json_key ''schema'' @ json_write_str (ascii RECONCILIATION_SCHEMA) @ [0x7d]"

definition reconciliation_from_json :: "bytes \<Rightarrow> json_fault + effect_reconciliation_record" where
  "reconciliation_from_json s =
     try_then (parse_document s) (\<lambda>root.
     try_then (json_closed root ''effectReconciliation''
       [''detail'', ''evidenceDigest'', ''idempotencyKey'', ''operationId'', ''outcome'', ''preparedEffectDigest'',
        ''reconciledAt'', ''schema'']) (\<lambda>obj.
     try_then (check_schema RECONCILIATION_SCHEMA obj) (\<lambda>_.
     try_then (json_id obj ''operationId'') (\<lambda>operation_id.
     try_then (json_id obj ''idempotencyKey'') (\<lambda>idempotency_key.
     try_then (json_digest obj ''preparedEffectDigest'') (\<lambda>prepared_effect_digest.
     try_then (try_then (json_str obj ''outcome'') (\<lambda>s. map_err Refused (outcome_parse s))) (\<lambda>outcome.
     try_then (json_optional_digest obj ''evidenceDigest'') (\<lambda>evidence_digest.
     try_then (try_then (json_get obj ''reconciledAt'') as_timestamp) (\<lambda>reconciled_at.
     try_then (json_optional obj ''detail'') (\<lambda>detail.
     map_err Refused (reconciliation_new operation_id idempotency_key prepared_effect_digest outcome
       evidence_digest reconciled_at detail)))))))))))"

section \<open>The codecs\<close>

definition observation_valid :: "provider_observation_receipt \<Rightarrow> bool" where
  "observation_valid v \<longleftrightarrow> digest_valid (po_provider_nonce v) \<and> digest_valid (po_message_digest v)
     \<and> digest_valid (po_prepared_effect_digest v) \<and> id_valid (po_idempotency_key v)"

definition observation_wire :: "provider_observation_receipt \<Rightarrow> bytes" where
  "observation_wire v = digest_wire (po_provider_nonce v) @ digest_wire (po_message_digest v)
     @ digest_wire (po_prepared_effect_digest v) @ bytes_wire (po_idempotency_key v)"

interpretation observationc: canonical_codec observation_valid observation_wire enc_observation dec_observation
proof
  show "enc_observation v e = enc_emit (observation_wire v) e" if "observation_valid v" "ce_error e = None" for v e
    using that by (simp add: enc_observation_def observation_wire_def observation_valid_def encoder_laws idc.enc_wire)
next
  show "dec_observation d = (Inr v, d') \<longleftrightarrow>
      observation_valid v \<and> prefix (observation_wire v) (dec_rest d) \<and> d' = dec_advance (length (observation_wire v)) d"
    for d v d'
    by (cases v) (auto simp: dec_observation_def dec_then_Inr codec_laws idc.dec_wire observation_valid_def
        observation_wire_def prefix_append_rest add.assoc simp del: length_bytes_wire)
qed

definition failure_valid :: "provider_failure_receipt \<Rightarrow> bool" where
  "failure_valid v \<longleftrightarrow> digest_valid (pf_provider_nonce v) \<and> digest_valid (pf_message_digest v)
     \<and> digest_valid (pf_prepared_effect_digest v) \<and> id_valid (pf_idempotency_key v)
     \<and> pf_error_code v \<noteq> [] \<and> length (pf_error_code v) \<le> MAX_ERROR_CODE_LEN \<and> text_valid (pf_error_code v)"

definition failure_wire :: "provider_failure_receipt \<Rightarrow> bytes" where
  "failure_wire v = digest_wire (pf_provider_nonce v) @ digest_wire (pf_message_digest v)
     @ digest_wire (pf_prepared_effect_digest v) @ bytes_wire (pf_idempotency_key v) @ bytes_wire (pf_error_code v)"

interpretation failurec: canonical_codec failure_valid failure_wire enc_failure dec_failure
proof
  show "enc_failure v e = enc_emit (failure_wire v) e" if "failure_valid v" "ce_error e = None" for v e
    using that by (simp add: enc_failure_def failure_wire_def failure_valid_def encoder_laws idc.enc_wire)
next
  show "dec_failure d = (Inr v, d') \<longleftrightarrow>
      failure_valid v \<and> prefix (failure_wire v) (dec_rest d) \<and> d' = dec_advance (length (failure_wire v)) d" for d v d'
    by (cases v) (auto simp: dec_failure_def dec_then_Inr if_refuse codec_laws idc.dec_wire failure_valid_def
        failure_wire_def prefix_append_rest not_less add.assoc simp del: length_bytes_wire)
qed

text \<open>What a reconciliation may claim: the rules \<open>new\<close> enforces, as a predicate.\<close>

definition outcome_rules :: "reconciliation_outcome \<Rightarrow> content_digest option \<Rightarrow> bytes option \<Rightarrow> bool" where
  "outcome_rules outcome evidence detail \<longleftrightarrow>
     (outcome \<in> {Verified, Delivered} \<longrightarrow> evidence \<noteq> None)
     \<and> (outcome \<in> {Failed, Indeterminate} \<longrightarrow> detail \<noteq> None)
     \<and> (outcome = Indeterminate \<longrightarrow> evidence = None)
     \<and> (case detail of None \<Rightarrow> True | Some d \<Rightarrow> 1 \<le> length d \<and> length d \<le> 512)"

lemma check_outcome_Inr: "check_outcome outcome evidence detail = Inr u \<longleftrightarrow> outcome_rules outcome evidence detail"
  by (cases outcome; cases detail)
    (auto simp: check_outcome_def outcome_rules_def names_detail_def MAX_DETAIL_LEN_def Suc_le_eq)

lemma reconciliation_new_Inr:
  "reconciliation_new op key prepared outcome evidence at detail = Inr v \<longleftrightarrow>
     outcome_rules outcome evidence detail
     \<and> v = \<lparr>er_operation_id = op, er_idempotency_key = key, er_prepared_effect_digest = prepared, er_outcome = outcome,
            er_evidence_digest = evidence, er_reconciled_at = at, er_detail = detail\<rparr>"
  by (auto simp: reconciliation_new_def rust_simps check_outcome_Inr)

definition reconciliation_valid :: "effect_reconciliation_record \<Rightarrow> bool" where
  "reconciliation_valid v \<longleftrightarrow> id_valid (er_operation_id v) \<and> id_valid (er_idempotency_key v)
     \<and> digest_valid (er_prepared_effect_digest v) \<and> pred_option digest_valid (er_evidence_digest v)
     \<and> i128_valid (er_reconciled_at v) \<and> pred_option text_valid (er_detail v)
     \<and> outcome_rules (er_outcome v) (er_evidence_digest v) (er_detail v)"

definition outcome_wire :: "reconciliation_outcome \<Rightarrow> bytes" where
  "outcome_wire v = bytes_wire (ascii (outcome_as_str v))"

lemma outcome_text_valid [simp]: "text_valid (ascii (outcome_as_str v))"
  by (cases v; rule text_valid_ascii) (simp_all add: outcome_as_str_def)

interpretation outcomec: canonical_codec "\<lambda>_. True" outcome_wire enc_outcome dec_outcome
proof
  show "dec_outcome d = (Inr v, d') \<longleftrightarrow> True \<and> prefix (outcome_wire v) (dec_rest d) \<and> d' = dec_advance (length (outcome_wire v)) d"
    for d v d'
  proof -
    have pick: "(if t = ascii ''delivered'' then Inr Delivered else if t = ascii ''failed'' then Inr Failed
        else if t = ascii ''indeterminate'' then Inr Indeterminate else if t = ascii ''verified'' then Inr Verified
        else Inl InvalidIdentifier) = Inr v \<longleftrightarrow> t = ascii (outcome_as_str v)" for t
      by (cases v) (auto simp: outcome_as_str_def)
    have "dec_outcome d = (Inr v, d') \<longleftrightarrow> dec_text d = (Inr (ascii (outcome_as_str v)), d')"
      unfolding dec_outcome_def dec_then_Inr prod.inject pick by auto
    then show ?thesis by (simp add: textc.dec_wire outcome_wire_def)
  qed
qed (simp add: enc_outcome_def textc.enc_wire outcome_wire_def)

definition reconciliation_wire :: "effect_reconciliation_record \<Rightarrow> bytes" where
  "reconciliation_wire v = bytes_wire (er_operation_id v) @ bytes_wire (er_idempotency_key v)
     @ digest_wire (er_prepared_effect_digest v) @ outcome_wire (er_outcome v) @ option_wire digest_wire (er_evidence_digest v)
     @ i128_wire (er_reconciled_at v) @ option_wire bytes_wire (er_detail v)"

interpretation reconciliationc: canonical_codec reconciliation_valid reconciliation_wire enc_reconciliation dec_reconciliation
proof
  show "enc_reconciliation v e = enc_emit (reconciliation_wire v) e" if "reconciliation_valid v" "ce_error e = None" for v e
    using that by (simp add: enc_reconciliation_def reconciliation_wire_def reconciliation_valid_def encoder_laws
        idc.enc_wire outcomec.enc_wire)
next
  show "dec_reconciliation d = (Inr v, d') \<longleftrightarrow> reconciliation_valid v \<and> prefix (reconciliation_wire v) (dec_rest d)
      \<and> d' = dec_advance (length (reconciliation_wire v)) d" for d v d'
    by (cases v) (auto simp: dec_reconciliation_def dec_then_Inr map_err_Inr_iff reconciliation_new_Inr codec_laws
        idc.dec_wire outcomec.dec_wire reconciliation_valid_def reconciliation_wire_def prefix_append_rest add.assoc
        simp del: length_bytes_wire)
qed

text \<open>Decoding under a schema text accepts exactly the encodings.\<close>

lemma from_schema_bytes_exact:
  assumes "canonical_codec valid wire enc dec" and "text_valid (ascii schema)"
  shows "from_schema_bytes schema dec bs = Inr v \<longleftrightarrow> valid v \<and> bs = schema_bytes schema enc v"
proof -
  have "from_schema_bytes schema dec bs = Inr v \<longleftrightarrow> valid v \<and> bs = bytes_wire (ascii schema) @ wire v"
    using prefixed_exact [where check = "\<lambda>_. Inr ()" and bs = bs and mismatch = "SchemaMismatch schema" and x = v, OF assms]
    by (simp only: from_schema_bytes_def try_then_simps)
  moreover have "schema_bytes schema enc v = bytes_wire (ascii schema) @ wire v" if "valid v"
    using that assms by (simp add: schema_bytes_def textc.enc_wire canonical_codec.enc_wire [OF assms(1)] encoder_new_def)
      (simp add: enc_finish_def enc_emit_def)
  ultimately show ?thesis by auto
qed

lemma provider_schema_valid [simp]:
  "text_valid (ascii OBSERVATION_SCHEMA)" "text_valid (ascii FAILURE_SCHEMA)" "text_valid (ascii RECONCILIATION_SCHEMA)"
  by (rule text_valid_ascii; simp add: OBSERVATION_SCHEMA_def FAILURE_SCHEMA_def RECONCILIATION_SCHEMA_def)+

section \<open>The projections\<close>

lemma provider_keys [simp]:
  "plain_key ''messageDigest''" "plain_key ''preparedEffectDigest''" "plain_key ''providerNonce''" "plain_key ''errorCode''"
  "plain_key ''detail''" "plain_key ''evidenceDigest''" "plain_key ''outcome''" "plain_key ''reconciledAt''"
  by code_simp+

definition observation_members :: "provider_observation_receipt \<Rightarrow> json_object" where
  "observation_members v =
     [text_member ''idempotencyKey'' (po_idempotency_key v), digest_member ''messageDigest'' (po_message_digest v),
      digest_member ''preparedEffectDigest'' (po_prepared_effect_digest v),
      digest_member ''providerNonce'' (po_provider_nonce v), text_member ''schema'' (ascii OBSERVATION_SCHEMA)]"

definition failure_members :: "provider_failure_receipt \<Rightarrow> json_object" where
  "failure_members v =
     [text_member ''errorCode'' (pf_error_code v), text_member ''idempotencyKey'' (pf_idempotency_key v),
      digest_member ''messageDigest'' (pf_message_digest v),
      digest_member ''preparedEffectDigest'' (pf_prepared_effect_digest v),
      digest_member ''providerNonce'' (pf_provider_nonce v), text_member ''schema'' (ascii FAILURE_SCHEMA)]"

definition reconciliation_members :: "effect_reconciliation_record \<Rightarrow> json_object" where
  "reconciliation_members v =
     [optional_member ''detail'' String (er_detail v),
      optional_member ''evidenceDigest'' (\<lambda>d. String (ascii (digest_to_text d))) (er_evidence_digest v),
      text_member ''idempotencyKey'' (er_idempotency_key v), text_member ''operationId'' (er_operation_id v),
      text_member ''outcome'' (ascii (outcome_as_str (er_outcome v))),
      digest_member ''preparedEffectDigest'' (er_prepared_effect_digest v),
      (ascii ''reconciledAt'', Number (er_reconciled_at v)), text_member ''schema'' (ascii RECONCILIATION_SCHEMA)]"

lemmas json_readers = json_closed_def check_schema_def json_str_def json_get_def as_str_def as_timestamp_def as_i128_def
  json_id_def json_digest_def json_optional_def json_optional_digest_def

lemma json_fits_top:
  "json_fits MAX_JSON_DEPTH (Object ms) \<longleftrightarrow> list_all (\<lambda>(k, v). utf8_valid k \<and> json_fits 15 v) ms"
proof -
  have depth: "MAX_JSON_DEPTH = Suc 15" by (simp add: MAX_JSON_DEPTH_def)
  show ?thesis unfolding depth json_fits.simps ..
qed

lemma text_valid_utf8: "text_valid v \<Longrightarrow> utf8_valid v"
  by (simp add: text_valid_def)

lemmas provider_schema_utf8 [simp] = provider_schema_valid [THEN text_valid_utf8]

lemma outcome_parse_written [simp]: "outcome_parse (ascii (outcome_as_str v)) = Inr v"
  by (cases v) (simp_all add: outcome_parse_def outcome_as_str_def)

interpretation observationj: json_projection observation_valid observation_members observation_to_json
  observation_from_json "\<lambda>v. v"
proof
  show "observation_to_json v = json_render (Object (observation_members v))" for v
    by (simp add: observation_to_json_def observation_members_def member_defs json_members_key json_digest_text_def
        del: json_members.simps(2))
  show "json_fits MAX_JSON_DEPTH (Object (observation_members v))" if "observation_valid v" for v
    using that by (simp add: json_fits_top observation_members_def member_defs observation_valid_def)
  show "observation_from_json s = Inr v"
    if "observation_valid v" "parse_document s = Inr (Object (observation_members v))" for v s
    using that by (simp add: observation_from_json_def observation_members_def member_defs json_readers observation_valid_def)
qed (simp add: observation_from_json_def)

interpretation failurej: json_projection failure_valid failure_members failure_to_json failure_from_json "\<lambda>v. v"
proof
  show "failure_to_json v = json_render (Object (failure_members v))" for v
    by (simp add: failure_to_json_def failure_members_def member_defs json_members_key json_digest_text_def
        del: json_members.simps(2))
  show "json_fits MAX_JSON_DEPTH (Object (failure_members v))" if "failure_valid v" for v
    using that by (simp add: json_fits_top failure_members_def member_defs failure_valid_def text_valid_utf8)
  show "failure_from_json s = Inr v" if "failure_valid v" "parse_document s = Inr (Object (failure_members v))" for v s
    using that by (simp add: failure_from_json_def failure_members_def member_defs json_readers failure_valid_def
        failure_new_def bounded_field_def linorder_not_less)
qed (simp add: failure_from_json_def)

interpretation reconciliationj: json_projection "\<lambda>v. reconciliation_valid v \<and> 0 \<le> er_reconciled_at v"
  reconciliation_members reconciliation_to_json reconciliation_from_json "\<lambda>v. v"
proof
  show "reconciliation_to_json v = json_render (Object (reconciliation_members v))" for v
    by (cases "er_detail v"; cases "er_evidence_digest v") (simp_all add: reconciliation_to_json_def
        reconciliation_members_def member_defs json_members_key json_digest_text_def del: json_members.simps(2))
  show "json_fits MAX_JSON_DEPTH (Object (reconciliation_members v))"
    if "reconciliation_valid v \<and> 0 \<le> er_reconciled_at v" for v
    using that by (cases "er_detail v"; cases "er_evidence_digest v")
      (simp_all add: json_fits_top reconciliation_members_def member_defs reconciliation_valid_def text_valid_utf8)
  show "reconciliation_from_json s = Inr v" if "reconciliation_valid v \<and> 0 \<le> er_reconciled_at v"
    "parse_document s = Inr (Object (reconciliation_members v))" for v s
    using that by (cases "er_detail v"; cases "er_evidence_digest v") (simp_all add: reconciliation_from_json_def
        reconciliation_members_def member_defs json_readers reconciliation_valid_def linorder_not_less
        reconciliation_new_Inr rust_simps)
qed (simp add: reconciliation_from_json_def)

section \<open>Properties\<close>

text \<open>C36: Provider receipts and reconciliation records are decoded from exactly their own bytes: each of
  the three decoders accepts a byte string as a record if and only if the record's fields are well formed,
  and for a reconciliation its outcome rules hold, and the string is what the encoder writes for it.\<close>

theorem provider_records_exact:
  "(observation_from_bytes bs = Inr ob \<longleftrightarrow> observation_valid ob \<and> bs = observation_bytes ob)
   \<and> (failure_from_bytes bs = Inr fl \<longleftrightarrow> failure_valid fl \<and> bs = failure_bytes fl)
   \<and> (reconciliation_from_bytes bs = Inr rc \<longleftrightarrow> reconciliation_valid rc \<and> bs = reconciliation_bytes rc)"
  unfolding observation_from_bytes_def observation_bytes_def failure_from_bytes_def failure_bytes_def
    reconciliation_from_bytes_def reconciliation_bytes_def
  using from_schema_bytes_exact [OF observationc.canonical_codec_axioms provider_schema_valid(1)]
    from_schema_bytes_exact [OF failurec.canonical_codec_axioms provider_schema_valid(2)]
    from_schema_bytes_exact [OF reconciliationc.canonical_codec_axioms provider_schema_valid(3)] by blast

text \<open>C37: No reconciliation claims more than its evidence. However a record is obtained, from the
  constructor, from bytes or from JSON, a verified or delivered outcome carries an evidence digest, a failed
  or indeterminate one a non-empty reason of at most 512 bytes, and an indeterminate one no evidence; the
  constructor refuses exactly the records that break these rules.\<close>

theorem reconciliation_claims_bounded:
  "(reconciliation_from_bytes bs = Inr v \<or> reconciliation_from_json s = Inr v
      \<or> (\<exists>op key prepared outcome evidence at detail.
           reconciliation_new op key prepared outcome evidence at detail = Inr v)
    \<longrightarrow> outcome_rules (er_outcome v) (er_evidence_digest v) (er_detail v))
   \<and> ((\<exists>err. reconciliation_new op key prepared outcome evidence at detail = Inl err)
      \<longleftrightarrow> \<not> outcome_rules outcome evidence detail)"
proof
  have "outcome_rules (er_outcome v) (er_evidence_digest v) (er_detail v)"
    if "reconciliation_new op key prepared outcome evidence at detail = Inr v" for op key prepared outcome evidence at detail
    using that by (auto simp: reconciliation_new_Inr)
  moreover have "\<exists>op key prepared outcome evidence at detail.
      reconciliation_new op key prepared outcome evidence at detail = Inr v" if "reconciliation_from_json s = Inr v"
    using that unfolding reconciliation_from_json_def try_then_Inr_iff map_err_Inr_iff by blast
  moreover have "outcome_rules (er_outcome v) (er_evidence_digest v) (er_detail v)" if "reconciliation_from_bytes bs = Inr v"
    using that from_schema_bytes_exact [OF reconciliationc.canonical_codec_axioms provider_schema_valid(3), of bs v]
    by (simp add: reconciliation_from_bytes_def reconciliation_valid_def)
  ultimately show "reconciliation_from_bytes bs = Inr v \<or> reconciliation_from_json s = Inr v
      \<or> (\<exists>op key prepared outcome evidence at detail. reconciliation_new op key prepared outcome evidence at detail = Inr v)
    \<longrightarrow> outcome_rules (er_outcome v) (er_evidence_digest v) (er_detail v)"
    by blast
  show "(\<exists>err. reconciliation_new op key prepared outcome evidence at detail = Inl err)
      \<longleftrightarrow> \<not> outcome_rules outcome evidence detail"
    using check_outcome_Inr [of outcome evidence detail "()"]
    by (cases "check_outcome outcome evidence detail") (auto simp: reconciliation_new_def)
qed

theorem reconciliation_claims_bounded_witness:
  "outcome_rules Verified (Some sample_digest) None
   \<and> reconciliation_new [] [] sample_digest Verified (Some sample_digest) 5 None
     = Inr \<lparr>er_operation_id = [], er_idempotency_key = [], er_prepared_effect_digest = sample_digest, er_outcome = Verified,
           er_evidence_digest = Some sample_digest, er_reconciled_at = 5, er_detail = None\<rparr>"
proof -
  let ?v = "\<lparr>er_operation_id = [], er_idempotency_key = [], er_prepared_effect_digest = sample_digest, er_outcome = Verified,
    er_evidence_digest = Some sample_digest, er_reconciled_at = 5, er_detail = None\<rparr>"
  have v: "reconciliation_new [] [] sample_digest Verified (Some sample_digest) 5 None = Inr ?v"
    by (simp add: reconciliation_new_def check_outcome_def)
  then have "outcome_rules (er_outcome ?v) (er_evidence_digest ?v) (er_detail ?v)"
    using reconciliation_claims_bounded [of "[]" ?v "[]"] by blast
  then show ?thesis using v by simp
qed

text \<open>The JSON projections of provider receipts and reconciliation records read back what they
  write, a reconciliation with a non-negative time.\<close>

theorem provider_json_roundtrip:
  "(observation_valid ob \<longrightarrow> observation_from_json (observation_to_json ob) = Inr ob)
   \<and> (failure_valid fl \<longrightarrow> failure_from_json (failure_to_json fl) = Inr fl)
   \<and> (reconciliation_valid v \<and> 0 \<le> er_reconciled_at v \<longrightarrow> reconciliation_from_json (reconciliation_to_json v) = Inr v)"
  using observationj.json_roundtrip failurej.json_roundtrip reconciliationj.json_roundtrip by blast

theorem provider_json_roundtrip_witness:
  "observation_from_json (observation_to_json (observation_new sample_digest sample_digest sample_digest (ascii ''idem-1'')))
   = Inr (observation_new sample_digest sample_digest sample_digest (ascii ''idem-1''))"
proof -
  have "observation_valid (observation_new sample_digest sample_digest sample_digest (ascii ''idem-1''))"
    using sample_intent_valid by (simp add: observation_valid_def observation_new_def intent_valid_def sample_intent_def)
  then show ?thesis using provider_json_roundtrip by blast
qed

text \<open>The provider's lookup authenticates a receipt by its nonce and message, and a failure also by
  its error code: with the issued receipts in a set, verification succeeds exactly for those. The
  prepared-effect digest and the idempotency key are not looked up, so a receipt whose binding to an
  operation was replaced verifies like the one the provider issued.\<close>

lemma lookup_ignores_binding:
  "(observation_verify_lookup (set_contains_observation issued) ob = Inr ()
      \<longleftrightarrow> (po_provider_nonce ob, po_message_digest ob) \<in> set issued)
   \<and> (failure_verify_lookup (set_contains_failure failed) fl = Inr ()
      \<longleftrightarrow> (pf_provider_nonce fl, pf_message_digest fl, pf_error_code fl) \<in> set failed)
   \<and> observation_verify_lookup lk (ob\<lparr>po_prepared_effect_digest := d, po_idempotency_key := k\<rparr>)
      = observation_verify_lookup lk ob
   \<and> failure_verify_lookup fk (fl\<lparr>pf_prepared_effect_digest := d, pf_idempotency_key := k\<rparr>)
      = failure_verify_lookup fk fl"
  by (simp add: observation_verify_lookup_def failure_verify_lookup_def set_contains_observation_def set_contains_failure_def
      split: receipt_lookup_status.splits)

end
