(* ===== verification/Time_Interval.thy ===== *)
theory Time_Interval
  imports Canonical
begin

text \<open>
  Capture intervals, \<open>crates/fss-core/src/time.rs\<close> with \<open>ClockBasis\<close> of \<open>evidence.rs\<close>: closed
  intervals of nanoseconds that bound when something happened, their set operations, their temporal
  order, their widening, and the same operations on a declared clock. A timestamp is an integer in the
  range of \<open>i128\<close>; a \<open>u128\<close> distance is a natural number. An \<open>assert!\<close> of the source that fails is the
  value \<open>None\<close>.
\<close>

section \<open>Timestamps\<close>

type_synonym u128_ns = nat

definition i128_max :: i128 where "i128_max = 2 ^ 127 - 1"

definition i128_checked_add :: "i128 \<Rightarrow> i128 \<Rightarrow> i128 option" where
  "i128_checked_add a b = (if i128_valid (a + b) then Some (a + b) else None)"

definition i128_checked_sub :: "i128 \<Rightarrow> i128 \<Rightarrow> i128 option" where
  "i128_checked_sub a b = (if i128_valid (a - b) then Some (a - b) else None)"

definition abs_diff :: "i128 \<Rightarrow> i128 \<Rightarrow> u128_ns" where
  "abs_diff a b = nat \<bar>a - b\<bar>"

definition rust_assert :: "bool \<Rightarrow> 'a \<Rightarrow> 'a option" where
  "rust_assert b x = (if b then Some x else None)"

datatype clock_basis = UtcDisciplined | DeviceMonotonic | HostMonotonic | Estimated

datatype time_interval_error =
    InvertedInterval i128 i128
  | ArithmeticOverflow
  | ClockBasisMismatch clock_basis clock_basis
  | DisjointIntervals u128_ns
  | NonMonotoneUncertaintyNarrowing
  | UnknownClockBasis u8

definition contract_of_interval_error :: "time_interval_error \<Rightarrow> contract_error" where
  "contract_of_interval_error err =
     (case err of
        InvertedInterval _ _ \<Rightarrow> InvertedTimeInterval
      | ArithmeticOverflow \<Rightarrow> contract_error.ArithmeticOverflow
      | NonMonotoneUncertaintyNarrowing \<Rightarrow> contract_error.NonMonotoneUncertaintyNarrowing
      | ClockBasisMismatch _ _ \<Rightarrow> GenerationConflict
      | DisjointIntervals _ \<Rightarrow> CoverageUncertified
      | UnknownClockBasis t \<Rightarrow> contract_error.UnknownClockBasis t)"

definition checked_add_ns :: "i128 \<Rightarrow> i128 \<Rightarrow> contract_error + i128" where
  "checked_add_ns t delta = ok_or (i128_checked_add t delta) contract_error.ArithmeticOverflow"

definition checked_sub_ns :: "i128 \<Rightarrow> i128 \<Rightarrow> contract_error + i128" where
  "checked_sub_ns t delta = ok_or (i128_checked_sub t delta) contract_error.ArithmeticOverflow"

definition timestamp_checked_add :: "i128 \<Rightarrow> i128 \<Rightarrow> time_interval_error + i128" where
  "timestamp_checked_add t delta = ok_or (i128_checked_add t delta) ArithmeticOverflow"

definition timestamp_checked_sub :: "i128 \<Rightarrow> i128 \<Rightarrow> time_interval_error + i128" where
  "timestamp_checked_sub t delta = ok_or (i128_checked_sub t delta) ArithmeticOverflow"

definition checked_duration_since :: "i128 \<Rightarrow> i128 \<Rightarrow> contract_error + u128_ns" where
  "checked_duration_since t earlier = (if earlier > t then Inl InvertedTimeInterval else Inr (abs_diff t earlier))"

section \<open>Intervals\<close>

record capture_interval =
  ci_earliest :: i128
  ci_latest :: i128

definition mk_interval :: "i128 \<Rightarrow> i128 \<Rightarrow> capture_interval" where
  "mk_interval e l = \<lparr>ci_earliest = e, ci_latest = l\<rparr>"

datatype interval_union =
    Contiguous capture_interval
  | Disjoint capture_interval capture_interval u128_ns

datatype interval_containment =
    Contains | Abutting | Disjoint u128_ns | Indeterminate capture_interval

datatype temporal_precedence =
    Before u128_ns | After u128_ns | BeforeOrAt i128 | AfterOrAt i128 | Indeterminate capture_interval

definition interval_new :: "i128 \<Rightarrow> i128 \<Rightarrow> contract_error + capture_interval" where
  "interval_new earliest latest = (if earliest > latest then Inl InvertedTimeInterval else Inr (mk_interval earliest latest))"

definition interval_new_checked :: "i128 \<Rightarrow> i128 \<Rightarrow> time_interval_error + capture_interval" where
  "interval_new_checked earliest latest =
     (if earliest > latest then Inl (InvertedInterval earliest latest) else Inr (mk_interval earliest latest))"

definition interval_point :: "i128 \<Rightarrow> capture_interval" where
  "interval_point t = mk_interval t t"

definition is_point :: "capture_interval \<Rightarrow> bool" where
  "is_point a \<longleftrightarrow> ci_earliest a = ci_latest a"

definition uncertainty_ns :: "capture_interval \<Rightarrow> u128_ns" where
  "uncertainty_ns a = abs_diff (ci_latest a) (ci_earliest a)"

definition overlaps :: "capture_interval \<Rightarrow> capture_interval \<Rightarrow> bool" where
  "overlaps a b \<longleftrightarrow> ci_earliest a \<le> ci_latest b \<and> ci_earliest b \<le> ci_latest a"

definition abuts :: "capture_interval \<Rightarrow> capture_interval \<Rightarrow> bool" where
  "abuts a b =
     (if overlaps a b then False
      else if ci_latest a < ci_earliest b then i128_checked_add (ci_latest a) 1 = Some (ci_earliest b)
      else i128_checked_add (ci_latest b) 1 = Some (ci_earliest a))"

definition contains_interval :: "capture_interval \<Rightarrow> capture_interval \<Rightarrow> bool" where
  "contains_interval a b \<longleftrightarrow> ci_earliest a \<le> ci_earliest b \<and> ci_latest a \<ge> ci_latest b"

definition contains_timestamp :: "capture_interval \<Rightarrow> i128 \<Rightarrow> bool" where
  "contains_timestamp a t \<longleftrightarrow> ci_earliest a \<le> t \<and> t \<le> ci_latest a"

definition intersection :: "capture_interval \<Rightarrow> capture_interval \<Rightarrow> capture_interval option" where
  "intersection a b =
     (let earliest = max (ci_earliest a) (ci_earliest b);
          latest = min (ci_latest a) (ci_latest b)
      in if earliest \<le> latest then Some (mk_interval earliest latest) else None)"

definition hull :: "capture_interval \<Rightarrow> capture_interval \<Rightarrow> capture_interval option" where
  "hull a b =
     (let res = mk_interval (min (ci_earliest a) (ci_earliest b)) (max (ci_latest a) (ci_latest b))
      in rust_assert (uncertainty_ns res \<ge> uncertainty_ns a \<and> uncertainty_ns res \<ge> uncertainty_ns b) res)"

definition checked_shift :: "capture_interval \<Rightarrow> i128 \<Rightarrow> (contract_error + capture_interval) option" where
  "checked_shift a delta =
     (case try_then (checked_add_ns (ci_earliest a) delta) (\<lambda>earliest.
           try_then (checked_add_ns (ci_latest a) delta) (\<lambda>latest. interval_new earliest latest)) of
        Inl err \<Rightarrow> Some (Inl err)
      | Inr res \<Rightarrow> rust_assert (uncertainty_ns res = uncertainty_ns a) (Inr res))"

definition checked_translate :: "capture_interval \<Rightarrow> i128 \<Rightarrow> (contract_error + capture_interval) option" where
  "checked_translate a delta = checked_shift a delta"

definition interval_union_of :: "capture_interval \<Rightarrow> capture_interval \<Rightarrow> interval_union option" where
  "interval_union_of a b =
     (if overlaps a b \<or> abuts a b then
        let res = mk_interval (min (ci_earliest a) (ci_earliest b)) (max (ci_latest a) (ci_latest b))
        in rust_assert (uncertainty_ns res \<ge> uncertainty_ns a \<and> uncertainty_ns res \<ge> uncertainty_ns b) (Contiguous res)
      else if ci_latest a < ci_earliest b then
        Some (interval_union.Disjoint a b (abs_diff (ci_earliest b) (ci_latest a) - 1))
      else
        Some (interval_union.Disjoint b a (abs_diff (ci_earliest a) (ci_latest b) - 1)))"

definition is_contiguous :: "interval_union \<Rightarrow> bool" where
  "is_contiguous u = (case u of Contiguous _ \<Rightarrow> True | interval_union.Disjoint _ _ _ \<Rightarrow> False)"

definition into_contiguous :: "interval_union \<Rightarrow> time_interval_error + capture_interval" where
  "into_contiguous u =
     (case u of Contiguous i \<Rightarrow> Inr i | interval_union.Disjoint _ _ gap \<Rightarrow> Inl (DisjointIntervals gap))"

definition union_gap_ns :: "interval_union \<Rightarrow> u128_ns" where
  "union_gap_ns u = (case u of Contiguous _ \<Rightarrow> 0 | interval_union.Disjoint _ _ gap \<Rightarrow> gap)"

definition checked_contiguous_union ::
  "capture_interval \<Rightarrow> capture_interval \<Rightarrow> (time_interval_error + capture_interval) option" where
  "checked_contiguous_union a b = map_option into_contiguous (interval_union_of a b)"

definition classify_containment :: "capture_interval \<Rightarrow> capture_interval \<Rightarrow> interval_containment" where
  "classify_containment a b =
     (if ci_earliest a \<le> ci_earliest b \<and> ci_latest b \<le> ci_latest a then Contains
      else if abuts a b then Abutting
      else if \<not> overlaps a b then
        let diff = (if ci_latest b < ci_earliest a then abs_diff (ci_earliest a) (ci_latest b)
                    else abs_diff (ci_earliest b) (ci_latest a))
        in interval_containment.Disjoint (diff - 1)
      else
        interval_containment.Indeterminate
          (mk_interval (max (ci_earliest a) (ci_earliest b)) (min (ci_latest a) (ci_latest b))))"

definition temporal_precedence_of :: "capture_interval \<Rightarrow> capture_interval \<Rightarrow> temporal_precedence" where
  "temporal_precedence_of a b =
     (if ci_latest a < ci_earliest b then Before (abs_diff (ci_earliest b) (ci_latest a) - 1)
      else if ci_earliest a > ci_latest b then After (abs_diff (ci_earliest a) (ci_latest b) - 1)
      else if ci_latest a = ci_earliest b then BeforeOrAt (ci_latest a)
      else if ci_earliest a = ci_latest b then AfterOrAt (ci_earliest a)
      else
        temporal_precedence.Indeterminate
          (mk_interval (max (ci_earliest a) (ci_earliest b)) (min (ci_latest a) (ci_latest b))))"

definition is_strictly_before :: "capture_interval \<Rightarrow> capture_interval \<Rightarrow> bool" where
  "is_strictly_before a b \<longleftrightarrow> ci_latest a < ci_earliest b"

definition is_strictly_after :: "capture_interval \<Rightarrow> capture_interval \<Rightarrow> bool" where
  "is_strictly_after a b \<longleftrightarrow> ci_earliest a > ci_latest b"

definition is_weakly_before :: "temporal_precedence \<Rightarrow> bool" where
  "is_weakly_before p = (case p of Before _ \<Rightarrow> True | BeforeOrAt _ \<Rightarrow> True | _ \<Rightarrow> False)"

definition is_weakly_after :: "temporal_precedence \<Rightarrow> bool" where
  "is_weakly_after p = (case p of After _ \<Rightarrow> True | AfterOrAt _ \<Rightarrow> True | _ \<Rightarrow> False)"

definition widen_asymmetric ::
  "capture_interval \<Rightarrow> u128_ns \<Rightarrow> u128_ns \<Rightarrow> time_interval_error + capture_interval" where
  "widen_asymmetric a earlier_ns later_ns =
     (if int earlier_ns > i128_max \<or> int later_ns > i128_max then Inl ArithmeticOverflow
      else
        try_then (ok_or (i128_checked_sub (ci_earliest a) (int earlier_ns)) ArithmeticOverflow) (\<lambda>new_earliest.
        try_then (ok_or (i128_checked_add (ci_latest a) (int later_ns)) ArithmeticOverflow) (\<lambda>new_latest.
        let widened = mk_interval new_earliest new_latest in
        if uncertainty_ns widened < uncertainty_ns a then Inl NonMonotoneUncertaintyNarrowing else Inr widened)))"

definition widen_skew :: "capture_interval \<Rightarrow> u128_ns \<Rightarrow> time_interval_error + capture_interval" where
  "widen_skew a max_skew_ns =
     (if int max_skew_ns > i128_max then Inl ArithmeticOverflow
      else
        try_then (ok_or (i128_checked_sub (ci_earliest a) (int max_skew_ns)) ArithmeticOverflow) (\<lambda>new_earliest.
        try_then (ok_or (i128_checked_add (ci_latest a) (int max_skew_ns)) ArithmeticOverflow) (\<lambda>new_latest.
        let widened = mk_interval new_earliest new_latest in
        if uncertainty_ns widened < uncertainty_ns a then Inl NonMonotoneUncertaintyNarrowing else Inr widened)))"

definition apply_monotone_widening ::
  "capture_interval \<Rightarrow> u128_ns \<Rightarrow> u128_ns \<Rightarrow> time_interval_error + capture_interval" where
  "apply_monotone_widening a earliest_widening_ns latest_widening_ns =
     widen_asymmetric a earliest_widening_ns latest_widening_ns"

section \<open>Intervals on a clock\<close>

definition union_with_basis ::
  "capture_interval \<Rightarrow> clock_basis \<Rightarrow> capture_interval \<Rightarrow> clock_basis \<Rightarrow> (time_interval_error + interval_union) option" where
  "union_with_basis a self_basis b other_basis =
     (if self_basis \<noteq> other_basis then Some (Inl (ClockBasisMismatch self_basis other_basis))
      else map_option Inr (interval_union_of a b))"

definition intersection_with_basis ::
  "capture_interval \<Rightarrow> clock_basis \<Rightarrow> capture_interval \<Rightarrow> clock_basis \<Rightarrow> time_interval_error + capture_interval option" where
  "intersection_with_basis a self_basis b other_basis =
     (if self_basis \<noteq> other_basis then Inl (ClockBasisMismatch self_basis other_basis) else Inr (intersection a b))"

definition containment_with_basis ::
  "capture_interval \<Rightarrow> clock_basis \<Rightarrow> capture_interval \<Rightarrow> clock_basis \<Rightarrow> time_interval_error + interval_containment" where
  "containment_with_basis a self_basis b other_basis =
     (if self_basis \<noteq> other_basis then Inl (ClockBasisMismatch self_basis other_basis) else Inr (classify_containment a b))"

definition temporal_precedence_with_basis ::
  "capture_interval \<Rightarrow> clock_basis \<Rightarrow> capture_interval \<Rightarrow> clock_basis \<Rightarrow> time_interval_error + temporal_precedence" where
  "temporal_precedence_with_basis a self_basis b other_basis =
     (if self_basis \<noteq> other_basis then Inl (ClockBasisMismatch self_basis other_basis)
      else Inr (temporal_precedence_of a b))"

record capture_interval_with_basis =
  cb_interval :: capture_interval
  cb_basis :: clock_basis

definition check_clock_basis ::
  "capture_interval_with_basis \<Rightarrow> capture_interval_with_basis \<Rightarrow> time_interval_error + unit" where
  "check_clock_basis a b = refuse_if (cb_basis a \<noteq> cb_basis b) (ClockBasisMismatch (cb_basis a) (cb_basis b))"

definition basis_union ::
  "capture_interval_with_basis \<Rightarrow> capture_interval_with_basis \<Rightarrow> (time_interval_error + interval_union) option" where
  "basis_union a b =
     (case check_clock_basis a b of
        Inl err \<Rightarrow> Some (Inl err)
      | Inr _ \<Rightarrow> map_option Inr (interval_union_of (cb_interval a) (cb_interval b)))"

definition basis_intersection ::
  "capture_interval_with_basis \<Rightarrow> capture_interval_with_basis \<Rightarrow> time_interval_error + capture_interval option" where
  "basis_intersection a b = try_then (check_clock_basis a b) (\<lambda>_. Inr (intersection (cb_interval a) (cb_interval b)))"

definition basis_containment ::
  "capture_interval_with_basis \<Rightarrow> capture_interval_with_basis \<Rightarrow> time_interval_error + interval_containment" where
  "basis_containment a b = try_then (check_clock_basis a b) (\<lambda>_. Inr (classify_containment (cb_interval a) (cb_interval b)))"

definition basis_temporal_precedence ::
  "capture_interval_with_basis \<Rightarrow> capture_interval_with_basis \<Rightarrow> time_interval_error + temporal_precedence" where
  "basis_temporal_precedence a b =
     try_then (check_clock_basis a b) (\<lambda>_. Inr (temporal_precedence_of (cb_interval a) (cb_interval b)))"

definition basis_widen_skew ::
  "capture_interval_with_basis \<Rightarrow> u128_ns \<Rightarrow> time_interval_error + capture_interval_with_basis" where
  "basis_widen_skew a max_skew_ns =
     try_then (widen_skew (cb_interval a) max_skew_ns) (\<lambda>i. Inr \<lparr>cb_interval = i, cb_basis = cb_basis a\<rparr>)"

definition basis_widen_asymmetric ::
  "capture_interval_with_basis \<Rightarrow> u128_ns \<Rightarrow> u128_ns \<Rightarrow> time_interval_error + capture_interval_with_basis" where
  "basis_widen_asymmetric a earlier_ns later_ns =
     try_then (widen_asymmetric (cb_interval a) earlier_ns later_ns) (\<lambda>i. Inr \<lparr>cb_interval = i, cb_basis = cb_basis a\<rparr>)"

section \<open>Codecs\<close>

definition clock_basis_tag :: "clock_basis \<Rightarrow> u8" where
  "clock_basis_tag b = (case b of UtcDisciplined \<Rightarrow> 1 | DeviceMonotonic \<Rightarrow> 2 | HostMonotonic \<Rightarrow> 3 | Estimated \<Rightarrow> 4)"

definition enc_clock_basis :: "clock_basis \<Rightarrow> canonical_encoder \<Rightarrow> canonical_encoder" where
  "enc_clock_basis b e = enc_u8 (clock_basis_tag b) e"

definition dec_clock_basis :: "canonical_decoder \<Rightarrow> (contract_error + clock_basis) \<times> canonical_decoder" where
  "dec_clock_basis d = dec_then (dec_u8 d) (\<lambda>t d.
     (if t = 1 then Inr UtcDisciplined
      else if t = 2 then Inr DeviceMonotonic
      else if t = 3 then Inr HostMonotonic
      else if t = 4 then Inr Estimated
      else Inl (contract_error.UnknownClockBasis t), d))"

definition enc_interval :: "capture_interval \<Rightarrow> canonical_encoder \<Rightarrow> canonical_encoder" where
  "enc_interval a e = enc_i128 (ci_latest a) (enc_i128 (ci_earliest a) e)"

definition dec_interval :: "canonical_decoder \<Rightarrow> (contract_error + capture_interval) \<times> canonical_decoder" where
  "dec_interval d =
     dec_then (dec_i128 d) (\<lambda>earliest d. dec_then (dec_i128 d) (\<lambda>latest d. (interval_new earliest latest, d)))"

definition enc_basis_interval :: "capture_interval_with_basis \<Rightarrow> canonical_encoder \<Rightarrow> canonical_encoder" where
  "enc_basis_interval a e = enc_clock_basis (cb_basis a) (enc_interval (cb_interval a) e)"

definition dec_basis_interval ::
  "canonical_decoder \<Rightarrow> (contract_error + capture_interval_with_basis) \<times> canonical_decoder" where
  "dec_basis_interval d =
     dec_then (dec_interval d) (\<lambda>i d. dec_then (dec_clock_basis d) (\<lambda>b d. (Inr \<lparr>cb_interval = i, cb_basis = b\<rparr>, d)))"

section \<open>Intervals as sets of instants\<close>

definition instants :: "capture_interval \<Rightarrow> int set" where
  "instants a = {ci_earliest a..ci_latest a}"

definition interval_ok :: "capture_interval \<Rightarrow> bool" where
  "interval_ok a \<longleftrightarrow> ci_earliest a \<le> ci_latest a \<and> i128_valid (ci_earliest a) \<and> i128_valid (ci_latest a)"

lemma interval_ok_order: "interval_ok a \<Longrightarrow> ci_earliest a \<le> ci_latest a"
  by (simp add: interval_ok_def)

lemma mk_interval_simps [simp]:
  "ci_earliest (mk_interval e l) = e" "ci_latest (mk_interval e l) = l"
  "instants (mk_interval e l) = {e..l}"
  by (simp_all add: mk_interval_def instants_def)

lemma interval_eq: "mk_interval e l = a \<longleftrightarrow> e = ci_earliest a \<and> l = ci_latest a"
  by (cases a) (auto simp: mk_interval_def)

lemma instants_subset: "interval_ok a \<Longrightarrow> instants a \<subseteq> instants b \<longleftrightarrow> ci_earliest b \<le> ci_earliest a \<and> ci_latest a \<le> ci_latest b"
  by (auto simp: instants_def interval_ok_def)

lemma instants_meet: "instants a \<inter> instants b = {max (ci_earliest a) (ci_earliest b)..min (ci_latest a) (ci_latest b)}"
  by (auto simp: instants_def)

lemma overlaps_iff: "interval_ok a \<Longrightarrow> interval_ok b \<Longrightarrow> overlaps a b \<longleftrightarrow> instants a \<inter> instants b \<noteq> {}"
  by (auto simp: instants_meet overlaps_def interval_ok_def)

lemma abuts_iff:
  assumes "interval_ok a" and "interval_ok b"
  shows "abuts a b \<longleftrightarrow> ci_latest a + 1 = ci_earliest b \<or> ci_latest b + 1 = ci_earliest a"
  using assms by (auto simp: abuts_def overlaps_def i128_checked_add_def interval_ok_def)

lemma intersection_exact:
  assumes "interval_ok a" and "interval_ok b"
  shows "case intersection a b of None \<Rightarrow> instants a \<inter> instants b = {}
    | Some k \<Rightarrow> interval_ok k \<and> instants k = instants a \<inter> instants b"
  using assms by (auto simp: intersection_def instants_meet Let_def interval_ok_def max_def min_def)

lemma hull_exact:
  assumes "interval_ok a" and "interval_ok b"
  shows "\<exists>k. hull a b = Some k \<and> interval_ok k \<and> instants a \<union> instants b \<subseteq> instants k
    \<and> (\<forall>c. instants a \<union> instants b \<subseteq> instants c \<longrightarrow> instants k \<subseteq> instants c)"
proof -
  let ?k = "mk_interval (min (ci_earliest a) (ci_earliest b)) (max (ci_latest a) (ci_latest b))"
  have "interval_ok ?k" using assms by (auto simp: interval_ok_def min_def max_def)
  moreover have "hull a b = Some ?k"
    using assms by (auto simp: hull_def rust_assert_def uncertainty_ns_def abs_diff_def interval_ok_def Let_def)
  moreover have "instants a \<union> instants b \<subseteq> instants ?k" by (auto simp: instants_def)
  moreover have "instants ?k \<subseteq> instants c" if "instants a \<union> instants b \<subseteq> instants c" for c
  proof -
    have "{ci_earliest a, ci_earliest b, ci_latest a, ci_latest b} \<subseteq> instants c"
      using that assms by (auto simp: instants_def interval_ok_def)
    then show ?thesis by (auto simp: instants_def min_def max_def split: if_splits)
  qed
  ultimately show ?thesis by blast
qed

text \<open>A union is one interval, or two with a gap between them that no interval can bridge exactly.\<close>

definition union_exact :: "capture_interval \<Rightarrow> capture_interval \<Rightarrow> interval_union \<Rightarrow> bool" where
  "union_exact a b u \<longleftrightarrow> (case u of
      Contiguous k \<Rightarrow> interval_ok k \<and> instants k = instants a \<union> instants b
    | interval_union.Disjoint e l gap \<Rightarrow> (e = a \<and> l = b \<or> e = b \<and> l = a)
        \<and> ci_latest e < ci_earliest l \<and> 0 < gap \<and> gap = card {ci_latest e<..<ci_earliest l}
        \<and> (\<forall>c. instants c \<noteq> instants a \<union> instants b))"

lemma gap_unbridged:
  assumes "interval_ok a" and "interval_ok b" and "ci_latest a + 1 < ci_earliest b"
  shows "instants c \<noteq> instants a \<union> instants b"
proof
  assume c: "instants c = instants a \<union> instants b"
  have "ci_latest a \<in> instants c" "ci_earliest b \<in> instants c" unfolding c using assms by (auto simp: instants_def interval_ok_def)
  then have "ci_latest a + 1 \<in> instants c" using assms(3) by (auto simp: instants_def)
  then show False unfolding c using assms by (auto simp: instants_def interval_ok_def)
qed

lemma union_of_exact:
  assumes "interval_ok a" and "interval_ok b"
  shows "\<exists>u. interval_union_of a b = Some u \<and> union_exact a b u"
proof (cases "overlaps a b \<or> abuts a b")
  case True
  let ?k = "mk_interval (min (ci_earliest a) (ci_earliest b)) (max (ci_latest a) (ci_latest b))"
  have "interval_union_of a b = Some (Contiguous ?k)"
    using True assms by (auto simp: interval_union_of_def rust_assert_def uncertainty_ns_def abs_diff_def interval_ok_def Let_def)
  moreover have "interval_ok ?k" using assms by (auto simp: interval_ok_def min_def max_def)
  moreover have "instants ?k = instants a \<union> instants b"
    using True assms by (auto simp: instants_def overlaps_def abuts_iff interval_ok_def)
  ultimately show ?thesis by (simp add: union_exact_def)
next
  case False
  then consider "ci_latest a + 1 < ci_earliest b" | "ci_latest b + 1 < ci_earliest a" "\<not> ci_latest a < ci_earliest b"
    using assms by (fastforce simp: overlaps_def abuts_iff interval_ok_def)
  then show ?thesis
  proof cases
    case 1
    then show ?thesis using False gap_unbridged [OF assms 1]
      by (auto simp: interval_union_of_def union_exact_def abs_diff_def)
  next
    case 2
    then show ?thesis using False gap_unbridged [OF assms(2,1) 2(1)]
      by (auto simp: interval_union_of_def union_exact_def abs_diff_def Un_commute)
  qed
qed

text \<open>What each answer about containment and about order says of the instants.\<close>

definition containment_exact :: "capture_interval \<Rightarrow> capture_interval \<Rightarrow> interval_containment \<Rightarrow> bool" where
  "containment_exact a b r \<longleftrightarrow> (case r of
      Contains \<Rightarrow> instants b \<subseteq> instants a
    | Abutting \<Rightarrow> instants a \<inter> instants b = {} \<and> (\<exists>c. instants c = instants a \<union> instants b)
    | interval_containment.Disjoint gap \<Rightarrow> instants a \<inter> instants b = {} \<and> 0 < gap
        \<and> (\<forall>x\<in>instants a. \<forall>y\<in>instants b. gap < nat \<bar>x - y\<bar>) \<and> (\<exists>x\<in>instants a. \<exists>y\<in>instants b. nat \<bar>x - y\<bar> = gap + 1)
    | interval_containment.Indeterminate k \<Rightarrow> interval_ok k \<and> instants k = instants a \<inter> instants b
        \<and> instants k \<noteq> {} \<and> \<not> instants b \<subseteq> instants a)"

lemma classify_containment_exact:
  assumes "interval_ok a" and "interval_ok b"
  shows "containment_exact a b (classify_containment a b)"
proof -
  have order: "ci_earliest a \<le> ci_latest a" "ci_earliest b \<le> ci_latest b" using assms interval_ok_order by auto
  consider "instants b \<subseteq> instants a" | "\<not> instants b \<subseteq> instants a" "abuts a b"
    | "\<not> instants b \<subseteq> instants a" "\<not> abuts a b" "\<not> overlaps a b" | "\<not> instants b \<subseteq> instants a" "overlaps a b"
    by blast
  then show ?thesis
  proof cases
    case 1
    then show ?thesis using assms by (simp add: instants_subset classify_containment_def containment_exact_def)
  next
    case 2
    have "instants (mk_interval (min (ci_earliest a) (ci_earliest b)) (max (ci_latest a) (ci_latest b)))
        = instants a \<union> instants b"
      using 2(2) assms order by (auto simp: instants_def abuts_iff)
    then have "\<exists>c. instants c = instants a \<union> instants b" by blast
    moreover have "\<not> overlaps a b" using 2(2) by (auto simp: abuts_def)
    moreover have "classify_containment a b = Abutting" using 2 assms by (simp add: instants_subset classify_containment_def)
    ultimately show ?thesis using assms by (simp add: containment_exact_def overlaps_iff)
  next
    case 3
    define x where "x = (if ci_latest b < ci_earliest a then ci_earliest a else ci_latest a)"
    define y where "y = (if ci_latest b < ci_earliest a then ci_latest b else ci_earliest b)"
    have xy: "x \<in> instants a" "y \<in> instants b" using order by (auto simp: x_def y_def instants_def)
    have r: "classify_containment a b = interval_containment.Disjoint (nat \<bar>x - y\<bar> - 1)"
      using 3 assms by (auto simp: instants_subset classify_containment_def abs_diff_def x_def y_def)
    have gap: "1 < \<bar>x - y\<bar>" and least: "\<And>u w. u \<in> instants a \<Longrightarrow> w \<in> instants b \<Longrightarrow> \<bar>x - y\<bar> \<le> \<bar>u - w\<bar>"
      using 3(2,3) assms order by (auto simp: abuts_iff overlaps_def x_def y_def instants_def)
    have "instants a \<inter> instants b = {}" using 3(3) assms by (simp add: overlaps_iff)
    then show ?thesis using gap least xy unfolding r containment_exact_def by fastforce
  next
    case 4
    then show ?thesis using assms
      by (auto simp: instants_subset classify_containment_def containment_exact_def instants_meet abuts_def overlaps_def
          interval_ok_def max_def min_def)
  qed
qed

definition precedence_exact :: "capture_interval \<Rightarrow> capture_interval \<Rightarrow> temporal_precedence \<Rightarrow> bool" where
  "precedence_exact a b r \<longleftrightarrow> (case r of
      Before gap \<Rightarrow> (\<forall>x\<in>instants a. \<forall>y\<in>instants b. x < y) \<and> gap = card {ci_latest a<..<ci_earliest b}
    | After gap \<Rightarrow> (\<forall>x\<in>instants a. \<forall>y\<in>instants b. y < x) \<and> gap = card {ci_latest b<..<ci_earliest a}
    | BeforeOrAt t \<Rightarrow> (\<forall>x\<in>instants a. \<forall>y\<in>instants b. x \<le> y) \<and> instants a \<inter> instants b = {t}
    | AfterOrAt t \<Rightarrow> (\<forall>x\<in>instants a. \<forall>y\<in>instants b. y \<le> x) \<and> instants a \<inter> instants b = {t}
        \<and> (\<exists>x\<in>instants a. \<exists>y\<in>instants b. y < x)
    | temporal_precedence.Indeterminate k \<Rightarrow> interval_ok k \<and> instants k = instants a \<inter> instants b
        \<and> (\<exists>x\<in>instants a. \<exists>y\<in>instants b. x < y) \<and> (\<exists>x\<in>instants a. \<exists>y\<in>instants b. y < x))"

lemma temporal_precedence_exact:
  assumes "interval_ok a" and "interval_ok b"
  shows "precedence_exact a b (temporal_precedence_of a b)"
proof -
  have order: "ci_earliest a \<le> ci_latest a" "ci_earliest b \<le> ci_latest b" using assms interval_ok_order by auto
  then have ends: "ci_earliest a \<in> instants a" "ci_latest a \<in> instants a" "ci_earliest b \<in> instants b" "ci_latest b \<in> instants b"
    by (auto simp: instants_def)
  consider "ci_latest a < ci_earliest b" | "ci_latest b < ci_earliest a" | "ci_latest a = ci_earliest b"
    | "ci_earliest a = ci_latest b" "ci_latest a \<noteq> ci_earliest b"
    | "ci_earliest b < ci_latest a" "ci_earliest a < ci_latest b" by linarith
  then show ?thesis
  proof cases
    case 1
    then show ?thesis by (auto simp: temporal_precedence_of_def precedence_exact_def abs_diff_def instants_def)
  next
    case 2
    then show ?thesis using order by (auto simp: temporal_precedence_of_def precedence_exact_def abs_diff_def instants_def)
  next
    case 3
    then show ?thesis using order by (auto simp: temporal_precedence_of_def precedence_exact_def instants_def)
  next
    case 4
    then have "ci_earliest b < ci_latest a" using order by linarith
    then have "\<exists>x\<in>instants a. \<exists>y\<in>instants b. y < x" using ends by blast
    then show ?thesis using 4 order
      by (simp add: temporal_precedence_of_def precedence_exact_def) (auto simp: instants_def)
  next
    case 5
    then show ?thesis using order ends assms
      by (auto simp: temporal_precedence_of_def precedence_exact_def instants_meet interval_ok_def max_def min_def)
  qed
qed

text \<open>C28: the interval operations are the set operations on the instants the intervals stand for.
  Overlap, containment and membership are intersection, subset and element; the intersection, the hull
  (the smallest interval around both) and the union are exact, the assertions in them never fail, and a
  union with a gap is never reported as one interval; a containment verdict is true of the instants,
  with the exact distance when they are apart.\<close>

theorem interval_sets_exact:
  assumes "interval_ok a" and "interval_ok b"
  shows "(overlaps a b \<longleftrightarrow> instants a \<inter> instants b \<noteq> {}) \<and> (contains_interval a b \<longleftrightarrow> instants b \<subseteq> instants a)
    \<and> (contains_timestamp a t \<longleftrightarrow> t \<in> instants a)
    \<and> (case intersection a b of None \<Rightarrow> instants a \<inter> instants b = {}
       | Some k \<Rightarrow> interval_ok k \<and> instants k = instants a \<inter> instants b)
    \<and> (\<exists>k. hull a b = Some k \<and> interval_ok k \<and> instants a \<union> instants b \<subseteq> instants k
          \<and> (\<forall>c. instants a \<union> instants b \<subseteq> instants c \<longrightarrow> instants k \<subseteq> instants c))
    \<and> (\<exists>u. interval_union_of a b = Some u \<and> union_exact a b u)
    \<and> containment_exact a b (classify_containment a b)"
  by (intro conjI overlaps_iff intersection_exact hull_exact union_of_exact classify_containment_exact assms)
    (use assms in \<open>auto simp: contains_interval_def contains_timestamp_def instants_def interval_ok_def\<close>)

text \<open>C29: the verdict on the order of two uncertain events is the strongest one their intervals allow:
  before or after only if every choice of instants agrees, before-or-at and after-or-at only if they
  touch in exactly one instant, and indeterminate only if either order is possible; the gap is the number
  of instants in between.\<close>

theorem precedence_strongest:
  assumes "interval_ok a" and "interval_ok b"
  shows "precedence_exact a b (temporal_precedence_of a b)"
  by (rule temporal_precedence_exact [OF assms])

section \<open>Widening, shifting and the declared clock\<close>

lemma widen_asymmetric_Inr:
  assumes "interval_ok a"
  shows "widen_asymmetric a e l = Inr w \<longleftrightarrow> int e \<le> i128_max \<and> int l \<le> i128_max
    \<and> interval_ok w \<and> ci_earliest w = ci_earliest a - int e \<and> ci_latest w = ci_latest a + int l"
  using assms
  by (cases w) (auto simp: widen_asymmetric_def rust_simps i128_checked_sub_def i128_checked_add_def Let_def mk_interval_def
      interval_ok_def uncertainty_ns_def abs_diff_def split: if_splits)

lemma widen_asymmetric_Inl:
  assumes "interval_ok a"
  shows "widen_asymmetric a e l = Inl err \<Longrightarrow> err = ArithmeticOverflow"
  using assms
  by (auto simp: widen_asymmetric_def rust_simps i128_checked_sub_def i128_checked_add_def Let_def mk_interval_def
      interval_ok_def uncertainty_ns_def abs_diff_def split: if_splits)

lemma widen_skew_asymmetric: "widen_skew a n = widen_asymmetric a n n"
  by (simp add: widen_skew_def widen_asymmetric_def)

text \<open>widening is sound for a skewed clock and fails only by overflow. A widened interval contains
  every instant of the original moved by any skew within the declared bounds, its uncertainty is the sum,
  and the only error is an endpoint outside the range of the timestamps; the monotonicity check inside
  never fires. Two widened intervals never get a definite order that the originals do not have.\<close>

theorem widening_sound:
  assumes "interval_ok a" and "interval_ok b"
  shows "(case widen_asymmetric a e l of
        Inl err \<Rightarrow> err = ArithmeticOverflow \<and> \<not> (i128_valid (ci_earliest a - int e) \<and> i128_valid (ci_latest a + int l)
            \<and> int e \<le> i128_max \<and> int l \<le> i128_max)
      | Inr w \<Rightarrow> interval_ok w \<and> uncertainty_ns w = uncertainty_ns a + e + l
          \<and> (\<forall>t\<in>instants a. \<forall>skew. - int e \<le> skew \<and> skew \<le> int l \<longrightarrow> t + skew \<in> instants w)
          \<and> (\<forall>t\<in>instants w. \<exists>s\<in>instants a. - int e \<le> t - s \<and> t - s \<le> int l))
    \<and> widen_skew a e = widen_asymmetric a e e
    \<and> (\<forall>v w. widen_asymmetric a e l = Inr v \<and> widen_asymmetric b e' l' = Inr w
          \<and> is_strictly_before v w \<longrightarrow> is_strictly_before a b)"
proof (intro conjI widen_skew_asymmetric)
  show "case widen_asymmetric a e l of
        Inl err \<Rightarrow> err = ArithmeticOverflow \<and> \<not> (i128_valid (ci_earliest a - int e) \<and> i128_valid (ci_latest a + int l)
            \<and> int e \<le> i128_max \<and> int l \<le> i128_max)
      | Inr w \<Rightarrow> interval_ok w \<and> uncertainty_ns w = uncertainty_ns a + e + l
          \<and> (\<forall>t\<in>instants a. \<forall>skew. - int e \<le> skew \<and> skew \<le> int l \<longrightarrow> t + skew \<in> instants w)
          \<and> (\<forall>t\<in>instants w. \<exists>s\<in>instants a. - int e \<le> t - s \<and> t - s \<le> int l)"
  proof (cases "widen_asymmetric a e l")
    case (Inl err)
    moreover have "interval_ok (mk_interval (ci_earliest a - int e) (ci_latest a + int l))"
      if "i128_valid (ci_earliest a - int e)" "i128_valid (ci_latest a + int l)"
      using that assms(1) by (simp add: interval_ok_def)
    ultimately show ?thesis
      using widen_asymmetric_Inl [OF assms(1) Inl]
        widen_asymmetric_Inr [OF assms(1), of e l "mk_interval (ci_earliest a - int e) (ci_latest a + int l)"] by auto
  next
    case (Inr w)
    note w = Inr [unfolded widen_asymmetric_Inr [OF assms(1)]]
    have near: "\<exists>s\<in>instants a. - int e \<le> t - s \<and> t - s \<le> int l" if "t \<in> instants w" for t
      using that w assms(1) by (intro bexI [of _ "max (ci_earliest a) (min t (ci_latest a))"])
        (auto simp: instants_def interval_ok_def)
    have "uncertainty_ns w = uncertainty_ns a + e + l"
      using w interval_ok_order [OF assms(1)] unfolding uncertainty_ns_def abs_diff_def by linarith
    then show ?thesis using Inr w near by (auto simp: instants_def)
  qed
  show "\<forall>v w. widen_asymmetric a e l = Inr v \<and> widen_asymmetric b e' l' = Inr w
      \<and> is_strictly_before v w \<longrightarrow> is_strictly_before a b"
    by (auto simp: widen_asymmetric_Inr [OF assms(1)] widen_asymmetric_Inr [OF assms(2)] is_strictly_before_def)
qed

lemma checked_shift_exact:
  assumes "interval_ok a"
  shows "\<exists>r. checked_shift a delta = Some r
    \<and> (case r of Inl err \<Rightarrow> err = contract_error.ArithmeticOverflow
       | Inr w \<Rightarrow> interval_ok w \<and> instants w = (\<lambda>t. t + delta) ` instants a)"
  using assms
  by (auto simp: checked_shift_def checked_add_ns_def i128_checked_add_def interval_new_def rust_assert_def uncertainty_ns_def
      abs_diff_def interval_ok_def instants_def)

text \<open>On a declared clock every operation refuses intervals of different clocks, and is the plain one otherwise.\<close>

lemma basis_operations:
  shows "basis_union a b = union_with_basis (cb_interval a) (cb_basis a) (cb_interval b) (cb_basis b)"
    and "basis_intersection a b = intersection_with_basis (cb_interval a) (cb_basis a) (cb_interval b) (cb_basis b)"
    and "basis_containment a b = containment_with_basis (cb_interval a) (cb_basis a) (cb_interval b) (cb_basis b)"
    and "basis_temporal_precedence a b =
      temporal_precedence_with_basis (cb_interval a) (cb_basis a) (cb_interval b) (cb_basis b)"
  by (simp_all add: basis_union_def basis_intersection_def basis_containment_def basis_temporal_precedence_def
      check_clock_basis_def union_with_basis_def intersection_with_basis_def containment_with_basis_def
      temporal_precedence_with_basis_def)

section \<open>Codecs of the interval types\<close>

lemma interval_new_Inr:
  "interval_new e l = Inr a \<longleftrightarrow> e = ci_earliest a \<and> l = ci_latest a \<and> ci_earliest a \<le> ci_latest a"
  by (cases a) (auto simp: interval_new_def mk_interval_def)

definition interval_wire :: "capture_interval \<Rightarrow> bytes" where
  "interval_wire a = i128_wire (ci_earliest a) @ i128_wire (ci_latest a)"

definition basis_interval_wire :: "capture_interval_with_basis \<Rightarrow> bytes" where
  "basis_interval_wire a = interval_wire (cb_interval a) @ [clock_basis_tag (cb_basis a)]"

interpretation clockc: canonical_codec "\<lambda>_. True" "\<lambda>b. [clock_basis_tag b]" enc_clock_basis dec_clock_basis
proof
  show "enc_clock_basis b e = enc_emit [clock_basis_tag b] e" if "ce_error e = None" for b e
    using that by (simp add: enc_clock_basis_def u8c.enc_wire)
next
  have "(if t = 1 then Inr UtcDisciplined else if t = 2 then Inr DeviceMonotonic else if t = 3 then Inr HostMonotonic
      else if t = 4 then Inr Estimated else Inl (contract_error.UnknownClockBasis t)) = Inr b \<longleftrightarrow> t = clock_basis_tag b" for t b
    by (cases b) (auto simp: clock_basis_tag_def)
  then show "dec_clock_basis d = (Inr b, d') \<longleftrightarrow> True \<and> prefix [clock_basis_tag b] (dec_rest d)
      \<and> d' = dec_advance (length [clock_basis_tag b]) d" for d b d'
    unfolding dec_clock_basis_def dec_then_Inr u8c.dec_wire prod.inject by auto
qed

interpretation intervalc: canonical_codec interval_ok interval_wire enc_interval dec_interval
proof
  show "enc_interval a e = enc_emit (interval_wire a) e" if "interval_ok a" "ce_error e = None" for a e
    using that by (simp add: enc_interval_def interval_wire_def interval_ok_def i128c.enc_wire)
next
  show "dec_interval d = (Inr a, d') \<longleftrightarrow>
      interval_ok a \<and> prefix (interval_wire a) (dec_rest d) \<and> d' = dec_advance (length (interval_wire a)) d" for d a d'
    by (auto simp: dec_interval_def dec_then_Inr i128c.dec_wire interval_new_Inr interval_ok_def interval_wire_def
        prefix_append_rest)
qed

interpretation basisc: canonical_codec "\<lambda>a. interval_ok (cb_interval a)" basis_interval_wire enc_basis_interval dec_basis_interval
proof
  show "enc_basis_interval a e = enc_emit (basis_interval_wire a) e" if "interval_ok (cb_interval a)" "ce_error e = None" for a e
    using that by (simp add: enc_basis_interval_def basis_interval_wire_def intervalc.enc_wire clockc.enc_wire)
next
  show "dec_basis_interval d = (Inr a, d') \<longleftrightarrow> interval_ok (cb_interval a) \<and> prefix (basis_interval_wire a) (dec_rest d)
      \<and> d' = dec_advance (length (basis_interval_wire a)) d" for d a d'
    by (cases a) (auto simp: dec_basis_interval_def dec_then_Inr intervalc.dec_wire clockc.dec_wire basis_interval_wire_def
        prefix_append_rest)
qed

lemma basis_interval_exact:
  "from_canonical_bytes dec_basis_interval bs = Inr a \<longleftrightarrow>
     interval_ok (cb_interval a) \<and> try_canonical_bytes enc_basis_interval a = Inr bs"
  by (rule basisc.from_canonical_bytes_iff_encoding)

definition sample_before :: capture_interval where "sample_before = mk_interval 10 20"
definition sample_after :: capture_interval where "sample_after = mk_interval 25 30"

lemma sample_intervals_ok: "interval_ok sample_before" "interval_ok sample_after"
  by (simp_all add: sample_before_def sample_after_def interval_ok_def i128_valid_def)

theorem interval_sets_exact_witness:
  "\<exists>u. interval_union_of sample_before sample_after = Some u \<and> union_exact sample_before sample_after u"
  using interval_sets_exact [OF sample_intervals_ok, of 0] by blast

theorem precedence_strongest_witness: "precedence_exact sample_before sample_after (Before 4)"
proof -
  have "temporal_precedence_of sample_before sample_after = Before 4"
    by (simp add: temporal_precedence_of_def sample_before_def sample_after_def abs_diff_def)
  then show ?thesis using precedence_strongest [OF sample_intervals_ok] by simp
qed

theorem widening_sound_witness:
  "\<exists>w. widen_skew sample_before 3 = Inr w \<and> interval_ok w \<and> uncertainty_ns w = 16"
proof -
  have "widen_asymmetric sample_before 3 3 = Inr (mk_interval 7 23)"
    by (simp add: widen_asymmetric_def sample_before_def i128_max_def i128_checked_sub_def i128_checked_add_def
        i128_valid_def uncertainty_ns_def abs_diff_def Let_def)
  moreover have "uncertainty_ns sample_before = 10" by (simp add: uncertainty_ns_def sample_before_def abs_diff_def)
  ultimately show ?thesis using widening_sound [OF sample_intervals_ok, of 3 3 0 0] by auto
qed

end
