(* ===== verification/Durable_Format.thy ===== *)
theory Durable_Format
  imports Canonical
begin

text \<open>
  The durable-format framework, \<open>crates/fss-core/src/durable.rs\<close>: a format is a value (magic, version
  range, field widths, byte order, where the checksum stands and what it covers, an optional tag and a
  payload limit), and encoding and decoding interpret it. An envelope is magic, version, tag, length,
  checksum if it stands in the header, payload, checksum if it is a trailer.
\<close>

definition CHECKSUM_LEN :: usize where "CHECKSUM_LEN = 32"
definition DEFAULT_MAX_PAYLOAD_LEN :: usize where "DEFAULT_MAX_PAYLOAD_LEN = 16 * 1024 * 1024"

datatype durable_error =
    BadMagic bytes bytes
  | UnknownVersion u32 u32 u32
  | Truncated usize usize
  | TrailingBytes usize usize
  | OverLimitLength usize usize
  | ChecksumMismatch content_digest content_digest
  | UnsupportedTag u16 u16
  | InvalidFormat string
  | DigestComputationFailed

datatype checksum_placement = Header | Trailer
datatype checksum_scope = PayloadOnly | HeaderAndPayload
datatype endianness = BigEndian | LittleEndian
datatype version_width = VersionU16 | VersionU32
datatype length_width = LengthU32 | LengthU64

record durable_header =
  dh_magic :: bytes
  dh_version :: u32
  dh_tag :: "u16 option"
  dh_declared_payload_len :: usize
  dh_recorded_checksum :: "content_digest option"
  dh_header_len :: usize

record durable_frame =
  fr_version :: u32
  fr_tag :: "u16 option"
  fr_checksum :: content_digest
  fr_payload :: bytes

record durable_format =
  df_magic :: bytes
  df_min_version :: u32
  df_max_version :: u32
  df_version_width :: version_width
  df_length_width :: length_width
  df_endianness :: endianness
  df_checksum_placement :: checksum_placement
  df_checksum_scope :: checksum_scope
  df_checksum_algorithm :: digest_algorithm
  df_tag_field :: "u16 option"
  df_max_payload_len :: usize

definition format_canonical :: "bytes \<Rightarrow> u32 \<Rightarrow> usize \<Rightarrow> durable_format" where
  "format_canonical magic version max_payload_len =
     \<lparr>df_magic = magic, df_min_version = version, df_max_version = version, df_version_width = VersionU32,
      df_length_width = LengthU64, df_endianness = BigEndian, df_checksum_placement = Trailer,
      df_checksum_scope = HeaderAndPayload, df_checksum_algorithm = Sha256, df_tag_field = None,
      df_max_payload_len = max_payload_len\<rparr>"

definition format_spool_object :: "bytes \<Rightarrow> u16 \<Rightarrow> usize \<Rightarrow> durable_format" where
  "format_spool_object magic version max_payload_len =
     \<lparr>df_magic = magic, df_min_version = ucast version, df_max_version = ucast version, df_version_width = VersionU16,
      df_length_width = LengthU64, df_endianness = LittleEndian, df_checksum_placement = Header,
      df_checksum_scope = PayloadOnly, df_checksum_algorithm = Sha256, df_tag_field = Some 1,
      df_max_payload_len = max_payload_len\<rparr>"

section \<open>Field sizes and integers\<close>

definition saturating_add :: "usize \<Rightarrow> usize \<Rightarrow> usize" where
  "saturating_add a b = min (a + b) usize_max"

definition version_bytes :: "durable_format \<Rightarrow> usize" where
  "version_bytes f = (case df_version_width f of VersionU16 \<Rightarrow> 2 | VersionU32 \<Rightarrow> 4)"

definition tag_bytes :: "durable_format \<Rightarrow> usize" where
  "tag_bytes f = (if df_tag_field f \<noteq> None then 2 else 0)"

definition length_bytes :: "durable_format \<Rightarrow> usize" where
  "length_bytes f = (case df_length_width f of LengthU32 \<Rightarrow> 4 | LengthU64 \<Rightarrow> 8)"

definition header_len :: "durable_format \<Rightarrow> usize" where
  "header_len f =
     saturating_add (saturating_add (saturating_add (saturating_add (length (df_magic f)) (version_bytes f)) (tag_bytes f))
       (length_bytes f)) (case df_checksum_placement f of Header \<Rightarrow> CHECKSUM_LEN | Trailer \<Rightarrow> 0)"

definition trailer_len :: "durable_format \<Rightarrow> usize" where
  "trailer_len f = (case df_checksum_placement f of Header \<Rightarrow> 0 | Trailer \<Rightarrow> CHECKSUM_LEN)"

definition min_envelope_len :: "durable_format \<Rightarrow> usize" where
  "min_envelope_len f = saturating_add (header_len f) (trailer_len f)"

definition int_bytes :: "endianness \<Rightarrow> usize \<Rightarrow> nat \<Rightarrow> bytes" where
  "int_bytes e k n = (case e of BigEndian \<Rightarrow> be_bytes k n | LittleEndian \<Rightarrow> rev (be_bytes k n))"

definition int_of_bytes :: "endianness \<Rightarrow> bytes \<Rightarrow> nat" where
  "int_of_bytes e s = from_be (case e of BigEndian \<Rightarrow> s | LittleEndian \<Rightarrow> rev s)"

text \<open>The read that every integer field of the header makes at the cursor.\<close>

definition read_uint :: "durable_format \<Rightarrow> bytes \<Rightarrow> usize \<Rightarrow> usize \<Rightarrow> durable_error + nat" where
  "read_uint f raw cursor k =
     try_then (ok_or (get_slice raw cursor (cursor + k)) (Truncated (header_len f) (length raw))) (\<lambda>s.
     Inr (int_of_bytes (df_endianness f) s))"

section \<open>Decoding\<close>

definition decode_header_raw :: "durable_format \<Rightarrow> bytes \<Rightarrow> durable_error + durable_header" where
  "decode_header_raw f raw =
     (let magic_len = length (df_magic f);
          check_len = min (length raw) magic_len;
          prefix = take check_len raw in
      if prefix \<noteq> take check_len (df_magic f) then Inl (BadMagic (df_magic f) prefix)
      else if length raw < header_len f then Inl (Truncated (max (header_len f) (min_envelope_len f)) (length raw))
      else
        let magic_slice = (case get_slice raw 0 magic_len of Some s \<Rightarrow> s | None \<Rightarrow> []) in
        if magic_slice \<noteq> df_magic f then Inl (BadMagic (df_magic f) magic_slice)
        else
          let cursor = magic_len in
          try_then (read_uint f raw cursor (version_bytes f)) (\<lambda>v.
          let version = of_nat v; cursor = cursor + version_bytes f in
          if version < df_min_version f \<or> version > df_max_version f
          then Inl (UnknownVersion (df_min_version f) (df_max_version f) version)
          else
            try_then
              (case df_tag_field f of
                 None \<Rightarrow> Inr None
               | Some expected_tag \<Rightarrow>
                   try_then (read_uint f raw cursor 2) (\<lambda>t.
                   if of_nat t \<noteq> expected_tag then Inl (UnsupportedTag expected_tag (of_nat t))
                   else Inr (Some (of_nat t)))) (\<lambda>tag.
            let cursor = cursor + tag_bytes f in
            try_then (read_uint f raw cursor (length_bytes f)) (\<lambda>declared.
            let cursor = cursor + length_bytes f in
            if declared > usize_max then Inl (OverLimitLength (df_max_payload_len f) usize_max)
            else
              try_then
                (if df_checksum_placement f = Header then
                   try_then (ok_or (get_slice raw cursor (cursor + CHECKSUM_LEN)) (Truncated (header_len f) (length raw))) (\<lambda>s.
                   Inr (Some (digest_new (df_checksum_algorithm f) s)))
                 else Inr None) (\<lambda>recorded.
              Inr \<lparr>dh_magic = df_magic f, dh_version = version, dh_tag = tag, dh_declared_payload_len = declared,
                   dh_recorded_checksum = recorded, dh_header_len = header_len f\<rparr>)))))"

definition decode_header :: "durable_format \<Rightarrow> bytes \<Rightarrow> durable_error + durable_header" where
  "decode_header f raw =
     try_then (decode_header_raw f raw) (\<lambda>h.
     if dh_declared_payload_len h > df_max_payload_len f
     then Inl (OverLimitLength (df_max_payload_len f) (dh_declared_payload_len h))
     else Inr h)"

text \<open>The recorded and the recomputed checksum of an envelope of exactly \<open>total\<close> bytes.\<close>

definition two_part_digest :: "bytes \<Rightarrow> bytes \<Rightarrow> durable_error + content_digest" where
  "two_part_digest a b =
     try_then (map_err (\<lambda>_. DigestComputationFailed) (hasher_finalize (hasher_update (hasher_update hasher_new a) b))) (\<lambda>d.
     Inr (digest_new Sha256 d))"

definition decode_checksums ::
  "durable_format \<Rightarrow> bytes \<Rightarrow> durable_header \<Rightarrow> bytes \<Rightarrow> usize \<Rightarrow> durable_error + content_digest \<times> content_digest" where
  "decode_checksums f raw h payload expected_total_len =
     (case df_checksum_placement f of
        Header \<Rightarrow>
          try_then (ok_or (dh_recorded_checksum h) (Truncated expected_total_len (length raw))) (\<lambda>recorded.
          try_then
            (case df_checksum_scope f of
               PayloadOnly \<Rightarrow> Inr (digest_sha256 payload)
             | HeaderAndPayload \<Rightarrow> two_part_digest (take (dh_header_len h - CHECKSUM_LEN) raw) payload) (\<lambda>computed.
          Inr (recorded, computed)))
      | Trailer \<Rightarrow>
          let trailer_start = expected_total_len - CHECKSUM_LEN in
          try_then (ok_or (get_slice raw trailer_start expected_total_len) (Truncated expected_total_len (length raw))) (\<lambda>s.
          Inr (digest_new (df_checksum_algorithm f) s,
               case df_checksum_scope f of
                 PayloadOnly \<Rightarrow> digest_sha256 payload
               | HeaderAndPayload \<Rightarrow> digest_sha256 (take trailer_start raw))))"

definition format_decode :: "durable_format \<Rightarrow> bytes \<Rightarrow> durable_error + durable_frame" where
  "format_decode f raw =
     try_then (decode_header f raw) (\<lambda>h.
     try_then
       (ok_or (Option.bind (checked_add (dh_header_len h) (dh_declared_payload_len h)) (\<lambda>len. checked_add len (trailer_len f)))
         (OverLimitLength (df_max_payload_len f) usize_max)) (\<lambda>expected_total_len.
     if length raw < expected_total_len then Inl (Truncated expected_total_len (length raw))
     else if length raw > expected_total_len then Inl (TrailingBytes expected_total_len (length raw))
     else
       try_then (ok_or (get_slice raw (dh_header_len h) (dh_header_len h + dh_declared_payload_len h))
         (Truncated expected_total_len (length raw))) (\<lambda>payload.
       try_then (decode_checksums f raw h payload expected_total_len) (\<lambda>(recorded, computed).
       if recorded \<noteq> computed then Inl (ChecksumMismatch recorded computed)
       else Inr \<lparr>fr_version = dh_version h, fr_tag = dh_tag h, fr_checksum = recorded, fr_payload = payload\<rparr>))))"

definition decode_payload :: "durable_format \<Rightarrow> bytes \<Rightarrow> durable_error + bytes" where
  "decode_payload f raw = try_then (format_decode f raw) (\<lambda>frame. Inr (fr_payload frame))"

definition format_verify :: "durable_format \<Rightarrow> bytes \<Rightarrow> durable_error + unit" where
  "format_verify f raw = try_then (format_decode f raw) (\<lambda>_. Inr ())"

definition verify_with_expected_checksum :: "durable_format \<Rightarrow> bytes \<Rightarrow> content_digest \<Rightarrow> durable_error + unit" where
  "verify_with_expected_checksum f raw expected =
     try_then (format_decode f raw) (\<lambda>frame.
     refuse_if (fr_checksum frame \<noteq> expected) (ChecksumMismatch expected (fr_checksum frame)))"

section \<open>Encoding\<close>

text \<open>The checks and the leading fields that both encoders share.\<close>

definition encode_checks :: "durable_format \<Rightarrow> u32 \<Rightarrow> bytes \<Rightarrow> durable_error + usize" where
  "encode_checks f version payload =
     (if version < df_min_version f \<or> version > df_max_version f
      then Inl (UnknownVersion (df_min_version f) (df_max_version f) version)
      else if df_length_width f = LengthU32 \<and> length payload > 4294967295 \<or> length payload > df_max_payload_len f
      then Inl (OverLimitLength (df_max_payload_len f) (length payload))
      else
        ok_or (Option.bind (checked_add (header_len f) (length payload)) (\<lambda>len. checked_add len (trailer_len f)))
          (OverLimitLength (df_max_payload_len f) (length payload)))"

definition encode_fields :: "durable_format \<Rightarrow> u32 \<Rightarrow> bytes \<Rightarrow> bytes" where
  "encode_fields f version payload =
     df_magic f
     @ (case df_version_width f of
          VersionU16 \<Rightarrow> int_bytes (df_endianness f) 2 (unat (ucast version :: u16))
        | VersionU32 \<Rightarrow> int_bytes (df_endianness f) 4 (unat version))
     @ (case df_tag_field f of None \<Rightarrow> [] | Some tag \<Rightarrow> int_bytes (df_endianness f) 2 (unat tag))
     @ (case df_length_width f of
          LengthU32 \<Rightarrow> int_bytes (df_endianness f) 4 (unat (of_nat (length payload) :: u32))
        | LengthU64 \<Rightarrow> int_bytes (df_endianness f) 8 (length payload))"

definition encode_version :: "durable_format \<Rightarrow> u32 \<Rightarrow> bytes \<Rightarrow> durable_error + bytes" where
  "encode_version f version payload =
     try_then (encode_checks f version payload) (\<lambda>_.
     let out = encode_fields f version payload in
     try_then
       (if df_checksum_placement f = Header then
          try_then
            (case df_checksum_scope f of
               PayloadOnly \<Rightarrow> Inr (digest_sha256 payload)
             | HeaderAndPayload \<Rightarrow> two_part_digest out payload) (\<lambda>digest. Inr (out @ cd_bytes digest))
        else Inr out) (\<lambda>out.
     let out = out @ payload in
     Inr (if df_checksum_placement f = Trailer then
            out @ cd_bytes (case df_checksum_scope f of PayloadOnly \<Rightarrow> digest_sha256 payload | HeaderAndPayload \<Rightarrow> digest_sha256 out)
          else out)))"

definition format_encode :: "durable_format \<Rightarrow> bytes \<Rightarrow> durable_error + bytes" where
  "format_encode f payload = encode_version f (df_max_version f) payload"

definition encode_version_with_checksum ::
  "durable_format \<Rightarrow> u32 \<Rightarrow> bytes \<Rightarrow> content_digest \<Rightarrow> durable_error + bytes" where
  "encode_version_with_checksum f version payload checksum =
     try_then (encode_checks f version payload) (\<lambda>_.
     let out = encode_fields f version payload;
         out = (if df_checksum_placement f = Header then out @ cd_bytes checksum else out);
         out = out @ payload in
     Inr (if df_checksum_placement f = Trailer then out @ cd_bytes checksum else out))"

definition encode_with_checksum :: "durable_format \<Rightarrow> bytes \<Rightarrow> content_digest \<Rightarrow> durable_error + bytes" where
  "encode_with_checksum f payload checksum = encode_version_with_checksum f (df_max_version f) payload checksum"

section \<open>The builder\<close>

definition format_builder :: "bytes \<Rightarrow> durable_format" where
  "format_builder magic =
     \<lparr>df_magic = magic, df_min_version = 1, df_max_version = 1, df_version_width = VersionU32,
      df_length_width = LengthU64, df_endianness = BigEndian, df_checksum_placement = Trailer,
      df_checksum_scope = HeaderAndPayload, df_checksum_algorithm = Sha256, df_tag_field = None,
      df_max_payload_len = DEFAULT_MAX_PAYLOAD_LEN\<rparr>"

definition format_build :: "durable_format \<Rightarrow> durable_error + durable_format" where
  "format_build b =
     (if df_min_version b > df_max_version b then Inl (InvalidFormat ''min_version exceeds max_version in version_range'')
      else if df_version_width b = VersionU16 \<and> df_max_version b > 65535
      then Inl (InvalidFormat ''version exceeds u16::MAX for VersionWidth::U16'')
      else if df_length_width b = LengthU32 \<and> df_max_payload_len b > 4294967295
      then Inl (InvalidFormat ''max_payload_len exceeds u32::MAX for LengthWidth::U32'')
      else if df_checksum_scope b = PayloadOnly \<and> df_min_version b \<noteq> df_max_version b
      then Inl (InvalidFormat ''PayloadOnly checksum scope does not authenticate header fields across a version range; use HeaderAndPayload'')
      else if df_checksum_scope b = PayloadOnly \<and> df_checksum_placement b = Trailer
      then Inl (InvalidFormat ''PayloadOnly checksum scope with Trailer placement leaves header unauthenticated; use HeaderAndPayload'')
      else Inr b)"

section \<open>Layout\<close>

text \<open>
  A format the builder accepts, whose largest envelope can be hashed. The presets are of this kind.
\<close>

definition format_ok :: "durable_format \<Rightarrow> bool" where
  "format_ok f \<longleftrightarrow> format_build f = Inr f \<and> length (df_magic f) + df_max_payload_len f + 80 \<le> MAX_MESSAGE_BYTES"

lemma format_okD:
  assumes "format_ok f"
  shows "df_version_width f = VersionU16 \<Longrightarrow> unat (df_max_version f) < 65536"
    and "df_length_width f = LengthU32 \<Longrightarrow> df_max_payload_len f < 4294967296"
    and "length (df_magic f) + df_max_payload_len f + 80 \<le> MAX_MESSAGE_BYTES"
proof -
  have b: "format_build f = Inr f" and m: "length (df_magic f) + df_max_payload_len f + 80 \<le> MAX_MESSAGE_BYTES"
    using assms by (simp_all add: format_ok_def)
  show "length (df_magic f) + df_max_payload_len f + 80 \<le> MAX_MESSAGE_BYTES" by (rule m)
  show "df_length_width f = LengthU32 \<Longrightarrow> df_max_payload_len f < 4294967296"
    using b by (auto simp: format_build_def split: if_splits)
  assume "df_version_width f = VersionU16"
  then have "df_max_version f \<le> 65535" using b by (auto simp: format_build_def not_less split: if_splits)
  then show "unat (df_max_version f) < 65536" by (simp add: word_le_nat_alt)
qed

definition fields_len :: "durable_format \<Rightarrow> nat" where
  "fields_len f = length (df_magic f) + version_bytes f + tag_bytes f + length_bytes f"

definition checksum_len :: "durable_format \<Rightarrow> nat" where
  "checksum_len f = (case df_checksum_placement f of Header \<Rightarrow> 32 | Trailer \<Rightarrow> 0)"

lemma field_sizes: "version_bytes f \<le> 4" "tag_bytes f \<le> 2" "length_bytes f \<le> 8" "checksum_len f \<le> 32" "trailer_len f \<le> 32"
  "checksum_len f + trailer_len f = 32"
  by (auto simp: version_bytes_def tag_bytes_def length_bytes_def checksum_len_def trailer_len_def CHECKSUM_LEN_def
      split: version_width.splits length_width.splits checksum_placement.splits)

lemma header_len_eq:
  assumes "format_ok f"
  shows "header_len f = fields_len f + checksum_len f" and "fields_len f \<le> length (df_magic f) + 14"
proof -
  show "fields_len f \<le> length (df_magic f) + 14" using field_sizes [of f] by (simp add: fields_len_def)
  then have "fields_len f + checksum_len f \<le> usize_max"
    using format_okD(3) [OF assms] field_sizes(4) [of f] by (simp add: MAX_MESSAGE_BYTES_def usize_max_def)
  then show "header_len f = fields_len f + checksum_len f"
    by (cases "df_checksum_placement f")
      (simp_all add: header_len_def saturating_add_def fields_len_def checksum_len_def CHECKSUM_LEN_def)
qed

lemma int_bytes_inverse:
  "length (int_bytes e k n) = k" "length s = k \<Longrightarrow> int_bytes e k (int_of_bytes e s) = s"
  "n < 256 ^ k \<Longrightarrow> int_of_bytes e (int_bytes e k n) = n" "length s = k \<Longrightarrow> int_of_bytes e s < 256 ^ k"
proof -
  show "length (int_bytes e k n) = k" by (simp add: int_bytes_def split: endianness.split)
  show "length s = k \<Longrightarrow> int_bytes e k (int_of_bytes e s) = s"
    using be_bytes_from_be [of s] be_bytes_from_be [of "rev s"]
    by (auto simp: int_bytes_def int_of_bytes_def split: endianness.split)
  show "n < 256 ^ k \<Longrightarrow> int_of_bytes e (int_bytes e k n) = n"
    by (simp add: int_bytes_def int_of_bytes_def from_be_bytes split: endianness.split)
  show "length s = k \<Longrightarrow> int_of_bytes e s < 256 ^ k"
    using from_be_lt [of s] from_be_lt [of "rev s"] by (auto simp: int_of_bytes_def split: endianness.split)
qed

lemma int_bytes_eq_iff: "length s = k \<Longrightarrow> n < 256 ^ k \<Longrightarrow> s = int_bytes e k n \<longleftrightarrow> int_of_bytes e s = n"
  using int_bytes_inverse(2,3) by metis

text \<open>The four leading fields of a buffer, and when they are the encoder's.\<close>

definition version_slice :: "durable_format \<Rightarrow> bytes \<Rightarrow> bytes" where
  "version_slice f raw = subslice raw (length (df_magic f)) (length (df_magic f) + version_bytes f)"
definition tag_slice :: "durable_format \<Rightarrow> bytes \<Rightarrow> bytes" where
  "tag_slice f raw = (let a = length (df_magic f) + version_bytes f in subslice raw a (a + tag_bytes f))"
definition length_slice :: "durable_format \<Rightarrow> bytes \<Rightarrow> bytes" where
  "length_slice f raw = (let a = length (df_magic f) + version_bytes f + tag_bytes f in subslice raw a (a + length_bytes f))"

definition header_reads :: "durable_format \<Rightarrow> bytes \<Rightarrow> u32 \<Rightarrow> nat \<Rightarrow> bool" where
  "header_reads f raw v n \<longleftrightarrow> take (length (df_magic f)) raw = df_magic f
     \<and> of_nat (int_of_bytes (df_endianness f) (version_slice f raw)) = v
     \<and> (case df_tag_field f of None \<Rightarrow> True | Some t \<Rightarrow> of_nat (int_of_bytes (df_endianness f) (tag_slice f raw)) = t)
     \<and> int_of_bytes (df_endianness f) (length_slice f raw) = n"

lemma take_fields:
  "take (fields_len f) raw = take (length (df_magic f)) raw @ version_slice f raw @ tag_slice f raw @ length_slice f raw"
proof -
  have "take n raw = subslice raw 0 n" for n by (simp add: subslice_def)
  then show ?thesis
    by (simp add: fields_len_def version_slice_def tag_slice_def length_slice_def Let_def subslice_append_subslice)
qed

lemma slice_lengths:
  assumes "fields_len f \<le> length raw"
  shows "length (version_slice f raw) = version_bytes f" "length (tag_slice f raw) = tag_bytes f"
    "length (length_slice f raw) = length_bytes f"
  using assms by (simp_all add: version_slice_def tag_slice_def length_slice_def fields_len_def Let_def)


lemma word_read_iff:
  fixes v :: "'a::len word"
  assumes "n < 2 ^ LENGTH('a)"
  shows "of_nat n = v \<longleftrightarrow> n = unat v"
  using assms by (auto simp: unat_of_nat take_bit_nat_eq_self_iff)

definition version_field :: "durable_format \<Rightarrow> u32 \<Rightarrow> bytes" where
  "version_field f v = (case df_version_width f of
      VersionU16 \<Rightarrow> int_bytes (df_endianness f) 2 (unat (ucast v :: u16))
    | VersionU32 \<Rightarrow> int_bytes (df_endianness f) 4 (unat v))"
definition tag_field_bytes :: "durable_format \<Rightarrow> bytes" where
  "tag_field_bytes f = (case df_tag_field f of None \<Rightarrow> [] | Some t \<Rightarrow> int_bytes (df_endianness f) 2 (unat t))"
definition length_field :: "durable_format \<Rightarrow> nat \<Rightarrow> bytes" where
  "length_field f n = (case df_length_width f of
      LengthU32 \<Rightarrow> int_bytes (df_endianness f) 4 (unat (of_nat n :: u32))
    | LengthU64 \<Rightarrow> int_bytes (df_endianness f) 8 n)"

lemma encode_fields_eq: "encode_fields f v p = df_magic f @ version_field f v @ tag_field_bytes f @ length_field f (length p)"
  by (simp add: encode_fields_def version_field_def tag_field_bytes_def length_field_def)

lemma field_lengths: "length (version_field f v) = version_bytes f" "length (tag_field_bytes f) = tag_bytes f"
  "length (length_field f n) = length_bytes f"
  by (simp_all add: int_bytes_inverse(1) version_field_def tag_field_bytes_def length_field_def version_bytes_def
      tag_bytes_def length_bytes_def split: version_width.split option.split length_width.split)

lemma version_field_iff:
  assumes ok: "format_ok f" and v: "v \<le> df_max_version f" and ls: "length s = version_bytes f"
  shows "s = version_field f v \<longleftrightarrow> of_nat (int_of_bytes (df_endianness f) s) = v"
proof (cases "df_version_width f")
  case VersionU16
  have "unat v < 65536" using format_okD(1) [OF ok VersionU16] v unfolding word_le_nat_alt by linarith
  moreover have "int_of_bytes (df_endianness f) s < 65536"
    using int_bytes_inverse(4) [OF ls, of "df_endianness f"] VersionU16 by (simp add: version_bytes_def)
  ultimately show ?thesis using VersionU16 ls
    by (simp add: version_field_def version_bytes_def int_bytes_eq_iff word_read_iff)
next
  case VersionU32
  have "unat v < 4294967296" using unsigned_less [of v] by simp
  moreover have "int_of_bytes (df_endianness f) s < 4294967296"
    using int_bytes_inverse(4) [OF ls, of "df_endianness f"] VersionU32 by (simp add: version_bytes_def)
  ultimately show ?thesis using VersionU32 ls
    by (simp add: version_field_def version_bytes_def int_bytes_eq_iff word_read_iff)
qed

lemma tag_field_iff:
  assumes ls: "length s = tag_bytes f"
  shows "s = tag_field_bytes f \<longleftrightarrow>
    (case df_tag_field f of None \<Rightarrow> True | Some t \<Rightarrow> of_nat (int_of_bytes (df_endianness f) s) = t)"
proof (cases "df_tag_field f")
  case (Some t)
  have "unat t < 65536" using unsigned_less [of t] by simp
  moreover have "int_of_bytes (df_endianness f) s < 65536"
    using int_bytes_inverse(4) [OF ls, of "df_endianness f"] Some by (simp add: tag_bytes_def)
  ultimately show ?thesis using Some ls by (simp add: tag_field_bytes_def tag_bytes_def int_bytes_eq_iff word_read_iff)
qed (use ls in \<open>simp add: tag_field_bytes_def tag_bytes_def\<close>)

lemma length_field_iff:
  assumes ok: "format_ok f" and n: "n \<le> df_max_payload_len f" and ls: "length s = length_bytes f"
  shows "s = length_field f n \<longleftrightarrow> int_of_bytes (df_endianness f) s = n"
proof (cases "df_length_width f")
  case LengthU32
  have "n < 4294967296" using format_okD(2) [OF ok LengthU32] n by simp
  moreover from this have "unat (of_nat n :: u32) = n" by (simp add: unat_of_nat take_bit_nat_eq_self_iff)
  ultimately show ?thesis using LengthU32 ls by (simp add: length_field_def length_bytes_def int_bytes_eq_iff)
next
  case LengthU64
  have "n < 256 ^ 8" using n format_okD(3) [OF ok] by (simp add: MAX_MESSAGE_BYTES_def)
  then show ?thesis using LengthU64 ls by (simp add: length_field_def length_bytes_def int_bytes_eq_iff)
qed

lemma fields_iff:
  assumes ok: "format_ok f" and len: "fields_len f \<le> length raw" and v: "v \<le> df_max_version f"
    and p: "length p \<le> df_max_payload_len f"
  shows "take (fields_len f) raw = encode_fields f v p \<longleftrightarrow> header_reads f raw v (length p)"
proof -
  note ls = slice_lengths [OF len]
  have "length (take (length (df_magic f)) raw) = length (df_magic f)" using len by (simp add: fields_len_def)
  then have "take (fields_len f) raw = encode_fields f v p \<longleftrightarrow>
      take (length (df_magic f)) raw = df_magic f \<and> version_slice f raw = version_field f v
      \<and> tag_slice f raw = tag_field_bytes f \<and> length_slice f raw = length_field f (length p)"
    unfolding take_fields encode_fields_eq using ls field_lengths by (simp add: append_eq_append_conv)
  then show ?thesis unfolding header_reads_def
    using version_field_iff [OF ok v ls(1)] tag_field_iff [OF ls(2)] length_field_iff [OF ok p ls(3)] by simp
qed

lemma read_uint_eq:
  "cursor + k \<le> length raw \<Longrightarrow> read_uint f raw cursor k = Inr (int_of_bytes (df_endianness f) (subslice raw cursor (cursor + k)))"
  by (simp add: read_uint_def get_slice_def)

text \<open>Decoding a header succeeds exactly on the fields the encoder writes, and reports them.\<close>

definition header_of :: "durable_format \<Rightarrow> bytes \<Rightarrow> u32 \<Rightarrow> nat \<Rightarrow> durable_header" where
  "header_of f raw v n = \<lparr>dh_magic = df_magic f, dh_version = v, dh_tag = df_tag_field f, dh_declared_payload_len = n,
     dh_recorded_checksum = (if df_checksum_placement f = Header
       then Some (digest_new (df_checksum_algorithm f) (subslice raw (fields_len f) (fields_len f + 32))) else None),
     dh_header_len = header_len f\<rparr>"

lemma decode_header_raw_iff:
  assumes ok: "format_ok f"
  shows "decode_header_raw f raw = Inr h \<longleftrightarrow> header_len f \<le> length raw
    \<and> (\<exists>v n. header_reads f raw v n \<and> df_min_version f \<le> v \<and> v \<le> df_max_version f \<and> h = header_of f raw v n)"
proof (cases "header_len f \<le> length raw")
  case False
  then show ?thesis by (auto simp: decode_header_raw_def Let_def)
next
  case True
  define M where "M = length (df_magic f)"
  have hl: "header_len f = M + version_bytes f + tag_bytes f + length_bytes f + checksum_len f"
    by (simp add: header_len_eq [OF ok] fields_len_def M_def)
  then have bounds: "M \<le> length raw" "M + version_bytes f \<le> length raw" "M + version_bytes f + tag_bytes f \<le> length raw"
    "M + version_bytes f + tag_bytes f + length_bytes f \<le> length raw" using True by simp_all
  have "int_of_bytes (df_endianness f) (length_slice f raw) < 256 ^ length_bytes f"
    using slice_lengths(3) [of f raw] bounds(4) by (intro int_bytes_inverse(4)) (simp add: fields_len_def M_def)
  moreover have "(256::nat) ^ length_bytes f \<le> 256 ^ 8" using field_sizes(3) [of f] by (intro power_increasing) simp_all
  ultimately have small: "\<not> usize_max < int_of_bytes (df_endianness f) (length_slice f raw)" by (simp add: usize_max_def)
  have sum: "df_checksum_placement f = Header \<Longrightarrow>
      get_slice raw (fields_len f) (fields_len f + CHECKSUM_LEN) = Some (subslice raw (fields_len f) (fields_len f + 32))"
    using True hl by (simp add: get_slice_def fields_len_def M_def checksum_len_def CHECKSUM_LEN_def)
  have reads: "read_uint f raw M (version_bytes f) = Inr (int_of_bytes (df_endianness f) (version_slice f raw))"
    "df_tag_field f \<noteq> None \<Longrightarrow> read_uint f raw (M + version_bytes f) 2 = Inr (int_of_bytes (df_endianness f) (tag_slice f raw))"
    "read_uint f raw (M + version_bytes f + tag_bytes f) (length_bytes f) = Inr (int_of_bytes (df_endianness f) (length_slice f raw))"
    using bounds by (auto simp: read_uint_eq version_slice_def tag_slice_def length_slice_def M_def tag_bytes_def Let_def)
  have fl: "M + version_bytes f + tag_bytes f + length_bytes f = fields_len f" by (simp add: fields_len_def M_def)
  have magic: "min (length raw) M = M" "get_slice raw 0 M = Some (take M raw)" "take M (df_magic f) = df_magic f"
    using bounds(1) by (simp_all add: get_slice_def subslice_def M_def)
  show ?thesis
    unfolding decode_header_raw_def M_def [symmetric] Let_def magic reads(1,3) fl option.case
    using True small sum reads(2)
    by (auto simp: header_reads_def M_def [symmetric] header_of_def not_less rust_simps split: option.splits)
qed

section \<open>Envelopes\<close>

definition envelope_checksum :: "durable_format \<Rightarrow> u32 \<Rightarrow> bytes \<Rightarrow> content_digest" where
  "envelope_checksum f v p = digest_sha256 (case df_checksum_scope f of
     PayloadOnly \<Rightarrow> p | HeaderAndPayload \<Rightarrow> encode_fields f v p @ p)"

definition envelope :: "durable_format \<Rightarrow> u32 \<Rightarrow> bytes \<Rightarrow> bytes" where
  "envelope f v p = (let ck = cd_bytes (envelope_checksum f v p) in case df_checksum_placement f of
     Header \<Rightarrow> encode_fields f v p @ ck @ p | Trailer \<Rightarrow> encode_fields f v p @ p @ ck)"

lemma length_encode_fields: "length (encode_fields f v p) = fields_len f"
  by (simp add: encode_fields_eq field_lengths fields_len_def)

lemma two_part_digest_eq:
  assumes "length (a @ b) \<le> MAX_MESSAGE_BYTES"
  shows "two_part_digest a b = Inr (digest_sha256 (a @ b))"
proof -
  have "hasher_inv a (hasher_update hasher_new a)" using hasher_update_inv [OF hasher_new_inv, of a] assms by simp
  from hasher_finalize_inv [OF hasher_update_inv [OF this assms] assms] show ?thesis
    by (simp add: two_part_digest_def digest_sha256_def sha256_eq [OF assms])
qed

lemma envelope_fits:
  assumes "format_ok f" and "length p \<le> df_max_payload_len f"
  shows "length (encode_fields f v p @ p) \<le> MAX_MESSAGE_BYTES" "length p \<le> MAX_MESSAGE_BYTES"
    "header_len f + length p + trailer_len f \<le> u64_max"
  using assms(2) format_okD(3) [OF assms(1)] header_len_eq [OF assms(1)] field_sizes [of f]
  by (simp_all add: length_encode_fields MAX_MESSAGE_BYTES_def u64_max_def)

lemma length_checksum:
  assumes "format_ok f" and "length p \<le> df_max_payload_len f"
  shows "length (cd_bytes (envelope_checksum f v p)) = 32"
  using envelope_fits [OF assms]
  by (simp add: envelope_checksum_def digest_sha256_def digest_new_def sha256_eq split: checksum_scope.split)

lemma length_envelope:
  assumes "format_ok f" and "length p \<le> df_max_payload_len f"
  shows "length (envelope f v p) = header_len f + length p + trailer_len f"
  using length_checksum [OF assms, of v] header_len_eq(1) [OF assms(1)]
  by (simp add: envelope_def Let_def length_encode_fields checksum_len_def trailer_len_def CHECKSUM_LEN_def
      split: checksum_placement.split)

lemma encode_version_iff:
  assumes ok: "format_ok f"
  shows "encode_version f v p = Inr raw \<longleftrightarrow>
    df_min_version f \<le> v \<and> v \<le> df_max_version f \<and> length p \<le> df_max_payload_len f \<and> raw = envelope f v p"
proof (cases "df_min_version f \<le> v \<and> v \<le> df_max_version f \<and> length p \<le> df_max_payload_len f")
  case False
  then have "\<exists>err. encode_checks f v p = Inl err" by (auto simp: encode_checks_def)
  then show ?thesis using False by (auto simp: encode_version_def)
next
  case True
  then have p: "length p \<le> df_max_payload_len f" by simp
  note fits = envelope_fits [OF ok p]
  have "encode_checks f v p = Inr (header_len f + length p + trailer_len f)"
    using True fits(3) format_okD(2) [OF ok] by (auto simp: encode_checks_def checked_add_def)
  then have "encode_version f v p = Inr (envelope f v p)"
    by (simp add: encode_version_def envelope_def envelope_checksum_def Let_def two_part_digest_eq [OF fits(1)]
        split: checksum_placement.split checksum_scope.split)
  then show ?thesis using True by auto
qed

text \<open>What decoding does with a buffer of the right length and leading fields.\<close>

definition recorded_bytes :: "durable_format \<Rightarrow> bytes \<Rightarrow> nat \<Rightarrow> bytes" where
  "recorded_bytes f raw n = (case df_checksum_placement f of
     Header \<Rightarrow> subslice raw (fields_len f) (fields_len f + 32) | Trailer \<Rightarrow> drop (header_len f + n) raw)"

lemma decode_checksums_eq:
  assumes ok: "format_ok f" and n: "length p \<le> df_max_payload_len f"
    and len: "length raw = header_len f + length p + trailer_len f"
    and fields: "take (fields_len f) raw = encode_fields f v p" and payload: "subslice raw (header_len f) (header_len f + length p) = p"
  shows "decode_checksums f raw (header_of f raw v (length p)) p (length raw) =
    Inr (digest_new (df_checksum_algorithm f) (recorded_bytes f raw (length p)), envelope_checksum f v p)"
proof (cases "df_checksum_placement f")
  case Header
  then have "take (header_len f - CHECKSUM_LEN) raw = encode_fields f v p"
    using fields by (simp add: header_len_eq [OF ok] checksum_len_def CHECKSUM_LEN_def)
  then show ?thesis using Header two_part_digest_eq [OF envelope_fits(1) [OF ok n]]
    by (simp add: decode_checksums_def header_of_def recorded_bytes_def envelope_checksum_def split: checksum_scope.split)
next
  case Trailer
  then have hl: "header_len f = fields_len f" and total: "length raw - CHECKSUM_LEN = header_len f + length p"
    using len by (simp_all add: header_len_eq [OF ok] checksum_len_def trailer_len_def CHECKSUM_LEN_def)
  have "take (header_len f + length p) raw = encode_fields f v p @ p"
    using fields payload by (simp add: hl take_add subslice_def)
  moreover have "get_slice raw (header_len f + length p) (length raw) = Some (drop (header_len f + length p) raw)"
    using len by (simp add: get_slice_def subslice_def)
  ultimately show ?thesis using Trailer unfolding decode_checksums_def Let_def total
    by (simp add: recorded_bytes_def envelope_checksum_def split: checksum_scope.split)
qed

lemma decode_header_iff:
  assumes ok: "format_ok f"
  shows "decode_header f raw = Inr h \<longleftrightarrow> header_len f \<le> length raw
    \<and> (\<exists>v n. header_reads f raw v n \<and> df_min_version f \<le> v \<and> v \<le> df_max_version f \<and> n \<le> df_max_payload_len f
        \<and> h = header_of f raw v n)"
proof -
  have "decode_header f raw = Inr h \<longleftrightarrow> decode_header_raw f raw = Inr h \<and> dh_declared_payload_len h \<le> df_max_payload_len f"
    by (cases "decode_header_raw f raw") (auto simp: decode_header_def)
  moreover have "dh_declared_payload_len (header_of f raw v n) = n" for v n by (simp add: header_of_def)
  ultimately show ?thesis unfolding decode_header_raw_iff [OF ok] by metis
qed

definition readable :: "durable_format \<Rightarrow> bytes \<Rightarrow> u32 \<Rightarrow> bytes \<Rightarrow> bool" where
  "readable f raw v p \<longleftrightarrow> df_min_version f \<le> v \<and> v \<le> df_max_version f \<and> length p \<le> df_max_payload_len f
    \<and> length raw = header_len f + length p + trailer_len f
    \<and> take (fields_len f) raw = encode_fields f v p \<and> subslice raw (header_len f) (header_len f + length p) = p"

lemma format_decode_readable:
  assumes ok: "format_ok f" and r: "readable f raw v p"
  shows "format_decode f raw =
    (let recorded = digest_new (df_checksum_algorithm f) (recorded_bytes f raw (length p)); computed = envelope_checksum f v p in
     if recorded \<noteq> computed then Inl (ChecksumMismatch recorded computed)
     else Inr \<lparr>fr_version = v, fr_tag = df_tag_field f, fr_checksum = recorded, fr_payload = p\<rparr>)"
proof -
  have r': "df_min_version f \<le> v" "v \<le> df_max_version f" "length p \<le> df_max_payload_len f"
    "length raw = header_len f + length p + trailer_len f"
    "take (fields_len f) raw = encode_fields f v p" "subslice raw (header_len f) (header_len f + length p) = p"
    using r by (simp_all add: readable_def)
  have "fields_len f \<le> length raw" using r'(4) by (simp add: header_len_eq [OF ok])
  then have "header_reads f raw v (length p)" using fields_iff [OF ok _ r'(2,3)] r'(5) by blast
  then have h: "decode_header f raw = Inr (header_of f raw v (length p))"
    using r' by (auto simp: decode_header_iff [OF ok])
  have hd: "dh_header_len (header_of f raw v n) = header_len f" "dh_declared_payload_len (header_of f raw v n) = n"
    "dh_version (header_of f raw v n) = v" "dh_tag (header_of f raw v n) = df_tag_field f" for n
    by (simp_all add: header_of_def)
  have add: "Option.bind (checked_add (header_len f) (length p)) (\<lambda>len. checked_add len (trailer_len f)) = Some (length raw)"
    using envelope_fits(3) [OF ok r'(3)] r'(4) by (simp add: checked_add_def)
  have slice: "get_slice raw (header_len f) (header_len f + length p) = Some p"
    using r'(4,6) by (simp add: get_slice_def)
  show ?thesis
    by (simp add: format_decode_def h hd add slice decode_checksums_eq [OF ok r'(3,4,5,6)] Let_def)
qed

lemma format_decode_header:
  assumes ok: "format_ok f" and d: "format_decode f raw = Inr fr"
  shows "\<exists>v p. readable f raw v p"
proof -
  obtain h total where h: "decode_header f raw = Inr h"
    and total: "Option.bind (checked_add (dh_header_len h) (dh_declared_payload_len h)) (\<lambda>len. checked_add len (trailer_len f)) = Some total"
    and len: "length raw = total"
    using d by (auto simp: format_decode_def rust_simps split: if_splits)
  from h obtain v n where v: "header_reads f raw v n" "df_min_version f \<le> v" "v \<le> df_max_version f" "n \<le> df_max_payload_len f"
    "h = header_of f raw v n" by (auto simp: decode_header_iff [OF ok])
  let ?p = "subslice raw (header_len f) (header_len f + n)"
  have sum: "length raw = header_len f + n + trailer_len f"
    using total len v(5) by (auto simp: header_of_def checked_add_def bind_eq_Some_conv split: if_splits)
  then have n: "length ?p = n" by simp
  have "fields_len f \<le> length raw" using sum by (simp add: header_len_eq [OF ok])
  then have "take (fields_len f) raw = encode_fields f v ?p"
    using fields_iff [OF ok _ v(3), of raw ?p] v(1,4) n by simp
  then have "readable f raw v ?p" using v sum n by (simp add: readable_def)
  then show ?thesis by blast
qed

lemma envelope_readable:
  assumes ok: "format_ok f" and v: "df_min_version f \<le> v" "v \<le> df_max_version f" and p: "length p \<le> df_max_payload_len f"
  shows "readable f (envelope f v p) v p" and "recorded_bytes f (envelope f v p) (length p) = cd_bytes (envelope_checksum f v p)"
proof -
  note len = length_encode_fields [of f v p] length_checksum [OF ok p, of v]
  show "readable f (envelope f v p) v p"
    using v p length_envelope [OF ok p, of v] len header_len_eq(1) [OF ok]
    by (cases "df_checksum_placement f") (simp_all add: readable_def envelope_def Let_def checksum_len_def subslice_def)
  show "recorded_bytes f (envelope f v p) (length p) = cd_bytes (envelope_checksum f v p)"
    using len header_len_eq(1) [OF ok]
    by (cases "df_checksum_placement f") (simp_all add: recorded_bytes_def envelope_def Let_def checksum_len_def subslice_def)
qed

lemma readable_envelope:
  assumes ok: "format_ok f" and r: "readable f raw v p"
    and c: "recorded_bytes f raw (length p) = cd_bytes (envelope_checksum f v p)"
  shows "raw = envelope f v p"
proof -
  have r': "length raw = header_len f + length p + trailer_len f" "take (fields_len f) raw = encode_fields f v p"
    "subslice raw (header_len f) (header_len f + length p) = p" using r by (simp_all add: readable_def)
  have "raw = take (fields_len f) raw @ subslice raw (fields_len f) (header_len f) @ p @ drop (header_len f + length p) raw"
  proof -
    have "take (header_len f) raw = take (fields_len f) raw @ subslice raw (fields_len f) (header_len f)"
      by (simp add: header_len_eq(1) [OF ok] take_add subslice_def)
    moreover have "drop (header_len f) raw = p @ drop (header_len f + length p) raw"
      using r'(3) append_take_drop_id [of "length p" "drop (header_len f) raw"] by (simp add: subslice_def add.commute)
    ultimately show ?thesis using append_take_drop_id [of "header_len f" raw] by simp
  qed
  then show ?thesis using r' c header_len_eq(1) [OF ok]
    by (cases "df_checksum_placement f") (simp_all add: envelope_def Let_def recorded_bytes_def checksum_len_def trailer_len_def)
qed

text \<open>C30: the envelope of a format is canonical. For every format the builder accepts with the SHA-256
  checksum, in either byte order, with any field widths, checksum placement and scope, a buffer decodes to
  a frame exactly when it is what encoding that frame's version and payload gives, and the frame reports
  the format's tag and the checksum over exactly the bytes in scope. So every encoded payload comes back,
  no buffer decodes in two ways, and nothing else decodes.\<close>

theorem durable_envelope_exact:
  assumes ok: "format_ok f" and alg: "df_checksum_algorithm f = Sha256"
  shows "format_decode f raw = Inr fr \<longleftrightarrow>
    encode_version f (fr_version fr) (fr_payload fr) = Inr raw \<and> fr_tag fr = df_tag_field f
    \<and> fr_checksum fr = envelope_checksum f (fr_version fr) (fr_payload fr)"
proof
  assume d: "format_decode f raw = Inr fr"
  then obtain v p where r: "readable f raw v p" using format_decode_header [OF ok] by blast
  note d [unfolded format_decode_readable [OF ok r] Let_def]
  then have eq: "digest_new Sha256 (recorded_bytes f raw (length p)) = envelope_checksum f v p"
    and fr: "fr = \<lparr>fr_version = v, fr_tag = df_tag_field f, fr_checksum = envelope_checksum f v p, fr_payload = p\<rparr>"
    by (auto simp: alg split: if_splits)
  have "recorded_bytes f raw (length p) = cd_bytes (envelope_checksum f v p)" unfolding eq [symmetric] by (simp add: digest_new_def)
  from readable_envelope [OF ok r this] r show "encode_version f (fr_version fr) (fr_payload fr) = Inr raw
      \<and> fr_tag fr = df_tag_field f \<and> fr_checksum fr = envelope_checksum f (fr_version fr) (fr_payload fr)"
    unfolding encode_version_iff [OF ok] fr by (simp add: readable_def)
next
  assume e: "encode_version f (fr_version fr) (fr_payload fr) = Inr raw \<and> fr_tag fr = df_tag_field f
    \<and> fr_checksum fr = envelope_checksum f (fr_version fr) (fr_payload fr)"
  then have raw: "df_min_version f \<le> fr_version fr" "fr_version fr \<le> df_max_version f"
      "length (fr_payload fr) \<le> df_max_payload_len f" "raw = envelope f (fr_version fr) (fr_payload fr)"
    by (simp_all add: encode_version_iff [OF ok])
  have "digest_new Sha256 (cd_bytes (envelope_checksum f v p)) = envelope_checksum f v p" for v p
    by (simp add: envelope_checksum_def digest_sha256_def digest_new_def)
  then show "format_decode f raw = Inr fr"
    using e format_decode_readable [OF ok envelope_readable(1) [OF ok raw(1-3)]] envelope_readable(2) [OF ok raw(1-3)]
    by (cases fr) (simp add: alg raw(4))
qed

text \<open>C31: a format with the BLAKE3 checksum algorithm, which the builder accepts, can encode but never decode:
  the encoder writes a SHA-256 digest, and the decoder compares it, tagged BLAKE3, with a SHA-256 one.\<close>

theorem blake3_format_never_decodes:
  assumes ok: "format_ok f" and alg: "df_checksum_algorithm f = Blake3" and p: "length p \<le> df_max_payload_len f"
  shows "(\<exists>bs. format_encode f p = Inr bs) \<and> (\<forall>raw fr. format_decode f raw \<noteq> Inr fr)"
proof (intro conjI allI notI)
  have "df_min_version f \<le> df_max_version f"
    using ok by (auto simp: format_ok_def format_build_def split: if_splits)
  then show "\<exists>bs. format_encode f p = Inr bs" using p by (auto simp: format_encode_def encode_version_iff [OF ok])
next
  fix raw fr
  assume d: "format_decode f raw = Inr fr"
  then obtain v q where r: "readable f raw v q" using format_decode_header [OF ok] by blast
  show False using d [unfolded format_decode_readable [OF ok r]]
    by (simp add: alg digest_new_def envelope_checksum_def digest_sha256_def Let_def)
qed

lemma preset_formats_ok:
  "length magic + n + 80 \<le> MAX_MESSAGE_BYTES \<Longrightarrow> format_ok (format_canonical magic version n)"
  "length magic + n + 80 \<le> MAX_MESSAGE_BYTES \<Longrightarrow> format_ok (format_spool_object magic version16 n)"
  using unat_u16 [of version16]
  by (simp_all add: format_ok_def format_build_def format_canonical_def format_spool_object_def word_less_nat_alt)

definition sample_format :: durable_format where
  "sample_format = format_canonical (ascii ''FSSD'') 1 1024"

definition sample_blake3_format :: durable_format where
  "sample_blake3_format = (format_builder (ascii ''FSSD''))\<lparr>df_checksum_algorithm := Blake3\<rparr>"

lemma sample_formats_ok: "format_ok sample_format" "format_ok sample_blake3_format"
  by (simp_all add: sample_format_def preset_formats_ok ascii_def MAX_MESSAGE_BYTES_def)
    (simp add: sample_blake3_format_def format_builder_def format_ok_def format_build_def ascii_def MAX_MESSAGE_BYTES_def
      DEFAULT_MAX_PAYLOAD_LEN_def)

theorem durable_envelope_exact_witness:
  "\<exists>raw. encode_version sample_format 1 (ascii ''hello'') = Inr raw
     \<and> format_decode sample_format raw = Inr \<lparr>fr_version = 1, fr_tag = None,
         fr_checksum = envelope_checksum sample_format 1 (ascii ''hello''), fr_payload = ascii ''hello''\<rparr>"
proof -
  let ?fr = "\<lparr>fr_version = 1, fr_tag = None, fr_checksum = envelope_checksum sample_format 1 (ascii ''hello''),
    fr_payload = ascii ''hello''\<rparr>"
  have "df_min_version sample_format = 1" "df_max_version sample_format = 1" "df_max_payload_len sample_format = 1024"
    by (simp_all add: sample_format_def format_canonical_def)
  then obtain raw where raw: "encode_version sample_format 1 (ascii ''hello'') = Inr raw"
    by (simp add: encode_version_iff [OF sample_formats_ok(1)] ascii_def)
  have "df_checksum_algorithm sample_format = Sha256" "df_tag_field sample_format = None"
    by (simp_all add: sample_format_def format_canonical_def)
  with durable_envelope_exact [OF sample_formats_ok(1), of raw ?fr] raw show ?thesis by auto
qed

theorem blake3_format_never_decodes_witness:
  "(\<exists>bs. format_encode sample_blake3_format [] = Inr bs) \<and> (\<forall>raw fr. format_decode sample_blake3_format raw \<noteq> Inr fr)"
  using blake3_format_never_decodes [OF sample_formats_ok(2), of "[]"] by (simp add: sample_blake3_format_def)

end
