(* ===== verification/Flv_Framing.thy ===== *)
theory Flv_Framing
  imports Canonical
begin

text \<open>
  The extended-FLV camera push, \<open>crates/fss-packet/src/extended_flv.rs\<close> and \<open>extended_flv/stream.rs\<close>: the
  header and tag parsers, the bounded search for the tag that follows a trailer of unknown length, and the
  incremental framer that cuts a byte stream into records without losing or inventing a byte.

  The parsers' contract is the locale \<open>stable_parser\<close>: a verdict other than \<open>NeedMore\<close> is not changed by
  the bytes that arrive later. Through it the records of a framer depend on the bytes alone and not on how
  they were chunked; the framer is compared with \<open>frames\<close>, which frames the whole stream at once.
\<close>

section \<open>extended\_flv.rs\<close>

definition TAG_HEADER :: usize where "TAG_HEADER = 11"
definition TAG_SUFFIX :: usize where "TAG_SUFFIX = 4"
definition ABSOLUTE_MAX_PAYLOAD :: usize where "ABSOLUTE_MAX_PAYLOAD = 4 * 1024 * 1024"
definition ABSOLUTE_MAX_TRAILER :: usize where "ABSOLUTE_MAX_TRAILER = 65536"
definition ABSOLUTE_MAX_HEADER :: usize where "ABSOLUTE_MAX_HEADER = 4096"

record flv_limits =
  fl_max_payload :: usize
  fl_max_trailer :: usize
  fl_max_header :: usize

definition flv_limits_default :: flv_limits where
  "flv_limits_default = \<lparr>fl_max_payload = ABSOLUTE_MAX_PAYLOAD, fl_max_trailer = ABSOLUTE_MAX_TRAILER,
     fl_max_header = ABSOLUTE_MAX_HEADER\<rparr>"

datatype flv_error = InvalidLimits | InvalidHeader | InvalidTagKind | PayloadLimit | PreviousTagSize | NoCandidate

definition limits_validate :: "flv_limits \<Rightarrow> flv_error + unit" where
  "limits_validate l = refuse_if
     (fl_max_payload l > ABSOLUTE_MAX_PAYLOAD \<or> fl_max_trailer l > ABSOLUTE_MAX_TRAILER
      \<or> \<not> (9 \<le> fl_max_header l \<and> fl_max_header l \<le> ABSOLUTE_MAX_HEADER)) InvalidLimits"

datatype 'a flv_parse = NeedMore | Complete 'a

record flv_header =
  fh_bytes :: bytes
  fh_offset :: usize

definition header_parse :: "bytes \<Rightarrow> flv_limits \<Rightarrow> flv_error + flv_header flv_parse" where
  "header_parse bs limits =
     try_then (limits_validate limits) (\<lambda>_.
     if length bs < 9 then Inr NeedMore
     else if subslice bs 0 3 \<noteq> ascii ''FLV'' \<or> bs ! 3 \<noteq> 1 then Inl InvalidHeader
     else
       let offset = from_be (subslice bs 5 9) in
       if \<not> (9 \<le> offset \<and> offset \<le> fl_max_header limits) then Inl InvalidHeader
       else
         let stop = offset + TAG_SUFFIX in
         if length bs < stop then Inr NeedMore
         else if subslice bs offset stop \<noteq> [0, 0, 0, 0] then Inl InvalidHeader
         else Inr (Complete \<lparr>fh_bytes = subslice bs 0 stop, fh_offset = offset\<rparr>))"

definition header_flags :: "flv_header \<Rightarrow> u8" where
  "header_flags h = fh_bytes h ! 4"

record flv_tag =
  ft_bytes :: bytes
  ft_payload_len :: usize

definition tag_parse :: "bytes \<Rightarrow> flv_limits \<Rightarrow> flv_error + flv_tag flv_parse" where
  "tag_parse bs limits =
     try_then (limits_validate limits) (\<lambda>_.
     if bs = [] then Inr NeedMore
     else if bs ! 0 \<notin> {8, 9, 10, 18} then Inl InvalidTagKind
     else if length bs < TAG_HEADER then Inr NeedMore
     else
       let len = from_be (subslice bs 1 4) in
       if len > fl_max_payload limits then Inl PayloadLimit
       else
         let stop = TAG_HEADER + len; whole = stop + TAG_SUFFIX in
         if length bs < whole then Inr NeedMore
         else if from_be (subslice bs stop (stop + 4)) \<noteq> stop then Inl PreviousTagSize
         else Inr (Complete \<lparr>ft_bytes = subslice bs 0 whole, ft_payload_len = len\<rparr>))"

definition tag_kind_of :: "flv_tag \<Rightarrow> u8" where
  "tag_kind_of t = ft_bytes t ! 0"

definition tag_timestamp_ms :: "flv_tag \<Rightarrow> u32" where
  "tag_timestamp_ms t =
     push_bit 24 (ucast (ft_bytes t ! 7)) OR push_bit 16 (ucast (ft_bytes t ! 4))
     OR push_bit 8 (ucast (ft_bytes t ! 5)) OR ucast (ft_bytes t ! 6)"

definition tag_payload :: "flv_tag \<Rightarrow> bytes" where
  "tag_payload t = subslice (ft_bytes t) TAG_HEADER (TAG_HEADER + ft_payload_len t)"

record flv_candidate =
  ca_trailer :: bytes
  ca_tag :: flv_tag
  ca_earlier_incomplete :: bool

text \<open>The loop of \<open>search\<close> over the offsets that are left, with the flag for an earlier incomplete tag.\<close>

fun search_loop ::
  "bytes \<Rightarrow> flv_limits \<Rightarrow> bool \<Rightarrow> bool \<Rightarrow> usize list \<Rightarrow> flv_error + flv_candidate flv_parse" where
  "search_loop bs limits provisional pending [] =
     (if pending \<or> length bs \<le> fl_max_trailer limits then Inr NeedMore else Inl NoCandidate)"
| "search_loop bs limits provisional pending (offset # offsets) =
     (case tag_parse (drop offset bs) limits of
        Inr (Complete t) \<Rightarrow>
          if \<not> pending \<or> provisional then
            Inr (Complete \<lparr>ca_trailer = take offset bs, ca_tag = t, ca_earlier_incomplete = pending\<rparr>)
          else search_loop bs limits provisional True offsets
      | Inr NeedMore \<Rightarrow> search_loop bs limits provisional True offsets
      | Inl err \<Rightarrow>
          if err \<in> {InvalidTagKind, PayloadLimit, PreviousTagSize}
          then search_loop bs limits provisional pending offsets else Inl err)"

definition flv_search :: "bytes \<Rightarrow> flv_limits \<Rightarrow> bool \<Rightarrow> flv_error + flv_candidate flv_parse" where
  "flv_search bs limits provisional =
     try_then (limits_validate limits) (\<lambda>_.
     let count = min (length bs) (fl_max_trailer limits + 1) in
     search_loop bs limits provisional False [0..<count])"

definition find_next :: "bytes \<Rightarrow> flv_limits \<Rightarrow> flv_error + flv_candidate flv_parse" where
  "find_next bs limits = flv_search bs limits False"

definition find_next_provisional :: "bytes \<Rightarrow> flv_limits \<Rightarrow> flv_error + flv_candidate flv_parse" where
  "find_next_provisional bs limits = flv_search bs limits True"

section \<open>extended\_flv/stream.rs\<close>

definition MAX_BUFFER_BYTES :: usize where "MAX_BUFFER_BYTES = 8 * 1024 * 1024"

datatype stream_error =
    Configuration | OffsetMismatch | OffsetOverflow | BufferLimit | Allocation | Parse flv_error | TrailerPolicyMismatch

datatype flv_phase = Header | FirstTag | Successor

datatype search_mode = Conservative | Provisional | StructuredTrailer16 | StructuredTrailer16AvFlag

definition evidence_id :: "search_mode \<Rightarrow> u8" where
  "evidence_id m =
     (case m of Conservative \<Rightarrow> 0 | Provisional \<Rightarrow> 1 | StructuredTrailer16 \<Rightarrow> 2 | StructuredTrailer16AvFlag \<Rightarrow> 3)"

definition from_evidence_id :: "u8 \<Rightarrow> search_mode option" where
  "from_evidence_id i =
     (if i = 0 then Some Conservative else if i = 1 then Some Provisional else if i = 2 then Some StructuredTrailer16
      else if i = 3 then Some StructuredTrailer16AvFlag else None)"

datatype record_kind =
    HeaderKind
  | FirstTagKind u8 u32
  | CandidateKind usize u8 u32 bool bool search_mode

record source_record =
  sr_offset :: u64
  sr_kind :: record_kind
  sr_bytes :: bytes

definition try_duplicate :: "(usize \<Rightarrow> bool) \<Rightarrow> source_record \<Rightarrow> stream_error + source_record" where
  "try_duplicate alloc r = (if \<not> alloc (length (sr_bytes r)) then Inl Allocation else Inr r)"

definition tag_range :: "source_record \<Rightarrow> (usize \<times> usize) option" where
  "tag_range r =
     (case sr_kind r of
        HeaderKind \<Rightarrow> None
      | FirstTagKind _ _ \<Rightarrow> Some (0, length (sr_bytes r))
      | CandidateKind trailer_bytes _ _ _ _ _ \<Rightarrow> Some (trailer_bytes, length (sr_bytes r)))"

datatype next_record = NextNeedMore | Record source_record

record remainder =
  re_offset :: u64
  re_phase :: flv_phase
  re_provisional :: bool
  re_bytes :: bytes

record framer =
  fr_limits :: flv_limits
  fr_max_buffer :: usize
  fr_phase :: flv_phase
  fr_mode :: search_mode
  fr_last_tag_kind :: "u8 option"
  fr_provisional :: bool
  fr_base :: u64
  fr_buffer :: bytes
  fr_head :: usize

definition with_mode :: "flv_limits \<Rightarrow> usize \<Rightarrow> search_mode \<Rightarrow> stream_error + framer" where
  "with_mode limits max_buffer mode =
     (if \<not> (13 \<le> max_buffer \<and> max_buffer \<le> MAX_BUFFER_BYTES)
         \<or> (case header_parse [] limits of Inl _ \<Rightarrow> True | Inr _ \<Rightarrow> False)
         \<or> mode \<in> {StructuredTrailer16, StructuredTrailer16AvFlag} \<and> fl_max_trailer limits < 16
      then Inl Configuration
      else Inr \<lparr>fr_limits = limits, fr_max_buffer = max_buffer, fr_phase = Header, fr_mode = mode,
                fr_last_tag_kind = None, fr_provisional = False, fr_base = 0, fr_buffer = [], fr_head = 0\<rparr>)"

definition framer_new :: "flv_limits \<Rightarrow> usize \<Rightarrow> stream_error + framer" where
  "framer_new limits max_buffer = with_mode limits max_buffer Conservative"

definition buffered_len :: "framer \<Rightarrow> usize" where
  "buffered_len f = length (fr_buffer f) - fr_head f"

definition remaining_capacity :: "framer \<Rightarrow> usize" where
  "remaining_capacity f = fr_max_buffer f - buffered_len f"

definition next_offset :: "framer \<Rightarrow> u64" where
  "next_offset f = fr_base f + buffered_len f"

text \<open>\<open>copy_within(head.., 0)\<close> moves the tail to the front; \<open>truncate\<close> then drops what it left behind.\<close>

definition copy_within_front :: "usize \<Rightarrow> bytes \<Rightarrow> bytes" where
  "copy_within_front head b = drop head b @ drop (length b - head) b"

definition framer_append ::
  "(usize \<Rightarrow> bool) \<Rightarrow> u64 \<Rightarrow> bytes \<Rightarrow> framer \<Rightarrow> (stream_error + unit) \<times> framer" where
  "framer_append alloc offset bs f =
     (if offset \<noteq> next_offset f then (Inl OffsetMismatch, f)
      else if checked_add offset (length bs) = None then (Inl OffsetOverflow, f)
      else if length bs > remaining_capacity f then (Inl BufferLimit, f)
      else
        let f = (if length (fr_buffer f) + length bs > fr_max_buffer f
                 then f\<lparr>fr_buffer := take (buffered_len f) (copy_within_front (fr_head f) (fr_buffer f)), fr_head := 0\<rparr>
                 else f) in
        if \<not> alloc (length bs) then (Inl Allocation, f)
        else (Inr (), f\<lparr>fr_buffer := fr_buffer f @ bs\<rparr>))"

definition structured_trailer_16 ::
  "bytes \<Rightarrow> flv_limits \<Rightarrow> u8 option \<Rightarrow> stream_error + flv_candidate flv_parse" where
  "structured_trailer_16 bs limits flag =
     (if length bs < 16 then Inr NeedMore
      else if subslice bs 4 11 \<noteq> replicate 7 0 \<or> bs ! 11 \<noteq> (case flag of None \<Rightarrow> 0 | Some b \<Rightarrow> b)
      then Inl TrailerPolicyMismatch
      else if length bs \<ge> 27 \<and> subslice bs 24 27 \<noteq> replicate 3 0 then Inl TrailerPolicyMismatch
      else
        (case tag_parse (drop 16 bs) limits of
           Inr NeedMore \<Rightarrow> Inr NeedMore
         | Inr (Complete t) \<Rightarrow> Inr (Complete \<lparr>ca_trailer = take 16 bs, ca_tag = t, ca_earlier_incomplete = False\<rparr>)
         | Inl _ \<Rightarrow> Inl TrailerPolicyMismatch))"

definition successor_search :: "framer \<Rightarrow> bytes \<Rightarrow> stream_error + flv_candidate flv_parse" where
  "successor_search f bs =
     (case fr_mode f of
        Conservative \<Rightarrow> map_err Parse (find_next bs (fr_limits f))
      | Provisional \<Rightarrow> map_err Parse (find_next_provisional bs (fr_limits f))
      | StructuredTrailer16 \<Rightarrow> structured_trailer_16 bs (fr_limits f) None
      | StructuredTrailer16AvFlag \<Rightarrow>
          if fr_last_tag_kind f = Some 8 then structured_trailer_16 bs (fr_limits f) (Some 0)
          else if fr_last_tag_kind f = Some 9 \<or> fr_last_tag_kind f = Some 18
          then structured_trailer_16 bs (fr_limits f) (Some 1)
          else Inl TrailerPolicyMismatch)"

text \<open>The match on the phase that opens \<open>take\<close>: the length, kind and next phase of a complete record.\<close>

definition framer_scan :: "framer \<Rightarrow> bytes \<Rightarrow> stream_error + (usize \<times> record_kind \<times> flv_phase) flv_parse" where
  "framer_scan f bs =
     (case fr_phase f of
        Header \<Rightarrow>
          try_then (map_err Parse (header_parse bs (fr_limits f))) (\<lambda>p.
            case p of
              NeedMore \<Rightarrow> Inr NeedMore
            | Complete h \<Rightarrow> Inr (Complete (length (fh_bytes h), HeaderKind, FirstTag)))
      | FirstTag \<Rightarrow>
          try_then (map_err Parse (tag_parse bs (fr_limits f))) (\<lambda>p.
            case p of
              NeedMore \<Rightarrow> Inr NeedMore
            | Complete t \<Rightarrow> Inr (Complete (length (ft_bytes t), FirstTagKind (tag_kind_of t) (tag_timestamp_ms t), Successor)))
      | Successor \<Rightarrow>
          try_then (successor_search f bs) (\<lambda>p.
            case p of
              NeedMore \<Rightarrow> Inr NeedMore
            | Complete c \<Rightarrow>
                Inr (Complete (length (ca_trailer c) + length (ft_bytes (ca_tag c)),
                  CandidateKind (length (ca_trailer c)) (tag_kind_of (ca_tag c)) (tag_timestamp_ms (ca_tag c))
                    (ca_earlier_incomplete c) (fr_provisional f \<or> ca_earlier_incomplete c) (fr_mode f), Successor))))"

definition kind_tag :: "record_kind \<Rightarrow> u8 option" where
  "kind_tag k = (case k of HeaderKind \<Rightarrow> None | FirstTagKind t _ \<Rightarrow> Some t | CandidateKind _ t _ _ _ _ \<Rightarrow> Some t)"

definition kind_provisional :: "record_kind \<Rightarrow> bool" where
  "kind_provisional k = (case k of CandidateKind _ _ _ _ p _ \<Rightarrow> p | _ \<Rightarrow> False)"

text \<open>The fields \<open>take\<close> updates once a record has been copied out.\<close>

definition framer_advance :: "flv_phase \<Rightarrow> record_kind \<Rightarrow> framer \<Rightarrow> framer" where
  "framer_advance phase kind f =
     f\<lparr>fr_phase := phase,
       fr_last_tag_kind := (case kind_tag kind of Some t \<Rightarrow> Some t | None \<Rightarrow> fr_last_tag_kind f),
       fr_provisional := (if kind_provisional kind then True else fr_provisional f)\<rparr>"

definition framer_take :: "(usize \<Rightarrow> bool) \<Rightarrow> framer \<Rightarrow> (stream_error + next_record) \<times> framer" where
  "framer_take alloc f =
     (case framer_scan f (drop (fr_head f) (fr_buffer f)) of
        Inl err \<Rightarrow> (Inl err, f)
      | Inr NeedMore \<Rightarrow> (Inr NextNeedMore, f)
      | Inr (Complete (len, kind, next_phase)) \<Rightarrow>
          (case checked_add (fr_base f) len of
             None \<Rightarrow> (Inl OffsetOverflow, f)
           | Some stop \<Rightarrow>
               if \<not> alloc len then (Inl Allocation, f)
               else
                 (Inr (Record \<lparr>sr_offset = fr_base f, sr_kind = kind,
                     sr_bytes = subslice (fr_buffer f) (fr_head f) (fr_head f + len)\<rparr>),
                  framer_advance next_phase kind (f\<lparr>fr_head := fr_head f + len, fr_base := stop\<rparr>))))"

definition framer_retire :: "framer \<Rightarrow> remainder" where
  "framer_retire f =
     \<lparr>re_offset = fr_base f, re_phase = fr_phase f, re_provisional = fr_provisional f,
      re_bytes = take (buffered_len f) (copy_within_front (fr_head f) (fr_buffer f))\<rparr>"

section \<open>Verdicts do not change as bytes arrive\<close>

locale stable_parser =
  fixes parse :: "bytes \<Rightarrow> 'e + 'a flv_parse"
    and extent :: "'a \<Rightarrow> nat"
  assumes stable_complete: "parse bs = Inr (Complete x) \<Longrightarrow> parse (bs @ later) = Inr (Complete x)"
    and stable_error: "parse bs = Inl err \<Longrightarrow> parse (bs @ later) = Inl err"
    and consumes: "parse bs = Inr (Complete x) \<Longrightarrow> 0 < extent x \<and> extent x \<le> length bs"
begin

lemma verdict_fixed: "parse bs \<noteq> Inr NeedMore \<Longrightarrow> parse (bs @ later) = parse bs"
  using stable_complete stable_error by (cases "parse bs") (auto, metis flv_parse.exhaust)

text \<open>Two streams that agree as far as both verdicts looked get the same verdict.\<close>

lemma verdict_unique:
  assumes "parse bs \<noteq> Inr NeedMore" and "parse bs' \<noteq> Inr NeedMore" and "bs @ later = bs' @ later'"
  shows "parse bs = parse bs'"
  using verdict_fixed [OF assms(1), of later] verdict_fixed [OF assms(2), of later'] assms(3) by simp

end

lemma header_parse_append: "header_parse bs l \<noteq> Inr NeedMore \<Longrightarrow> header_parse (bs @ later) l = header_parse bs l"
  by (cases "limits_validate l")
    (auto simp: header_parse_def Let_def nth_append subslice_append_left TAG_SUFFIX_def split: if_splits)

lemma header_parse_extent:
  assumes "header_parse bs l = Inr (Complete h)"
  shows "0 < length (fh_bytes h) \<and> length (fh_bytes h) \<le> length bs"
proof -
  let ?n = "from_be (subslice bs 5 9) + TAG_SUFFIX"
  have n: "?n \<le> length bs" "fh_bytes h = subslice bs 0 ?n" "0 < ?n"
    using assms by (auto simp: header_parse_def Let_def rust_simps split: if_splits)
  then have "length (fh_bytes h) = ?n" by simp
  then show ?thesis using n(1,3) by metis
qed

lemma tag_parse_append:
  assumes "tag_parse bs l \<noteq> Inr NeedMore"
  shows "tag_parse (bs @ later) l = tag_parse bs l"
proof (cases "limits_validate l")
  case (Inr u)
  have ne: "bs \<noteq> []" using assms Inr by (auto simp: tag_parse_def)
  show ?thesis
  proof (cases "bs ! 0 \<in> {8, 9, 10, 18}")
    case True
    then have h: "\<not> length bs < TAG_HEADER" using assms Inr ne by (auto simp: tag_parse_def)
    let ?len = "from_be (subslice bs 1 4)"
    have len: "from_be (subslice (bs @ later) 1 4) = ?len" using h by (simp add: subslice_append_left TAG_HEADER_def)
    have w: "\<not> length bs < TAG_HEADER + ?len + TAG_SUFFIX" if "\<not> ?len > fl_max_payload l"
      using that assms Inr ne True h by (simp add: tag_parse_def Let_def del: insert_iff One_nat_def split: if_splits)
    show ?thesis
    proof (cases "?len > fl_max_payload l")
      case False
      then show ?thesis using w len h ne True Inr
        by (simp add: tag_parse_def Let_def nth_append subslice_append_left TAG_SUFFIX_def TAG_HEADER_def)
    qed (use len h ne True Inr in \<open>simp add: tag_parse_def Let_def nth_append\<close>)
  qed (use ne Inr in \<open>simp add: tag_parse_def nth_append\<close>)
qed (simp add: tag_parse_def)

lemma tag_parse_extent:
  assumes "tag_parse bs l = Inr (Complete h)"
  shows "0 < length (ft_bytes h) \<and> length (ft_bytes h) \<le> length bs"
proof -
  let ?n = "TAG_HEADER + from_be (subslice bs 1 4) + TAG_SUFFIX"
  have n: "?n \<le> length bs" "ft_bytes h = subslice bs 0 ?n"
    using assms by (auto simp: tag_parse_def Let_def rust_simps not_less simp del: insert_iff split: if_splits)
  moreover have "0 < ?n" by (simp add: TAG_HEADER_def)
  moreover have "length (ft_bytes h) = ?n" using n by simp
  ultimately show ?thesis by metis
qed

text \<open>An earlier incomplete tag blocks every later one, so a verdict has seen only settled offsets.\<close>

lemma tag_parse_errors:
  "limits_validate l = Inr () \<Longrightarrow> tag_parse bs l = Inl err \<Longrightarrow> err \<in> {InvalidTagKind, PayloadLimit, PreviousTagSize}"
  by (auto simp: tag_parse_def Let_def split: if_splits)

lemma search_loop_waits: "limits_validate l = Inr () \<Longrightarrow> search_loop bs l False True offsets = Inr NeedMore"
  by (induction offsets) (auto dest: tag_parse_errors split: sum.splits flv_parse.splits)

lemma search_loop_complete:
  assumes "limits_validate l = Inr ()" and "search_loop bs l False False offsets = Inr (Complete c)"
    and "\<forall>k\<in>set offsets. k < length bs"
  shows "search_loop (bs @ later) l False False (offsets @ others) = Inr (Complete c)"
  using assms(2,3)
proof (induction offsets)
  case (Cons k offsets)
  have d: "drop k (bs @ later) = drop k bs @ later" "take k (bs @ later) = take k bs" using Cons.prems(2) by simp_all
  have ne: "tag_parse (drop k bs) l \<noteq> Inr NeedMore" using Cons.prems(1) search_loop_waits [OF assms(1)] by auto
  then show ?case using Cons d tag_parse_append [OF ne]
    by (cases "tag_parse (drop k bs) l") (auto split: flv_parse.splits if_splits)
qed (simp split: if_splits)

lemma search_loop_error:
  assumes "limits_validate l = Inr ()" and "search_loop bs l False False offsets = Inl err"
    and "\<forall>k\<in>set offsets. k < length bs"
  shows "search_loop (bs @ later) l False False offsets = Inl err \<and> fl_max_trailer l < length bs"
  using assms(2,3)
proof (induction offsets)
  case (Cons k offsets)
  have d: "drop k (bs @ later) = drop k bs @ later" using Cons.prems(2) by simp
  have ne: "tag_parse (drop k bs) l \<noteq> Inr NeedMore" using Cons.prems(1) search_loop_waits [OF assms(1)] by auto
  then show ?case using Cons d tag_parse_append [OF ne] tag_parse_errors [OF assms(1), of "drop k bs"]
    by (cases "tag_parse (drop k bs) l") (auto split: flv_parse.splits if_splits)
qed (auto split: if_splits)

lemma search_loop_extent:
  assumes "search_loop bs l prov pending offsets = Inr (Complete c)" and "\<forall>k\<in>set offsets. k < length bs"
  shows "0 < length (ca_trailer c) + length (ft_bytes (ca_tag c))
    \<and> length (ca_trailer c) + length (ft_bytes (ca_tag c)) \<le> length bs"
  using assms
proof (induction offsets arbitrary: pending)
  case (Cons k offsets)
  show ?case
  proof (cases "\<exists>t. tag_parse (drop k bs) l = Inr (Complete t) \<and> (\<not> pending \<or> prov)")
    case True
    then show ?thesis using Cons.prems tag_parse_extent [of "drop k bs" l] by auto
  next
    case False
    then show ?thesis using Cons by (auto split: sum.splits flv_parse.splits if_splits)
  qed
qed (simp split: if_splits)

lemma find_next_stable:
  shows "find_next bs l = Inr (Complete c) \<Longrightarrow> find_next (bs @ later) l = Inr (Complete c)"
    and "find_next bs l = Inl err \<Longrightarrow> find_next (bs @ later) l = Inl err"
proof -
  define count where "count bs = min (length bs) (fl_max_trailer l + 1)" for bs :: bytes
  have run: "limits_validate l = Inr () \<Longrightarrow> find_next b l = search_loop b l False False [0..<count b]"
    "limits_validate l = Inl e \<Longrightarrow> find_next b l = Inl e" for b e
    by (simp_all add: find_next_def flv_search_def count_def)
  have "[0..<count (bs @ later)] = [0..<count bs] @ [count bs..<count (bs @ later)]"
    using upt_add_eq_append [of 0 "count bs" "count (bs @ later) - count bs"] by (simp add: count_def)
  moreover have k: "\<forall>k\<in>set [0..<count bs]. k < length bs" by (simp add: count_def)
  ultimately show "find_next bs l = Inr (Complete c) \<Longrightarrow> find_next (bs @ later) l = Inr (Complete c)"
    using search_loop_complete [OF _ _ k] by (cases "limits_validate l") (simp_all add: run)
  have "count (bs @ later) = count bs" if "fl_max_trailer l < length bs" using that by (simp add: count_def)
  then show "find_next bs l = Inl err \<Longrightarrow> find_next (bs @ later) l = Inl err"
    using search_loop_error [OF _ _ k, of l err] by (cases "limits_validate l") (auto simp: run)
qed

interpretation headerp: stable_parser "\<lambda>bs. header_parse bs l" "\<lambda>h. length (fh_bytes h)" for l
  by unfold_locales (simp_all add: header_parse_append header_parse_extent del: length_greater_0_conv)

interpretation tagp: stable_parser "\<lambda>bs. tag_parse bs l" "\<lambda>t. length (ft_bytes t)" for l
  by unfold_locales (simp_all add: tag_parse_append tag_parse_extent del: length_greater_0_conv)

definition candidate_extent :: "flv_candidate \<Rightarrow> usize" where
  "candidate_extent c = length (ca_trailer c) + length (ft_bytes (ca_tag c))"

lemma flv_search_extent:
  assumes "flv_search bs l prov = Inr (Complete c)"
  shows "0 < candidate_extent c \<and> candidate_extent c \<le> length bs"
proof -
  let ?offsets = "[0..<min (length bs) (fl_max_trailer l + 1)]"
  have "search_loop bs l prov False ?offsets = Inr (Complete c)"
    using assms unfolding flv_search_def Let_def try_then_Inr_iff by blast
  then show ?thesis unfolding candidate_extent_def by (rule search_loop_extent) simp
qed

interpretation searchp: stable_parser "\<lambda>bs. find_next bs l" candidate_extent for l
proof
  show "0 < candidate_extent c \<and> candidate_extent c \<le> length bs" if "find_next bs l = Inr (Complete c)" for bs c
    using that flv_search_extent by (simp add: find_next_def)
qed (rule find_next_stable, assumption)+

lemma structured_extent:
  assumes "structured_trailer_16 bs l flag = Inr (Complete c)"
  shows "0 < candidate_extent c \<and> candidate_extent c \<le> length bs"
proof -
  obtain t where t: "\<not> length bs < 16" "tag_parse (drop 16 bs) l = Inr (Complete t)"
      "c = \<lparr>ca_trailer = take 16 bs, ca_tag = t, ca_earlier_incomplete = False\<rparr>"
    using assms by (auto simp: structured_trailer_16_def split: if_splits sum.splits flv_parse.splits)
  then show ?thesis using tagp.consumes [OF t(2)] by (auto simp: candidate_extent_def)
qed

lemma structured_append:
  assumes "structured_trailer_16 bs l flag \<noteq> Inr NeedMore"
  shows "structured_trailer_16 (bs @ later) l flag = structured_trailer_16 bs l flag"
proof -
  have len: "\<not> length bs < 16" using assms by (auto simp: structured_trailer_16_def)
  have eqs: "subslice (bs @ later) 4 11 = subslice bs 4 11" "(bs @ later) ! 11 = bs ! 11" "take 16 (bs @ later) = take 16 bs"
    "drop 16 (bs @ later) = drop 16 bs @ later" "27 \<le> length bs \<Longrightarrow> subslice (bs @ later) 24 27 = subslice bs 24 27"
    using len by (simp_all add: subslice_append_left nth_append)
  show ?thesis
  proof (cases "subslice bs 4 11 \<noteq> replicate 7 0 \<or> bs ! 11 \<noteq> (case flag of None \<Rightarrow> 0 | Some b \<Rightarrow> b)
      \<or> (27 \<le> length bs \<and> subslice bs 24 27 \<noteq> replicate 3 0)")
    case True
    then show ?thesis using len eqs by (auto simp: structured_trailer_16_def)
  next
    case False
    then have "tag_parse (drop 16 bs) l \<noteq> Inr NeedMore" using assms len by (auto simp: structured_trailer_16_def)
    then have t: "tag_parse (drop 16 bs @ later) l = tag_parse (drop 16 bs) l" by (rule tag_parse_append)
    show ?thesis
    proof (cases "tag_parse (drop 16 bs) l")
      case (Inl e)
      then show ?thesis using False len eqs t by (auto simp: structured_trailer_16_def)
    next
      case (Inr r)
      then obtain x where x: "r = Complete x" using assms False len
        by (cases r) (auto simp: structured_trailer_16_def)
      then have "27 \<le> length bs" using Inr by (auto simp: tag_parse_def Let_def TAG_HEADER_def TAG_SUFFIX_def rust_simps
          simp del: insert_iff split: if_splits)
      then show ?thesis using False len eqs t Inr x by (auto simp: structured_trailer_16_def)
    qed
  qed
qed

interpretation structuredp: stable_parser "\<lambda>bs. structured_trailer_16 bs l flag" candidate_extent for l flag
  by unfold_locales (simp_all add: structured_append structured_extent)

section \<open>The framer against framing the whole stream\<close>

lemma successor_search_extent:
  "successor_search f bs = Inr (Complete c) \<Longrightarrow> 0 < candidate_extent c \<and> candidate_extent c \<le> length bs"
  by (auto simp: successor_search_def rust_simps find_next_def find_next_provisional_def
      dest!: flv_search_extent structured_extent split: search_mode.splits if_splits)

lemma successor_search_append:
  assumes "fr_mode f \<noteq> Provisional" and "successor_search f bs \<noteq> Inr NeedMore"
  shows "successor_search f (bs @ later) = successor_search f bs"
proof (cases "fr_mode f")
  case Conservative
  then have "find_next bs (fr_limits f) \<noteq> Inr NeedMore" using assms(2) by (auto simp: successor_search_def)
  then show ?thesis using Conservative searchp.verdict_fixed by (simp add: successor_search_def)
qed (use assms structured_append in \<open>auto simp: successor_search_def\<close>)

lemma case_Complete:
  "(case p of NeedMore \<Rightarrow> Inr NeedMore | Complete x \<Rightarrow> Inr (Complete (g x))) = Inr (Complete y)
     \<longleftrightarrow> (\<exists>x. p = Complete x \<and> y = g x)"
  by (cases p) auto

lemma framer_scan_extent: "framer_scan f bs = Inr (Complete (len, kind, phase)) \<Longrightarrow> 0 < len \<and> len \<le> length bs"
  by (cases "fr_phase f") (auto simp: framer_scan_def rust_simps case_Complete candidate_extent_def
      simp del: length_greater_0_conv dest!: headerp.consumes tagp.consumes successor_search_extent)

lemma framer_scan_append:
  assumes "fr_mode f \<noteq> Provisional" and "framer_scan f bs \<noteq> Inr NeedMore"
  shows "framer_scan f (bs @ later) = framer_scan f bs"
proof (cases "fr_phase f")
  case Header
  then have "header_parse bs (fr_limits f) \<noteq> Inr NeedMore" using assms(2) by (auto simp: framer_scan_def)
  then show ?thesis using Header headerp.verdict_fixed by (simp add: framer_scan_def)
next
  case FirstTag
  then have "tag_parse bs (fr_limits f) \<noteq> Inr NeedMore" using assms(2) by (auto simp: framer_scan_def)
  then show ?thesis using FirstTag tagp.verdict_fixed by (simp add: framer_scan_def)
next
  case Successor
  then have "successor_search f bs \<noteq> Inr NeedMore" using assms(2) by (auto simp: framer_scan_def)
  then show ?thesis using Successor successor_search_append [OF assms(1)] by (simp add: framer_scan_def)
qed

text \<open>The reference: the records of a stream that is there as a whole, from the state of a framer.\<close>

definition framer_moved :: "usize \<Rightarrow> record_kind \<Rightarrow> flv_phase \<Rightarrow> framer \<Rightarrow> framer" where
  "framer_moved len kind phase f = framer_advance phase kind (f\<lparr>fr_base := fr_base f + len\<rparr>)"

function frames :: "framer \<Rightarrow> bytes \<Rightarrow> source_record list" where
  "frames f bs =
     (case framer_scan f bs of
        Inr (Complete (len, kind, phase)) \<Rightarrow>
          \<lparr>sr_offset = fr_base f, sr_kind = kind, sr_bytes = take len bs\<rparr> # frames (framer_moved len kind phase f) (drop len bs)
      | _ \<Rightarrow> [])"
  by pat_completeness auto
termination
  by (relation "measure (length \<circ> snd)") (auto dest!: framer_scan_extent)

declare frames.simps [simp del]

text \<open>The bytes a framer holds, and its state without them.\<close>

definition buffered :: "framer \<Rightarrow> bytes" where
  "buffered f = drop (fr_head f) (fr_buffer f)"

definition control :: "framer \<Rightarrow> framer" where
  "control f = f\<lparr>fr_buffer := [], fr_head := 0\<rparr>"

lemma framer_scan_control [simp]: "framer_scan (control f) bs = framer_scan f bs"
proof -
  have "successor_search (control f) bs = successor_search f bs"
    by (cases "fr_mode f") (simp_all add: control_def successor_search_def)
  then show ?thesis by (cases "fr_phase f") (simp_all add: framer_scan_def control_def)
qed

lemma control_simps [simp]: "fr_mode (control f) = fr_mode f" "fr_base (control f) = fr_base f"
  by (simp_all add: control_def)

definition framer_inv :: "framer \<Rightarrow> bool" where
  "framer_inv f \<longleftrightarrow> fr_head f \<le> length (fr_buffer f) \<and> length (fr_buffer f) \<le> fr_max_buffer f
     \<and> fr_base f + length (buffered f) \<le> u64_max"

lemma buffered_len_eq: "buffered_len f = length (buffered f)"
  by (simp add: buffered_len_def buffered_def)

lemma compact: "take (buffered_len f) (copy_within_front (fr_head f) (fr_buffer f)) = buffered f"
  by (simp add: buffered_len_def copy_within_front_def buffered_def)

text \<open>An append either adds its bytes to what is held, or changes nothing that can be seen.\<close>

lemma framer_append_effect:
  assumes "framer_inv f" and "framer_append alloc offset bs f = (res, g)"
  shows "framer_inv g \<and> control g = control f
    \<and> (case res of
         Inr _ \<Rightarrow> buffered g = buffered f @ bs \<and> offset = next_offset f
       | Inl _ \<Rightarrow> buffered g = buffered f)"
proof (cases "offset = next_offset f \<and> checked_add offset (length bs) \<noteq> None \<and> length bs \<le> remaining_capacity f")
  case True
  define h where "h = (if length (fr_buffer f) + length bs > fr_max_buffer f
      then f\<lparr>fr_buffer := take (buffered_len f) (copy_within_front (fr_head f) (fr_buffer f)), fr_head := 0\<rparr> else f)"
  have h: "buffered h = buffered f" "control h = control f" "fr_head h \<le> length (fr_buffer h)"
      "fr_max_buffer h = fr_max_buffer f" "fr_base h = fr_base f"
    using assms(1) by (auto simp: h_def compact buffered_def control_def framer_inv_def)
  have "length (buffered f) + length bs \<le> fr_max_buffer f"
    using True assms(1) by (auto simp: remaining_capacity_def buffered_len_eq framer_inv_def buffered_def)
  then have fit: "length (fr_buffer h) + length bs \<le> fr_max_buffer f" by (auto simp: h_def compact)
  have "fr_base f + length (buffered f) + length bs \<le> u64_max"
    using True by (auto simp: rust_simps next_offset_def buffered_len_eq)
  moreover have "(res, g) = (if \<not> alloc (length bs) then (Inl Allocation, h) else (Inr (), h\<lparr>fr_buffer := fr_buffer h @ bs\<rparr>))"
    using assms(2) True by (auto simp: framer_append_def h_def [symmetric] not_less Let_def)
  ultimately show ?thesis using h fit True
    by (cases "alloc (length bs)") (auto simp: framer_inv_def buffered_def control_def)
next
  case False
  then have "g = f" "\<exists>err. res = Inl err" using assms(2) by (auto simp: framer_append_def not_less split: if_splits)
  then show ?thesis using assms(1) by auto
qed

lemma framer_take_effect:
  assumes "framer_inv f" and "framer_take alloc f = (res, g)"
  shows "framer_inv g \<and> (case res of
      Inr (Record r) \<Rightarrow> \<exists>len kind phase. framer_scan f (buffered f) = Inr (Complete (len, kind, phase))
        \<and> r = \<lparr>sr_offset = fr_base f, sr_kind = kind, sr_bytes = take len (buffered f)\<rparr>
        \<and> control g = framer_moved len kind phase (control f) \<and> buffered g = drop len (buffered f)
    | Inr NextNeedMore \<Rightarrow> g = f \<and> framer_scan f (buffered f) = Inr NeedMore
    | Inl err \<Rightarrow> g = f \<and> (err = Allocation \<or> framer_scan f (buffered f) = Inl err))"
proof (cases "framer_scan f (buffered f)")
  case (Inl e)
  then show ?thesis using assms by (auto simp: framer_take_def buffered_def [symmetric])
next
  case (Inr p)
  show ?thesis
  proof (cases p)
    case NeedMore
    then show ?thesis using assms Inr by (auto simp: framer_take_def buffered_def [symmetric])
  next
    case (Complete x)
    obtain len kind phase where x: "x = (len, kind, phase)" by (cases x)
    have len: "0 < len" "len \<le> length (buffered f)" using framer_scan_extent Inr Complete x by auto
    have sum: "checked_add (fr_base f) len = Some (fr_base f + len)"
      using assms(1) len by (simp add: checked_add_def framer_inv_def)
    have cut: "subslice (fr_buffer f) (fr_head f) (fr_head f + len) = take len (buffered f)"
      by (simp add: subslice_def buffered_def)
    show ?thesis
    proof (cases "alloc len")
      case True
      then have "res = Inr (Record \<lparr>sr_offset = fr_base f, sr_kind = kind, sr_bytes = take len (buffered f)\<rparr>)"
        "g = framer_advance phase kind (f\<lparr>fr_head := fr_head f + len, fr_base := fr_base f + len\<rparr>)"
        using assms(2) Inr Complete x sum cut by (simp_all add: framer_take_def buffered_def [symmetric])
      moreover have "control (framer_advance phase kind (f\<lparr>fr_head := fr_head f + len, fr_base := fr_base f + len\<rparr>))
          = framer_moved len kind phase (control f)"
        by (cases f; cases "kind_tag kind") (simp_all add: framer_advance_def framer_moved_def control_def)
      ultimately show ?thesis using assms(1) Inr Complete x len
        by (auto simp: framer_inv_def buffered_def framer_advance_def add.commute)
    qed (use assms Inr Complete x sum in \<open>auto simp: framer_take_def buffered_def [symmetric]\<close>)
  qed
qed

section \<open>Runs\<close>

text \<open>A caller feeds slices and pulls records in any order, with any allocation outcomes. The run collects
  the records and the bytes that were accepted.\<close>

datatype framer_event = Feed "usize \<Rightarrow> bool" u64 bytes | Pull "usize \<Rightarrow> bool"

fun framer_run :: "framer \<Rightarrow> framer_event list \<Rightarrow> source_record list \<times> bytes \<times> framer" where
  "framer_run f [] = ([], [], f)"
| "framer_run f (Feed alloc offset bs # evs) =
     (let (res, f) = framer_append alloc offset bs f; (rs, fed, g) = framer_run f evs
      in (rs, (case res of Inr _ \<Rightarrow> bs @ fed | Inl _ \<Rightarrow> fed), g))"
| "framer_run f (Pull alloc # evs) =
     (let (res, f) = framer_take alloc f; (rs, fed, g) = framer_run f evs
      in (case res of Inr (Record r) \<Rightarrow> r # rs | _ \<Rightarrow> rs, fed, g))"

text \<open>Records tile the stream: each starts where the one before it ended, and none is empty.\<close>

fun tiles :: "u64 \<Rightarrow> source_record list \<Rightarrow> bool" where
  "tiles base [] = True"
| "tiles base (r # rs) \<longleftrightarrow> sr_offset r = base \<and> sr_bytes r \<noteq> [] \<and> tiles (base + length (sr_bytes r)) rs"

lemma framer_moved_simps [simp]:
  "fr_base (framer_moved len kind phase f) = fr_base f + len" "fr_mode (framer_moved len kind phase f) = fr_mode f"
  by (simp_all add: framer_moved_def framer_advance_def)

definition accounted_run :: "framer \<Rightarrow> source_record list \<Rightarrow> bytes \<Rightarrow> framer \<Rightarrow> bool" where
  "accounted_run f rs fed g \<longleftrightarrow> framer_inv g \<and> fr_max_buffer g = fr_max_buffer f
     \<and> concat (map sr_bytes rs) @ buffered g = buffered f @ fed \<and> tiles (fr_base f) rs
     \<and> fr_base g = fr_base f + length (concat (map sr_bytes rs)) \<and> fr_mode g = fr_mode f
     \<and> (fr_mode f \<noteq> Provisional \<longrightarrow>
          (\<forall>later. frames (control f) (buffered f @ fed @ later) = rs @ frames (control g) (buffered g @ later)))"

lemma control_eqD: "control g = control f \<Longrightarrow> fr_base g = fr_base f \<and> fr_mode g = fr_mode f \<and> fr_max_buffer g = fr_max_buffer f"
  by (cases f; cases g) (auto simp: control_def)

lemma control_movedD:
  "control g = framer_moved len kind phase (control f) \<Longrightarrow>
     fr_base g = fr_base f + len \<and> fr_mode g = fr_mode f \<and> fr_max_buffer g = fr_max_buffer f"
  by (cases f; cases g) (simp add: control_def framer_moved_def framer_advance_def)

lemma framer_run_accounted: "framer_inv f \<Longrightarrow> framer_run f evs = (rs, fed, g) \<Longrightarrow> accounted_run f rs fed g"
proof (induction f evs arbitrary: rs fed g rule: framer_run.induct)
  case (1 f)
  then show ?case by (simp add: accounted_run_def)
next
  case (2 f alloc offset bs evs)
  obtain res h where a: "framer_append alloc offset bs f = (res, h)" by fastforce
  obtain fed' where r: "framer_run h evs = (rs, fed', g)" "fed = (case res of Inr _ \<Rightarrow> bs @ fed' | Inl _ \<Rightarrow> fed')"
    using 2(3) a by (auto split: prod.splits)
  note E = framer_append_effect [OF 2(2) a]
  have "accounted_run h rs fed' g" using 2(1) a r(1) E by auto
  then show ?case using E control_eqD [of h f] r(2) by (cases res) (auto simp: accounted_run_def)
next
  case (3 f alloc evs)
  obtain res h where a: "framer_take alloc f = (res, h)" by fastforce
  obtain rs' where r: "framer_run h evs = (rs', fed, g)" "rs = (case res of Inr (Record r) \<Rightarrow> r # rs' | _ \<Rightarrow> rs')"
    using 3(3) a by (auto split: prod.splits)
  note E = framer_take_effect [OF 3(2) a]
  have IH: "accounted_run h rs' fed g" using 3(1) a r(1) E by auto
  show ?case
  proof (cases "\<exists>rc. res = Inr (Record rc)")
    case False
    then have "h = f" "rs = rs'" using E r(2) by (auto split: sum.splits next_record.splits)
    then show ?thesis using IH by simp
  next
    case True
    then obtain rc len kind phase where c: "res = Inr (Record rc)" "framer_scan f (buffered f) = Inr (Complete (len, kind, phase))"
        "rc = \<lparr>sr_offset = fr_base f, sr_kind = kind, sr_bytes = take len (buffered f)\<rparr>"
        "control h = framer_moved len kind phase (control f)" "buffered h = drop len (buffered f)"
      using E by auto
    have len: "0 < len" "len \<le> length (buffered f)" using framer_scan_extent [OF c(2)] by auto
    have "frames (control f) (buffered f @ later) = rc # frames (control h) (buffered h @ later)"
      if "fr_mode f \<noteq> Provisional" for later
      using framer_scan_append [OF that, of "buffered f" later] c len by (subst frames.simps) simp
    then show ?thesis using IH c len r(2) control_movedD [OF c(4)]
      by (auto simp: accounted_run_def min_def)
  qed
qed

section \<open>Properties\<close>

lemma with_mode_fresh:
  assumes "with_mode limits max_buffer mode = Inr f"
  shows "framer_inv f" "buffered f = []" "fr_base f = 0" "fr_mode f = mode" "control f = f" "fr_max_buffer f = max_buffer"
  using assms by (auto simp: with_mode_def framer_inv_def buffered_def control_def split: if_splits)

text \<open>C38: The framer keeps every byte. Whatever slices a caller feeds and whenever it pulls, in every
  search mode and with any allocation failures, the records' bytes in order, followed by the remainder
  returned on retirement, are exactly the bytes accepted so far; each record's offset is where the previous
  one ended; and the framer never holds more than its configured bound.\<close>

theorem flv_custody:
  assumes "with_mode limits max_buffer mode = Inr f" and "framer_run f evs = (rs, fed, g)"
  shows "concat (map sr_bytes rs) @ re_bytes (framer_retire g) = fed \<and> tiles 0 rs
    \<and> re_offset (framer_retire g) = length (concat (map sr_bytes rs))
    \<and> next_offset g = length fed \<and> length fed \<le> u64_max \<and> buffered_len g \<le> max_buffer"
proof -
  note F = with_mode_fresh [OF assms(1)]
  have A: "accounted_run f rs fed g" by (rule framer_run_accounted [OF F(1) assms(2)])
  have "re_bytes (framer_retire g) = buffered g" by (simp add: framer_retire_def compact)
  moreover have all: "concat (map sr_bytes rs) @ buffered g = fed" using A F by (simp add: accounted_run_def)
  moreover have "length fed = length (concat (map sr_bytes rs)) + length (buffered g)" using all by auto
  ultimately show ?thesis using A F
    by (auto simp: accounted_run_def framer_inv_def framer_retire_def next_offset_def buffered_len_eq buffered_def)
qed

definition sample_stream :: bytes where
  "sample_stream = ascii ''FLV'' @ [1, 5, 0, 0, 0, 9, 0, 0, 0, 0] @ [9, 0, 0, 1, 0, 0, 7, 0, 0, 0, 0, 0xaa, 0, 0, 0, 12]"

definition sample_limits :: flv_limits where
  "sample_limits = \<lparr>fl_max_payload = 64, fl_max_trailer = 32, fl_max_header = 16\<rparr>"

definition sample_framer :: framer where
  "sample_framer = \<lparr>fr_limits = sample_limits, fr_max_buffer = 64, fr_phase = Header, fr_mode = Conservative,
     fr_last_tag_kind = None, fr_provisional = False, fr_base = 0, fr_buffer = [], fr_head = 0\<rparr>"

definition sample_feed :: "framer_event list" where
  "sample_feed = [Feed (\<lambda>_. True) 0 (take 7 sample_stream), Pull (\<lambda>_. True), Feed (\<lambda>_. True) 7 (drop 7 sample_stream),
     Pull (\<lambda>_. True), Pull (\<lambda>_. True)]"

lemma sample_limits_ok: "limits_validate sample_limits = Inr ()" "fl_max_payload sample_limits = 64" "fl_max_header sample_limits = 16"
  by (simp_all add: limits_validate_def sample_limits_def ABSOLUTE_MAX_PAYLOAD_def ABSOLUTE_MAX_TRAILER_def ABSOLUTE_MAX_HEADER_def)

lemma sample_framer_new: "with_mode sample_limits 64 Conservative = Inr sample_framer"
  by (simp add: with_mode_def header_parse_def sample_limits_ok sample_framer_def MAX_BUFFER_BYTES_def)

lemma flv_sample_run: "fst (snd (framer_run sample_framer sample_feed)) = sample_stream"
    "map sr_offset (fst (framer_run sample_framer sample_feed)) = [0, 13]"
  by (simp_all add: sample_feed_def sample_stream_def sample_framer_def ascii_def framer_append_def next_offset_def buffered_len_def
      checked_add_def u64_max_def remaining_capacity_def framer_take_def framer_scan_def header_parse_def tag_parse_def
      sample_limits_ok subslice_def from_be_def TAG_SUFFIX_def TAG_HEADER_def framer_advance_def
      kind_tag_def kind_provisional_def Let_def)

lemma flv_sample_run_parts:
  "framer_run sample_framer sample_feed = (fst (framer_run sample_framer sample_feed),
     fst (snd (framer_run sample_framer sample_feed)), snd (snd (framer_run sample_framer sample_feed)))"
  by simp

theorem flv_custody_witness:
  "concat (map sr_bytes (fst (framer_run sample_framer sample_feed)))
     @ re_bytes (framer_retire (snd (snd (framer_run sample_framer sample_feed)))) = sample_stream
   \<and> tiles 0 (fst (framer_run sample_framer sample_feed))"
  using flv_custody [OF sample_framer_new flv_sample_run_parts] flv_sample_run(1) by simp

text \<open>C39: Chunking does not matter. In every mode but the provisional one, the records a framer has emitted
  are an initial part of what framing the whole stream at once would give, whatever bytes are still to
  come; and when a pull answers that it needs more bytes, or refuses the stream, they are all of them.\<close>

theorem flv_chunking_irrelevant:
  assumes "with_mode limits max_buffer mode = Inr f" and "mode \<noteq> Provisional" and "framer_run f evs = (rs, fed, g)"
  shows "prefix rs (frames f (fed @ later))
    \<and> (fst (framer_take alloc g) = Inr NextNeedMore \<longrightarrow> rs = frames f fed)
    \<and> (fst (framer_take alloc g) \<in> {Inl TrailerPolicyMismatch, Inl (Parse err)} \<longrightarrow> rs = frames f (fed @ later))"
proof -
  note F = with_mode_fresh [OF assms(1)]
  have A: "accounted_run f rs fed g" by (rule framer_run_accounted [OF F(1) assms(3)])
  then have eq: "frames f (fed @ t) = rs @ frames (control g) (buffered g @ t)" for t
    using F assms(2) by (simp add: accounted_run_def)
  have inv: "framer_inv g" and mode: "fr_mode g \<noteq> Provisional" using A F assms(2) by (auto simp: accounted_run_def)
  obtain res h where t: "framer_take alloc g = (res, h)" by fastforce
  note E = framer_take_effect [OF inv t]
  have "frames (control g) (buffered g) = []" if "res = Inr NextNeedMore"
    using E that by (subst frames.simps) simp
  moreover have "frames (control g) (buffered g @ later) = []" if q: "res \<in> {Inl TrailerPolicyMismatch, Inl (Parse err)}"
  proof -
    obtain e where "framer_scan g (buffered g) = Inl e" using E q by auto
    then show ?thesis using framer_scan_append [OF mode, of "buffered g" later] by (subst frames.simps) simp
  qed
  ultimately show ?thesis using eq [of later] eq [of "[]"] t by (auto simp: prefix_def)
qed

theorem flv_chunking_irrelevant_witness:
  "prefix (fst (framer_run sample_framer sample_feed)) (frames sample_framer (sample_stream @ [0x55]))
   \<and> map sr_offset (fst (framer_run sample_framer sample_feed)) = [0, 13]"
  using flv_chunking_irrelevant [OF sample_framer_new _ flv_sample_run_parts, of "[0x55]"] flv_sample_run by simp

text \<open>The offset a search settles on.\<close>

definition settles_at :: "bytes \<Rightarrow> flv_limits \<Rightarrow> flv_candidate \<Rightarrow> usize \<Rightarrow> usize \<Rightarrow> bool" where
  "settles_at bs l c a k \<longleftrightarrow> (\<forall>j. a \<le> j \<and> j < k \<longrightarrow> (\<exists>err. tag_parse (drop j bs) l = Inl err))
     \<and> ca_trailer c = take k bs \<and> tag_parse (drop k bs) l = Inr (Complete (ca_tag c)) \<and> \<not> ca_earlier_incomplete c"

lemma settles_at_step:
  assumes "a \<le> k"
  shows "settles_at bs l c a k \<longleftrightarrow>
    (if k = a then ca_trailer c = take a bs \<and> tag_parse (drop a bs) l = Inr (Complete (ca_tag c)) \<and> \<not> ca_earlier_incomplete c
     else (\<exists>err. tag_parse (drop a bs) l = Inl err) \<and> settles_at bs l c (Suc a) k)"
proof (cases "k = a")
  case False
  have "(\<forall>j. a \<le> j \<and> j < k \<longrightarrow> P j) \<longleftrightarrow> P a \<and> (\<forall>j. Suc a \<le> j \<and> j < k \<longrightarrow> P j)" for P
    using assms False by (metis Suc_le_eq le_eq_less_or_eq less_or_eq_imp_le)
  then show ?thesis using False by (auto simp: settles_at_def)
qed (auto simp: settles_at_def)

lemma search_loop_settles:
  assumes "limits_validate l = Inr ()"
  shows "search_loop bs l False False [a..<n] = Inr (Complete c) \<longleftrightarrow> (\<exists>k. a \<le> k \<and> k < n \<and> settles_at bs l c a k)"
proof (induction "n - a" arbitrary: a)
  case 0
  then show ?case by simp
next
  case (Suc d)
  then have a: "a < n" by simp
  have split: "(\<exists>k. a \<le> k \<and> k < n \<and> settles_at bs l c a k) \<longleftrightarrow>
      ca_trailer c = take a bs \<and> tag_parse (drop a bs) l = Inr (Complete (ca_tag c)) \<and> \<not> ca_earlier_incomplete c
      \<or> (\<exists>err. tag_parse (drop a bs) l = Inl err) \<and> (\<exists>k. Suc a \<le> k \<and> k < n \<and> settles_at bs l c (Suc a) k)"
    (is "?L \<longleftrightarrow> ?here \<or> ?later")
  proof -
    have "?L \<longleftrightarrow> settles_at bs l c a a \<or> (\<exists>k. Suc a \<le> k \<and> k < n \<and> settles_at bs l c a k)"
      using a by (metis Suc_leD Suc_leI le_neq_implies_less order_refl)
    moreover have "settles_at bs l c a k \<longleftrightarrow> (\<exists>err. tag_parse (drop a bs) l = Inl err) \<and> settles_at bs l c (Suc a) k" if "Suc a \<le> k" for k
      using that settles_at_step [of a k bs l c] by auto
    ultimately show ?thesis using settles_at_step [of a a bs l c] by auto
  qed
  have IH: "search_loop bs l False False [Suc a..<n] = Inr (Complete c) \<longleftrightarrow>
      (\<exists>k. Suc a \<le> k \<and> k < n \<and> settles_at bs l c (Suc a) k)"
    using Suc.hyps by simp
  show ?case unfolding split upt_conv_Cons [OF a] using IH search_loop_waits [OF assms] tag_parse_errors [OF assms, of "drop a bs"]
    by (cases "tag_parse (drop a bs) l"; cases c) (auto split: flv_parse.splits)
qed

text \<open>C40: The conservative search returns the earliest tag. It completes exactly when, within the allowed
  trailer, some offset holds a complete tag and every earlier offset holds bytes that can never become one;
  the bytes before it are the trailer and the result is not provisional.\<close>

theorem flv_search_earliest:
  "find_next bs l = Inr (Complete c) \<longleftrightarrow>
     limits_validate l = Inr () \<and> (\<exists>k \<le> fl_max_trailer l. k < length bs
       \<and> (\<forall>j. 0 \<le> j \<and> j < k \<longrightarrow> (\<exists>err. tag_parse (drop j bs) l = Inl err))
       \<and> ca_trailer c = take k bs \<and> tag_parse (drop k bs) l = Inr (Complete (ca_tag c)) \<and> \<not> ca_earlier_incomplete c)"
proof (cases "limits_validate l")
  case (Inr u)
  then have "find_next bs l = search_loop bs l False False [0..<min (length bs) (fl_max_trailer l + 1)]"
    by (simp add: find_next_def flv_search_def)
  then show ?thesis using search_loop_settles [of l bs 0 "min (length bs) (fl_max_trailer l + 1)" c] Inr
    unfolding settles_at_def by (auto simp: less_Suc_eq_le)
qed (simp add: find_next_def flv_search_def)

theorem flv_search_earliest_witness:
  "find_next (0x55 # drop 13 sample_stream) sample_limits = Inr (Complete
     \<lparr>ca_trailer = [0x55], ca_tag = \<lparr>ft_bytes = drop 13 sample_stream, ft_payload_len = 1\<rparr>, ca_earlier_incomplete = False\<rparr>)"
proof -
  have "tag_parse (drop 1 (0x55 # drop 13 sample_stream)) sample_limits
      = Inr (Complete \<lparr>ft_bytes = drop 13 sample_stream, ft_payload_len = 1\<rparr>)"
    and "tag_parse (0x55 # drop 13 sample_stream) sample_limits = Inl InvalidTagKind"
    by (simp_all add: sample_stream_def ascii_def tag_parse_def sample_limits_ok subslice_def from_be_def
        TAG_SUFFIX_def TAG_HEADER_def Let_def)
  moreover have "fl_max_trailer sample_limits = 32" "1 < length (0x55 # drop 13 sample_stream)"
    by (simp_all add: sample_limits_def sample_stream_def ascii_def)
  ultimately show ?thesis unfolding flv_search_earliest using sample_limits_ok(1)
    by (intro conjI exI [of _ 1]) auto
qed

end
