(* ===== verification/Spec2Isabelle.thy ===== *)
theory Spec2Isabelle
  imports H264_Receiver Rtp_Timing Access_Unit Cadence_Clock Sntp Durable_Effect Effect_Provider Time_Interval Durable_Format Flv_Framing
begin

text \<open>
  A verification development for FSS, a surveillance system written in Rust. It follows two paths through
  the program that carry its core guarantees, and the value and text types they share.

  \<^bold>\<open>Media ingest\<close> (\<open>crates/fss-packet/src\<close>). Datagrams from a camera become codec units without
  loss, invention or reordering going unnoticed.

  \<^item> \<open>Packet_Wire\<close> (\<open>error.rs\<close>, \<open>rtp.rs\<close>): limits and the RTP view. Parsing accepts exactly the
    wire forms of packets, and the accessors return their fields.
  \<^item> \<open>Sequence_Tracker\<close> (\<open>continuity.rs\<close>): 16-bit sequence numbers extended to positions, with a
    64-position window, probation and restart. No position is admitted twice, the counters are exact,
    and duplicates are told from new packets exactly. Locale \<open>admission\<close> is its contract.
  \<^item> \<open>Reorder_Buffer\<close> (\<open>reorder.rs\<close>): the bounded jitter buffer over the tracker. Every position is
    accounted for once, as a packet or in a gap; nothing queued is lost or altered; gaps are truthful;
    limits hold. Locale \<open>ordered_delivery\<close> is what a consumer may rely on.
  \<^item> \<open>H264_Depacketizer\<close> (\<open>h264.rs\<close>): single NAL units, aggregation and fragmentation. Every
    emitted unit is exactly the bytes its source spans name; fragmenting and reassembling is the identity;
    pending memory is bounded and expires. Locale \<open>reassembler\<close>.
  \<^item> \<open>H264_Receiver\<close> (\<open>receiver.rs\<close>): the buffer and the depacketizer composed. The two contracts
    combine end to end, polling is total, and a finished receiver drains in a bounded number of polls.
  \<^item> \<open>Access_Unit\<close> (\<open>access_unit.rs\<close>): grouping of NAL units, with the Exp-Golomb reader. What the
    reader returns is specified over the bits of the NAL unit alone (\<open>rbsp\<close>, \<open>carries\<close>); the units are the
    stream cut at the documented boundaries, less one case where the code differs from its
    documentation; the id lists are the numbers at the places where the code looks for ids.
  \<^item> \<open>Rtcp\<close> (\<open>rtcp.rs\<close>): compound control datagrams, parsed exactly.
    \<open>Rtp_Timing\<close> (\<open>timing.rs\<close>): jitter and sender clocks. \<open>Cadence_Clock\<close> (\<open>cadence.rs\<close>):
    positions of reordered pictures from the first IDR on. \<open>Flv_Framing\<close> (\<open>extended_flv.rs\<close>,
    \<open>extended_flv/stream.rs\<close>): tags of a byte stream, framed the same however the stream is cut into
    appends, with byte custody and a resynchronising search. \<open>Sntp\<close> (\<open>ntp.rs\<close>): the
    reported offset interval contains the true offset.

  \<^bold>\<open>Effects\<close> (\<open>crates/fss-core\<close>, \<open>crates/fss-ledger\<close>, \<open>crates/fss-reference\<close>). An action on the
  world is prepared, committed, observed and settled once, and its history survives a crash.

  \<^item> \<open>Content_Digest\<close> (\<open>digest.rs\<close>): SHA-256 in streaming form equals the one-shot hash; the text
    form of a digest. \<open>Canonical\<close> (\<open>canonical.rs\<close>): the canonical codec. Locale \<open>canonical_codec\<close>
    says what an implementation of the two codec traits promises: one encoding per value and one reading per
    byte string. It is interpreted for every type that is encoded.
  \<^item> \<open>Effect_Records\<close> (\<open>effect.rs\<close>, \<open>ids.rs\<close>): identifiers, intents, receipts, obligations, and
    the six journal transitions with their codecs.
  \<^item> \<open>Ordered_Map\<close> (\<open>BTreeMap\<close> of the standard library) and \<open>Effect_Journal\<close> (\<open>effect.rs\<close>): the
    in-memory journal. A journal invariant holds in every reachable state; receipts only move forward;
    preparing is exactly once; the pre-validators decide as the operations do.
  \<^item> \<open>Durable_Journal\<close> (\<open>fss-ledger\<close>: \<open>format.rs\<close>, \<open>recovery.rs\<close>, \<open>journal.rs\<close>): the
    hash-chained append-only file. Recovery accepts exactly the framings of logs; a cut anywhere recovers
    the longest whole prefix; an append of unknown outcome is always decided by one reconciliation.
  \<^item> \<open>Durable_Effect\<close> (\<open>fss-reference\<close>: \<open>durable_effect.rs\<close>): validate, append, then install. It
    composes the codec, the file and the journal: a failed call keeps the memory, a successful one does
    what the in-memory operation does, and, if the record written reads back from its own bytes, opening
    the file after the call, however the call's system calls went, gives the memory back. The records
    that do not read back are a defect of the code, stated by \<open>bad_class_poisons_journal\<close>.
  \<^item> \<open>Json_Parser\<close> and \<open>Effect_Json\<close> (\<open>effect.rs\<close>): the JSON reader, with its depth limit, and the
    projections of intents, prepared effects and receipts. What is read renders and reads back; the
    projections read back but for named losses; on ASCII text the reader never panics. Locale
    \<open>json_projection\<close>. \<open>Effect_Provider\<close> (\<open>effect.rs\<close>): observation, failure and reconciliation records
    of an effect provider, with exact codecs, and the rules a reconciliation claim satisfies.

  \<^bold>\<open>Shared values\<close>. \<open>Time_Interval\<close> (\<open>time.rs\<close>): uncertain capture times, whose operations are the
  set operations on instants. \<open>Durable_Format\<close> (\<open>durable.rs\<close>): configurable checksummed envelopes, of
  which decoding is the exact inverse of encoding.

  \<^bold>\<open>How the code is translated.\<close> A struct is a record (fields prefixed, since record fields are global
  constants) and an enum a datatype with the source's constructors. A function that fails returns
  \<open>error + value\<close>; a method on \<open>&mut self\<close> returns its result with the state it leaves, on error branches
  too. Words are used where bits or wrap-around matter; 64-bit counters are naturals with the checked or
  saturating operation written out; 128-bit signed times are integers with their range as a predicate. A
  slice that the code splits off with a bounds check is \<open>get_slice\<close>. Strings that the codec sees are their
  UTF-8 bytes. A failed \<open>assert!\<close> is the value \<open>None\<close>.

  \<^bold>\<open>Environment.\<close> What the code asks of the system is an argument: whether an allocation is granted
  (reorder buffer, depacketizer), the time of a call, and, for the journal file, how much of each write
  reached the file and which sync, seek or truncate failed. The theorems hold for every answer, except
  where a statement says that system calls succeed (the reconciliation that settles an append). The file
  model assumes what the recovery code assumes: a failed append leaves a prefix of what it wrote, and no
  other process writes the file between the calls. Opening is on storage that works: \<open>journal_open\<close> and
  \<open>durable_open\<close> leave out the input and output errors that the open itself can return, so a statement
  that reopening succeeds says that the bytes are accepted. The allocator of the depacketizer is one
  function per call from a size to its answer, and the emission counter of the access unit assembler is
  unbounded.

  \<^bold>\<open>Loops and bounds.\<close> No definition uses fuel. Loops are structural recursion or \<open>function\<close>s with
  termination proofs; the journal scan ends because every accepted record advances the offset. Bounds that
  appear in statements are the code's own limits, with two exceptions that state what the language
  guarantees: hashed messages of at most \<open>2 ^ 61 - 1\<close> bytes, and formats whose envelopes fit that.

  \<^bold>\<open>Defects the model exposes\<close>, each with its theorem. In the durable journal, a failure
  reconciliation with an empty reason is written to the file before it is refused and makes the file
  unreadable (\<open>empty_reason_poisons_journal\<close>), and so does preparing an intent whose effect class is empty
  or too long (\<open>bad_class_poisons_journal\<close>); the failure pre-validator and the failure operation disagree
  on prepared operations (\<open>validate_reconcile_failed_refuses_prepared\<close>). In the JSON reader, documents with
  characters of several bytes can panic (\<open>json_multibyte_panics\<close>), fence tokens wrap (\<open>json_fence_wraps\<close>), and
  a negative preparation time is written and then refused (\<open>effect_json_roundtrip\<close>). A
  durable format with the BLAKE3 algorithm can be built and encodes, but never decodes
  (\<open>blake3_format_never_decodes\<close>). In the access units, the sequence-parameter-set id is read from the
  profile byte (\<open>sps_id_reads_profile\<close>), the picture-parameter-set id of a slice is its slice type
  (\<open>slice_pps_id_reads_slice_type\<close>), and the documented rule that a slice at macroblock 0 starts a unit is
  applied only after slice data (\<open>documented_splits_first_slice\<close>).

  \<^bold>\<open>Not modelled\<close>, and why. Formatting (\<open>Display\<close>, \<open>Debug\<close>): human-facing
  forms of values whose canonical form is modelled. The H.265, JPEG, ONVIF, BLE and D-Bus formats of
  \<open>fss-packet\<close> and the codec tracks inside FLV tags: independent parsers, the
  H.265 ones with the structure of the H.264 ones here. The event, belief and agent contracts of \<open>fss-core\<close>, and the ledger batches and alert protocol above the journal:
  next along the plan, on top of the codec and the journal. The store pin: file-system identity. Codecs,
  geometry, tensors, vendor protocols, publication, the runtime and the command line: numerical or
  input-output code outside these two paths.
\<close>

end
